(* ===== verification/Xv6_Prelude.thy ===== *)
theory Xv6_Prelude
  imports Main "HOL-Library.Word"
begin

unbundle bit_operations_syntax

text \<open>
  Shared vocabulary of the development: the machine integer types of \<^verbatim>\<open>kernel/types.h\<close>,
  the way a kernel routine can stop (\<^verbatim>\<open>panic\<close>, or giving up the CPU in \<^verbatim>\<open>sleep\<close>),
  physical memory as an array of bytes with little-endian loads and stores, and the
  alignment facts about 4096-byte pages that every component above uses.
\<close>

named_theorems kres_simps \<open>rewrite rules for sequencing kernel routines\<close>
named_theorems mem_simps \<open>loads after stores in physical memory\<close>
named_theorems page_simps \<open>page and word alignment\<close>

section \<open>Integers and stops\<close>

type_synonym uint8 = "8 word"
type_synonym uint16 = "16 word"
type_synonym uint = "32 word"
type_synonym uint64 = "64 word"
type_synonym addr = "64 word"

text \<open>
  A wait channel is the address of the kernel object a process sleeps on. Distinct
  objects have distinct addresses, so a channel is a symbolic name for the object.
\<close>

datatype chan =
    Chan_null
  | Chan_proc nat
  | Chan_ticks
  | Chan_log
  | Chan_buf nat
  | Chan_buf_lock nat
  | Chan_inode_lock nat
  | Chan_pipe_nread addr
  | Chan_pipe_nwrite addr
  | Chan_cons_r
  | Chan_uart_tx_r
  | Chan_disk_free

text \<open>
  A routine either returns, or reaches \<^verbatim>\<open>panic(msg)\<close> (which loops forever), or reaches a
  \<^verbatim>\<open>sleep(chan, lk)\<close> it cannot pass in the current state, or does something C leaves
  undefined (an access outside the named array).
\<close>

datatype kstop = Panic string | Sleep chan | Undef string

type_synonym 'a kres = "kstop + 'a"

definition kbind :: "'a kres \<Rightarrow> ('a \<Rightarrow> 'b kres) \<Rightarrow> 'b kres" where
  "kbind m f = (case m of Inl e \<Rightarrow> Inl e | Inr x \<Rightarrow> f x)"

lemma kbind_Inr [simp, kres_simps]: "kbind (Inr x) f = f x"
  by (simp add: kbind_def)

lemma kbind_Inl [simp, kres_simps]: "kbind (Inl e) f = Inl e"
  by (simp add: kbind_def)

lemma kbind_eq_Inr_iff [kres_simps]: "kbind m f = Inr r \<longleftrightarrow> (\<exists>x. m = Inr x \<and> f x = Inr r)"
  by (cases m) simp_all

lemma kbind_eq_Inl_iff:
  "kbind m f = Inl e \<longleftrightarrow> m = Inl e \<or> (\<exists>x. m = Inr x \<and> f x = Inl e)"
  by (cases m) simp_all

lemma kbind_assoc: "kbind (kbind m f) g = kbind m (\<lambda>x. kbind (f x) g)"
  by (cases m) simp_all

lemma kbind_cong [fundef_cong]:
  "m = m' \<Longrightarrow> (\<And>x. m' = Inr x \<Longrightarrow> f x = f' x) \<Longrightarrow> kbind m f = kbind m' f'"
  by (cases m') simp_all

text \<open>A loop over a fixed sequence of indices that stops at the first failing iteration.\<close>

fun kfold :: "('b \<Rightarrow> 's \<Rightarrow> 's kres) \<Rightarrow> 'b list \<Rightarrow> 's \<Rightarrow> 's kres" where
  "kfold f [] s = Inr s"
| "kfold f (x # xs) s = kbind (f x s) (kfold f xs)"

lemma kfold_append: "kfold f (xs @ ys) s = kbind (kfold f xs s) (kfold f ys)"
proof (induction xs arbitrary: s)
  case (Cons x xs)
  then have "kfold f (xs @ ys) = (\<lambda>s. kbind (kfold f xs s) (kfold f ys))" by (simp add: fun_eq_iff)
  then show ?case by (simp add: kbind_assoc)
qed simp

text \<open>\<^verbatim>\<open>assert(cond)\<close> of \<^verbatim>\<open>kernel/defs.h\<close>: prints the location and panics.\<close>

definition kassert :: "bool \<Rightarrow> unit kres" where
  "kassert b = (if b then Inr () else Inl (Panic ''assert failed''))"

lemma kassert_simps [simp]:
  "kassert True = Inr ()" "kassert False = Inl (Panic ''assert failed'')"
  by (simp_all add: kassert_def)

lemma kassert_eq_Inr_iff [kres_simps]: "kassert b = Inr u \<longleftrightarrow> b"
  by (simp add: kassert_def)

section \<open>Physical memory\<close>

type_synonym memory = "addr \<Rightarrow> uint8"

definition read32 :: "memory \<Rightarrow> addr \<Rightarrow> uint" where
  "read32 m a = ucast (m a) OR push_bit 8 (ucast (m (a + 1)))
     OR push_bit 16 (ucast (m (a + 2))) OR push_bit 24 (ucast (m (a + 3)))"

definition write32 :: "memory \<Rightarrow> addr \<Rightarrow> uint \<Rightarrow> memory" where
  "write32 m a v = m(a := ucast v, a + 1 := ucast (drop_bit 8 v),
     a + 2 := ucast (drop_bit 16 v), a + 3 := ucast (drop_bit 24 v))"

definition read64 :: "memory \<Rightarrow> addr \<Rightarrow> uint64" where
  "read64 m a = ucast (m a) OR push_bit 8 (ucast (m (a + 1)))
     OR push_bit 16 (ucast (m (a + 2))) OR push_bit 24 (ucast (m (a + 3)))
     OR push_bit 32 (ucast (m (a + 4))) OR push_bit 40 (ucast (m (a + 5)))
     OR push_bit 48 (ucast (m (a + 6))) OR push_bit 56 (ucast (m (a + 7)))"

definition write64 :: "memory \<Rightarrow> addr \<Rightarrow> uint64 \<Rightarrow> memory" where
  "write64 m a v = m(a := ucast v, a + 1 := ucast (drop_bit 8 v),
     a + 2 := ucast (drop_bit 16 v), a + 3 := ucast (drop_bit 24 v),
     a + 4 := ucast (drop_bit 32 v), a + 5 := ucast (drop_bit 40 v),
     a + 6 := ucast (drop_bit 48 v), a + 7 := ucast (drop_bit 56 v))"

text \<open>A word is the disjunction of its bytes: peel them off from the top.\<close>

lemma byte_join:
  fixes v :: "'a::len word"
  shows "push_bit k (ucast (ucast (drop_bit k v) :: uint8)) OR push_bit (8 + k) (drop_bit (8 + k) v)
    = push_bit k (drop_bit k v)"
proof (rule bit_word_eqI)
  fix n assume "n < LENGTH('a)"
  then show "bit (push_bit k (ucast (ucast (drop_bit k v) :: uint8)) OR
      push_bit (8 + k) (drop_bit (8 + k) v)) n = bit (push_bit k (drop_bit k v)) n"
    by (cases "8 + k \<le> n") (auto simp: bit_or_iff bit_push_bit_iff bit_ucast_iff bit_drop_bit_eq)
qed

lemma top_byte64: "push_bit 56 (ucast (ucast (drop_bit 56 v) :: uint8)) = push_bit 56 (drop_bit 56 (v :: uint64))"
  by (rule bit_word_eqI) (auto simp: bit_push_bit_iff bit_ucast_iff bit_drop_bit_eq)

lemma top_byte32: "push_bit 24 (ucast (ucast (drop_bit 24 v) :: uint8)) = push_bit 24 (drop_bit 24 (v :: uint))"
  by (rule bit_word_eqI) (auto simp: bit_push_bit_iff bit_ucast_iff bit_drop_bit_eq)

lemma bytes_of_word64:
  fixes v :: uint64
  shows "ucast (ucast v :: uint8) OR push_bit 8 (ucast (ucast (drop_bit 8 v) :: uint8))
     OR push_bit 16 (ucast (ucast (drop_bit 16 v) :: uint8))
     OR push_bit 24 (ucast (ucast (drop_bit 24 v) :: uint8))
     OR push_bit 32 (ucast (ucast (drop_bit 32 v) :: uint8))
     OR push_bit 40 (ucast (ucast (drop_bit 40 v) :: uint8))
     OR push_bit 48 (ucast (ucast (drop_bit 48 v) :: uint8))
     OR push_bit 56 (ucast (ucast (drop_bit 56 v) :: uint8)) = v"
  using byte_join [of 0 v] byte_join [of 8 v] byte_join [of 16 v] byte_join [of 24 v]
    byte_join [of 32 v] byte_join [of 40 v] byte_join [of 48 v]
  by (simp add: top_byte64 or.assoc)

lemma bytes_of_word32:
  fixes v :: uint
  shows "ucast (ucast v :: uint8) OR push_bit 8 (ucast (ucast (drop_bit 8 v) :: uint8))
     OR push_bit 16 (ucast (ucast (drop_bit 16 v) :: uint8))
     OR push_bit 24 (ucast (ucast (drop_bit 24 v) :: uint8)) = v"
  using byte_join [of 0 v] byte_join [of 8 v] byte_join [of 16 v]
  by (simp add: top_byte32 or.assoc)

lemma read64_write64_same [simp, mem_simps]: "read64 (write64 m a v) a = v"
  by (simp add: read64_def write64_def bytes_of_word64)

lemma read32_write32_same [simp, mem_simps]: "read32 (write32 m a v) a = v"
  by (simp add: read32_def write32_def bytes_of_word32)

text \<open>A load depends only on its own bytes.\<close>

lemma read64_cong:
  assumes "\<And>i. i < 8 \<Longrightarrow> m (a + i) = m' (a + i)"
  shows "read64 m a = read64 m' a"
  using assms [of 0] assms [of 1] assms [of 2] assms [of 3] assms [of 4] assms [of 5]
    assms [of 6] assms [of 7]
  by (simp add: read64_def)

lemma read32_cong:
  assumes "\<And>i. i < 4 \<Longrightarrow> m (a + i) = m' (a + i)"
  shows "read32 m a = read32 m' a"
  using assms [of 0] assms [of 1] assms [of 2] assms [of 3]
  by (simp add: read32_def)

text \<open>Stores touch only their own bytes.\<close>

lemma numeral_le_one_addr [simp]: "numeral n \<le> (1 :: addr) \<longleftrightarrow> unat (numeral n :: addr) \<le> 1"
  by (simp add: word_le_nat_alt)

lemma write64_frame: "8 \<le> b - a \<Longrightarrow> write64 m a v b = m b"
  by (auto simp: write64_def)

lemma write32_frame: "4 \<le> b - a \<Longrightarrow> write32 m a v b = m b"
  by (auto simp: write32_def)

text \<open>A run of bytes stored to, and loaded from, consecutive addresses.\<close>

fun write_bytes :: "memory \<Rightarrow> addr \<Rightarrow> uint8 list \<Rightarrow> memory" where
  "write_bytes m a [] = m"
| "write_bytes m a (b # bs) = write_bytes (m(a := b)) (a + 1) bs"

definition read_bytes :: "memory \<Rightarrow> addr \<Rightarrow> nat \<Rightarrow> uint8 list" where
  "read_bytes m a n = map (\<lambda>i. m (a + of_nat i)) [0..<n]"

lemma length_read_bytes [simp]: "length (read_bytes m a n) = n"
  by (simp add: read_bytes_def)

section \<open>Conversions between widths\<close>

lemma unat_ucast_32_64 [simp]: "unat (ucast (n :: uint) :: uint64) = unat n"
proof -
  have "unat n < 2 ^ 64" using unsigned_less [of n, where ?'a = nat] by simp
  then show ?thesis by (simp add: unsigned_ucast_eq take_bit_nat_eq_self)
qed

lemma unat_uint_less [simp]: "unat (n :: uint) < 4294967296"
  using unsigned_less [of n, where ?'a = nat] by simp

lemma unat_addr_less [simp]: "unat (n :: addr) < 18446744073709551616"
  using unsigned_less [of n, where ?'a = nat] by simp

lemma unat_add_no_wrap: "unat (a :: addr) + unat b < 2 ^ 64 \<Longrightarrow> unat (a + b) = unat a + unat b"
  by (simp add: unat_word_ariths)

lemma unat_neg_addr: "x \<noteq> 0 \<Longrightarrow> unat (- x :: addr) = 2 ^ 64 - unat x"
  using unat_sub_if' [of 0 x] by (simp add: unat_eq_0)

lemma unat_of_nat_addr: "n < 2 ^ 64 \<Longrightarrow> unat (of_nat n :: addr) = n"
  by (simp add: unat_of_nat)

lemma unat_diff_1: "unat (a :: addr) \<noteq> 0 \<Longrightarrow> unat (a - 1) = unat a - 1"
  by (metis unat_0 unat_minus_one)


lemma write_bytes_eq:
  assumes "length bs < 2 ^ 64"
  shows "write_bytes m a bs = (\<lambda>b. if b - a < of_nat (length bs) then bs ! unat (b - a) else m b)"
  using assms
proof (induction bs arbitrary: m a)
  case (Cons c cs)
  have n: "unat (of_nat (length cs) :: addr) = length cs" "unat (1 + of_nat (length cs) :: addr) = Suc (length cs)"
    using Cons.prems unat_of_nat_addr [of "Suc (length cs)"] by (simp_all add: unat_of_nat_addr)
  have step: "(if b - (a + 1) < of_nat (length cs) then cs ! unat (b - (a + 1)) else (m(a := c)) b) =
      (if b - a < 1 + of_nat (length cs) then (c # cs) ! unat (b - a) else m b)" for b
  proof (cases "b = a")
    case True
    have "unat (- 1 :: addr) = 2 ^ 64 - 1" by (simp add: unat_neg_addr)
    then show ?thesis using Cons.prems n True by (simp add: word_less_nat_alt)
  next
    case False
    then have "unat (b - a) \<noteq> 0" by (simp add: unat_eq_0)
    then have "unat (b - (a + 1)) = unat (b - a) - 1"
      using unat_diff_1 [of "b - a"] by (simp add: algebra_simps)
    then show ?thesis using False n \<open>unat (b - a) \<noteq> 0\<close> by (simp add: word_less_nat_alt less_Suc_eq_0_disj nth_Cons' )
      (auto simp: nth_Cons')
  qed
  have "write_bytes m a (c # cs) = write_bytes (m(a := c)) (a + 1) cs" by simp
  also have "\<dots> = (\<lambda>b. if b - (a + 1) < of_nat (length cs) then cs ! unat (b - (a + 1)) else (m(a := c)) b)"
    using Cons.prems by (intro Cons.IH) simp
  also have "\<dots> = (\<lambda>b. if b - a < of_nat (length (c # cs)) then (c # cs) ! unat (b - a) else m b)"
    using step by (simp add: fun_eq_iff)
  finally show ?case .
qed (simp add: fun_eq_iff)

lemma read_write_bytes:
  assumes "length bs < 2 ^ 64" shows "read_bytes (write_bytes m a bs) a (length bs) = bs"
proof (rule nth_equalityI)
  fix i assume "i < length (read_bytes (write_bytes m a bs) a (length bs))"
  then have i: "i < length bs" by simp
  then have "unat (of_nat i :: addr) = i" "unat (of_nat (length bs) :: addr) = length bs"
    using assms by (simp_all add: unat_of_nat_addr)
  then show "read_bytes (write_bytes m a bs) a (length bs) ! i = bs ! i"
    using i by (simp add: read_bytes_def write_bytes_eq [OF assms] word_less_nat_alt)
qed simp


section \<open>Integers in byte arrays\<close>

text \<open>A kernel buffer that is not in user or heap memory is a list of bytes.\<close>

definition le32 :: "uint \<Rightarrow> uint8 list" where
  "le32 v = [ucast v, ucast (drop_bit 8 v), ucast (drop_bit 16 v), ucast (drop_bit 24 v)]"

definition put_bytes :: "nat \<Rightarrow> uint8 list \<Rightarrow> uint8 list \<Rightarrow> uint8 list" where
  "put_bytes off bs buf = take off buf @ bs @ drop (off + length bs) buf"

definition get32 :: "uint8 list \<Rightarrow> nat \<Rightarrow> uint" where
  "get32 bs off = ucast (bs ! off) OR push_bit 8 (ucast (bs ! (off + 1)))
     OR push_bit 16 (ucast (bs ! (off + 2))) OR push_bit 24 (ucast (bs ! (off + 3)))"

definition put32 :: "nat \<Rightarrow> uint \<Rightarrow> uint8 list \<Rightarrow> uint8 list" where
  "put32 off v bs = put_bytes off (le32 v) bs"

definition le16 :: "uint16 \<Rightarrow> uint8 list" where
  "le16 v = [ucast v, ucast (drop_bit 8 v)]"

definition get16 :: "uint8 list \<Rightarrow> nat \<Rightarrow> uint16" where
  "get16 bs off = ucast (bs ! off) OR push_bit 8 (ucast (bs ! (off + 1)))"

definition put16 :: "nat \<Rightarrow> uint16 \<Rightarrow> uint8 list \<Rightarrow> uint8 list" where
  "put16 off v bs = put_bytes off (le16 v) bs"

lemma length_le32 [simp]: "length (le32 v) = 4" and length_le16 [simp]: "length (le16 w) = 2"
  by (simp_all add: le32_def le16_def)

lemma length_put_bytes [simp]: "off + length bs \<le> length buf \<Longrightarrow> length (put_bytes off bs buf) = length buf"
  by (simp add: put_bytes_def)

lemma nth_put_bytes:
  "off + length bs \<le> length buf \<Longrightarrow> i < length buf \<Longrightarrow>
     put_bytes off bs buf ! i = (if off \<le> i \<and> i < off + length bs then bs ! (i - off) else buf ! i)"
  by (auto simp: put_bytes_def nth_append min_def)

lemma length_put32 [simp]: "off + 4 \<le> length bs \<Longrightarrow> length (put32 off v bs) = length bs"
  by (simp add: put32_def)

lemma length_put16 [simp]: "off + 2 \<le> length bs \<Longrightarrow> length (put16 off w bs) = length bs"
  by (simp add: put16_def)

lemma nth_le32: "k < 4 \<Longrightarrow> le32 v ! k = ucast (drop_bit (8 * k) v)"
  by (auto simp: le32_def less_Suc_eq numeral_eq_Suc)

lemma get32_put32 [simp]:
  assumes "off + 4 \<le> length bs" shows "get32 (put32 off v bs) off = v"
proof -
  have "put32 off v bs ! (off + k) = ucast (drop_bit (8 * k) v)" if "k < 4" for k
    using assms that by (simp add: put32_def nth_put_bytes nth_le32)
  from this [of 0] this [of 1] this [of 2] this [of 3] show ?thesis
    by (simp add: get32_def bytes_of_word32)
qed

lemma get32_put_other:
  assumes "off + length ds \<le> length bs" "off' + 4 \<le> length bs" "off' + 4 \<le> off \<or> off + length ds \<le> off'"
  shows "get32 (put_bytes off ds bs) off' = get32 bs off'"
proof -
  have "put_bytes off ds bs ! (off' + k) = bs ! (off' + k)" if "k < 4" for k
    using assms that by (auto simp: nth_put_bytes)
  from this [of 0] this [of 1] this [of 2] this [of 3] show ?thesis by (simp add: get32_def)
qed

lemma get32_put32_other:
  "off + 4 \<le> length bs \<Longrightarrow> off' + 4 \<le> length bs \<Longrightarrow> off' + 4 \<le> off \<or> off + 4 \<le> off' \<Longrightarrow>
     get32 (put32 off v bs) off' = get32 bs off'"
  unfolding put32_def by (rule get32_put_other) simp_all

lemma bytes_of_word16:
  fixes v :: uint16
  shows "ucast (ucast v :: uint8) OR push_bit 8 (ucast (ucast (drop_bit 8 v) :: uint8)) = v"
proof -
  have top: "push_bit 8 (ucast (ucast (drop_bit 8 v) :: uint8)) = push_bit 8 (drop_bit 8 v)"
    by (rule bit_word_eqI) (auto simp: bit_push_bit_iff bit_ucast_iff bit_drop_bit_eq)
  show ?thesis using byte_join [of 0 v] by (simp add: top)
qed

lemma get16_put16 [simp]:
  assumes "off + 2 \<le> length bs" shows "get16 (put16 off v bs) off = v"
proof -
  have "put16 off v bs ! off = ucast v" "put16 off v bs ! (off + 1) = ucast (drop_bit 8 v)"
    using assms by (simp_all add: put16_def nth_put_bytes le16_def)
  then show ?thesis by (simp add: get16_def bytes_of_word16)
qed

lemma get16_put_other:
  assumes "off + length ds \<le> length bs" "off' + 2 \<le> length bs" "off' + 2 \<le> off \<or> off + length ds \<le> off'"
  shows "get16 (put_bytes off ds bs) off' = get16 bs off'"
  using assms by (auto simp: get16_def nth_put_bytes)

end
