(* ===== verification/Printf.thy ===== *)
theory Printf
  imports Xv6_Prelude
begin

text \<open>
  Formatted output: \<^verbatim>\<open>printint\<close>, \<^verbatim>\<open>printptr\<close> and the format interpreter of the kernel's
  \<^verbatim>\<open>printf.c\<close> and of the user library's \<^verbatim>\<open>printf.c\<close>, and \<^verbatim>\<open>atoi\<close>, \<^verbatim>\<open>strcmp\<close>, \<^verbatim>\<open>strchr\<close>
  of \<^verbatim>\<open>ulib.c\<close>. A C string is the list of its characters without the closing NUL; the
  result is the list of characters handed to \<^verbatim>\<open>consputc\<close> or \<^verbatim>\<open>putc\<close>. An argument of the
  wrong kind, or a missing one, is undefined behaviour. The properties relate printing and
  reading of numbers.
\<close>

section \<open>Numbers\<close>

definition digits_lower :: string where "digits_lower = ''0123456789abcdef''"
definition digits_upper :: string where "digits_upper = ''0123456789ABCDEF''"

text \<open>The \<^verbatim>\<open>do ... while\<close> loop: digits of \<open>x\<close>, least significant first.\<close>

function digit_loop :: "string \<Rightarrow> nat \<Rightarrow> nat \<Rightarrow> string" where
  "digit_loop digits base x =
     digits ! (x mod base) #
     (if base < 2 \<or> x div base = 0 then [] else digit_loop digits base (x div base))"
  by pat_completeness auto
termination
  by (relation "measure (\<lambda>(digits, base, x). x)") (auto intro!: div_less_dividend gr0I)

declare digit_loop.simps [simp del]

definition printint :: "uint \<Rightarrow> nat \<Rightarrow> bool \<Rightarrow> string" where
  "printint xx base sign =
     (let neg = sign \<and> sint xx < 0;
          x = if neg then - xx else xx;
          buf = digit_loop digits_lower base (unat x) @ (if neg then ''-'' else [])
      in rev buf)"

definition user_printint :: "uint \<Rightarrow> nat \<Rightarrow> bool \<Rightarrow> string" where
  "user_printint xx base sign =
     (let neg = sign \<and> sint xx < 0;
          x = if neg then - xx else xx;
          buf = digit_loop digits_upper base (unat x) @ (if neg then ''-'' else [])
      in rev buf)"

fun ptr_loop :: "string \<Rightarrow> nat \<Rightarrow> uint64 \<Rightarrow> string" where
  "ptr_loop digits 0 x = []"
| "ptr_loop digits (Suc i) x = digits ! unat (drop_bit 60 x) # ptr_loop digits i (push_bit 4 x)"

definition printptr :: "uint64 \<Rightarrow> string" where
  "printptr x = ''0x'' @ ptr_loop digits_lower 16 x"

definition user_printptr :: "uint64 \<Rightarrow> string" where
  "user_printptr x = ''0x'' @ ptr_loop digits_upper 16 x"

section \<open>Formats\<close>

datatype printf_arg = ArgInt uint | ArgLong uint64 | ArgStr "string option"

definition str_arg :: "string option \<Rightarrow> string" where
  "str_arg s = (case s of None \<Rightarrow> ''(null)'' | Some s \<Rightarrow> s)"

fun printf :: "string \<Rightarrow> printf_arg list \<Rightarrow> string kres" where
  "printf [] ap = Inr []"
| "printf [c] ap = Inr (if c \<noteq> CHR ''%'' then [c] else [])"
| "printf (c # d # fmt) ap =
     (if c \<noteq> CHR ''%'' then kbind (printf (d # fmt) ap) (\<lambda>out. Inr (c # out))
      else if d = CHR ''d'' then
        (case ap of ArgInt n # ap \<Rightarrow> kbind (printf fmt ap) (\<lambda>out. Inr (printint n 10 True @ out))
         | _ \<Rightarrow> Inl (Undef ''va_arg''))
      else if d = CHR ''x'' then
        (case ap of ArgInt n # ap \<Rightarrow> kbind (printf fmt ap) (\<lambda>out. Inr (printint n 16 True @ out))
         | _ \<Rightarrow> Inl (Undef ''va_arg''))
      else if d = CHR ''p'' then
        (case ap of ArgLong n # ap \<Rightarrow> kbind (printf fmt ap) (\<lambda>out. Inr (printptr n @ out))
         | _ \<Rightarrow> Inl (Undef ''va_arg''))
      else if d = CHR ''s'' then
        (case ap of ArgStr s # ap \<Rightarrow> kbind (printf fmt ap) (\<lambda>out. Inr (str_arg s @ out))
         | _ \<Rightarrow> Inl (Undef ''va_arg''))
      else if d = CHR ''%'' then kbind (printf fmt ap) (\<lambda>out. Inr (CHR ''%'' # out))
      else kbind (printf fmt ap) (\<lambda>out. Inr (CHR ''%'' # d # out)))"

text \<open>The user library's interpreter keeps \<open>True\<close> for \<^verbatim>\<open>state == '%'\<close>.\<close>

fun vprintf :: "string \<Rightarrow> bool \<Rightarrow> printf_arg list \<Rightarrow> string kres" where
  "vprintf [] state ap = Inr []"
| "vprintf (c # fmt) state ap =
     (if \<not> state then
        (if c = CHR ''%'' then vprintf fmt True ap
         else kbind (vprintf fmt False ap) (\<lambda>out. Inr (c # out)))
      else if c = CHR ''d'' then
        (case ap of ArgInt n # ap \<Rightarrow> kbind (vprintf fmt False ap) (\<lambda>out. Inr (user_printint n 10 True @ out))
         | _ \<Rightarrow> Inl (Undef ''va_arg''))
      else if c = CHR ''l'' then
        (case ap of ArgLong n # ap \<Rightarrow> kbind (vprintf fmt False ap) (\<lambda>out. Inr (user_printint (ucast n) 10 False @ out))
         | _ \<Rightarrow> Inl (Undef ''va_arg''))
      else if c = CHR ''x'' then
        (case ap of ArgInt n # ap \<Rightarrow> kbind (vprintf fmt False ap) (\<lambda>out. Inr (user_printint n 16 False @ out))
         | _ \<Rightarrow> Inl (Undef ''va_arg''))
      else if c = CHR ''p'' then
        (case ap of ArgLong n # ap \<Rightarrow> kbind (vprintf fmt False ap) (\<lambda>out. Inr (user_printptr n @ out))
         | _ \<Rightarrow> Inl (Undef ''va_arg''))
      else if c = CHR ''s'' then
        (case ap of ArgStr s # ap \<Rightarrow> kbind (vprintf fmt False ap) (\<lambda>out. Inr (str_arg s @ out))
         | _ \<Rightarrow> Inl (Undef ''va_arg''))
      else if c = CHR ''c'' then
        (case ap of ArgInt n # ap \<Rightarrow> kbind (vprintf fmt False ap) (\<lambda>out. Inr (char_of (unat n) # out))
         | _ \<Rightarrow> Inl (Undef ''va_arg''))
      else if c = CHR ''%'' then kbind (vprintf fmt False ap) (\<lambda>out. Inr (c # out))
      else kbind (vprintf fmt False ap) (\<lambda>out. Inr (CHR ''%'' # c # out)))"

section \<open>Strings of the user library\<close>

fun strcmp :: "string \<Rightarrow> string \<Rightarrow> int" where
  "strcmp (p # ps) (q # qs) = (if p = q then strcmp ps qs else int (of_char p) - int (of_char q))"
| "strcmp (p # ps) [] = int (of_char p)"
| "strcmp [] (q # qs) = - int (of_char q)"
| "strcmp [] [] = 0"

fun strchr :: "string \<Rightarrow> char \<Rightarrow> nat option" where
  "strchr [] c = None"
| "strchr (x # xs) c = (if x = c then Some 0 else map_option Suc (strchr xs c))"

lemma strchr_eq: "strchr xs c = (if c \<in> set xs then Some (length (takeWhile (\<lambda>x. x \<noteq> c) xs)) else None)"
  by (induction xs) auto

definition is_digit :: "char \<Rightarrow> bool" where
  "is_digit c \<longleftrightarrow> (48 :: nat) \<le> of_char c \<and> of_char c \<le> (57 :: nat)"

fun atoi_loop :: "uint \<Rightarrow> string \<Rightarrow> uint" where
  "atoi_loop n [] = n"
| "atoi_loop n (c # s) =
     (if is_digit c then atoi_loop (n * 10 + of_nat (of_char c) - 48) s else n)"

definition atoi :: "string \<Rightarrow> uint" where
  "atoi s = atoi_loop 0 s"


section \<open>Properties\<close>

lemma digit_nth:
  assumes "d < 10"
  shows "is_digit (digits_lower ! d)" "of_char (digits_lower ! d) = (48 + d :: nat)"
    "digits_upper ! d = digits_lower ! d"
proof -
  have "d \<in> {0, 1, 2, 3, 4, 5, 6, 7, 8, 9}" using assms by auto
  then show "is_digit (digits_lower ! d)" "of_char (digits_lower ! d) = (48 + d :: nat)"
    "digits_upper ! d = digits_lower ! d"
    by (auto simp: is_digit_def digits_lower_def digits_upper_def)
qed

lemma atoi_loop_snoc:
  "\<forall>c\<in>set s. is_digit c \<Longrightarrow> is_digit c \<Longrightarrow>
     atoi_loop n (s @ [c]) = atoi_loop n s * 10 + of_nat (of_char c) - 48"
  by (induction s arbitrary: n) auto

lemma digit_loop_digits: "\<forall>c\<in>set (digit_loop digits_lower 10 x). is_digit c"
proof (induction x rule: less_induct)
  case (less x)
  show ?case
    by (subst digit_loop.simps) (use less [of "x div 10"] digit_nth(1) [of "x mod 10"] in \<open>auto split: if_splits\<close>)
qed

lemma atoi_digit_loop: "atoi_loop 0 (rev (digit_loop digits_lower 10 x)) = of_nat x"
proof (induction x rule: less_induct)
  case (less x)
  have d: "of_char (digits_lower ! (x mod 10)) = (48 + x mod 10 :: nat)" "is_digit (digits_lower ! (x mod 10))"
    using digit_nth [of "x mod 10"] by simp_all
  show ?case
  proof (cases "x div 10 = 0")
    case True
    then have "x mod 10 = x" by simp
    then show ?thesis using True d by (subst digit_loop.simps) simp
  next
    case False
    then have "x div 10 < x" by simp
    note ih = less [OF this]
    have "rev (digit_loop digits_lower 10 x) = rev (digit_loop digits_lower 10 (x div 10)) @ [digits_lower ! (x mod 10)]"
      using False by (subst digit_loop.simps) simp
    then have "atoi_loop 0 (rev (digit_loop digits_lower 10 x)) = of_nat (x div 10) * 10 + of_nat (x mod 10)"
      using digit_loop_digits [of "x div 10"] d by (simp add: atoi_loop_snoc ih)
    also have "\<dots> = (of_nat (x div 10 * 10 + x mod 10) :: uint)" by (simp only: of_nat_add of_nat_mult of_nat_numeral)
    also have "x div 10 * 10 + x mod 10 = x" by simp
    finally show ?thesis .
  qed
qed

lemma digit_loop_upper: "digit_loop digits_upper 10 x = digit_loop digits_lower 10 x"
proof (induction x rule: less_induct)
  case (less x)
  show ?case
    by (subst (1 2) digit_loop.simps) (use less [of "x div 10"] digit_nth(3) [of "x mod 10"] in auto)
qed

text \<open>
  numbers survive printing and reading. The decimal string that the kernel's or the user
  library's \<^verbatim>\<open>printf\<close> produces for a non-negative \<^verbatim>\<open>int\<close> is read back by \<^verbatim>\<open>atoi\<close> as the same
  value; a negative one is printed as a minus sign followed by the digits of its magnitude,
  the smallest \<^verbatim>\<open>int\<close> included.
\<close>

theorem atoi_printint:
  "if sint n < 0
   then printint n 10 True = CHR ''-'' # printint (- n) 10 False \<and> atoi (printint (- n) 10 False) = - n
   else atoi (printint n 10 True) = n \<and> user_printint n 10 True = printint n 10 True"
  by (simp add: printint_def user_printint_def atoi_def atoi_digit_loop digit_loop_upper)

lemma of_char_nonzero: "c \<noteq> CHR 0x00 \<Longrightarrow> 0 < (of_char c :: nat)"
proof (rule ccontr)
  assume "c \<noteq> CHR 0x00" "\<not> 0 < (of_char c :: nat)"
  then have "(of_char c :: nat) = of_char (CHR 0x00)" by simp
  then have "c = CHR 0x00" by (simp only: of_char_eq_iff)
  with \<open>c \<noteq> CHR 0x00\<close> show False by simp
qed

text \<open>
  \<^verbatim>\<open>strcmp\<close> of the user library returns zero exactly on equal strings.
\<close>

lemma strcmp_zero_iff:
  assumes "CHR 0x00 \<notin> set p" "CHR 0x00 \<notin> set q"
  shows "strcmp p q = 0 \<longleftrightarrow> p = q"
  using assms
proof (induction p q rule: strcmp.induct)
  case (2 p ps)
  then show ?case using of_char_nonzero [of p] by auto
next
  case (3 q qs)
  then show ?case using of_char_nonzero [of q] by auto
qed auto

end
