(* ===== verification/Filters.thy ===== *)
theory Filters
  imports Printf
begin

text \<open>
  The text filters among the user programs: \<^verbatim>\<open>cat.c\<close>, \<^verbatim>\<open>wc.c\<close> and \<^verbatim>\<open>grep.c\<close> with its regular
  expression matcher. What a program sees of a file descriptor is the sequence of pieces that
  its \<^verbatim>\<open>read\<close> calls deliver, each cut to the length asked for, and the outcome of the read at the
  end (0, or -1 on an error). The properties hold for every division of a file into pieces.
  C strings are character lists without the closing NUL.
\<close>

section \<open>What a program sees\<close>

type_synonym input = "string list \<times> bool"

fun read_in :: "nat \<Rightarrow> input \<Rightarrow> int \<times> string \<times> input" where
  "read_in n ([], e) = (if e then -1 else 0, [], ([], e))"
| "read_in n (c # cs, e) = (int (length (take n c)), take n c, (if length c \<le> n then cs else drop n c # cs), e)"

definition left :: "input \<Rightarrow> nat" where
  "left inp = length (concat (fst inp))"

lemma read_in_left: "read_in n inp = (r, bs, inp') \<Longrightarrow> 0 < r \<Longrightarrow> left inp' < left inp"
  by (cases "(n, inp)" rule: read_in.cases) (auto simp: left_def split: if_splits)

lemma read_in_data: "read_in n inp = (r, bs, inp') \<Longrightarrow> concat (fst inp) = bs @ concat (fst inp')"
  by (cases "(n, inp)" rule: read_in.cases) auto

lemma read_in_length: "read_in n inp = (r, bs, inp') \<Longrightarrow> 0 < r \<Longrightarrow> r = int (length bs) \<and> length bs \<le> n"
  by (cases "(n, inp)" rule: read_in.cases) (auto split: if_splits)

lemma read_in_rest: "read_in n inp = (r, bs, inp') \<Longrightarrow> [] \<notin> set (fst inp) \<Longrightarrow> [] \<notin> set (fst inp') \<and> snd inp' = snd inp"
  by (cases "(n, inp)" rule: read_in.cases) (auto split: if_splits)

lemma read_in_end: "read_in n inp = (r, bs, inp') \<Longrightarrow> \<not> 0 < r \<Longrightarrow> 0 < n \<Longrightarrow> [] \<notin> set (fst inp) \<Longrightarrow>
    concat (fst inp) = [] \<and> r = (if snd inp then -1 else 0)"
  by (cases "(n, inp)" rule: read_in.cases) auto

text \<open>The terminal: what went to descriptors 1 and 2. A program returns or exits with a status.\<close>

record screen =
  t_out :: string
  t_err :: string

datatype 'a run = Exited int | Returned 'a

definition newline :: char where "newline = CHR 0x0A"

definition put_out :: "string \<Rightarrow> screen \<Rightarrow> screen" where "put_out s t = t\<lparr>t_out := t_out t @ s\<rparr>"
definition put_err :: "string \<Rightarrow> screen \<Rightarrow> screen" where "put_err s t = t\<lparr>t_err := t_err t @ s\<rparr>"

lemma put_out_simps [simp]:
  "t_out (put_out s t) = t_out t @ s" "t_err (put_out s t) = t_err t" "put_out [] t = t"
  "put_out s (put_out r t) = put_out (r @ s) t"
  by (simp_all add: put_out_def)

text \<open>The loop of \<^verbatim>\<open>main\<close> over the file arguments, common to the three programs.\<close>

fun files_loop :: "(input \<Rightarrow> string \<Rightarrow> screen \<Rightarrow> screen \<times> unit run) \<Rightarrow> (string \<Rightarrow> screen \<Rightarrow> screen) \<Rightarrow>
    (string \<Rightarrow> input option) \<Rightarrow> string list \<Rightarrow> screen \<Rightarrow> screen \<times> int" where
  "files_loop body complain files [] t = (t, 0)"
| "files_loop body complain files (a # as) t =
     (case files a of
        None \<Rightarrow> (complain a t, 1)
      | Some inp \<Rightarrow> (case body inp a t of (t, Exited r) \<Rightarrow> (t, r) | (t, Returned _) \<Rightarrow> files_loop body complain files as t))"

definition run_once :: "screen \<times> unit run \<Rightarrow> screen \<times> int" where
  "run_once x = (case x of (t, Exited r) \<Rightarrow> (t, r) | (t, Returned _) \<Rightarrow> (t, 0))"

section \<open>cat\<close>

text \<open>\<open>wr out bs\<close> is what \<^verbatim>\<open>write(1, bs, n)\<close> returns when \<open>out\<close> has been written before.\<close>

function cat :: "(string \<Rightarrow> string \<Rightarrow> int) \<Rightarrow> input \<Rightarrow> screen \<Rightarrow> screen \<times> unit run" where
  "cat wr inp t =
     (case read_in 512 inp of (n, bs, inp') \<Rightarrow>
        if 0 < n
        then let r = wr (t_out t) bs; t = put_out (take (nat r) bs) t
          in if r \<noteq> n then (put_err (''cat: write error'' @ [newline]) t, Exited 1) else cat wr inp' t
        else if n < 0 then (put_err (''cat: read error'' @ [newline]) t, Exited 1)
        else (t, Returned ()))"
  by pat_completeness auto
termination
  by (relation "measure (\<lambda>(wr, inp, t). left inp)") (auto dest: read_in_left [OF sym])

declare cat.simps [simp del]

definition cat_main :: "(string \<Rightarrow> string \<Rightarrow> int) \<Rightarrow> (string \<Rightarrow> input option) \<Rightarrow> input \<Rightarrow> string list \<Rightarrow> screen \<Rightarrow> screen \<times> int" where
  "cat_main wr files stdin argv t =
     (if length argv \<le> 1 then run_once (cat wr stdin t)
      else files_loop (\<lambda>inp _. cat wr inp) (\<lambda>a. put_err (''cat: cannot open '' @ a @ [newline])) files (tl argv) t)"

section \<open>wc\<close>

definition wc_space :: string where "wc_space = '' '' @ [CHR 0x0D, CHR 0x09, CHR 0x0A, CHR 0x0B]"

record counts =
  n_l :: uint
  n_w :: uint
  n_c :: uint
  inword :: bool

fun wc_bytes :: "string \<Rightarrow> counts \<Rightarrow> counts" where
  "wc_bytes [] k = k"
| "wc_bytes (b # bs) k =
     (let k = k\<lparr>n_c := n_c k + 1\<rparr>;
          k = (if b = newline then k\<lparr>n_l := n_l k + 1\<rparr> else k);
          k = (if strchr wc_space b \<noteq> None then k\<lparr>inword := False\<rparr>
               else if \<not> inword k then k\<lparr>n_w := n_w k + 1, inword := True\<rparr> else k)
      in wc_bytes bs k)"

function wc_loop :: "input \<Rightarrow> counts \<Rightarrow> int \<times> counts" where
  "wc_loop inp k =
     (case read_in 512 inp of (n, bs, inp') \<Rightarrow> if 0 < n then wc_loop inp' (wc_bytes bs k) else (n, k))"
  by pat_completeness auto
termination
  by (relation "measure (\<lambda>(inp, k). left inp)") (auto dest: read_in_left [OF sym])

declare wc_loop.simps [simp del]

definition wc :: "input \<Rightarrow> string \<Rightarrow> screen \<Rightarrow> screen \<times> unit run" where
  "wc inp name t =
     (case wc_loop inp \<lparr>n_l = 0, n_w = 0, n_c = 0, inword = False\<rparr> of (n, k) \<Rightarrow>
        if n < 0 then (put_out (''wc: read error'' @ [newline]) t, Exited 1)
        else (put_out (user_printint (n_l k) 10 True @ '' '' @ user_printint (n_w k) 10 True @ '' '' @
                user_printint (n_c k) 10 True @ '' '' @ name @ [newline]) t, Returned ()))"

definition wc_main :: "(string \<Rightarrow> input option) \<Rightarrow> input \<Rightarrow> string list \<Rightarrow> screen \<Rightarrow> screen \<times> int" where
  "wc_main files stdin argv t =
     (if length argv \<le> 1 then run_once (wc stdin [] t)
      else files_loop wc (\<lambda>a. put_out (''wc: cannot open '' @ a @ [newline])) files (tl argv) t)"

section \<open>grep\<close>

text \<open>
  The matcher. \<^verbatim>\<open>matchhere\<close> and \<^verbatim>\<open>matchstar\<close> call each other; every call works on a shorter
  expression, or on a shorter text with the same expression.
\<close>

function matchhere :: "string \<Rightarrow> string \<Rightarrow> bool" and matchstar :: "char \<Rightarrow> string \<Rightarrow> string \<Rightarrow> bool" where
  "matchhere re text =
     (if re = [] then True
      else if tl re \<noteq> [] \<and> hd (tl re) = CHR ''*'' then matchstar (hd re) (drop 2 re) text
      else if hd re = CHR ''$'' \<and> tl re = [] then text = []
      else if text \<noteq> [] \<and> (hd re = CHR ''.'' \<or> hd re = hd text) then matchhere (tl re) (tl text)
      else False)"
| "matchstar c re text =
     (if matchhere re text then True
      else if text \<noteq> [] \<and> (hd text = c \<or> c = CHR ''.'') then matchstar c re (tl text)
      else False)"
  by pat_completeness auto
termination
  by (relation "inv_image (less_than <*lex*> less_than)
        (case_sum (\<lambda>(re, t). (2 * length re, length t)) (\<lambda>(c, re, t). (2 * length re + 1, length t)))")
    (auto simp: neq_Nil_conv)

declare matchhere.simps [simp del] matchstar.simps [simp del]

text \<open>The \<^verbatim>\<open>do ... while\<close> loop of \<^verbatim>\<open>match\<close> tries every suffix, the empty one too.\<close>

fun match_anywhere :: "string \<Rightarrow> string \<Rightarrow> bool" where
  "match_anywhere re [] = matchhere re []"
| "match_anywhere re (c # text) = (matchhere re (c # text) \<or> match_anywhere re text)"

definition match :: "string \<Rightarrow> string \<Rightarrow> bool" where
  "match re text = (if re \<noteq> [] \<and> hd re = CHR ''^'' then matchhere (tl re) text else match_anywhere re text)"

text \<open>
  The inner loop of \<^verbatim>\<open>grep\<close> on the contents of the buffer from \<^verbatim>\<open>p\<close> on, up to the NUL that
  \<^verbatim>\<open>grep\<close> stores behind them: \<^verbatim>\<open>strchr\<close> stops there, or at an earlier NUL. The
  result is the bytes from the final \<^verbatim>\<open>p\<close> on.
\<close>

definition cstr :: "string \<Rightarrow> string" where
  "cstr xs = takeWhile (\<lambda>c. c \<noteq> CHR 0x00) xs"

lemma strchr_less: "strchr xs c = Some q \<Longrightarrow> q < length xs"
  by (induction xs arbitrary: q) (auto split: if_splits)

lemma strchr_cstr_less: "strchr (cstr xs) c = Some q \<Longrightarrow> q < length xs"
  using strchr_less [of "cstr xs" c q] length_takeWhile_le [of "\<lambda>c. c \<noteq> CHR 0x00" xs]
  unfolding cstr_def by linarith

function grep_lines :: "string \<Rightarrow> string \<Rightarrow> screen \<Rightarrow> screen \<times> string" where
  "grep_lines pattern p t =
     (case strchr (cstr p) newline of
        None \<Rightarrow> (t, p)
      | Some q \<Rightarrow>
          grep_lines pattern (drop (q + 1) p) (if match pattern (take q p) then put_out (take (q + 1) p) t else t))"
  by pat_completeness auto
termination
  by (relation "measure (\<lambda>(pattern, p, t). length p)") (auto dest: strchr_cstr_less)

declare grep_lines.simps [simp del]

text \<open>\<open>m\<close> is the number of bytes kept in the buffer; \<open>held\<close> are these bytes.\<close>

function grep_loop :: "string \<Rightarrow> string \<Rightarrow> input \<Rightarrow> screen \<Rightarrow> screen" where
  "grep_loop pattern held inp t =
     (case read_in (1024 - length held - 1) inp of (n, bs, inp') \<Rightarrow>
        if 0 < n then case grep_lines pattern (held @ bs) t of (t, held) \<Rightarrow> grep_loop pattern held inp' t
        else t)"
  by pat_completeness auto
termination
  by (relation "measure (\<lambda>(pattern, held, inp, t). left inp)") (auto dest: read_in_left [OF sym])

declare grep_loop.simps [simp del]

definition grep :: "string \<Rightarrow> input \<Rightarrow> screen \<Rightarrow> screen \<times> unit run" where
  "grep pattern inp t = (grep_loop pattern [] inp t, Returned ())"

definition grep_main :: "(string \<Rightarrow> input option) \<Rightarrow> input \<Rightarrow> string list \<Rightarrow> screen \<Rightarrow> screen \<times> int" where
  "grep_main files stdin argv t =
     (if length argv \<le> 1 then (put_err (''usage: grep pattern [file ...]'' @ [newline]) t, 1)
      else if length argv \<le> 2 then run_once (grep (argv ! 1) stdin t)
      else files_loop (\<lambda>inp _. grep (argv ! 1) inp) (\<lambda>a. put_out (''grep: cannot open '' @ a @ [newline]))
        files (drop 2 argv) t)"

section \<open>Regular expressions\<close>

text \<open>
  The reference semantics: an expression is a sequence of items, each one character out of a set
  or any number of them, and a flag for a closing \<^verbatim>\<open>$\<close>; its language is a set of words.
\<close>

datatype item = One "char set" | Many "char set"

definition atom :: "char \<Rightarrow> char set" where
  "atom c = (if c = CHR ''.'' then UNIV else {c})"

fun compile :: "string \<Rightarrow> item list \<times> bool" where
  "compile [] = ([], False)"
| "compile [c] = (if c = CHR ''$'' then ([], True) else ([One (atom c)], False))"
| "compile (c # d # re) =
     (if d = CHR ''*'' then (Many (atom c) # fst (compile re), snd (compile re))
      else (One (atom c) # fst (compile (d # re)), snd (compile (d # re))))"

fun lang :: "item list \<Rightarrow> string set" where
  "lang [] = {[]}"
| "lang (One A # is) = {c # w | c w. c \<in> A \<and> w \<in> lang is}"
| "lang (Many A # is) = {u @ w | u w. set u \<subseteq> A \<and> w \<in> lang is}"

definition prefix_matches :: "string \<Rightarrow> string \<Rightarrow> bool" where
  "prefix_matches re s \<longleftrightarrow>
     (\<exists>w post. s = w @ post \<and> w \<in> lang (fst (compile re)) \<and> (snd (compile re) \<longrightarrow> post = []))"

lemma prefix_matches_simps:
  "prefix_matches [] s"
  "prefix_matches [CHR ''$''] s \<longleftrightarrow> s = []"
  "prefix_matches (c # CHR ''*'' # re) s \<longleftrightarrow> (\<exists>u v. s = u @ v \<and> set u \<subseteq> atom c \<and> prefix_matches re v)"
proof -
  have "(\<exists>w post. s = w @ post \<and> (\<exists>u v. w = u @ v \<and> set u \<subseteq> A \<and> v \<in> L) \<and> Q post) \<longleftrightarrow>
      (\<exists>u v. s = u @ v \<and> set u \<subseteq> A \<and> (\<exists>w post. v = w @ post \<and> w \<in> L \<and> Q post))" for A L and Q :: "string \<Rightarrow> bool"
    by (metis append_assoc)
  then show "prefix_matches (c # CHR ''*'' # re) s \<longleftrightarrow> (\<exists>u v. s = u @ v \<and> set u \<subseteq> atom c \<and> prefix_matches re v)"
    by (simp add: prefix_matches_def)
qed (simp_all add: prefix_matches_def)

lemma prefix_matches_one:
  assumes "\<not> (re \<noteq> [] \<and> hd re = CHR ''*'')" "\<not> (c = CHR ''$'' \<and> re = [])"
  shows "prefix_matches (c # re) s \<longleftrightarrow> (\<exists>x v. s = x # v \<and> x \<in> atom c \<and> prefix_matches re v)"
proof -
  have "compile (c # re) = (One (atom c) # fst (compile re), snd (compile re))"
    using assms by (cases re) auto
  moreover have "(\<exists>w post. s = w @ post \<and> (\<exists>x v. w = x # v \<and> x \<in> A \<and> v \<in> L) \<and> Q post) \<longleftrightarrow>
      (\<exists>x v. s = x # v \<and> x \<in> A \<and> (\<exists>w post. v = w @ post \<and> w \<in> L \<and> Q post))" for A L and Q :: "string \<Rightarrow> bool"
    by (metis append_Cons)
  ultimately show ?thesis by (simp add: prefix_matches_def)
qed

lemma atom_iff: "x \<in> atom c \<longleftrightarrow> x = c \<or> c = CHR ''.''"
  by (auto simp: atom_def)

lemma star_unfold:
  "(\<exists>u v. s = u @ v \<and> set u \<subseteq> A \<and> P v) \<longleftrightarrow>
     P s \<or> (\<exists>x xs. s = x # xs \<and> x \<in> A \<and> (\<exists>u v. xs = u @ v \<and> set u \<subseteq> A \<and> P v))" (is "?L \<longleftrightarrow> ?R")
proof
  assume ?L
  then obtain u v where "s = u @ v" "set u \<subseteq> A" "P v" by blast
  then show ?R by (cases u) auto
next
  assume ?R
  then show ?L
  proof
    assume "P s"
    then show ?L by (intro exI [of _ "[]"] exI [of _ s]) simp
  next
    assume "\<exists>x xs. s = x # xs \<and> x \<in> A \<and> (\<exists>u v. xs = u @ v \<and> set u \<subseteq> A \<and> P v)"
    then obtain x u v where "s = x # u @ v" "x \<in> A" "set u \<subseteq> A" "P v" by blast
    then show ?L by (intro exI [of _ "x # u"] exI [of _ v]) simp
  qed
qed

lemma matcher_correct:
  "matchhere re s \<longleftrightarrow> prefix_matches re s"
  "matchstar c re s \<longleftrightarrow> (\<exists>u v. s = u @ v \<and> set u \<subseteq> atom c \<and> prefix_matches re v)"
proof (induction re s and c re s rule: matchhere_matchstar.induct)
  case (1 re s)
  show ?case
  proof (cases "re = [] \<or> (\<exists>c re'. re = c # CHR ''*'' # re') \<or> re = [CHR ''$'']")
    case True
    then consider "re = []" | c re' where "re = c # CHR ''*'' # re'" | "re = [CHR ''$'']" by blast
    then show ?thesis by cases (use 1(1) in \<open>simp_all add: prefix_matches_simps matchhere.simps\<close>)
  next
    case False
    then obtain c re' where re: "re = c # re'" "\<not> (re' \<noteq> [] \<and> hd re' = CHR ''*'')" "\<not> (c = CHR ''$'' \<and> re' = [])"
      by (cases re; cases "tl re") auto
    show ?thesis
      by (subst matchhere.simps) (use re 1(2) in \<open>cases s; auto simp: prefix_matches_one [OF re(2,3)] atom_iff\<close>)
  qed
next
  case (2 c re s)
  show ?case
    by (subst matchstar.simps, subst star_unfold) (use 2 in \<open>cases s; auto simp: atom_iff\<close>)
qed

lemma match_anywhere_iff: "match_anywhere re s \<longleftrightarrow> (\<exists>pre v. s = pre @ v \<and> prefix_matches re v)"
proof (induction s)
  case Nil
  then show ?case by (simp add: matcher_correct)
next
  case (Cons c s)
  have "(\<exists>pre v. c # s = pre @ v \<and> prefix_matches re v) \<longleftrightarrow>
      prefix_matches re (c # s) \<or> (\<exists>pre v. s = pre @ v \<and> prefix_matches re v)"
    using star_unfold [of "c # s" UNIV "prefix_matches re"] by simp
  then show ?case using Cons by (simp add: matcher_correct)
qed

text \<open>
  C26: the matcher of \<^verbatim>\<open>grep\<close> decides its regular expressions: a line matches exactly if some part
  of it is a word of the expression, a part at the start of the line when the expression begins
  with \<^verbatim>\<open>^\<close>, at its end when it ends in \<^verbatim>\<open>$\<close>.
\<close>

theorem match_decides_regexp:
  "match re s \<longleftrightarrow>
     (let anchored = (re \<noteq> [] \<and> hd re = CHR ''^''); (items, at_end) = compile (if anchored then tl re else re)
      in \<exists>pre w post. s = pre @ w @ post \<and> w \<in> lang items \<and> (anchored \<longrightarrow> pre = []) \<and> (at_end \<longrightarrow> post = []))"
  by (auto simp: match_def matcher_correct match_anywhere_iff prefix_matches_def Let_def split: prod.splits)

theorem match_decides_regexp_witness: "match ''b*c$'' ''abbc''"
proof -
  have "''bbc'' \<in> lang [Many (atom CHR ''b''), One (atom CHR ''c'')]"
    by (auto simp: atom_def intro!: exI [of _ "''bb''"])
  then have "\<exists>pre w. ''abbc'' = pre @ w \<and> w \<in> lang [Many (atom CHR ''b''), One (atom CHR ''c'')]"
    by (intro exI [of _ "''a''"] exI [of _ "''bbc''"]) simp
  then show ?thesis using match_decides_regexp [of "''b*c$''" "''abbc''"] by simp
qed

section \<open>Lines\<close>

text \<open>The complete lines of a text, without their newlines; a rest without newline is no line.\<close>

function complete_lines :: "string \<Rightarrow> string list" where
  "complete_lines xs =
     (if newline \<in> set xs
      then takeWhile (\<lambda>c. c \<noteq> newline) xs # complete_lines (tl (dropWhile (\<lambda>c. c \<noteq> newline) xs))
      else [])"
  by pat_completeness auto
termination
proof (relation "measure length", goal_cases)
  case (2 xs)
  then have "0 < length xs" by (cases xs) auto
  moreover have "length (dropWhile (\<lambda>c. c \<noteq> newline) xs) \<le> length xs" by (rule length_dropWhile_le)
  ultimately show ?case unfolding in_measure length_tl by linarith
qed simp

declare complete_lines.simps [simp del]

definition unfinished :: "string \<Rightarrow> string" where
  "unfinished xs = rev (takeWhile (\<lambda>c. c \<noteq> newline) (rev xs))"

definition print_lines :: "string list \<Rightarrow> string" where
  "print_lines ls = concat (map (\<lambda>l. l @ [newline]) ls)"

lemma print_lines_simps [simp]:
  "print_lines [] = []" "print_lines (l # ls) = l @ newline # print_lines ls"
  "print_lines (ls @ ks) = print_lines ls @ print_lines ks"
  by (simp_all add: print_lines_def)

lemma cstr_id: "CHR 0x00 \<notin> set xs \<Longrightarrow> cstr xs = xs"
  unfolding cstr_def by (rule takeWhile_eq_all_conv [THEN iffD2]) auto

lemma complete_lines_none: "newline \<notin> set xs \<Longrightarrow> complete_lines xs = []"
  by (simp add: complete_lines.simps)

lemma while_newline:
  "newline \<notin> set l \<Longrightarrow> takeWhile (\<lambda>c. c \<noteq> newline) (l @ newline # r) = l"
  "newline \<notin> set l \<Longrightarrow> dropWhile (\<lambda>c. c \<noteq> newline) (l @ newline # r) = newline # r"
  "newline \<notin> set l \<Longrightarrow> takeWhile (\<lambda>c. c \<noteq> newline) l = l"
  by (induction l) auto

lemma complete_lines_Cons: "newline \<notin> set l \<Longrightarrow> complete_lines (l @ newline # xs) = l # complete_lines xs"
  by (subst complete_lines.simps) (simp add: while_newline)

lemma unfinished_none: "newline \<notin> set xs \<Longrightarrow> unfinished xs = xs"
  by (metis (mono_tags, lifting) rev_rev_ident set_rev takeWhile_eq_all_conv unfinished_def)

lemma unfinished_Cons: "unfinished (l @ newline # xs) = unfinished xs"
proof -
  have "takeWhile (\<lambda>c. c \<noteq> newline) (rev xs @ newline # rev l) = takeWhile (\<lambda>c. c \<noteq> newline) (rev xs)"
    by (cases "newline \<in> set xs") (simp_all add: while_newline takeWhile_append1)
  then show ?thesis by (simp add: unfinished_def)
qed

lemma lines_cases:
  obtains "newline \<notin> set xs" | l r where "xs = l @ newline # r" "newline \<notin> set l" "length r < length xs"
proof (cases "newline \<in> set xs")
  case True
  then obtain l r where "xs = l @ newline # r" "newline \<notin> set l" by (meson split_list_first)
  then show ?thesis using that(2) by simp
qed (rule that(1))

lemma newline_unfinished: "newline \<notin> set (unfinished xs)"
  unfolding unfinished_def by (auto dest: set_takeWhileD)

lemma complete_lines_append:
  "complete_lines (xs @ ys) = complete_lines xs @ complete_lines (unfinished xs @ ys)"
proof (induction xs rule: length_induct)
  case (1 xs)
  show ?case
  proof (cases xs rule: lines_cases)
    case 1
    then show ?thesis by (simp add: unfinished_none complete_lines_none)
  next
    case (2 l r)
    then show ?thesis using 1 by (simp add: complete_lines_Cons unfinished_Cons)
  qed
qed

lemma grep_lines_eq:
  "CHR 0x00 \<notin> set p \<Longrightarrow>
     grep_lines pattern p t = (put_out (print_lines (filter (match pattern) (complete_lines p))) t, unfinished p)"
proof (induction p arbitrary: t rule: length_induct)
  case (1 p)
  show ?case
  proof (cases p rule: lines_cases)
    case 1
    then show ?thesis using \<open>CHR 0x00 \<notin> set p\<close>
      by (simp add: grep_lines.simps cstr_id strchr_eq unfinished_none complete_lines_none)
  next
    case (2 l r)
    have len: "length (takeWhile (\<lambda>x. x \<noteq> newline) (l @ newline # r)) = length l"
      using 2(2) by (simp add: while_newline)
    have "grep_lines pattern p t = grep_lines pattern r (if match pattern l then put_out (l @ [newline]) t else t)"
      using \<open>CHR 0x00 \<notin> set p\<close> by (subst grep_lines.simps) (simp add: 2(1) cstr_id strchr_eq len)
    then show ?thesis using 1 2 by (simp add: complete_lines_Cons unfinished_Cons)
  qed
qed

lemma long_line:
  assumes "newline \<notin> set xs" "\<forall>l\<in>set (complete_lines (xs @ ys)). length l < length xs"
  shows "complete_lines (xs @ ys) = []"
proof (cases "xs @ ys" rule: lines_cases)
  case (2 l r)
  have "length xs \<le> length l"
  proof (rule ccontr)
    assume "\<not> length xs \<le> length l"
    then have "xs ! length l = (xs @ ys) ! length l" "length l < length xs" by (simp_all add: nth_append)
    then have "newline \<in> set xs" using 2(1) by (metis nth_append_length nth_mem)
    then show False using assms(1) by simp
  qed
  moreover have "l \<in> set (complete_lines (xs @ ys))" using 2 by (simp add: complete_lines_Cons)
  ultimately show ?thesis using assms(2) by fastforce
qed (rule complete_lines_none)

lemma grep_loop_eq:
  assumes "CHR 0x00 \<notin> set (held @ concat (fst inp))" "newline \<notin> set held" "length held < 1024" "[] \<notin> set (fst inp)"
    "\<forall>l\<in>set (complete_lines (held @ concat (fst inp))). length l < 1023"
  shows "grep_loop pattern held inp t =
    put_out (print_lines (filter (match pattern) (complete_lines (held @ concat (fst inp))))) t"
  using assms
proof (induction pattern held inp t rule: grep_loop.induct)
  case (1 pattern held inp t)
  obtain n bs inp' where r: "read_in (1024 - length held - 1) inp = (n, bs, inp')" by (metis prod_cases3)
  note data = read_in_data [OF r]
  show ?case
  proof (cases "0 < n")
    case True
    let ?h = "unfinished (held @ bs)"
    have nz: "CHR 0x00 \<notin> set (held @ bs)" using "1.prems"(1) data by simp
    have len: "length ?h \<le> length (held @ bs)" "length (held @ bs) < 1024"
      using read_in_length [OF r True] "1.prems"(3) length_takeWhile_le [of "\<lambda>c. c \<noteq> newline" "rev (held @ bs)"]
      by (auto simp: unfinished_def)
    have all: "complete_lines (held @ concat (fst inp)) = complete_lines (held @ bs) @ complete_lines (?h @ concat (fst inp'))"
      using complete_lines_append [of "held @ bs" "concat (fst inp')"] data by simp
    have set_h: "set ?h \<subseteq> set (held @ bs)" unfolding unfinished_def by (auto dest: set_takeWhileD)
    have "grep_loop pattern ?h inp' u = put_out (print_lines (filter (match pattern) (complete_lines (?h @ concat (fst inp'))))) u"
      if "u = put_out (print_lines (filter (match pattern) (complete_lines (held @ bs)))) t" for u
    proof (rule "1.IH" [OF r [symmetric] refl True])
      show "CHR 0x00 \<notin> set (?h @ concat (fst inp'))" using set_h nz "1.prems"(1) data by auto
    qed (use that nz len all newline_unfinished read_in_rest [OF r "1.prems"(4)] "1.prems"(5) in \<open>auto simp: grep_lines_eq\<close>)
    then show ?thesis by (subst grep_loop.simps) (simp only: r split True grep_lines_eq [OF nz] if_True, simp add: all)
  next
    case False
    have "complete_lines (held @ concat (fst inp)) = []"
    proof (cases "length held < 1023")
      case True
      then have "concat (fst inp) = []" using read_in_end [OF r False] "1.prems"(4) by (simp del: concat_eq_Nil_conv)
      then show ?thesis using "1.prems"(2) by (simp add: complete_lines_none del: concat_eq_Nil_conv)
    next
      case 2: False
      show ?thesis by (rule long_line [OF "1.prems"(2)]) (use "1.prems"(3,5) 2 in fastforce)
    qed
    then show ?thesis by (subst grep_loop.simps) (simp only: r split False if_False, simp)
  qed
qed

text \<open>
  C33: \<^verbatim>\<open>grep\<close> prints exactly the lines that match, in order, however the reads divide the file, as
  long as the file holds no NUL and every line fits the buffer. A last line without a newline is
  not printed.
\<close>

theorem grep_prints_matching_lines:
  assumes "CHR 0x00 \<notin> set (concat (fst inp))" "[] \<notin> set (fst inp)" "\<forall>l\<in>set (complete_lines (concat (fst inp))). length l < 1023"
  shows "t_out (fst (grep pattern inp t)) =
    t_out t @ print_lines (filter (match pattern) (complete_lines (concat (fst inp))))"
  using grep_loop_eq [of "[]" inp pattern t] assms by (simp add: grep_def)

theorem grep_prints_matching_lines_witness:
  "t_out (fst (grep ''a'' ([''ca'', ''t'' @ [newline, CHR ''x''], [newline, CHR ''a'']], False) \<lparr>t_out = [], t_err = []\<rparr>)) = ''cat'' @ [newline]"
proof -
  have l: "complete_lines (''cat'' @ newline # ''x'' @ newline # ''a'') = [''cat'', ''x'']"
    using complete_lines_Cons [of "''cat''" "''x'' @ newline # ''a''"] complete_lines_Cons [of "''x''" "''a''"]
      complete_lines_none [of "''a''"] by (simp add: newline_def)
  then show ?thesis
    using grep_prints_matching_lines [of "([''ca'', ''t'' @ [newline, CHR ''x''], [newline, CHR ''a'']], False)" "''a''" "\<lparr>t_out = [], t_err = []\<rparr>"]
    by (simp add: newline_def match_def matchhere.simps)
qed

section \<open>Counts\<close>

text \<open>The words of a text: its maximal runs of characters that are not white space.\<close>

definition white :: "char \<Rightarrow> bool" where
  "white c \<longleftrightarrow> c \<in> set wc_space"

fun words :: "string \<Rightarrow> string list" where
  "words [] = []"
| "words (c # cs) =
     (if white c then words cs
      else case cs of [] \<Rightarrow> [[c]] | d # _ \<Rightarrow> if white d then [c] # words cs else (c # hd (words cs)) # tl (words cs))"

lemma words_nonempty: "cs \<noteq> [] \<Longrightarrow> \<not> white (hd cs) \<Longrightarrow> words cs \<noteq> []"
  by (cases cs) (auto split: list.splits)

lemma length_words:
  "length (words (c # cs)) = length (words cs) + (if white c \<or> cs \<noteq> [] \<and> \<not> white (hd cs) then 0 else 1)"
  using words_nonempty [of cs] by (auto split: list.splits)

declare words.simps(2) [simp del]

definition started :: "bool \<Rightarrow> string \<Rightarrow> nat" where
  "started inside bs = (if inside \<and> bs \<noteq> [] \<and> \<not> white (hd bs) then 1 else 0)"

lemma strchr_white: "strchr wc_space b \<noteq> None \<longleftrightarrow> white b"
  by (simp only: strchr_eq white_def) simp

lemma wc_bytes_step:
  "wc_bytes (b # bs) k = wc_bytes bs \<lparr>n_l = n_l k + (if b = newline then 1 else 0),
     n_w = n_w k + (if white b \<or> inword k then 0 else 1), n_c = n_c k + 1, inword = (\<not> white b)\<rparr>"
  unfolding wc_bytes.simps strchr_white Let_def by (cases k) simp

declare wc_bytes.simps(2) [simp del]

lemma wc_bytes_words:
  "n_w (wc_bytes bs k) + of_nat (started (inword k) bs) = n_w k + of_nat (length (words bs))"
proof (induction bs arbitrary: k)
  case (Cons b bs)
  show ?case using Cons.IH [of "\<lparr>n_l = n_l k + (if b = newline then 1 else 0),
     n_w = n_w k + (if white b \<or> inword k then 0 else 1), n_c = n_c k + 1, inword = (\<not> white b)\<rparr>"]
    by (auto simp: wc_bytes_step length_words started_def algebra_simps)
qed (simp add: started_def)

lemma wc_bytes_lines: "n_l (wc_bytes bs k) = n_l k + of_nat (count_list bs newline)"
  by (induction bs arbitrary: k) (auto simp: wc_bytes_step algebra_simps)

lemma wc_bytes_chars: "n_c (wc_bytes bs k) = n_c k + of_nat (length bs)"
  by (induction bs arbitrary: k) (auto simp: wc_bytes_step algebra_simps)

lemma wc_bytes_append: "wc_bytes (xs @ ys) k = wc_bytes ys (wc_bytes xs k)"
  by (induction xs arbitrary: k) (simp_all add: wc_bytes_step)

lemma wc_loop_eq:
  "[] \<notin> set (fst inp) \<Longrightarrow> wc_loop inp k = (if snd inp then -1 else 0, wc_bytes (concat (fst inp)) k)"
proof (induction inp k rule: wc_loop.induct)
  case (1 inp k)
  obtain n bs inp' where r: "read_in 512 inp = (n, bs, inp')" by (metis prod_cases3)
  show ?case
  proof (cases "0 < n")
    case True
    then have "wc_loop inp' (wc_bytes bs k) = (if snd inp' then -1 else 0, wc_bytes (concat (fst inp')) (wc_bytes bs k))"
      using "1.IH" [OF r [symmetric] refl True] read_in_rest [OF r "1.prems"] by blast
    then show ?thesis
      using read_in_rest [OF r "1.prems"] read_in_data [OF r] by (subst wc_loop.simps) (simp add: r True wc_bytes_append)
  next
    case False
    then have "concat (fst inp) = []" "n = (if snd inp then -1 else 0)" using read_in_end [OF r False _ "1.prems"] by (simp_all del: concat_eq_Nil_conv)
    then show ?thesis using False by (subst wc_loop.simps) (simp add: r del: concat_eq_Nil_conv)
  qed
qed

text \<open>
  C39: \<^verbatim>\<open>wc\<close> prints the number of newlines, of words and of characters of the file, however the
  reads divide it: a word that continues in the next piece is counted once.
\<close>

theorem wc_counts_file:
  assumes "[] \<notin> set (fst inp)" "\<not> snd inp"
  shows "t_out (fst (wc inp name t)) = t_out t @
    user_printint (of_nat (count_list (concat (fst inp)) newline)) 10 True @ '' '' @
    user_printint (of_nat (length (words (concat (fst inp))))) 10 True @ '' '' @
    user_printint (of_nat (length (concat (fst inp)))) 10 True @ '' '' @ name @ [newline]"
  using wc_bytes_words [of "concat (fst inp)" "\<lparr>n_l = 0, n_w = 0, n_c = 0, inword = False\<rparr>"]
  by (simp add: wc_def wc_loop_eq [OF assms(1)] assms(2) wc_bytes_lines wc_bytes_chars started_def del: length_concat)

theorem wc_counts_file_witness:
  "t_out (fst (wc ([''a b'', ''c'' @ [newline]], False) ''f'' \<lparr>t_out = [], t_err = []\<rparr>)) = ''1 2 5 f'' @ [newline]"
  using wc_counts_file [of "([''a b'', ''c'' @ [newline]], False)" "''f''" "\<lparr>t_out = [], t_err = []\<rparr>"]
  by (simp add: words.simps white_def wc_space_def newline_def user_printint_def digit_loop.simps digits_upper_def)

end
