(* ===== verification/Riscv.thy ===== *)
theory Riscv
  imports Xv6_Prelude
begin

text \<open>
  The constants and macros of \<^verbatim>\<open>kernel/riscv.h\<close>, \<^verbatim>\<open>kernel/memlayout.h\<close> and
  \<^verbatim>\<open>kernel/param.h\<close>: page rounding, the Sv39 page-table entry format, the three 9-bit
  indices of a virtual address, and the physical memory layout. The lemmas show that page
  rounding and entry packing are inverse to each other on the values the kernel feeds them,
  and that the three indices identify a page below \<^verbatim>\<open>MAXVA\<close>.
\<close>

section \<open>Pages\<close>

definition PGSIZE :: uint64 where "PGSIZE = 4096"
definition PGSHIFT :: nat where "PGSHIFT = 12"

definition PGROUNDUP :: "uint64 \<Rightarrow> uint64" where
  "PGROUNDUP sz = (sz + PGSIZE - 1) AND NOT (PGSIZE - 1)"

definition PGROUNDDOWN :: "uint64 \<Rightarrow> uint64" where
  "PGROUNDDOWN a = a AND NOT (PGSIZE - 1)"

section \<open>Page-table entries\<close>

definition PTE_V :: uint64 where "PTE_V = push_bit 0 1"
definition PTE_R :: uint64 where "PTE_R = push_bit 1 1"
definition PTE_W :: uint64 where "PTE_W = push_bit 2 1"
definition PTE_X :: uint64 where "PTE_X = push_bit 3 1"
definition PTE_U :: uint64 where "PTE_U = push_bit 4 1"
definition PTE_COW :: uint64 where "PTE_COW = push_bit 8 1"

definition PA2PTE :: "uint64 \<Rightarrow> uint64" where
  "PA2PTE pa = push_bit 10 (drop_bit 12 pa)"

definition PTE2PA :: "uint64 \<Rightarrow> uint64" where
  "PTE2PA pte = push_bit 12 (drop_bit 10 pte)"

definition PTE_FLAGS :: "uint64 \<Rightarrow> uint64" where
  "PTE_FLAGS pte = pte AND 0x3FF"

definition PXMASK :: uint64 where "PXMASK = 0x1FF"

definition PXSHIFT :: "nat \<Rightarrow> nat" where
  "PXSHIFT level = PGSHIFT + 9 * level"

definition PX :: "nat \<Rightarrow> uint64 \<Rightarrow> uint64" where
  "PX level va = drop_bit (PXSHIFT level) va AND PXMASK"

definition MAXVA :: uint64 where
  "MAXVA = push_bit (9 + 9 + 9 + 12 - 1) 1"

definition SATP_SV39 :: uint64 where "SATP_SV39 = push_bit 60 8"

definition MAKE_SATP :: "uint64 \<Rightarrow> uint64" where
  "MAKE_SATP pagetable = SATP_SV39 OR drop_bit 12 pagetable"

section \<open>Memory layout and parameters\<close>

definition UART0 :: uint64 where "UART0 = 0x10000000"
definition VIRTIO0 :: uint64 where "VIRTIO0 = 0x10001000"
definition PLIC :: uint64 where "PLIC = 0x0c000000"
definition KERNBASE :: uint64 where "KERNBASE = 0x80000000"
definition PHYSTOP :: uint64 where "PHYSTOP = KERNBASE + 128 * 1024 * 1024"
definition TRAMPOLINE :: uint64 where "TRAMPOLINE = MAXVA - PGSIZE"
definition TRAPFRAME :: uint64 where "TRAPFRAME = TRAMPOLINE - PGSIZE"

definition KSTACK :: "nat \<Rightarrow> uint64" where
  "KSTACK p = TRAMPOLINE - (of_nat p + 1) * 2 * PGSIZE"

definition NPROC :: nat where "NPROC = 64"
definition NCPU :: nat where "NCPU = 8"
definition NOFILE :: nat where "NOFILE = 16"
definition NFILE :: nat where "NFILE = 100"
definition NINODE :: nat where "NINODE = 50"
definition NDEV :: nat where "NDEV = 10"
definition ROOTDEV :: uint where "ROOTDEV = 1"
definition MAXARG :: nat where "MAXARG = 32"
definition MAXOPBLOCKS :: nat where "MAXOPBLOCKS = 10"
definition LOGSIZE :: nat where "LOGSIZE = MAXOPBLOCKS * 3"
definition NBUF :: nat where "NBUF = MAXOPBLOCKS * 3"
definition FSSIZE :: nat where "FSSIZE = 2000"
definition MAXPATH :: nat where "MAXPATH = 128"

lemmas layout_defs = UART0_def VIRTIO0_def PLIC_def KERNBASE_def PHYSTOP_def PGSIZE_def
lemmas pte_flag_defs = PTE_V_def PTE_R_def PTE_W_def PTE_X_def PTE_U_def PTE_COW_def
lemmas param_defs = NPROC_def NCPU_def NOFILE_def NFILE_def NINODE_def NDEV_def ROOTDEV_def
  MAXARG_def MAXOPBLOCKS_def LOGSIZE_def NBUF_def FSSIZE_def MAXPATH_def

section \<open>Page alignment\<close>

definition page_aligned :: "uint64 \<Rightarrow> bool" where
  "page_aligned a \<longleftrightarrow> a mod PGSIZE = 0"

lemma PGSIZE_mask: "PGSIZE - 1 = mask 12"
  by (simp add: PGSIZE_def mask_eq_exp_minus_1)

lemma mod_PGSIZE: "a mod PGSIZE = take_bit 12 a"
  by (simp add: PGSIZE_def take_bit_eq_mod)

lemma page_aligned_bits: "page_aligned a \<longleftrightarrow> (\<forall>n<12. \<not> bit a n)"
  unfolding page_aligned_def mod_PGSIZE
  by (auto simp: bit_eq_iff bit_take_bit_iff)

lemma bit_PGROUNDDOWN: "bit (PGROUNDDOWN a) n \<longleftrightarrow> 12 \<le> n \<and> bit a n"
  unfolding PGROUNDDOWN_def PGSIZE_mask
  using bit_imp_le_length [of a n]
  by (auto simp: bit_and_iff bit_not_iff bit_mask_iff)

lemma page_aligned_PGROUNDDOWN [simp, page_simps]: "page_aligned (PGROUNDDOWN a)"
  by (simp add: page_aligned_bits bit_PGROUNDDOWN)

lemma PGROUNDDOWN_id [simp, page_simps]: "page_aligned a \<Longrightarrow> PGROUNDDOWN a = a"
  by (rule bit_word_eqI) (auto simp: bit_PGROUNDDOWN page_aligned_bits, meson not_le)

lemma page_aligned_PGROUNDUP [simp, page_simps]: "page_aligned (PGROUNDUP a)"
  using page_aligned_PGROUNDDOWN [of "a + PGSIZE - 1"]
  by (simp add: PGROUNDUP_def PGROUNDDOWN_def)

lemma page_offset_bits:
  assumes "(off :: uint64) < PGSIZE" "12 \<le> n" shows "\<not> bit off n"
proof -
  have "take_bit 12 off = off"
    using assms(1)
    by (simp add: PGSIZE_def word_unat_eq_iff unsigned_take_bit_eq take_bit_nat_eq_self
        word_less_nat_alt)
  then show ?thesis
    using assms(2) by (metis bit_take_bit_iff not_le)
qed

lemma page_add_offset_or:
  assumes "page_aligned p" "off < PGSIZE" shows "p + off = p OR off"
proof (rule disjunctive_add)
  fix n show "\<not> bit p n \<or> \<not> bit off n"
    using assms page_offset_bits [of off n] by (cases "n < 12") (auto simp: page_aligned_bits)
qed

lemma PGROUNDDOWN_add [page_simps]:
  assumes "page_aligned p" "off < PGSIZE" shows "PGROUNDDOWN (p + off) = p"
  unfolding page_add_offset_or [OF assms]
  using assms page_offset_bits [of off]
  by (intro bit_word_eqI) (auto simp: bit_PGROUNDDOWN bit_or_iff page_aligned_bits, meson not_le)

lemma page_eqI:
  assumes "page_aligned p" "page_aligned q" "a - p < PGSIZE" "a - q < PGSIZE"
  shows "p = q"
  using PGROUNDDOWN_add [OF assms(1,3)] PGROUNDDOWN_add [OF assms(2,4)] by simp

lemma page_disjoint [page_simps]:
  assumes "page_aligned p" "page_aligned q" "p \<noteq> q" "off < PGSIZE"
  shows "\<not> p + off - q < PGSIZE"
  using page_eqI [of p q "p + off"] assms by auto

lemma PGROUNDDOWN_diff_less: "a - PGROUNDDOWN a < PGSIZE"
proof -
  have "a - PGROUNDDOWN a = a AND NOT (PGROUNDDOWN a)"
    by (rule disjunctive_diff) (simp add: bit_PGROUNDDOWN)
  also have "\<dots> = take_bit 12 a"
    by (rule bit_word_eqI) (auto simp: bit_and_iff bit_not_iff bit_PGROUNDDOWN bit_take_bit_iff)
  finally have "a - PGROUNDDOWN a = take_bit 12 a" .
  then show ?thesis
    by (simp add: PGSIZE_def word_less_nat_alt unsigned_take_bit_eq take_bit_eq_mod unat_mod_distrib)
qed

lemma PGROUNDDOWN_eq_diff: "PGROUNDDOWN a = a - a mod PGSIZE"
proof -
  have "a - PGROUNDDOWN a = a AND NOT (PGROUNDDOWN a)"
    by (rule disjunctive_diff) (simp add: bit_PGROUNDDOWN)
  also have "\<dots> = take_bit 12 a"
    by (rule bit_word_eqI) (auto simp: bit_and_iff bit_not_iff bit_PGROUNDDOWN bit_take_bit_iff)
  finally show ?thesis by (simp add: mod_PGSIZE algebra_simps)
qed

lemma unat_PGROUNDDOWN: "unat (PGROUNDDOWN a) = unat a div 4096 * 4096"
proof -
  have m: "unat (a mod PGSIZE) = unat a mod 4096" by (simp add: PGSIZE_def unat_mod_distrib)
  then have "unat (a - a mod PGSIZE) = unat a - unat (a mod PGSIZE)"
    by (intro unat_sub) (simp add: word_le_nat_alt)
  then show ?thesis
    unfolding PGROUNDDOWN_eq_diff m by (simp only: minus_mod_eq_div_mult)
qed

lemma unat_PGROUNDUP:
  assumes "unat a + 4095 < 2 ^ 64"
  shows "unat (PGROUNDUP a) = (unat a + 4095) div 4096 * 4096"
proof -
  have "PGROUNDUP a = PGROUNDDOWN (a + 4095)"
    by (simp add: PGROUNDUP_def PGROUNDDOWN_def PGSIZE_def add.commute)
  moreover have "unat (a + 4095) = unat a + 4095"
    using assms by (simp add: unat_add_no_wrap)
  ultimately show ?thesis by (simp add: unat_PGROUNDDOWN)
qed

lemma page_aligned_offset_zero: "page_aligned a \<Longrightarrow> page_aligned b \<Longrightarrow> a - b < PGSIZE \<Longrightarrow> a = b"
  using page_eqI [of a b a] by (simp add: PGSIZE_def)

lemma page_aligned_0 [simp]: "page_aligned 0"
  by (simp add: page_aligned_bits)

lemma page_aligned_dvd: "page_aligned a \<longleftrightarrow> 4096 dvd unat a"
  using and_mask_dvd_nat [of 12 a]
  by (simp add: page_aligned_def mod_PGSIZE take_bit_eq_mask)

lemma page_aligned_add:
  assumes "page_aligned a" "page_aligned b" shows "page_aligned (a + b)"
  using assms unfolding page_aligned_dvd
  by (simp add: unat_word_ariths dvd_mod)

lemma page_aligned_PGSIZE [simp]: "page_aligned PGSIZE"
  by (simp add: page_aligned_def PGSIZE_def)

section \<open>Entry packing\<close>

lemma flags_bits:
  assumes "(f :: uint64) < 1024" "10 \<le> n" shows "\<not> bit f n"
proof -
  have "take_bit 10 f = f"
    using assms(1)
    by (simp add: word_unat_eq_iff unsigned_take_bit_eq take_bit_nat_eq_self word_less_nat_alt)
  then show ?thesis
    using assms(2) by (metis bit_take_bit_iff not_le)
qed

lemma PTE2PA_pack [simp, page_simps]:
  assumes "page_aligned pa" "flags < 1024"
  shows "PTE2PA (PA2PTE pa OR flags) = pa"
proof (rule bit_word_eqI)
  fix n assume "n < LENGTH(64)"
  with assms flags_bits [of flags "n - 2"] show "bit (PTE2PA (PA2PTE pa OR flags)) n = bit pa n"
    by (cases "12 \<le> n")
      (auto simp: PTE2PA_def PA2PTE_def page_aligned_bits bit_push_bit_iff bit_drop_bit_eq bit_or_iff)
qed

lemma PTE_FLAGS_pack [simp, page_simps]:
  assumes "flags < 1024"
  shows "PTE_FLAGS (PA2PTE pa OR flags) = flags"
proof -
  have m: "(0x3FF :: uint64) = mask 10" by (simp add: mask_eq_exp_minus_1)
  show ?thesis unfolding PTE_FLAGS_def m
    using assms flags_bits [of flags]
    by (intro bit_word_eqI) (auto simp: PA2PTE_def bit_push_bit_iff bit_and_iff bit_mask_iff bit_or_iff, meson not_le)
qed

lemma PTE_FLAGS_less [simp]: "PTE_FLAGS pte < 1024"
proof -
  have "PTE_FLAGS pte \<le> 0x3FF" by (simp add: PTE_FLAGS_def word_and_le1)
  then show ?thesis by (simp add: word_le_nat_alt word_less_nat_alt)
qed

lemma page_aligned_PTE2PA [simp, page_simps]: "page_aligned (PTE2PA pte)"
  by (simp add: page_aligned_bits PTE2PA_def bit_push_bit_iff)

text \<open>Splitting an entry into frame and flags loses nothing.\<close>

lemma pte_split: "bit pte 63 = False \<Longrightarrow> bit pte 62 = False \<Longrightarrow> PA2PTE (PTE2PA pte) OR PTE_FLAGS pte = pte"
proof -
  assume high: "bit pte 63 = False" "bit pte 62 = False"
  have m: "(0x3FF :: uint64) = mask 10" by (simp add: mask_eq_exp_minus_1)
  show ?thesis
  proof (rule bit_word_eqI)
    fix n assume "n < LENGTH(64)"
    then have "n \<in> {0..<62} \<union> {62, 63}" by auto
    with high show "bit (PA2PTE (PTE2PA pte) OR PTE_FLAGS pte) n = bit pte n"
      by (cases "n < 10")
        (auto simp: PTE2PA_def PA2PTE_def PTE_FLAGS_def m bit_push_bit_iff bit_drop_bit_eq bit_or_iff
          bit_and_iff bit_mask_iff)
  qed
qed

section \<open>Virtual address indices\<close>

lemma PXMASK_mask: "PXMASK = mask 9"
  by (simp add: PXMASK_def mask_eq_exp_minus_1)

lemma bit_PX: "bit (PX level va) n \<longleftrightarrow> n < 9 \<and> bit va (12 + 9 * level + n)"
  unfolding PX_def PXMASK_mask PXSHIFT_def PGSHIFT_def
  by (auto simp: bit_and_iff bit_mask_iff bit_drop_bit_eq)

lemma PX_less [simp, page_simps]: "PX level va < 512"
proof -
  have "PX level va \<le> 0x1FF" unfolding PX_def PXMASK_def by (simp add: word_and_le1)
  then show ?thesis by (simp add: word_le_nat_alt word_less_nat_alt)
qed

lemma MAXVA_eq: "MAXVA = 2 ^ 38"
  by (simp add: MAXVA_def)

lemma below_MAXVA_bits:
  assumes "va < MAXVA" "38 \<le> n" shows "\<not> bit va n"
proof -
  have "take_bit 38 va = va"
    using assms(1)
    by (simp add: MAXVA_eq word_unat_eq_iff unsigned_take_bit_eq take_bit_nat_eq_self word_less_nat_alt)
  then show ?thesis
    using assms(2) by (metis bit_take_bit_iff not_le)
qed

lemma PX_inject:
  assumes "va < MAXVA" "va' < MAXVA" "page_aligned va" "page_aligned va'"
    and "PX 2 va = PX 2 va'" "PX 1 va = PX 1 va'" "PX 0 va = PX 0 va'"
  shows "va = va'"
proof (rule bit_word_eqI)
  fix n assume "n < LENGTH(64)"
  consider "n < 12" | "12 \<le> n \<and> n - 12 < 9" | "21 \<le> n \<and> n - 21 < 9" | "30 \<le> n \<and> n - 30 < 9"
    | "39 \<le> n"
    by linarith
  then show "bit va n = bit va' n"
  proof cases
    case 1 with assms(3,4) show ?thesis by (auto simp: page_aligned_bits)
  next
    case 2
    with assms(7) bit_PX [of 0 va "n - 12"] bit_PX [of 0 va' "n - 12"] show ?thesis by simp
  next
    case 3
    with assms(6) bit_PX [of 1 va "n - 21"] bit_PX [of 1 va' "n - 21"] show ?thesis by simp
  next
    case 4
    with assms(5) bit_PX [of 2 va "n - 30"] bit_PX [of 2 va' "n - 30"] show ?thesis by simp
  next
    case 5 with assms(1,2) show ?thesis by (simp add: below_MAXVA_bits)
  qed
qed

end
