(* ===== verification/Kstring.thy ===== *)
theory Kstring
  imports Riscv
begin

text \<open>
  The kernel's \<^verbatim>\<open>string.c\<close>. The block routines work on physical memory and keep the loops
  and the direction test of the source; the lemmas give their closed forms (what every byte
  is afterwards), which the components above use. The string routines take a buffer as the
  function from an index to the byte there, the view a \<^verbatim>\<open>char *\<close> gives.
\<close>

section \<open>Blocks of memory\<close>

function memset_loop :: "memory \<Rightarrow> addr \<Rightarrow> uint8 \<Rightarrow> nat \<Rightarrow> nat \<Rightarrow> memory" where
  "memset_loop m cdst c i n =
     (if i < n then memset_loop (m(cdst + of_nat i := c)) cdst c (Suc i) n else m)"
  by pat_completeness auto
termination
  by (relation "measure (\<lambda>(m, cdst, c, i, n). n - i)") auto

definition memset :: "memory \<Rightarrow> addr \<Rightarrow> uint8 \<Rightarrow> uint \<Rightarrow> memory" where
  "memset m dst c n = memset_loop m dst c 0 (unat n)"

fun memcmp :: "memory \<Rightarrow> addr \<Rightarrow> addr \<Rightarrow> nat \<Rightarrow> int" where
  "memcmp m s1 s2 0 = 0"
| "memcmp m s1 s2 (Suc n) =
     (if m s1 \<noteq> m s2 then uint (m s1) - uint (m s2) else memcmp m (s1 + 1) (s2 + 1) n)"

fun copy_up :: "memory \<Rightarrow> addr \<Rightarrow> addr \<Rightarrow> nat \<Rightarrow> memory" where
  "copy_up m d s 0 = m"
| "copy_up m d s (Suc n) = copy_up (m(d := m s)) (d + 1) (s + 1) n"

fun copy_down :: "memory \<Rightarrow> addr \<Rightarrow> addr \<Rightarrow> nat \<Rightarrow> memory" where
  "copy_down m d s 0 = m"
| "copy_down m d s (Suc n) = copy_down (m(d - 1 := m (s - 1))) (d - 1) (s - 1) n"

definition memmove :: "memory \<Rightarrow> addr \<Rightarrow> addr \<Rightarrow> uint \<Rightarrow> memory" where
  "memmove m dst src n =
     (if n = 0 then m
      else if src < dst \<and> src + ucast n > dst
      then copy_down m (dst + ucast n) (src + ucast n) (unat n)
      else copy_up m dst src (unat n))"

definition memcpy :: "memory \<Rightarrow> addr \<Rightarrow> addr \<Rightarrow> uint \<Rightarrow> memory" where
  "memcpy m dst src n = memmove m dst src n"

declare memset_loop.simps [simp del]

subsection \<open>Closed forms\<close>

lemma memset_loop_eq:
  assumes "n < 2 ^ 64"
  shows "memset_loop m dst c i n =
    (\<lambda>a. if i \<le> unat (a - dst) \<and> unat (a - dst) < n then c else m a)"
  using assms
proof (induction m dst c i n rule: memset_loop.induct)
  case (1 m dst c i n)
  show ?case
  proof (cases "i < n")
    case True
    have at: "unat (a - dst) = i \<longleftrightarrow> a = dst + of_nat i" for a
    proof
      assume "unat (a - dst) = i"
      then show "a = dst + of_nat i" by auto
    next
      assume "a = dst + of_nat i"
      with True 1(2) show "unat (a - dst) = i" by (simp add: unat_of_nat_addr)
    qed
    have "memset_loop m dst c i n = memset_loop (m(dst + of_nat i := c)) dst c (Suc i) n"
      using True by (subst memset_loop.simps) simp
    also have "\<dots> = (\<lambda>a. if Suc i \<le> unat (a - dst) \<and> unat (a - dst) < n then c
        else (m(dst + of_nat i := c)) a)"
      by (rule 1(1) [OF True 1(2)])
    also have "\<dots> = (\<lambda>a. if i \<le> unat (a - dst) \<and> unat (a - dst) < n then c else m a)"
      (is "?f = ?g")
    proof
      fix a show "?f a = ?g a"
        using True at [of a] by (cases "unat (a - dst) = i") simp_all
    qed
    finally show ?thesis .
  next
    case False
    then show ?thesis by (subst memset_loop.simps) (auto simp: fun_eq_iff)
  qed
qed

lemma memset_eq [mem_simps]: "memset m dst c n = (\<lambda>a. if a - dst < ucast n then c else m a)"
proof -
  have "unat n < 2 ^ 64" by (rule less_trans [OF unat_uint_less]) simp
  then show ?thesis
    by (simp add: memset_def memset_loop_eq fun_eq_iff word_less_nat_alt)
qed

lemma copy_up_eq:
  assumes "unat d + n \<le> 2 ^ 64" "unat s + n \<le> 2 ^ 64"
    and "d \<le> s \<or> unat s + n \<le> unat d"
  shows "copy_up m d s n a = (if unat (a - d) < n then m (s + (a - d)) else m a)"
  using assms
proof (induction n arbitrary: m d s)
  case 0
  then show ?case by simp
next
  case (Suc n)
  show ?case
  proof (cases "n = 0")
    case True
    then show ?thesis by (auto simp: unat_eq_0)
  next
    case False
    have d1: "unat (d + 1) = unat d + 1" and s1: "unat (s + 1) = unat s + 1"
      using Suc.prems False by (simp_all add: unat_add_no_wrap)
    have IH: "copy_up (m(d := m s)) (d + 1) (s + 1) n a =
      (if unat (a - (d + 1)) < n then (m(d := m s)) (s + 1 + (a - (d + 1))) else (m(d := m s)) a)"
      using Suc.prems d1 s1 by (intro Suc.IH) (auto simp: word_le_nat_alt)
    show ?thesis
    proof (cases "a = d")
      case True
      with Suc.prems IH show ?thesis by simp
    next
      case False
      then have pos: "unat (a - d) \<noteq> 0" by (simp add: unat_eq_0)
      have off: "unat (a - (d + 1)) = unat (a - d) - 1"
      proof -
        have "a - (d + 1) = (a - d) - 1" by simp
        then show ?thesis using unat_diff_1 [OF pos] by argo
      qed
      have src: "s + 1 + (a - (d + 1)) = s + (a - d)" by simp
      have "s + (a - d) \<noteq> d" if "unat (a - d) < Suc n"
      proof
        assume eq: "s + (a - d) = d"
        have "unat (s + (a - d)) = unat s + unat (a - d)"
          using that Suc.prems by (intro unat_add_no_wrap) simp
        with eq have "unat d = unat s + unat (a - d)" by metis
        with Suc.prems(3) pos that show False by (auto simp: word_le_nat_alt)
      qed
      with IH False pos off src show ?thesis by (auto simp: not_less)
    qed
  qed
qed

lemma copy_down_eq:
  assumes "unat d + n \<le> 2 ^ 64" "unat s + n \<le> 2 ^ 64" "s \<le> d"
  shows "copy_down m (d + of_nat n) (s + of_nat n) n a =
    (if unat (a - d) < n then m (s + (a - d)) else m a)"
  using assms
proof (induction n arbitrary: m)
  case 0
  then show ?case by simp
next
  case (Suc n)
  have nn: "unat (of_nat n :: addr) = n" using Suc.prems by (simp add: unat_of_nat_addr)
  have at: "a = d + of_nat n \<longleftrightarrow> unat (a - d) = n"
    using nn by auto
  have ends: "d + of_nat (Suc n) - 1 = d + of_nat n" "s + of_nat (Suc n) - 1 = s + of_nat n"
    by simp_all
  have step: "copy_down m (d + of_nat (Suc n)) (s + of_nat (Suc n)) (Suc n) a =
      (let m' = m(d + of_nat n := m (s + of_nat n))
       in if unat (a - d) < n then m' (s + (a - d)) else m' a)"
    unfolding copy_down.simps ends using Suc.prems by (subst Suc.IH) (simp_all add: Let_def)
  have "s + (a - d) \<noteq> d + of_nat n" if "unat (a - d) < n"
  proof
    assume eq: "s + (a - d) = d + of_nat n"
    have "unat (s + (a - d)) = unat s + unat (a - d)" "unat (d + of_nat n) = unat d + n"
      using that Suc.prems nn by (simp_all add: unat_add_no_wrap)
    with eq have "unat s + unat (a - d) = unat d + n" by metis
    with that Suc.prems(3) show False by (simp add: word_le_nat_alt)
  qed
  then show ?case
    unfolding step Let_def fun_upd_apply at by (auto simp: less_Suc_eq)
qed

text \<open>
  \<^verbatim>\<open>memmove\<close> copies as if through a temporary buffer, whatever the overlap, when neither
  block wraps around the end of the address space.
\<close>

lemma memmove_eq [mem_simps]:
  assumes "unat dst + unat n \<le> 2 ^ 64" "unat src + unat n \<le> 2 ^ 64"
  shows "memmove m dst src n = (\<lambda>a. if a - dst < ucast n then m (src + (a - dst)) else m a)"
proof (cases "n = 0")
  case True
  then show ?thesis by (simp add: memmove_def fun_eq_iff)
next
  case False
  then have pos: "0 < unat n" by (simp add: unat_gt_0)
  have num: "of_nat (unat n) = (ucast n :: addr)" by (simp add: of_nat_unat)
  show ?thesis
  proof (cases "src < dst \<and> src + ucast n > dst")
    case True
    then have "copy_down m (dst + of_nat (unat n)) (src + of_nat (unat n)) (unat n) a =
        (if unat (a - dst) < unat n then m (src + (a - dst)) else m a)" for a
      using assms by (intro copy_down_eq) auto
    with True False show ?thesis
      by (simp add: memmove_def fun_eq_iff word_less_nat_alt num)
  next
    case noov: False
    have "dst \<le> src \<or> unat src + unat n \<le> unat dst"
    proof (cases "unat src + unat n < 2 ^ 64")
      case True
      then have "unat (src + ucast n) = unat src + unat n" by (simp add: unat_add_no_wrap)
      with noov show ?thesis by (auto simp: word_less_nat_alt word_le_nat_alt)
    next
      case False
      with assms have "unat dst \<le> unat src" by linarith
      then show ?thesis by (simp add: word_le_nat_alt)
    qed
    then have "copy_up m dst src (unat n) a =
        (if unat (a - dst) < unat n then m (src + (a - dst)) else m a)" for a
      using assms by (intro copy_up_eq) auto
    with noov False show ?thesis
      by (auto simp: memmove_def fun_eq_iff word_less_nat_alt)
  qed
qed

section \<open>Strings\<close>

type_synonym cbuf = "nat \<Rightarrow> uint8"

fun strncmp_at :: "cbuf \<Rightarrow> cbuf \<Rightarrow> nat \<Rightarrow> nat \<Rightarrow> int" where
  "strncmp_at p q i 0 = 0"
| "strncmp_at p q i (Suc n) =
     (if p i \<noteq> 0 \<and> p i = q i then strncmp_at p q (Suc i) n else uint (p i) - uint (q i))"

definition strncmp :: "cbuf \<Rightarrow> cbuf \<Rightarrow> nat \<Rightarrow> int" where
  "strncmp p q n = strncmp_at p q 0 n"

fun pad_zero :: "cbuf \<Rightarrow> nat \<Rightarrow> nat \<Rightarrow> cbuf" where
  "pad_zero s i 0 = s"
| "pad_zero s i (Suc n) = pad_zero (s(i := 0)) (Suc i) n"

fun strncpy_at :: "cbuf \<Rightarrow> cbuf \<Rightarrow> nat \<Rightarrow> nat \<Rightarrow> cbuf" where
  "strncpy_at s t i 0 = s"
| "strncpy_at s t i (Suc n) =
     (if t i \<noteq> 0 then strncpy_at (s(i := t i)) t (Suc i) n else pad_zero (s(i := t i)) (Suc i) n)"

definition strncpy :: "cbuf \<Rightarrow> cbuf \<Rightarrow> nat \<Rightarrow> cbuf" where
  "strncpy s t n = strncpy_at s t 0 n"

fun safestrcpy_at :: "cbuf \<Rightarrow> cbuf \<Rightarrow> nat \<Rightarrow> nat \<Rightarrow> cbuf" where
  "safestrcpy_at s t i 0 = s"
| "safestrcpy_at s t i (Suc 0) = s(i := 0)"
| "safestrcpy_at s t i (Suc (Suc n)) =
     (if t i \<noteq> 0 then safestrcpy_at (s(i := t i)) t (Suc i) (Suc n)
      else (s(i := t i))(Suc i := 0))"

definition safestrcpy :: "cbuf \<Rightarrow> cbuf \<Rightarrow> int \<Rightarrow> cbuf" where
  "safestrcpy s t n = (if n \<le> 0 then s else safestrcpy_at s t 0 (nat n))"

partial_function (option) strlen_from :: "cbuf \<Rightarrow> nat \<Rightarrow> nat option" where
  "strlen_from s n = (if s n = 0 then Some n else strlen_from s (Suc n))"

definition strlen :: "cbuf \<Rightarrow> nat option" where
  "strlen s = strlen_from s 0"

lemma pad_zero_eq: "pad_zero s i n j = (if i \<le> j \<and> j < i + n then 0 else s j)"
  by (induction n arbitrary: s i) auto

lemma strncpy_at_eq:
  "strncpy_at s t i n j =
     (if j < i \<or> i + n \<le> j then s j
      else if \<forall>k. i \<le> k \<and> k < j \<longrightarrow> t k \<noteq> 0 then t j else 0)"
proof (induction n arbitrary: s i)
  case 0
  then show ?case by auto
next
  case (Suc n)
  show ?case
  proof (cases "t i = 0")
    case True
    then show ?thesis by (auto simp: pad_zero_eq not_less intro: le_neq_implies_less)
  next
    case False
    have "(\<forall>k. i \<le> k \<and> k < j \<longrightarrow> t k \<noteq> 0) \<longleftrightarrow> (\<forall>k. Suc i \<le> k \<and> k < j \<longrightarrow> t k \<noteq> 0)" if "i \<noteq> j"
      using False by (metis Suc_le_eq Suc_leD le_neq_implies_less)
    with Suc False show ?thesis by (cases "i = j") auto
  qed
qed

lemma strncpy_eq:
  "strncpy s t n j = (if n \<le> j then s j else if \<forall>k<j. t k \<noteq> 0 then t j else 0)"
  by (simp add: strncpy_def strncpy_at_eq)

lemma strncmp_at_zero_iff:
  "strncmp_at p q i n = 0 \<longleftrightarrow>
     (\<forall>d<n. (\<forall>k<d. p (i + k) \<noteq> 0) \<longrightarrow> p (i + d) = q (i + d))"
proof (induction n arbitrary: i)
  case 0
  then show ?case by simp
next
  case (Suc n)
  have split: "(\<forall>d<Suc n. P d) \<longleftrightarrow> P 0 \<and> (\<forall>d<n. P (Suc d))" for P
    by (metis Suc_less_eq not0_implies_Suc zero_less_Suc)
  have head: "(\<forall>k<Suc d. p (i + k) \<noteq> 0) \<longleftrightarrow> p i \<noteq> 0 \<and> (\<forall>k<d. p (Suc i + k) \<noteq> 0)" for d
    by (auto simp: less_Suc_eq_0_disj)
  show ?case
    unfolding split head using Suc [of "Suc i"]
    by (cases "p i = 0") (auto simp: word_uint_eq_iff)
qed

lemma strncmp_zero_iff:
  "strncmp p q n = 0 \<longleftrightarrow> (\<forall>j<n. (\<forall>k<j. p k \<noteq> 0) \<longrightarrow> p j = q j)"
  by (auto simp: strncmp_def strncmp_at_zero_iff)

lemma safestrcpy_at_spec:
  "\<exists>k. i \<le> k \<and> k \<le> i + n \<and> safestrcpy_at s t i (Suc n) k = 0 \<and>
     (\<forall>j. i \<le> j \<and> j < k \<longrightarrow> safestrcpy_at s t i (Suc n) j = t j \<and> t j \<noteq> 0) \<and>
     (k < i + n \<longrightarrow> t k = 0) \<and>
     (\<forall>j. j < i \<or> i + n < j \<longrightarrow> safestrcpy_at s t i (Suc n) j = s j)"
proof (induction n arbitrary: s i)
  case 0
  then show ?case by (auto intro: exI [of _ i])
next
  case (Suc n)
  show ?case
  proof (cases "t i = 0")
    case True
    then show ?thesis by (auto intro!: exI [of _ i])
  next
    case False
    let ?r = "safestrcpy_at (s(i := t i)) t (Suc i) (Suc n)"
    from Suc [of "Suc i" "s(i := t i)"] obtain k where k: "Suc i \<le> k" "k \<le> Suc i + n" "?r k = 0"
      "\<forall>j. Suc i \<le> j \<and> j < k \<longrightarrow> ?r j = t j \<and> t j \<noteq> 0" "k < Suc i + n \<longrightarrow> t k = 0"
      "\<forall>j. j < Suc i \<or> Suc i + n < j \<longrightarrow> ?r j = (s(i := t i)) j"
      by blast
    have eq: "safestrcpy_at s t i (Suc (Suc n)) = ?r" using False by simp
    have "?r j = t j \<and> t j \<noteq> 0" if "i \<le> j" "j < k" for j
      using that k(4,6) False by (cases "i = j") auto
    moreover have "?r j = s j" if "j < i \<or> i + Suc n < j" for j
      using that k(6) by auto
    ultimately show ?thesis
      unfolding eq using k by (intro exI [of _ k]) auto
  qed
qed

lemma strlen_from_Some:
  "(\<And>j. n \<le> j \<Longrightarrow> j < k \<Longrightarrow> s j \<noteq> 0) \<Longrightarrow> s k = 0 \<Longrightarrow> n \<le> k \<Longrightarrow> strlen_from s n = Some k"
proof (induction "k - n" arbitrary: n)
  case 0
  then show ?case by (simp add: strlen_from.simps)
next
  case (Suc d)
  then have "n < k" by simp
  with Suc.prems(1) have "s n \<noteq> 0" by simp
  moreover have "strlen_from s (Suc n) = Some k"
    using Suc \<open>n < k\<close> by (intro Suc.hyps(1)) auto
  ultimately show ?case by (simp add: strlen_from.simps [of s n])
qed

lemma strlen_Some: "(\<And>j. j < k \<Longrightarrow> s j \<noteq> 0) \<Longrightarrow> s k = 0 \<Longrightarrow> strlen s = Some k"
  unfolding strlen_def by (rule strlen_from_Some) auto

section \<open>Properties\<close>

text \<open>
  C37: \<^verbatim>\<open>memmove\<close> behaves as a copy through a temporary buffer even when source and
  destination overlap in either direction: every destination byte is the source byte as it
  was before the call, and every other byte of memory is unchanged.
\<close>

theorem memmove_overlap_safe:
  assumes "unat dst + unat n \<le> 2 ^ 64" and "unat src + unat n \<le> 2 ^ 64"
  shows "(\<forall>i. i < ucast n \<longrightarrow> memmove m dst src n (dst + i) = m (src + i)) \<and>
    (\<forall>a. \<not> a - dst < ucast n \<longrightarrow> memmove m dst src n a = m a)"
  by (simp add: memmove_eq [OF assms])

theorem memmove_overlap_safe_witness:
  "memmove (\<lambda>a. ucast a) 0x1002 0x1000 4 0x1003 = 1 \<and> memmove (\<lambda>a. ucast a) 0x1002 0x1000 4 0x1006 = 6"
proof -
  note inst = memmove_overlap_safe [of "0x1002" 4 "0x1000" "\<lambda>a. ucast a"]
  have "memmove (\<lambda>a. ucast a) 0x1002 0x1000 4 (0x1002 + 1) = ucast (0x1000 + 1 :: addr)"
    by (rule inst [THEN conjunct1, rule_format]) (simp_all add: word_less_nat_alt)
  moreover have "memmove (\<lambda>a. ucast a) 0x1002 0x1000 4 0x1006 = ucast (0x1006 :: addr)"
    by (rule inst [THEN conjunct2, rule_format]) (simp_all add: word_less_nat_alt)
  ultimately show ?thesis by simp
qed

end
