(* ===== verification/Utils.thy ===== *)
theory Utils
  imports Filters Kstring
begin

text \<open>
  The rest of the user library (\<^verbatim>\<open>ulib.c\<close>, \<^verbatim>\<open>printf.c\<close>) and small user programs: \<^verbatim>\<open>ls.c\<close>, \<^verbatim>\<open>echo.c\<close>, \<^verbatim>\<open>rm.c\<close>,
  \<^verbatim>\<open>mkdir.c\<close>, \<^verbatim>\<open>ln.c\<close>, \<^verbatim>\<open>kill.c\<close>, \<^verbatim>\<open>init.c\<close>, \<^verbatim>\<open>ps.c\<close>, \<^verbatim>\<open>time.c\<close>, \<^verbatim>\<open>vatopa.c\<close> and \<^verbatim>\<open>schedset.c\<close>. What the kernel answers is an argument: a function from the state of
  the system for calls that change it, the list of the answers for \<^verbatim>\<open>fork\<close> and \<^verbatim>\<open>wait\<close>. C strings are character
  lists without the closing NUL; writes to descriptors 1 and 2 go to the screen.
\<close>

section \<open>The user library\<close>

partial_function (option) strcpy_at :: "cbuf \<Rightarrow> cbuf \<Rightarrow> nat \<Rightarrow> cbuf option" where
  "strcpy_at s t i = (if t i = 0 then Some (s(i := t i)) else strcpy_at (s(i := t i)) t (Suc i))"

definition strcpy :: "cbuf \<Rightarrow> cbuf \<Rightarrow> cbuf option" where
  "strcpy s t = strcpy_at s t 0"

text \<open>The length is an \<^verbatim>\<open>int\<close>; nothing is copied when it is negative.\<close>

definition umemmove :: "memory \<Rightarrow> addr \<Rightarrow> addr \<Rightarrow> int \<Rightarrow> memory" where
  "umemmove m dst src n =
     (if dst < src then copy_up m dst src (nat n)
      else copy_down m (dst + of_int n) (src + of_int n) (nat n))"

definition umemset :: "memory \<Rightarrow> addr \<Rightarrow> uint8 \<Rightarrow> uint \<Rightarrow> memory" where
  "umemset m dst c n = memset_loop m dst c 0 (unat n)"

definition umemcpy :: "memory \<Rightarrow> addr \<Rightarrow> addr \<Rightarrow> uint \<Rightarrow> memory" where
  "umemcpy m dst src n = umemmove m dst src (sint n)"

fun umemcmp :: "memory \<Rightarrow> addr \<Rightarrow> addr \<Rightarrow> nat \<Rightarrow> int" where
  "umemcmp m p1 p2 0 = 0"
| "umemcmp m p1 p2 (Suc n) = (if m p1 \<noteq> m p2 then uint (m p1) - uint (m p2) else umemcmp m (p1 + 1) (p2 + 1) n)"

definition uprintf :: "string \<Rightarrow> printf_arg list \<Rightarrow> screen \<Rightarrow> screen kres" where
  "uprintf fmt ap t = kbind (vprintf fmt False ap) (\<lambda>out. Inr (put_out out t))"

definition fprintf2 :: "string \<Rightarrow> printf_arg list \<Rightarrow> screen \<Rightarrow> screen kres" where
  "fprintf2 fmt ap t = kbind (vprintf fmt False ap) (\<lambda>out. Inr (put_err out t))"

text \<open>\<^verbatim>\<open>memmove\<close> of the library copies through every overlap, like that of the kernel.\<close>

lemma umemmove_eq:
  assumes "unat dst + nat n \<le> 2 ^ 64" "unat src + nat n \<le> 2 ^ 64" "0 \<le> n"
  shows "umemmove m dst src n a = (if unat (a - dst) < nat n then m (src + (a - dst)) else m a)"
proof (cases "dst < src")
  case True
  then show ?thesis using copy_up_eq [OF assms(1,2) disjI1 [OF order_less_imp_le]] by (simp add: umemmove_def)
next
  case False
  have "(of_int n :: addr) = of_nat (nat n)" using assms(3) by simp
  then have "umemmove m dst src n = copy_down m (dst + of_nat (nat n)) (src + of_nat (nat n)) (nat n)"
    using False by (simp only: umemmove_def if_False)
  moreover have "src \<le> dst" using False by simp
  ultimately show ?thesis using copy_down_eq [OF assms(1,2), of m a] by simp
qed

lemma strcpy_at_eq:
  assumes "t n = 0" "\<And>k. i \<le> k \<Longrightarrow> k < n \<Longrightarrow> t k \<noteq> 0" "i \<le> n"
  shows "strcpy_at s t i = Some (\<lambda>k. if i \<le> k \<and> k \<le> n then t k else s k)"
  using assms
proof (induction "n - i" arbitrary: s i)
  case 0
  then show ?case by (subst strcpy_at.simps) (auto simp: fun_eq_iff)
next
  case (Suc d)
  then have "i < n" "t i \<noteq> 0" by auto
  moreover have "strcpy_at (s(i := t i)) t (Suc i) = Some (\<lambda>k. if Suc i \<le> k \<and> k \<le> n then t k else (s(i := t i)) k)"
    using Suc by (intro Suc.hyps(1)) auto
  ultimately show ?case by (subst strcpy_at.simps) (auto simp: fun_eq_iff)
qed

lemma strcpy_copies:
  assumes "t n = 0" "\<And>k. k < n \<Longrightarrow> t k \<noteq> 0"
  shows "strcpy s t = Some (\<lambda>k. if k \<le> n then t k else s k)"
  using strcpy_at_eq [of t n 0 s] assms by (simp add: strcpy_def)

section \<open>ls\<close>

record ustat =
  us_type :: uint16
  us_ino :: uint
  us_size :: uint64

text \<open>
  What \<^verbatim>\<open>open\<close>, \<^verbatim>\<open>fstat\<close> and the reads of a directory answer. A \<^verbatim>\<open>struct dirent\<close> is its number and its 14
  characters.
\<close>

record tree =
  opens :: "string \<Rightarrow> bool"
  fstats :: "string \<Rightarrow> ustat option"
  dirents :: "string \<Rightarrow> (uint16 \<times> string) list"

definition NAME :: nat where "NAME = 14"

definition ustat_call :: "tree \<Rightarrow> string \<Rightarrow> ustat option" where
  "ustat_call f n = (if opens f n then fstats f n else None)"

text \<open>The pointer \<^verbatim>\<open>p\<close> runs from the end of the path to the last slash; the second argument is one more than its distance from the start.\<close>

fun name_start :: "string \<Rightarrow> nat \<Rightarrow> nat" where
  "name_start path 0 = 0"
| "name_start path (Suc i) = (if path ! i = CHR ''/'' then Suc i else name_start path i)"

definition fmtname :: "string \<Rightarrow> string" where
  "fmtname path =
     (let p = drop (name_start path (length path)) path
      in if NAME \<le> length p then p else p @ replicate (NAME - length p) (CHR '' ''))"

fun ls_entries :: "tree \<Rightarrow> string \<Rightarrow> (uint16 \<times> string) list \<Rightarrow> screen \<Rightarrow> screen kres" where
  "ls_entries f path [] t = Inr t"
| "ls_entries f path ((inum, name) # des) t =
     (if inum = 0 then ls_entries f path des t
      else let buf = path @ ''/'' @ takeWhile (\<lambda>c. c \<noteq> CHR 0x00) (take NAME name) in
        kbind (case ustat_call f buf of
            None \<Rightarrow> uprintf (''ls: cannot stat %s'' @ [newline]) [ArgStr (Some buf)] t
          | Some st \<Rightarrow> uprintf (''%s %d %d %d'' @ [newline])
              [ArgStr (Some (fmtname buf)), ArgInt (scast (us_type st)), ArgInt (us_ino st), ArgInt (ucast (us_size st))] t)
          (ls_entries f path des))"

definition ls :: "tree \<Rightarrow> string \<Rightarrow> screen \<Rightarrow> screen kres" where
  "ls f path t =
     (if \<not> opens f path then fprintf2 (''ls: cannot open %s'' @ [newline]) [ArgStr (Some path)] t
      else case fstats f path of
        None \<Rightarrow> fprintf2 (''ls: cannot stat %s'' @ [newline]) [ArgStr (Some path)] t
      | Some st \<Rightarrow>
          if us_type st = 3 \<or> us_type st = 2
          then uprintf (''%s %d %d %l'' @ [newline])
            [ArgStr (Some (fmtname path)), ArgInt (scast (us_type st)), ArgInt (us_ino st), ArgLong (us_size st)] t
          else if us_type st = 1
          then if 512 < length path + 1 + NAME + 1 then uprintf (''ls: path too long'' @ [newline]) [] t
            else ls_entries f path (dirents f path) t
          else Inr t)"

definition ls_main :: "tree \<Rightarrow> string list \<Rightarrow> screen \<Rightarrow> (screen \<times> int) kres" where
  "ls_main f argv t =
     (if length argv < 2 then kbind (ls f ''.'' t) (\<lambda>t. Inr (t, 0))
      else kbind (fold (\<lambda>a r. kbind r (ls f a)) (tl argv) (Inr t)) (\<lambda>t. Inr (t, 0)))"

text \<open>The name in a line of \<^verbatim>\<open>ls\<close> is what follows the last slash, filled up to the width of the column.\<close>

lemma name_start_le: "name_start path i \<le> i"
  by (induction i) auto

lemma name_start_at: "i \<le> length path \<Longrightarrow> drop (name_start path i) (take i path) = rev (takeWhile (\<lambda>c. c \<noteq> CHR ''/'') (rev (take i path)))"
  by (induction i) (simp_all add: take_Suc_conv_app_nth name_start_le)

lemma fmtname_eq:
  "fmtname path = (let p = rev (takeWhile (\<lambda>c. c \<noteq> CHR ''/'') (rev path)) in p @ replicate (NAME - length p) (CHR '' ''))"
  using name_start_at [of "length path" path] by (simp add: fmtname_def Let_def)

lemma fmtname_entry: "CHR ''/'' \<notin> set n \<Longrightarrow> fmtname (path @ ''/'' @ n) = n @ replicate (NAME - length n) (CHR '' '')"
proof -
  assume "CHR ''/'' \<notin> set n"
  then have "takeWhile (\<lambda>c. c \<noteq> CHR ''/'') (rev (path @ ''/'' @ n)) = rev n"
    using takeWhile_append2 [of "rev n" "\<lambda>c. c \<noteq> CHR ''/''" "''/'' @ rev path"] by auto
  then show ?thesis by (simp add: fmtname_eq Let_def)
qed

section \<open>Programs that call the kernel for each argument\<close>

fun echo_loop :: "string list \<Rightarrow> screen \<Rightarrow> screen" where
  "echo_loop [] t = t"
| "echo_loop [a] t = put_out [newline] (put_out a t)"
| "echo_loop (a # b # as) t = echo_loop (b # as) (put_out '' '' (put_out a t))"

definition echo_main :: "string list \<Rightarrow> screen \<Rightarrow> screen \<times> int" where
  "echo_main argv t = (echo_loop (tl argv) t, 0)"

lemma echo_prints: "as \<noteq> [] \<Longrightarrow> t_out (echo_loop as t) = t_out t @ concat (map (\<lambda>a. a @ '' '') (butlast as)) @ last as @ [newline]"
  by (induction as t rule: echo_loop.induct) auto

fun until_fails :: "(string \<Rightarrow> 's \<Rightarrow> int \<times> 's) \<Rightarrow> string \<Rightarrow> string list \<Rightarrow> screen \<Rightarrow> 's \<Rightarrow> (screen \<times> 's) kres" where
  "until_fails call msg [] t s = Inr (t, s)"
| "until_fails call msg (a # as) t s =
     (let (r, s) = call a s in
      if r < 0 then kbind (fprintf2 msg [ArgStr (Some a)] t) (\<lambda>t. Inr (t, s))
      else until_fails call msg as t s)"

definition rm_main :: "(string \<Rightarrow> 's \<Rightarrow> int \<times> 's) \<Rightarrow> string list \<Rightarrow> screen \<Rightarrow> 's \<Rightarrow> (screen \<times> 's \<times> int) kres" where
  "rm_main unlink argv t s =
     (if length argv < 2 then kbind (fprintf2 (''Usage: rm files...'' @ [newline]) [] t) (\<lambda>t. Inr (t, s, 1))
      else kbind (until_fails unlink (''rm: %s failed to delete'' @ [newline]) (tl argv) t s) (\<lambda>(t, s). Inr (t, s, 0)))"

definition mkdir_main :: "(string \<Rightarrow> 's \<Rightarrow> int \<times> 's) \<Rightarrow> string list \<Rightarrow> screen \<Rightarrow> 's \<Rightarrow> (screen \<times> 's \<times> int) kres" where
  "mkdir_main mkdir argv t s =
     (if length argv < 2 then kbind (fprintf2 (''Usage: mkdir files...'' @ [newline]) [] t) (\<lambda>t. Inr (t, s, 1))
      else kbind (until_fails mkdir (''mkdir: %s failed to create'' @ [newline]) (tl argv) t s) (\<lambda>(t, s). Inr (t, s, 0)))"

definition ln_main :: "(string \<Rightarrow> string \<Rightarrow> 's \<Rightarrow> int \<times> 's) \<Rightarrow> string list \<Rightarrow> screen \<Rightarrow> 's \<Rightarrow> (screen \<times> 's \<times> int) kres" where
  "ln_main link argv t s =
     (if length argv \<noteq> 3 then kbind (fprintf2 (''Usage: ln old new'' @ [newline]) [] t) (\<lambda>t. Inr (t, s, 1))
      else let (r, s) = link (argv ! 1) (argv ! 2) s in
        if r < 0 then kbind (fprintf2 (''link %s %s: failed'' @ [newline]) [ArgStr (Some (argv ! 1)), ArgStr (Some (argv ! 2))] t)
            (\<lambda>t. Inr (t, s, 0))
        else Inr (t, s, 0))"

definition kill_main :: "(uint \<Rightarrow> 's \<Rightarrow> int \<times> 's) \<Rightarrow> string list \<Rightarrow> screen \<Rightarrow> 's \<Rightarrow> (screen \<times> 's \<times> int) kres" where
  "kill_main kill argv t s =
     (if length argv < 2 then kbind (fprintf2 (''usage: kill pid...'' @ [newline]) [] t) (\<lambda>t. Inr (t, s, 1))
      else Inr (t, fold (\<lambda>a s. snd (kill (atoi a) s)) (tl argv) s, 0))"

text \<open>The calls are made in order up to the first that fails; the complaint names it.\<close>

lemma until_fails_all:
  "(\<And>a s. a \<in> set as \<Longrightarrow> 0 \<le> fst (call a s)) \<Longrightarrow> until_fails call msg as t s = Inr (t, fold (\<lambda>a s. snd (call a s)) as s)"
  by (induction as arbitrary: s) (auto simp: split_beta not_less[symmetric])

lemma until_fails_first:
  "(\<And>b s. b \<in> set as \<Longrightarrow> 0 \<le> fst (call b s)) \<Longrightarrow> call a (fold (\<lambda>a s. snd (call a s)) as s) = (r, s') \<Longrightarrow> r < 0 \<Longrightarrow>
    until_fails call msg (as @ a # bs) t s = kbind (fprintf2 msg [ArgStr (Some a)] t) (\<lambda>t. Inr (t, s'))"
  by (induction as arbitrary: s) (auto simp: split_beta not_less[symmetric])

section \<open>init\<close>

text \<open>The calls that give \<^verbatim>\<open>init\<close> its descriptors; \<open>r\<close> is the answer of the first \<^verbatim>\<open>open\<close>.\<close>

datatype init_call = Open_console | Mknod_console | Dup0

definition init_setup :: "int \<Rightarrow> init_call list" where
  "init_setup r = (if r < 0 then [Open_console, Mknod_console, Open_console] else [Open_console]) @ [Dup0, Dup0]"

text \<open>The inner loop: \<open>None\<close> when it still waits.\<close>

fun init_reap :: "int \<Rightarrow> int list \<Rightarrow> unit run option \<times> int list" where
  "init_reap pid [] = (None, [])"
| "init_reap pid (wpid # ws) =
     (if wpid = pid then (Some (Returned ()), ws) else if wpid < 0 then (Some (Exited 1), ws) else init_reap pid ws)"

text \<open>The child; \<^verbatim>\<open>exec\<close> returns only when it fails.\<close>

definition init_child :: "screen \<Rightarrow> screen \<times> int" where
  "init_child t = (put_out (''init: exec sh failed'' @ [newline]) t, 1)"

text \<open>
  The outer loop, over the answers of \<^verbatim>\<open>fork\<close> and \<^verbatim>\<open>wait\<close>; the state is \<open>None\<close> when it goes on. An answer 0 makes it the
  child.
\<close>

fun init_loop :: "int list \<Rightarrow> int list \<Rightarrow> screen \<Rightarrow> screen \<times> int option" where
  "init_loop [] ws t = (put_out (''init: starting sh'' @ [newline]) t, None)"
| "init_loop (pid # pids) ws t =
     (let t = put_out (''init: starting sh'' @ [newline]) t in
      if pid < 0 then (put_out (''init: fork failed'' @ [newline]) t, Some 1)
      else if pid = 0 then (case init_child t of (t, r) \<Rightarrow> (t, Some r))
      else case init_reap pid ws of
        (None, _) \<Rightarrow> (t, None)
      | (Some (Exited r), _) \<Rightarrow> (put_out (''init: wait returned an error'' @ [newline]) t, Some r)
      | (Some (Returned _), ws) \<Rightarrow> init_loop pids ws t)"

lemma init_reap_cases:
  "init_reap pid ws = (r, ws') \<Longrightarrow> set ws' \<subseteq> set ws \<and> (\<forall>n. r = Some (Exited n) \<longrightarrow> (\<exists>w\<in>set ws. w < 0)) \<and>
    (r = Some (Returned ()) \<longrightarrow> (\<exists>us. ws = us @ pid # ws' \<and> pid \<notin> set us))"
proof (induction pid ws rule: init_reap.induct)
  case (2 pid wpid ws)
  then show ?case by (cases "wpid = pid") (auto split: if_splits intro: exI [of _ "wpid # us" for us])
qed simp

text \<open>\<^verbatim>\<open>init\<close> ends only when \<^verbatim>\<open>fork\<close> or \<^verbatim>\<open>wait\<close> has failed, however many shells and orphans exit.\<close>

lemma init_goes_on: "\<forall>pid\<in>set pids. 0 < pid \<Longrightarrow> \<forall>w\<in>set ws. 0 \<le> w \<Longrightarrow> snd (init_loop pids ws t) = None"
proof (induction pids ws t rule: init_loop.induct)
  case (2 pid pids ws t)
  obtain r ws' where r: "init_reap pid ws = (r, ws')" by fastforce
  have w: "\<forall>w\<in>set ws'. 0 \<le> w" "\<forall>n. r \<noteq> Some (Exited n)"
    using init_reap_cases [OF r] 2(3) by force+
  show ?case
  proof (cases r)
    case (Some x)
    then have "r = Some (Returned ())" using w(2) by (cases x) auto
    then show ?thesis using 2 r w(1) by simp
  qed (use 2 r in simp)
qed simp

section \<open>Process tools\<close>

text \<open>The fields of a \<^verbatim>\<open>struct user_proc\<close> that \<^verbatim>\<open>ps\<close> reads; state 0 is \<^verbatim>\<open>UNUSED\<close>.\<close>

record uproc =
  u_state :: uint
  u_pid :: uint
  u_name :: string

text \<open>The inner loop: whether the program ends there.\<close>

fun ps_print :: "uproc list \<Rightarrow> screen \<Rightarrow> (screen \<times> bool) kres" where
  "ps_print [] t = Inr (t, False)"
| "ps_print (p # ps) t =
     (if u_state p = 0 then Inr (t, True)
      else kbind (uprintf (''%s (%d): %d'' @ [newline]) [ArgStr (Some (u_name p)), ArgInt (u_pid p), ArgInt (u_state p)] t) (ps_print ps))"

text \<open>\<open>procs i\<close> is the pair of entries that \<^verbatim>\<open>ps(i, 2)\<close> gives; the call cuts the index to a byte. The loop has no bound of its own.\<close>

partial_function (option) ps_from :: "(8 word \<Rightarrow> uproc list option) \<Rightarrow> uint16 \<Rightarrow> screen \<Rightarrow> (screen \<times> int) kres option" where
  "ps_from procs proc_idx t =
     (case procs (ucast proc_idx) of
        None \<Rightarrow> Some (kbind (uprintf ''SYSCALL FAILED'' [] t) (\<lambda>t. Inr (t, -1)))
      | Some ps \<Rightarrow> (case ps_print ps t of
          Inl e \<Rightarrow> Some (Inl e)
        | Inr x \<Rightarrow> if snd x then Some (Inr (fst x, 0)) else ps_from procs (proc_idx + 2) (fst x)))"

definition ps_main :: "(8 word \<Rightarrow> uproc list option) \<Rightarrow> screen \<Rightarrow> (screen \<times> int) kres option" where
  "ps_main procs t = ps_from procs 0 t"

text \<open>
  \<^verbatim>\<open>time\<close>: \<open>start\<close> and \<open>stop\<close> are what \<^verbatim>\<open>uptime\<close> answers, \<open>pid\<close> what \<^verbatim>\<open>fork\<close> answers. With answer 0 it is the child,
  in which \<^verbatim>\<open>exec\<close> has failed.
\<close>

definition time_main :: "uint \<Rightarrow> int \<Rightarrow> uint \<Rightarrow> string list \<Rightarrow> screen \<Rightarrow> (screen \<times> int) kres" where
  "time_main start pid stop argv t =
     (if length argv < 2
      then kbind (uprintf (''Time took 0 ticks'' @ [newline]) [] t) (\<lambda>t.
        kbind (uprintf (''Usage: time [exec] [arg1 arg2 ...]'' @ [newline]) [] t) (\<lambda>t. Inr (t, 1)))
      else if pid < 0 then kbind (uprintf (''fork failed... couldn'' @ [CHR 0x27] @ ''t start %s'') [ArgStr (Some (argv ! 1))] t) (\<lambda>t. Inr (t, 1))
      else if pid = 0 then Inr (t, 0)
      else kbind (uprintf (''Executing %s took %d ticks'' @ [newline]) [ArgStr (Some (argv ! 1)), ArgInt (stop - start)] t)
        (\<lambda>t. Inr (t, 0)))"

definition vatopa_main :: "(uint64 \<Rightarrow> uint \<Rightarrow> uint64) \<Rightarrow> string list \<Rightarrow> screen \<Rightarrow> (screen \<times> int) kres" where
  "vatopa_main va2pa argv t =
     (if length argv < 2 \<or> 3 < length argv then kbind (uprintf (''Usage: vatopa virtual_address [pid]'' @ [newline]) [] t) (\<lambda>t. Inr (t, 1))
      else let va = scast (atoi (argv ! 1)); pid = (if length argv = 3 then atoi (argv ! 2) else 0) in
        kbind (uprintf (''0x%x'' @ [newline]) [ArgInt (ucast (va2pa va pid))] t) (\<lambda>t. Inr (t, 0)))"

text \<open>The first character of an empty argument is its NUL.\<close>

definition schedset_main :: "(int \<Rightarrow> 's \<Rightarrow> 's) \<Rightarrow> string list \<Rightarrow> screen \<Rightarrow> 's \<Rightarrow> (screen \<times> 's \<times> int) kres" where
  "schedset_main schedset argv t s =
     (if length argv \<noteq> 2 then kbind (uprintf (''Usage: schedset [SCHED ID]'' @ [newline]) [] t) (\<lambda>t. Inr (t, s, 1))
      else let schedid = (if argv ! 1 = [] then 0 else of_char (hd (argv ! 1))) - 48 in Inr (t, schedset schedid s, 0))"

text \<open>\<^verbatim>\<open>ps\<close> lists the entries up to the first unused one, two at a time.\<close>

definition ps_line :: "uproc \<Rightarrow> string" where
  "ps_line p = u_name p @ '' ('' @ user_printint (u_pid p) 10 True @ ''): '' @ user_printint (u_state p) 10 True @ [newline]"

lemma ps_print_lines:
  "ps_print ps t = Inr (put_out (concat (map ps_line (takeWhile (\<lambda>p. u_state p \<noteq> 0) ps))) t, \<exists>p\<in>set ps. u_state p = 0)"
proof (induction ps arbitrary: t)
  case (Cons p ps)
  have "uprintf (''%s (%d): %d'' @ [newline]) [ArgStr (Some (u_name p)), ArgInt (u_pid p), ArgInt (u_state p)] t = Inr (put_out (ps_line p) t)"
    by (simp add: uprintf_def ps_line_def str_arg_def newline_def)
  then show ?case using Cons by simp
qed simp

end
