(* ===== verification/Kalloc.thy ===== *)
theory Kalloc
  imports Kstring
begin

text \<open>
  The physical page allocator, \<^verbatim>\<open>kalloc.c\<close>. The free list is threaded through the free
  pages themselves, in physical memory; \<open>flist\<close> relates it to the list of free pages it
  stands for. The invariant \<open>kmem_inv\<close> ties the list, its length, the counter
  \<^verbatim>\<open>FREE_PAGES\<close> and the address range together. The locale \<open>page_allocator\<close> is the contract
  the rest of the kernel relies on, interpreted on \<open>kalloc\<close> and \<open>kfree\<close>. Spinlock calls are
  left out: each routine runs with the locks it needs (see theory Spinlock). The fields
  \<open>kend\<close>, \<open>etext\<close> and \<open>trampoline\<close> hold the addresses the linker gives to the symbols
  \<^verbatim>\<open>end\<close>, \<^verbatim>\<open>etext\<close> and \<^verbatim>\<open>trampoline\<close>; no routine changes them.
\<close>

record kmem =
  mem :: memory
  freelist :: addr
  refcounts :: "uint64 \<Rightarrow> uint8"
  MAX_PAGES :: uint64
  FREE_PAGES :: uint64
  kend :: addr
  etext :: addr
  trampoline :: addr

definition NPHYSPAGES :: uint64 where
  "NPHYSPAGES = (PHYSTOP - KERNBASE) div PGSIZE"

definition pa_to_idx :: "uint64 \<Rightarrow> uint64" where
  "pa_to_idx pa = (pa - KERNBASE) div PGSIZE"

definition kfree :: "addr \<Rightarrow> 'a kmem_scheme \<Rightarrow> 'a kmem_scheme kres" where
  "kfree pa s =
     kbind (if MAX_PAGES s \<noteq> 0 then kassert (FREE_PAGES s < MAX_PAGES s) else Inr ()) (\<lambda>_.
     if pa mod PGSIZE \<noteq> 0 \<or> pa < kend s \<or> PHYSTOP \<le> pa then Inl (Panic ''kfree'')
     else Inr (s\<lparr>mem := write64 (memset (mem s) pa 1 4096) pa (freelist s),
                 freelist := pa,
                 FREE_PAGES := FREE_PAGES s + 1\<rparr>))"

definition refcount_at :: "addr \<Rightarrow> 'a kmem_scheme \<Rightarrow> uint8" where
  "refcount_at pa s = refcounts s (pa_to_idx pa)"

definition set_refcount :: "addr \<Rightarrow> uint8 \<Rightarrow> 'a kmem_scheme \<Rightarrow> 'a kmem_scheme kres" where
  "set_refcount pa v s =
     (if pa_to_idx pa < NPHYSPAGES
      then Inr (s\<lparr>refcounts := (refcounts s)(pa_to_idx pa := v)\<rparr>)
      else Inl (Undef ''refcounts''))"

definition kref_inc :: "addr \<Rightarrow> 'a kmem_scheme \<Rightarrow> 'a kmem_scheme kres" where
  "kref_inc pa s = set_refcount pa (refcount_at pa s + 1) s"

definition kref_dec :: "addr \<Rightarrow> 'a kmem_scheme \<Rightarrow> 'a kmem_scheme kres" where
  "kref_dec pa s =
     kbind (set_refcount pa (refcount_at pa s - 1) s) (\<lambda>s.
     let ref = uint (refcount_at pa s)
     in if ref = 0 then kfree pa s else Inr s)"

definition kalloc :: "'a kmem_scheme \<Rightarrow> (addr \<times> 'a kmem_scheme) kres" where
  "kalloc s =
     kbind (kassert (FREE_PAGES s > 0)) (\<lambda>_.
     let r = freelist s in
     kbind (if r \<noteq> 0
            then set_refcount r 1
                   (s\<lparr>freelist := read64 (mem s) r, mem := memset (mem s) r 5 4096\<rparr>)
            else Inr s) (\<lambda>s.
     Inr (r, s\<lparr>FREE_PAGES := FREE_PAGES s - 1\<rparr>)))"

lemma kfree_below_PHYSTOP: "kfree pa s = Inr s' \<Longrightarrow> pa < PHYSTOP \<and> pa \<ge> kend s"
  by (auto simp: kfree_def kres_simps split: if_splits)

function freerange_loop :: "addr \<Rightarrow> addr \<Rightarrow> 'a kmem_scheme \<Rightarrow> 'a kmem_scheme kres" where
  "freerange_loop p pa_end s =
     (if p + PGSIZE \<le> pa_end
      then kbind (kfree p s) (\<lambda>s. freerange_loop (p + PGSIZE) pa_end s)
      else Inr s)"
  by pat_completeness auto
termination
proof (relation "measure (\<lambda>(p, pa_end, s). unat PHYSTOP - unat p)", goal_cases)
  case 1
  then show ?case by simp
next
  case (2 p pa_end s s')
  then have "p < PHYSTOP" by (auto dest: kfree_below_PHYSTOP)
  moreover from this have "unat (p + PGSIZE) = unat p + unat PGSIZE"
    by (intro unat_add_no_wrap) (simp add: word_less_nat_alt layout_defs)
  ultimately show ?case by (simp add: word_less_nat_alt layout_defs)
qed

definition freerange :: "addr \<Rightarrow> addr \<Rightarrow> 'a kmem_scheme \<Rightarrow> 'a kmem_scheme kres" where
  "freerange pa_start pa_end s = freerange_loop (PGROUNDUP pa_start) pa_end s"

definition kinit :: "'a kmem_scheme \<Rightarrow> 'a kmem_scheme kres" where
  "kinit s = kbind (freerange (kend s) PHYSTOP s) (\<lambda>s. Inr (s\<lparr>MAX_PAGES := FREE_PAGES s\<rparr>))"

declare freerange_loop.simps [simp del]

section \<open>The free list in memory\<close>

fun flist :: "memory \<Rightarrow> addr \<Rightarrow> addr list \<Rightarrow> bool" where
  "flist m a [] \<longleftrightarrow> a = 0"
| "flist m a (x # xs) \<longleftrightarrow> a = x \<and> a \<noteq> 0 \<and> flist m (read64 m x) xs"

lemma flist_unique: "flist m a xs \<Longrightarrow> flist m a ys \<Longrightarrow> xs = ys"
proof (induction xs arbitrary: a ys)
  case Nil
  then show ?case by (cases ys) auto
next
  case (Cons x xs)
  then show ?case by (cases ys) auto
qed

text \<open>Only the first eight bytes of the free pages matter.\<close>

lemma flist_cong:
  "(\<And>x. x \<in> set xs \<Longrightarrow> read64 m x = read64 m' x) \<Longrightarrow> flist m a xs \<longleftrightarrow> flist m' a xs"
  by (induction xs arbitrary: a) auto

definition heap_page :: "'a kmem_scheme \<Rightarrow> addr \<Rightarrow> bool" where
  "heap_page s p \<longleftrightarrow> page_aligned p \<and> kend s \<le> p \<and> p < PHYSTOP"

definition kmem_inv :: "'a kmem_scheme \<Rightarrow> addr list \<Rightarrow> bool" where
  "kmem_inv s xs \<longleftrightarrow>
     flist (mem s) (freelist s) xs \<and> distinct xs \<and> (\<forall>x\<in>set xs. heap_page s x) \<and>
     unat (FREE_PAGES s) = length xs \<and> KERNBASE \<le> kend s \<and> kend s \<le> PHYSTOP \<and>
     (MAX_PAGES s = 0 \<or> unat (MAX_PAGES s) = card {p. heap_page s p})"

lemma heap_page_nonzero: "heap_page s p \<Longrightarrow> KERNBASE \<le> kend s \<Longrightarrow> p \<noteq> 0"
  by (auto simp: heap_page_def layout_defs)

lemma read64_page_frame:
  assumes "page_aligned p" "page_aligned x" "x \<noteq> p"
  shows "read64 (\<lambda>a. if a - p < 4096 then c a else m a) x = read64 m x"
proof (rule read64_cong)
  fix i :: addr assume "i < 8"
  then have "i < PGSIZE" by (simp add: PGSIZE_def word_less_nat_alt)
  with assms show "(if x + i - p < 4096 then c (x + i) else m (x + i)) = m (x + i)"
    using page_disjoint [of x p i] by (simp add: PGSIZE_def)
qed

lemma write64_page_frame:
  assumes "page_aligned p" "page_aligned x" "x \<noteq> p"
  shows "read64 (write64 m p v) x = read64 m x"
proof (rule read64_cong)
  fix i :: addr assume i: "i < 8"
  then have "i < PGSIZE" by (simp add: PGSIZE_def word_less_nat_alt)
  with assms have "\<not> x + i - p < PGSIZE" by (intro page_disjoint) auto
  then have "8 \<le> x + i - p" by (simp add: PGSIZE_def word_less_nat_alt word_le_nat_alt)
  then show "write64 m p v (x + i) = m (x + i)" by (rule write64_frame)
qed

lemma heap_page_idx: "heap_page s p \<Longrightarrow> KERNBASE \<le> kend s \<Longrightarrow> pa_to_idx p < NPHYSPAGES"
proof -
  assume a: "heap_page s p" "KERNBASE \<le> kend s"
  then have le: "KERNBASE \<le> p" and lt: "p < PHYSTOP" by (auto simp: heap_page_def)
  have "unat (p - KERNBASE) = unat p - unat KERNBASE" using le by (simp add: unat_sub)
  then show ?thesis using le lt
    by (simp add: pa_to_idx_def NPHYSPAGES_def word_less_nat_alt word_le_nat_alt unat_div layout_defs
        less_mult_imp_div_less div_less_mono)
qed

lemma finite_heap_pages: "finite {p. heap_page s p}"
  by simp

lemma card_heap_pages: "card {p. heap_page s p} \<le> 0x88000000"
proof -
  have "unat ` {p. heap_page s p} \<subseteq> {..<0x88000000}"
    by (auto simp: heap_page_def word_less_nat_alt layout_defs)
  then have "card (unat ` {p. heap_page s p}) \<le> card {..<0x88000000::nat}"
    by (intro card_mono) auto
  moreover have "inj_on unat {p. heap_page s p}" by (simp add: inj_on_def word_unat_eq_iff)
  ultimately show ?thesis by (simp add: card_image)
qed

lemma kmem_inv_length: "kmem_inv s xs \<Longrightarrow> length xs \<le> card {p. heap_page s p}"
  using card_mono [OF finite_heap_pages, of "set xs" s]
  by (auto simp: kmem_inv_def distinct_card)

section \<open>The allocator operations on the list of free pages\<close>

definition kalloc_result :: "addr \<Rightarrow> 'a kmem_scheme \<Rightarrow> 'a kmem_scheme" where
  "kalloc_result x s = s\<lparr>freelist := read64 (mem s) x, mem := memset (mem s) x 5 4096,
     refcounts := (refcounts s)(pa_to_idx x := 1), FREE_PAGES := FREE_PAGES s - 1\<rparr>"

lemma kalloc_result_frame [simp]:
  "kend (kalloc_result x s) = kend s" "MAX_PAGES (kalloc_result x s) = MAX_PAGES s"
  "mem (kalloc_result x s) = memset (mem s) x 5 4096"
  "kmem.more (kalloc_result x s) = kmem.more s"
  "heap_page (kalloc_result x s) = heap_page s"
  by (auto simp: kalloc_result_def heap_page_def fun_eq_iff)

lemma kalloc_Cons:
  assumes inv: "kmem_inv s (x # xs)"
  shows "kalloc s = Inr (x, kalloc_result x s)" and "kmem_inv (kalloc_result x s) xs"
proof -
  from inv have x: "freelist s = x" "x \<noteq> 0" "flist (mem s) (read64 (mem s) x) xs" "x \<notin> set xs"
    "heap_page s x" "\<forall>y\<in>set xs. heap_page s y" "distinct xs" "unat (FREE_PAGES s) = Suc (length xs)"
    and k: "KERNBASE \<le> kend s"
    by (auto simp: kmem_inv_def)
  then have "FREE_PAGES s > 0" by (simp add: word_less_nat_alt)
  with x heap_page_idx [OF x(5) k] show "kalloc s = Inr (x, kalloc_result x s)"
    by (simp add: kalloc_def Let_def set_refcount_def kalloc_result_def)
  have "read64 (memset (mem s) x 5 4096) y = read64 (mem s) y" if "y \<in> set xs" for y
    using that x by (auto simp: memset_eq heap_page_def intro!: read64_page_frame)
  with x(3) have "flist (memset (mem s) x 5 4096) (read64 (mem s) x) xs"
    using flist_cong [of xs] by blast
  with inv x show "kmem_inv (kalloc_result x s) xs"
    unfolding kmem_inv_def kalloc_result_frame
    by (simp add: kalloc_result_def unat_diff_1 [of "FREE_PAGES s", unfolded x])
qed

lemma kalloc_Nil: "kmem_inv s [] \<Longrightarrow> kalloc s = Inl (Panic ''assert failed'')"
  by (simp add: kmem_inv_def kalloc_def unat_eq_0)

definition kfree_result :: "addr \<Rightarrow> 'a kmem_scheme \<Rightarrow> 'a kmem_scheme" where
  "kfree_result p s = s\<lparr>mem := write64 (memset (mem s) p 1 4096) p (freelist s),
     freelist := p, FREE_PAGES := FREE_PAGES s + 1\<rparr>"

lemma kfree_result_frame [simp]:
  "kend (kfree_result x s) = kend s" "MAX_PAGES (kfree_result x s) = MAX_PAGES s"
  "refcounts (kfree_result x s) = refcounts s"
  "kmem.more (kfree_result x s) = kmem.more s"
  "heap_page (kfree_result x s) = heap_page s"
  by (auto simp: kfree_result_def heap_page_def fun_eq_iff)

lemma kfree_ok:
  assumes inv: "kmem_inv s xs" and p: "heap_page s p" "p \<notin> set xs"
  shows "kfree p s = Inr (kfree_result p s)" and "kmem_inv (kfree_result p s) (p # xs)"
proof -
  have "insert p (set xs) \<subseteq> {q. heap_page s q}" using inv p by (auto simp: kmem_inv_def)
  then have "card (insert p (set xs)) \<le> card {q. heap_page s q}" by (intro card_mono) auto
  then have len: "length xs < card {q. heap_page s q}"
    using inv p by (simp add: kmem_inv_def distinct_card)
  then have "MAX_PAGES s = 0 \<or> FREE_PAGES s < MAX_PAGES s"
    using inv by (auto simp: kmem_inv_def word_less_nat_alt)
  with p show "kfree p s = Inr (kfree_result p s)"
    by (auto simp: kfree_def heap_page_def page_aligned_def kfree_result_def)
  have "read64 (write64 (memset (mem s) p 1 4096) p (freelist s)) y = read64 (mem s) y"
    if "y \<in> set xs" for y
  proof -
    have y: "page_aligned y" "y \<noteq> p" using that inv p by (auto simp: kmem_inv_def heap_page_def)
    with p have "read64 (write64 (memset (mem s) p 1 4096) p (freelist s)) y
        = read64 (memset (mem s) p 1 4096) y"
      by (intro write64_page_frame) (auto simp: heap_page_def)
    also have "\<dots> = read64 (mem s) y"
      using p y by (auto simp: memset_eq heap_page_def intro!: read64_page_frame)
    finally show ?thesis .
  qed
  then have "flist (mem s) (freelist s) xs \<longleftrightarrow>
      flist (write64 (memset (mem s) p 1 4096) p (freelist s)) (freelist s) xs"
    by (intro flist_cong) simp
  then have "flist (write64 (memset (mem s) p 1 4096) p (freelist s)) (freelist s) xs"
    using inv by (simp add: kmem_inv_def)
  moreover have "unat (FREE_PAGES s + 1) = Suc (length xs)"
    using inv len card_heap_pages [of s] by (simp add: kmem_inv_def unat_add_no_wrap)
  moreover have "p \<noteq> 0" using heap_page_nonzero [OF p(1)] inv by (simp add: kmem_inv_def)
  ultimately have "flist (mem (kfree_result p s)) (freelist (kfree_result p s)) (p # xs)"
    "unat (FREE_PAGES (kfree_result p s)) = length (p # xs)"
    by (simp_all add: kfree_result_def)
  with inv p show "kmem_inv (kfree_result p s) (p # xs)"
    unfolding kmem_inv_def kfree_result_frame by (simp del: flist.simps)
qed

section \<open>Boot: freerange and kinit\<close>

lemma PHYSTOP_aligned: "page_aligned PHYSTOP"
  by (simp add: page_aligned_def layout_defs)

lemma heap_pages_below_step:
  assumes "page_aligned p" "kend s \<le> p" "p < PHYSTOP"
  shows "{q. heap_page s q \<and> q < p + PGSIZE} = insert p {q. heap_page s q \<and> q < p}"
proof -
  have np: "unat (p + PGSIZE) = unat p + 4096"
    using assms(3) by (subst unat_add_no_wrap) (simp_all add: word_less_nat_alt layout_defs)
  have "q = p" if "page_aligned q" "\<not> q < p" "q < p + PGSIZE" for q
  proof -
    have "q - p < PGSIZE"
      using that np by (simp add: word_less_nat_alt not_less unat_sub word_le_nat_alt PGSIZE_def)
    with that assms show ?thesis by (intro page_aligned_offset_zero)
  qed
  moreover have "p < p + PGSIZE" using np by (simp add: word_less_nat_alt)
  ultimately show ?thesis using assms np by (auto simp: heap_page_def word_less_nat_alt)
qed

lemma freerange_loop_spec:
  assumes "kmem_inv s xs" "MAX_PAGES s = 0" "page_aligned p" "kend s \<le> p" "p \<le> PHYSTOP"
    and "set xs = {q. heap_page s q \<and> q < p}"
  shows "\<exists>s' ys. freerange_loop p PHYSTOP s = Inr s' \<and> kmem_inv s' ys \<and>
    set ys = {q. heap_page s q} \<and> MAX_PAGES s' = 0 \<and> kend s' = kend s \<and> kmem.more s' = kmem.more s"
  using assms
proof (induction "unat PHYSTOP - unat p" arbitrary: p s xs rule: less_induct)
  case less
  show ?case
  proof (cases "p < PHYSTOP")
    case True
    have np: "unat (p + PGSIZE) = unat p + 4096"
      using True by (subst unat_add_no_wrap) (simp_all add: word_less_nat_alt layout_defs)
    have al: "page_aligned (p + PGSIZE)" using less.prems(3) by (simp add: page_aligned_add)
    have le: "p + PGSIZE \<le> PHYSTOP"
    proof -
      have "4096 dvd unat PHYSTOP" "4096 dvd unat p"
        using PHYSTOP_aligned less.prems(3) by (simp_all add: page_aligned_dvd)
      then obtain a b where "unat PHYSTOP = 4096 * a" "unat p = 4096 * b" by (auto elim!: dvdE)
      with True np show ?thesis by (simp add: word_le_nat_alt word_less_nat_alt)
    qed
    have hp: "heap_page s p" using True less.prems by (simp add: heap_page_def)
    have notin: "p \<notin> set xs" using less.prems(6) by simp
    note free = kfree_ok [OF less.prems(1) hp notin]
    have "\<exists>s' ys. freerange_loop (p + PGSIZE) PHYSTOP (kfree_result p s) = Inr s' \<and> kmem_inv s' ys \<and>
      set ys = {q. heap_page (kfree_result p s) q} \<and> MAX_PAGES s' = 0 \<and>
      kend s' = kend (kfree_result p s) \<and> kmem.more s' = kmem.more (kfree_result p s)"
    proof (rule less.hyps [OF _ free(2)])
      show "unat PHYSTOP - unat (p + PGSIZE) < unat PHYSTOP - unat p"
        using True np by (simp add: word_less_nat_alt)
      show "set (p # xs) = {q. heap_page (kfree_result p s) q \<and> q < p + PGSIZE}"
        using heap_pages_below_step [of p s] less.prems True by simp
    qed (use less.prems al le np in \<open>simp_all add: word_le_nat_alt\<close>)
    with free(1) le show ?thesis by (subst freerange_loop.simps) simp
  next
    case False
    with less.prems(5) have p: "p = PHYSTOP" by simp
    moreover have "\<not> PHYSTOP + PGSIZE \<le> PHYSTOP" by (simp add: layout_defs)
    ultimately have "freerange_loop p PHYSTOP s = Inr s" by (subst freerange_loop.simps) simp
    moreover have "set xs = {q. heap_page s q}" using less.prems(6) p by (auto simp: heap_page_def)
    ultimately show ?thesis using less.prems by blast
  qed
qed

lemma PGROUNDUP_bounds:
  assumes "a \<le> PHYSTOP"
  shows "a \<le> PGROUNDUP a" "PGROUNDUP a \<le> PHYSTOP"
    and "\<And>q. page_aligned q \<Longrightarrow> a \<le> q \<Longrightarrow> PGROUNDUP a \<le> q"
proof -
  have a: "unat a \<le> unat PHYSTOP" using assms by (simp add: word_le_nat_alt)
  then have eq: "unat (PGROUNDUP a) = (unat a + 4095) div 4096 * 4096"
    by (intro unat_PGROUNDUP) (simp add: layout_defs)
  then show "a \<le> PGROUNDUP a" by (simp add: word_le_nat_alt)
  show least: "PGROUNDUP a \<le> q" if "page_aligned q" "a \<le> q" for q
  proof -
    obtain k where "unat q = 4096 * k" using \<open>page_aligned q\<close> unfolding page_aligned_dvd by (rule dvdE)
    with that(2) eq show ?thesis by (simp add: word_le_nat_alt)
  qed
  show "PGROUNDUP a \<le> PHYSTOP" using assms by (intro least) (simp_all add: PHYSTOP_aligned)
qed

lemma kinit_spec:
  assumes "freelist s = 0" "FREE_PAGES s = 0" "MAX_PAGES s = 0"
    and "KERNBASE \<le> kend s" "kend s \<le> PHYSTOP"
  shows "\<exists>s' ys. kinit s = Inr s' \<and> kmem_inv s' ys \<and> set ys = {q. heap_page s q} \<and>
    kend s' = kend s \<and> kmem.more s' = kmem.more s"
proof -
  have "\<exists>s' ys. freerange_loop (PGROUNDUP (kend s)) PHYSTOP s = Inr s' \<and> kmem_inv s' ys \<and>
    set ys = {q. heap_page s q} \<and> MAX_PAGES s' = 0 \<and> kend s' = kend s \<and> kmem.more s' = kmem.more s"
  proof (rule freerange_loop_spec)
    show "kmem_inv s []" using assms by (simp add: kmem_inv_def)
    show "set [] = {q. heap_page s q \<and> q < PGROUNDUP (kend s)}"
      using PGROUNDUP_bounds(3) [OF assms(5)] by (auto simp: heap_page_def not_le [symmetric])
  qed (use assms PGROUNDUP_bounds [OF assms(5)] in simp_all)
  then obtain s' ys where s': "freerange_loop (PGROUNDUP (kend s)) PHYSTOP s = Inr s'" "kmem_inv s' ys"
    "set ys = {q. heap_page s q}" "MAX_PAGES s' = 0" "kend s' = kend s" "kmem.more s' = kmem.more s"
    by blast
  let ?s = "s'\<lparr>MAX_PAGES := FREE_PAGES s'\<rparr>"
  have hp: "heap_page s' = heap_page s" "heap_page ?s = heap_page s"
    using s'(5) by (simp_all add: heap_page_def fun_eq_iff)
  have "unat (FREE_PAGES s') = card {q. heap_page s q}"
    using s'(2,3) by (metis kmem_inv_def distinct_card)
  with s'(2) have "kmem_inv ?s ys" by (simp add: kmem_inv_def hp)
  with s' show ?thesis by (auto simp: kinit_def freerange_def)
qed

section \<open>The contract of the allocator\<close>

fun alloc_n :: "('s \<Rightarrow> (addr \<times> 's) kres) \<Rightarrow> nat \<Rightarrow> 's \<Rightarrow> (addr list \<times> 's) kres" where
  "alloc_n alloc 0 s = Inr ([], s)"
| "alloc_n alloc (Suc n) s =
     kbind (alloc s) (\<lambda>(p, s). kbind (alloc_n alloc n s) (\<lambda>(ps, s). Inr (p # ps, s)))"

locale page_allocator =
  fixes alloc :: "'s \<Rightarrow> (addr \<times> 's) kres"
    and free :: "addr \<Rightarrow> 's \<Rightarrow> 's kres"
    and rep :: "'s \<Rightarrow> addr list \<Rightarrow> bool"
    and heap :: "'s \<Rightarrow> addr \<Rightarrow> bool"
  assumes rep_heap: "rep s xs \<Longrightarrow> x \<in> set xs \<Longrightarrow> heap s x"
    and rep_distinct: "rep s xs \<Longrightarrow> distinct xs"
    and alloc_some: "rep s (x # xs) \<Longrightarrow> \<exists>s'. alloc s = Inr (x, s') \<and> rep s' xs \<and> heap s' = heap s"
    and alloc_none: "rep s [] \<Longrightarrow> \<exists>msg. alloc s = Inl (Panic msg)"
    and free_some: "rep s xs \<Longrightarrow> heap s p \<Longrightarrow> p \<notin> set xs \<Longrightarrow>
      \<exists>s'. free p s = Inr s' \<and> rep s' (p # xs) \<and> heap s' = heap s"
begin

lemma alloc_free_roundtrip:
  assumes "rep s (x # xs)"
  shows "\<exists>s1 s2. alloc s = Inr (x, s1) \<and> rep s1 xs \<and> free x s1 = Inr s2 \<and> rep s2 (x # xs)"
proof -
  obtain s1 where s1: "alloc s = Inr (x, s1)" "rep s1 xs" "heap s1 = heap s"
    using alloc_some [OF assms] by blast
  moreover have "heap s1 x" using rep_heap [OF assms] s1(3) by simp
  moreover have "x \<notin> set xs" using rep_distinct [OF assms] by simp
  ultimately show ?thesis using free_some [of s1 xs x] by blast
qed

lemma alloc_n_ok:
  "rep s xs \<Longrightarrow> n \<le> length xs \<Longrightarrow>
     \<exists>s'. alloc_n alloc n s = Inr (take n xs, s') \<and> rep s' (drop n xs)"
proof (induction n arbitrary: s xs)
  case 0
  then show ?case by simp
next
  case (Suc n)
  then obtain x ys where xs: "xs = x # ys" by (cases xs) auto
  obtain s1 where "alloc s = Inr (x, s1)" "rep s1 ys"
    using alloc_some Suc.prems(1) unfolding xs by blast
  with Suc xs show ?case by fastforce
qed

lemma alloc_n_exhausts:
  "rep s xs \<Longrightarrow> length xs < n \<Longrightarrow> \<exists>msg. alloc_n alloc n s = Inl (Panic msg)"
proof (induction n arbitrary: s xs)
  case 0
  then show ?case by simp
next
  case (Suc n)
  show ?case
  proof (cases xs)
    case Nil
    with Suc.prems alloc_none show ?thesis by fastforce
  next
    case (Cons x ys)
    then obtain s1 where "alloc s = Inr (x, s1)" "rep s1 ys"
      using alloc_some Suc.prems(1) by blast
    with Suc Cons show ?thesis by fastforce
  qed
qed

end

interpretation kpages: page_allocator kalloc kfree kmem_inv heap_page
proof unfold_locales
  fix s :: "'a kmem_scheme" and xs x p
  show "kmem_inv s xs \<Longrightarrow> x \<in> set xs \<Longrightarrow> heap_page s x" by (auto simp: kmem_inv_def)
  show "kmem_inv s xs \<Longrightarrow> distinct xs" by (auto simp: kmem_inv_def)
  show "kmem_inv s (x # xs) \<Longrightarrow> \<exists>s'. kalloc s = Inr (x, s') \<and> kmem_inv s' xs \<and> heap_page s' = heap_page s"
    using kalloc_Cons kalloc_result_frame(5) by blast
  show "kmem_inv s [] \<Longrightarrow> \<exists>msg. kalloc s = Inl (Panic msg)" using kalloc_Nil by blast
  show "kmem_inv s xs \<Longrightarrow> heap_page s p \<Longrightarrow> p \<notin> set xs \<Longrightarrow>
      \<exists>s'. kfree p s = Inr s' \<and> kmem_inv s' (p # xs) \<and> heap_page s' = heap_page s"
    using kfree_ok kfree_result_frame(5) by blast
qed

section \<open>Reference counts\<close>

lemma kref_dec_shared:
  assumes "pa_to_idx pa < NPHYSPAGES" "refcount_at pa s \<noteq> 1"
  shows "kref_dec pa s = Inr (s\<lparr>refcounts := (refcounts s)(pa_to_idx pa := refcount_at pa s - 1)\<rparr>)"
  using assms
  by (simp add: kref_dec_def set_refcount_def Let_def refcount_at_def uint_0_iff)

lemma kmem_inv_refcounts [simp]: "kmem_inv (s\<lparr>refcounts := r\<rparr>) xs = kmem_inv s xs"
  by (simp add: kmem_inv_def heap_page_def)

lemma heap_page_refcounts [simp]: "heap_page (s\<lparr>refcounts := r\<rparr>) p = heap_page s p"
  by (simp add: heap_page_def)

lemma kref_dec_last:
  assumes inv: "kmem_inv s xs" and pa: "heap_page s pa" "pa \<notin> set xs" "refcount_at pa s = 1"
  shows "\<exists>s'. kref_dec pa s = Inr s' \<and> kmem_inv s' (pa # xs) \<and> refcount_at pa s' = 0 \<and>
    heap_page s' = heap_page s"
proof -
  let ?s = "s\<lparr>refcounts := (refcounts s)(pa_to_idx pa := 0)\<rparr>"
  have "pa_to_idx pa < NPHYSPAGES" using inv pa by (simp add: kmem_inv_def heap_page_idx)
  then have "kref_dec pa s = kfree pa ?s"
    using pa by (simp add: kref_dec_def set_refcount_def Let_def refcount_at_def)
  with kfree_ok [of ?s xs pa] inv pa show ?thesis
    by (auto simp: refcount_at_def fun_eq_iff)
qed

lemma kref_inc_ok:
  "pa_to_idx pa < NPHYSPAGES \<Longrightarrow>
     kref_inc pa s = Inr (s\<lparr>refcounts := (refcounts s)(pa_to_idx pa := refcount_at pa s + 1)\<rparr>)"
  by (simp add: kref_inc_def set_refcount_def)

section \<open>Properties\<close>

definition boot_kmem :: kmem where
  "boot_kmem = \<lparr>mem = (\<lambda>_. 0), freelist = 0, refcounts = (\<lambda>_. 0), MAX_PAGES = 0, FREE_PAGES = 0,
     kend = PHYSTOP - 8192, etext = KERNBASE + 0x8000, trampoline = KERNBASE + 0x7000\<rparr>"

definition one_page_kmem :: kmem where
  "one_page_kmem = boot_kmem\<lparr>freelist := PHYSTOP - 4096, FREE_PAGES := 1\<rparr>"

lemma one_page_kmem_inv: "kmem_inv one_page_kmem [PHYSTOP - 4096]"
  by (simp add: kmem_inv_def one_page_kmem_def boot_kmem_def heap_page_def page_aligned_def layout_defs
      read64_def word_le_nat_alt word_less_nat_alt)

text \<open>
  C27: after \<^verbatim>\<open>kinit\<close> the free list stored in memory holds every page-aligned address between
  \<^verbatim>\<open>end\<close> and \<^verbatim>\<open>PHYSTOP\<close> exactly once, and \<^verbatim>\<open>FREE_PAGES\<close> and \<^verbatim>\<open>MAX_PAGES\<close> count them.
\<close>

theorem kinit_frees_all_pages:
  assumes "freelist s = 0" "FREE_PAGES s = 0" "MAX_PAGES s = 0"
    and "KERNBASE \<le> kend s" "kend s \<le> PHYSTOP"
  shows "\<exists>s' ys. kinit s = Inr s' \<and> kmem_inv s' ys \<and> set ys = {q. heap_page s q} \<and>
    unat (FREE_PAGES s') = card {q. heap_page s q} \<and> MAX_PAGES s' = FREE_PAGES s'"
proof -
  obtain s' ys where s': "kinit s = Inr s'" "kmem_inv s' ys" "set ys = {q. heap_page s q}"
    using kinit_spec [OF assms] by blast
  moreover have "MAX_PAGES s' = FREE_PAGES s'" using s'(1) by (auto simp: kinit_def kres_simps)
  moreover have "unat (FREE_PAGES s') = card {q. heap_page s q}"
    using s'(2,3) by (metis kmem_inv_def distinct_card)
  ultimately show ?thesis by blast
qed

theorem kinit_frees_all_pages_witness:
  "\<exists>s' ys. kinit boot_kmem = Inr s' \<and> kmem_inv s' ys \<and> set ys = {q. heap_page boot_kmem q} \<and>
    unat (FREE_PAGES s') = card {q. heap_page boot_kmem q} \<and> MAX_PAGES s' = FREE_PAGES s'"
  by (rule kinit_frees_all_pages)
    (simp_all add: boot_kmem_def layout_defs word_le_nat_alt)

text \<open>
  C28: asking for \<open>n\<close> pages yields the first \<open>n\<close> pages of the free list, all different, and
  leaves the rest free; asking for more pages than there are panics. The allocator never
  hands out a page twice.
\<close>

theorem kalloc_n_pages:
  assumes "kmem_inv s xs"
  shows "if n \<le> length xs
    then \<exists>s'. alloc_n kalloc n s = Inr (take n xs, s') \<and> distinct (take n xs) \<and>
      kmem_inv s' (drop n xs) \<and> set (take n xs) \<inter> set (drop n xs) = {}
    else \<exists>msg. alloc_n kalloc n s = Inl (Panic msg)"
proof (cases "n \<le> length xs")
  case True
  moreover have "set (take n xs) \<inter> set (drop n xs) = {}"
    using assms by (simp add: kmem_inv_def set_take_disj_set_drop_if_distinct)
  ultimately show ?thesis
    using kpages.alloc_n_ok [OF assms True] kpages.rep_distinct [OF assms] by auto
next
  case False
  then show ?thesis using kpages.alloc_n_exhausts [OF assms] by auto
qed

theorem kalloc_n_pages_witness:
  "if 1 \<le> length [PHYSTOP - 4096]
    then \<exists>s'. alloc_n kalloc 1 one_page_kmem = Inr (take 1 [PHYSTOP - 4096], s') \<and>
      distinct (take 1 [PHYSTOP - 4096]) \<and> kmem_inv s' (drop 1 [PHYSTOP - 4096]) \<and>
      set (take 1 [PHYSTOP - 4096]) \<inter> set (drop 1 [PHYSTOP - 4096]) = {}
    else \<exists>msg. alloc_n kalloc 1 one_page_kmem = Inl (Panic msg)"
  by (rule kalloc_n_pages [OF one_page_kmem_inv])

text \<open>
  C38: with the invariant, \<^verbatim>\<open>kalloc\<close> never returns a null pointer: when memory is exhausted the
  assertion on \<^verbatim>\<open>FREE_PAGES\<close> panics first, although the comment promises a return of 0 and
  every caller tests for it.
\<close>

theorem kalloc_out_of_memory_panics:
  assumes "kmem_inv s xs"
  shows "(kalloc s = Inl (Panic ''assert failed'')) = (xs = []) \<and> (\<nexists>s'. kalloc s = Inr (0, s'))"
proof (cases xs)
  case Nil
  with assms show ?thesis by (simp add: kalloc_Nil)
next
  case (Cons x ys)
  with assms kalloc_Cons(1) [of s x ys] show ?thesis by (auto simp: kmem_inv_def)
qed

theorem kalloc_out_of_memory_panics_witness:
  "kalloc (kalloc_result (PHYSTOP - 4096) one_page_kmem) = Inl (Panic ''assert failed'')"
  using kalloc_out_of_memory_panics [OF kalloc_Cons(2) [OF one_page_kmem_inv]] by simp

text \<open>
  C29: dropping the last reference to an allocated page puts exactly that page back at the
  head of the free list; dropping a reference while others remain only lowers the count and
  frees nothing.
\<close>

theorem kref_dec_frees_at_zero:
  assumes "kmem_inv s xs" "heap_page s pa" "pa \<notin> set xs"
  shows "(refcount_at pa s = 1 \<longrightarrow>
      (\<exists>s'. kref_dec pa s = Inr s' \<and> kmem_inv s' (pa # xs) \<and> refcount_at pa s' = 0)) \<and>
    (1 < refcount_at pa s \<longrightarrow>
      (\<exists>s'. kref_dec pa s = Inr s' \<and> kmem_inv s' xs \<and> mem s' = mem s \<and>
        refcount_at pa s' = refcount_at pa s - 1))"
proof -
  have "pa_to_idx pa < NPHYSPAGES" using assms by (simp add: kmem_inv_def heap_page_idx)
  with assms kref_dec_last [OF assms] show ?thesis
    by (auto simp: kref_dec_shared refcount_at_def)
qed

theorem kref_dec_frees_at_zero_witness:
  "\<exists>s'. kref_dec (PHYSTOP - 8192)
      (one_page_kmem\<lparr>refcounts := (\<lambda>_. 1)\<rparr>) = Inr s' \<and>
    kmem_inv s' [PHYSTOP - 8192, PHYSTOP - 4096] \<and> refcount_at (PHYSTOP - 8192) s' = 0"
proof -
  have "kmem_inv (one_page_kmem\<lparr>refcounts := (\<lambda>_. 1)\<rparr>) [PHYSTOP - 4096]"
    using one_page_kmem_inv by simp
  moreover have "heap_page (one_page_kmem\<lparr>refcounts := (\<lambda>_. 1)\<rparr>) (PHYSTOP - 8192)"
    by (simp add: heap_page_def one_page_kmem_def boot_kmem_def page_aligned_def layout_defs
        word_less_nat_alt)
  moreover have "PHYSTOP - 8192 \<notin> set [PHYSTOP - 4096]" by simp
  ultimately show ?thesis
    using kref_dec_frees_at_zero by (fastforce simp: refcount_at_def)
qed

end
