(* ===== verification/Vm.thy ===== *)
theory Vm
  imports Kalloc
begin

text \<open>
  Virtual memory, \<^verbatim>\<open>vm.c\<close>: Sv39 page tables stored in physical memory. A page-table page is
  512 little-endian 64-bit words of physical memory; a \<^verbatim>\<open>pte_t *\<close> is the physical address
  of such a word (0 for a null pointer). Kernel buffers passed to \<^verbatim>\<open>copyin\<close> and
  \<^verbatim>\<open>copyout\<close> are byte lists. This theory holds the routines; theory Pagetable shows what
  they do to the translation a page table stands for.
\<close>

definition pte_slot :: "addr \<Rightarrow> uint64 \<Rightarrow> addr" where
  "pte_slot pagetable i = pagetable + 8 * i"

section \<open>Walking a page table\<close>

fun walk_loop :: "nat \<Rightarrow> addr \<Rightarrow> uint64 \<Rightarrow> bool \<Rightarrow> 'a kmem_scheme \<Rightarrow> (addr \<times> 'a kmem_scheme) kres" where
  "walk_loop 0 pagetable va alloc s = Inr (pte_slot pagetable (PX 0 va), s)"
| "walk_loop (Suc level) pagetable va alloc s =
     (let pte = pte_slot pagetable (PX (Suc level) va)
      in if read64 (mem s) pte AND PTE_V \<noteq> 0
         then walk_loop level (PTE2PA (read64 (mem s) pte)) va alloc s
         else if \<not> alloc then Inr (0, s)
         else kbind (kalloc s) (\<lambda>(pagetable, s).
           if pagetable = 0 then Inr (0, s)
           else walk_loop level pagetable va alloc
             (s\<lparr>mem := write64 (memset (mem s) pagetable 0 4096) pte (PA2PTE pagetable OR PTE_V)\<rparr>)))"

definition walk :: "addr \<Rightarrow> uint64 \<Rightarrow> bool \<Rightarrow> 'a kmem_scheme \<Rightarrow> (addr \<times> 'a kmem_scheme) kres" where
  "walk pagetable va alloc s =
     (if MAXVA \<le> va then Inl (Panic ''walk'') else walk_loop 2 pagetable va alloc s)"

definition walkaddr :: "addr \<Rightarrow> uint64 \<Rightarrow> 'a kmem_scheme \<Rightarrow> uint64 kres" where
  "walkaddr pagetable va s =
     (if MAXVA \<le> va then Inr 0
      else kbind (walk pagetable va False s) (\<lambda>(pte, s).
        if pte = 0 then Inr 0
        else if read64 (mem s) pte AND PTE_V = 0 then Inr 0
        else if read64 (mem s) pte AND PTE_U = 0 then Inr 0
        else Inr (PTE2PA (read64 (mem s) pte))))"

lemma walk_below_MAXVA: "walk pagetable va alloc s = Inr r \<Longrightarrow> va < MAXVA"
  by (auto simp: walk_def split: if_splits)

lemma unat_add_PGSIZE_MAXVA: "va < MAXVA \<Longrightarrow> unat (va + PGSIZE) = unat va + 4096"
  by (subst unat_add_no_wrap) (simp_all add: word_less_nat_alt MAXVA_eq PGSIZE_def)

section \<open>Adding and removing mappings\<close>

function mappages_loop ::
  "addr \<Rightarrow> uint64 \<Rightarrow> uint64 \<Rightarrow> uint64 \<Rightarrow> uint64 \<Rightarrow> 'a kmem_scheme \<Rightarrow> (int \<times> 'a kmem_scheme) kres" where
  "mappages_loop pagetable a lst pa perm s =
     kbind (walk pagetable a True s) (\<lambda>(pte, s).
       if pte = 0 then Inr (-1, s)
       else if read64 (mem s) pte AND PTE_V \<noteq> 0 then Inl (Panic ''mappages: remap'')
       else let s = s\<lparr>mem := write64 (mem s) pte (PA2PTE pa OR perm OR PTE_V)\<rparr>
         in if a = lst then Inr (0, s)
            else mappages_loop pagetable (a + PGSIZE) lst (pa + PGSIZE) perm s)"
  by pat_completeness auto
termination
  by (relation "measure (\<lambda>(pt, a, lst, pa, perm, s). unat MAXVA - unat a)")
    (auto dest!: walk_below_MAXVA simp: unat_add_PGSIZE_MAXVA word_less_nat_alt)

definition mappages ::
  "addr \<Rightarrow> uint64 \<Rightarrow> uint64 \<Rightarrow> uint64 \<Rightarrow> uint64 \<Rightarrow> 'a kmem_scheme \<Rightarrow> (int \<times> 'a kmem_scheme) kres" where
  "mappages pagetable va sz pa perm s =
     (if sz = 0 then Inl (Panic ''mappages: size'')
      else mappages_loop pagetable (PGROUNDDOWN va) (PGROUNDDOWN (va + sz - 1)) pa perm s)"

definition kvmmap ::
  "addr \<Rightarrow> uint64 \<Rightarrow> uint64 \<Rightarrow> uint64 \<Rightarrow> uint64 \<Rightarrow> 'a kmem_scheme \<Rightarrow> 'a kmem_scheme kres" where
  "kvmmap kpgtbl va pa sz perm s =
     kbind (mappages kpgtbl va sz pa perm s) (\<lambda>(r, s).
       if r \<noteq> 0 then Inl (Panic ''kvmmap'') else Inr s)"

function uvmunmap_loop ::
  "addr \<Rightarrow> uint64 \<Rightarrow> uint64 \<Rightarrow> bool \<Rightarrow> 'a kmem_scheme \<Rightarrow> 'a kmem_scheme kres" where
  "uvmunmap_loop pagetable a lim do_free s =
     (if \<not> a < lim then Inr s
      else kbind (walk pagetable a False s) (\<lambda>(pte, s).
        if pte = 0 then Inl (Panic ''uvmunmap: walk'')
        else if read64 (mem s) pte AND PTE_V = 0 then Inl (Panic ''uvmunmap: not mapped'')
        else if PTE_FLAGS (read64 (mem s) pte) = PTE_V then Inl (Panic ''uvmunmap: not a leaf'')
        else kbind (if do_free then kref_dec (PTE2PA (read64 (mem s) pte)) s else Inr s) (\<lambda>s.
          uvmunmap_loop pagetable (a + PGSIZE) lim do_free (s\<lparr>mem := write64 (mem s) pte 0\<rparr>))))"
  by pat_completeness auto
termination
  by (relation "measure (\<lambda>(pt, a, lim, f, s). unat MAXVA - unat a)")
    (auto dest!: walk_below_MAXVA simp: unat_add_PGSIZE_MAXVA word_less_nat_alt)

definition uvmunmap :: "addr \<Rightarrow> uint64 \<Rightarrow> uint64 \<Rightarrow> bool \<Rightarrow> 'a kmem_scheme \<Rightarrow> 'a kmem_scheme kres" where
  "uvmunmap pagetable va npages do_free s =
     (if va mod PGSIZE \<noteq> 0 then Inl (Panic ''uvmunmap: not aligned'')
      else uvmunmap_loop pagetable va (va + npages * PGSIZE) do_free s)"

declare mappages_loop.simps [simp del] uvmunmap_loop.simps [simp del]

section \<open>User address spaces\<close>

definition uvmcreate :: "'a kmem_scheme \<Rightarrow> (addr \<times> 'a kmem_scheme) kres" where
  "uvmcreate s =
     kbind (kalloc s) (\<lambda>(pagetable, s).
       if pagetable = 0 then Inr (0, s)
       else Inr (pagetable, s\<lparr>mem := memset (mem s) pagetable 0 4096\<rparr>))"

definition uvmfirst :: "addr \<Rightarrow> uint8 list \<Rightarrow> 'a kmem_scheme \<Rightarrow> 'a kmem_scheme kres" where
  "uvmfirst pagetable src s =
     (if 4096 \<le> length src then Inl (Panic ''uvmfirst: more than a page'')
      else kbind (kalloc s) (\<lambda>(m, s).
        kbind (mappages pagetable 0 PGSIZE m (PTE_W OR PTE_R OR PTE_X OR PTE_U)
                 (s\<lparr>mem := memset (mem s) m 0 4096\<rparr>)) (\<lambda>(_, s).
          Inr (s\<lparr>mem := write_bytes (mem s) m src\<rparr>))))"

definition uvmdealloc :: "addr \<Rightarrow> uint64 \<Rightarrow> uint64 \<Rightarrow> 'a kmem_scheme \<Rightarrow> (uint64 \<times> 'a kmem_scheme) kres" where
  "uvmdealloc pagetable oldsz newsz s =
     (if oldsz \<le> newsz then Inr (oldsz, s)
      else kbind
        (if PGROUNDUP newsz < PGROUNDUP oldsz
         then let npages = ucast ((PGROUNDUP oldsz - PGROUNDUP newsz) div PGSIZE) :: uint
              in uvmunmap pagetable (PGROUNDUP newsz) (scast npages) True s
         else Inr s) (\<lambda>s. Inr (newsz, s)))"

function uvmalloc_loop ::
  "addr \<Rightarrow> uint64 \<Rightarrow> uint64 \<Rightarrow> uint64 \<Rightarrow> uint64 \<Rightarrow> 'a kmem_scheme \<Rightarrow> (uint64 \<times> 'a kmem_scheme) kres" where
  "uvmalloc_loop pagetable a oldsz newsz xperm s =
     (if \<not> a < newsz then Inr (newsz, s)
      else kbind (kalloc s) (\<lambda>(m, s).
        if m = 0 then kbind (uvmdealloc pagetable a oldsz s) (\<lambda>(_, s). Inr (0, s))
        else kbind (mappages pagetable a PGSIZE m (PTE_R OR PTE_U OR xperm)
                      (s\<lparr>mem := memset (mem s) m 0 4096\<rparr>)) (\<lambda>(r, s).
          if r \<noteq> 0
          then kbind (kfree m s) (\<lambda>s. kbind (uvmdealloc pagetable a oldsz s) (\<lambda>(_, s). Inr (0, s)))
          else uvmalloc_loop pagetable (a + PGSIZE) oldsz newsz xperm s)))"
  by pat_completeness auto

lemma mappages_below_MAXVA:
  "mappages pagetable a sz pa perm s = Inr r \<Longrightarrow> PGROUNDDOWN a < MAXVA"
  by (auto simp: mappages_def mappages_loop.simps [of _ "PGROUNDDOWN a"] kres_simps
      dest: walk_below_MAXVA split: if_splits)

lemma PGROUNDDOWN_less_MAXVA: "PGROUNDDOWN a < MAXVA \<Longrightarrow> a < MAXVA"
  by (simp add: word_less_nat_alt unat_PGROUNDDOWN MAXVA_eq)

termination uvmalloc_loop
  by (relation "measure (\<lambda>(pt, a, old, new, x, s). unat MAXVA - unat a)")
    (auto dest!: mappages_below_MAXVA PGROUNDDOWN_less_MAXVA
      simp: unat_add_PGSIZE_MAXVA word_less_nat_alt)

definition uvmalloc :: "addr \<Rightarrow> uint64 \<Rightarrow> uint64 \<Rightarrow> uint64 \<Rightarrow> 'a kmem_scheme \<Rightarrow> (uint64 \<times> 'a kmem_scheme) kres" where
  "uvmalloc pagetable oldsz newsz xperm s =
     (if newsz < oldsz then Inr (oldsz, s)
      else uvmalloc_loop pagetable (PGROUNDUP oldsz) (PGROUNDUP oldsz) newsz xperm s)"

text \<open>
  \<^verbatim>\<open>freewalk\<close> recurses on the kernel stack, one frame per level. The first argument bounds
  the depth; running out stands for running off the kernel stack. Three levels are enough for
  an Sv39 table.
\<close>

primrec freewalk :: "nat \<Rightarrow> addr \<Rightarrow> 'a kmem_scheme \<Rightarrow> 'a kmem_scheme kres" where
  "freewalk 0 pagetable s = Inl (Undef ''kernel stack'')"
| "freewalk (Suc depth) pagetable s =
     kbind (kfold (\<lambda>i s.
       let pte = read64 (mem s) (pte_slot pagetable (of_nat i))
       in if pte AND PTE_V \<noteq> 0 \<and> pte AND (PTE_R OR PTE_W OR PTE_X) = 0
          then kbind (freewalk depth (PTE2PA pte) s) (\<lambda>s.
            Inr (s\<lparr>mem := write64 (mem s) (pte_slot pagetable (of_nat i)) 0\<rparr>))
          else if pte AND PTE_V \<noteq> 0 then Inl (Panic ''freewalk: leaf'')
          else Inr s) [0..<512] s) (\<lambda>s. kfree pagetable s)"

definition uvmfree :: "addr \<Rightarrow> uint64 \<Rightarrow> 'a kmem_scheme \<Rightarrow> 'a kmem_scheme kres" where
  "uvmfree pagetable sz s =
     kbind (if 0 < sz then uvmunmap pagetable 0 (PGROUNDUP sz div PGSIZE) True s else Inr s)
       (\<lambda>s. freewalk 3 pagetable s)"

text \<open>\<^verbatim>\<open>uvmcopy\<close> shares every page of the parent copy-on-write with the child.\<close>

function uvmcopy_loop :: "addr \<Rightarrow> addr \<Rightarrow> uint64 \<Rightarrow> uint64 \<Rightarrow> 'a kmem_scheme \<Rightarrow> (int \<times> 'a kmem_scheme) kres" where
  "uvmcopy_loop old new i sz s =
     (if \<not> i < sz then Inr (0, s)
      else kbind (walk old i False s) (\<lambda>(pte, s).
        if pte = 0 then Inl (Panic ''uvmcopy: pte should exist'')
        else if read64 (mem s) pte AND PTE_V = 0 then Inl (Panic ''uvmcopy: page not present'')
        else let pa = PTE2PA (read64 (mem s) pte);
                 flags = (PTE_FLAGS (read64 (mem s) pte) AND NOT PTE_W) OR PTE_COW;
                 s = s\<lparr>mem := write64 (mem s) pte (PA2PTE pa OR flags)\<rparr>
          in kbind (mappages new i PGSIZE pa flags s) (\<lambda>(r, s).
            if r \<noteq> 0
            then kbind (uvmunmap new 0 (i div PGSIZE) True s) (\<lambda>s. Inr (-1, s))
            else kbind (kref_inc pa s) (\<lambda>s. uvmcopy_loop old new (i + PGSIZE) sz s))))"
  by pat_completeness auto
termination
  by (relation "measure (\<lambda>(old, new, i, sz, s). unat MAXVA - unat i)")
    (auto dest!: walk_below_MAXVA simp: unat_add_PGSIZE_MAXVA word_less_nat_alt)

definition uvmcopy :: "addr \<Rightarrow> addr \<Rightarrow> uint64 \<Rightarrow> 'a kmem_scheme \<Rightarrow> (int \<times> 'a kmem_scheme) kres" where
  "uvmcopy old new sz s = uvmcopy_loop old new 0 sz s"

definition uvmclear :: "addr \<Rightarrow> uint64 \<Rightarrow> 'a kmem_scheme \<Rightarrow> 'a kmem_scheme kres" where
  "uvmclear pagetable va s =
     kbind (walk pagetable va False s) (\<lambda>(pte, s).
       if pte = 0 then Inl (Panic ''uvmclear'')
       else Inr (s\<lparr>mem := write64 (mem s) pte (read64 (mem s) pte AND NOT PTE_U)\<rparr>))"

declare uvmalloc_loop.simps [simp del] uvmcopy_loop.simps [simp del]

section \<open>Copying between kernel and user\<close>

lemma page_room: "unat (PGSIZE - (va - PGROUNDDOWN va)) = 4096 - unat (va - PGROUNDDOWN va)"
  "unat (va - PGROUNDDOWN va) < 4096"
  using PGROUNDDOWN_diff_less [of va]
  by (simp_all add: unat_sub PGSIZE_def word_less_nat_alt word_le_nat_alt)

function copyout :: "addr \<Rightarrow> uint64 \<Rightarrow> uint8 list \<Rightarrow> 'a kmem_scheme \<Rightarrow> (int \<times> 'a kmem_scheme) kres" where
  "copyout pagetable dstva src s =
     (if src = [] then Inr (0, s)
      else let va0 = PGROUNDDOWN dstva
        in kbind (walkaddr pagetable va0 s) (\<lambda>pa0.
          if pa0 = 0 then Inr (-1, s)
          else let n = min (unat (PGSIZE - (dstva - va0))) (length src)
            in copyout pagetable (va0 + PGSIZE) (drop n src)
                 (s\<lparr>mem := write_bytes (mem s) (pa0 + (dstva - va0)) (take n src)\<rparr>)))"
  by pat_completeness auto
termination
  by (relation "measure (\<lambda>(pt, va, src, s). length src)")
    (auto simp: page_room min_def)

function copyin :: "addr \<Rightarrow> uint64 \<Rightarrow> nat \<Rightarrow> 'a kmem_scheme \<Rightarrow> (int \<times> uint8 list) kres" where
  "copyin pagetable srcva len s =
     (if len = 0 then Inr (0, [])
      else let va0 = PGROUNDDOWN srcva
        in kbind (walkaddr pagetable va0 s) (\<lambda>pa0.
          if pa0 = 0 then Inr (-1, [])
          else let n = min (unat (PGSIZE - (srcva - va0))) len
            in kbind (copyin pagetable (va0 + PGSIZE) (len - n) s) (\<lambda>(r, bs).
                 Inr (r, read_bytes (mem s) (pa0 + (srcva - va0)) n @ bs))))"
  by pat_completeness auto
termination
  by (relation "measure (\<lambda>(pt, va, len, s). len)") (auto simp: page_room min_def)

text \<open>
  \<^verbatim>\<open>copyinstr\<close>: the inner loop copies bytes of one page up to a NUL or \<open>n\<close> bytes; the result
  lists the bytes stored at \<^verbatim>\<open>dst\<close> (the NUL included) and tells whether a NUL was found.
\<close>

fun copyinstr_page :: "memory \<Rightarrow> addr \<Rightarrow> nat \<Rightarrow> bool \<times> uint8 list" where
  "copyinstr_page m p 0 = (False, [])"
| "copyinstr_page m p (Suc n) =
     (if m p = 0 then (True, [0])
      else let (got_null, bs) = copyinstr_page m (p + 1) n in (got_null, m p # bs))"

function copyinstr :: "addr \<Rightarrow> uint64 \<Rightarrow> nat \<Rightarrow> 'a kmem_scheme \<Rightarrow> (int \<times> uint8 list) kres" where
  "copyinstr pagetable srcva mx s =
     (if mx = 0 then Inr (-1, [])
      else let va0 = PGROUNDDOWN srcva
        in kbind (walkaddr pagetable va0 s) (\<lambda>pa0.
          if pa0 = 0 then Inr (-1, [])
          else let n = min (unat (PGSIZE - (srcva - va0))) mx;
                   (got_null, bs) = copyinstr_page (mem s) (pa0 + (srcva - va0)) n
            in if got_null then Inr (0, bs)
               else kbind (copyinstr pagetable (va0 + PGSIZE) (mx - n) s) (\<lambda>(r, bs').
                 Inr (r, bs @ bs'))))"
  by pat_completeness auto
termination
  by (relation "measure (\<lambda>(pt, va, mx, s). mx)") (auto simp: page_room min_def)

declare copyout.simps [simp del] copyin.simps [simp del] copyinstr.simps [simp del]

end
