(* ===== verification/Proctab.thy ===== *)
theory Proctab
  imports Vm Printf
begin

text \<open>
  The process table of \<^verbatim>\<open>proc.c\<close> and \<^verbatim>\<open>proc.h\<close>, and the sleep locks of \<^verbatim>\<open>sleeplock.c\<close>.
  A \<^verbatim>\<open>struct proc *\<close> is the index of the slot (\<open>None\<close> for a null pointer); \<open>curproc\<close> is
  the process of the CPU that runs the routine. The trapframe is a page of physical memory.
  Routines that touch files (\<^verbatim>\<open>fork\<close>, \<^verbatim>\<open>exit\<close>, \<^verbatim>\<open>wait\<close>, \<^verbatim>\<open>userinit\<close>) are in theory
  Process; context switching and locking are in theory Sched. \<^verbatim>\<open>printf\<close> appends to
  \<open>console_out\<close>, the characters sent to the serial port.
\<close>

datatype procstate = UNUSED | USED | SLEEPING | RUNNABLE | RUNNING | ZOMBIE

record kcontext =
  ctx_ra :: uint64
  ctx_sp :: uint64
  ctx_s :: "uint64 list"

record proc =
  p_state :: procstate
  p_chan :: chan
  p_killed :: uint
  p_xstate :: uint
  p_pid :: uint
  p_parent :: "nat option"
  p_kstack :: uint64
  p_sz :: uint64
  p_pagetable :: addr
  p_trapframe :: addr
  p_context :: kcontext
  p_ofile :: "nat option list"
  p_cwd :: "nat option"
  p_name :: "uint8 list"

datatype sched_impl = Rr_scheduler

record procs = kmem +
  procs :: "proc list"
  curproc :: "nat option"
  initproc :: "nat option"
  nextpid :: uint
  ticks :: uint
  sched_pointer :: sched_impl
  console_out :: string

section \<open>Table access\<close>

definition the_proc :: "nat \<Rightarrow> 'a procs_scheme \<Rightarrow> proc" where
  "the_proc i s = procs s ! i"

definition upd_proc :: "nat \<Rightarrow> (proc \<Rightarrow> proc) \<Rightarrow> 'a procs_scheme \<Rightarrow> 'a procs_scheme" where
  "upd_proc i f s = s\<lparr>procs := (procs s)[i := f (procs s ! i)]\<rparr>"

definition myproc :: "'a procs_scheme \<Rightarrow> nat kres" where
  "myproc s = (case curproc s of None \<Rightarrow> Inl (Undef ''null proc'') | Some i \<Rightarrow> Inr i)"

definition kprint :: "string \<Rightarrow> printf_arg list \<Rightarrow> 'a procs_scheme \<Rightarrow> 'a procs_scheme kres" where
  "kprint fmt ap s = kbind (printf fmt ap) (\<lambda>out. Inr (s\<lparr>console_out := console_out s @ out\<rparr>))"

text \<open>Trapframe fields, at their offsets in \<^verbatim>\<open>struct trapframe\<close>.\<close>

definition tf_kernel_satp :: uint64 where "tf_kernel_satp = 0"
definition tf_kernel_sp :: uint64 where "tf_kernel_sp = 8"
definition tf_kernel_trap :: uint64 where "tf_kernel_trap = 16"
definition tf_epc :: uint64 where "tf_epc = 24"
definition tf_kernel_hartid :: uint64 where "tf_kernel_hartid = 32"
definition tf_sp :: uint64 where "tf_sp = 48"
definition tf_a0 :: uint64 where "tf_a0 = 112"
definition tf_a1 :: uint64 where "tf_a1 = 120"
definition tf_a7 :: uint64 where "tf_a7 = 168"
definition sizeof_trapframe :: nat where "sizeof_trapframe = 288"

definition get_tf :: "nat \<Rightarrow> uint64 \<Rightarrow> 'a procs_scheme \<Rightarrow> uint64" where
  "get_tf i off s = read64 (mem s) (p_trapframe (the_proc i s) + off)"

definition set_tf :: "nat \<Rightarrow> uint64 \<Rightarrow> uint64 \<Rightarrow> 'a procs_scheme \<Rightarrow> 'a procs_scheme" where
  "set_tf i off v s = s\<lparr>mem := write64 (mem s) (p_trapframe (the_proc i s) + off) v\<rparr>"

section \<open>Boot\<close>

definition proc_mapstacks :: "addr \<Rightarrow> 'a kmem_scheme \<Rightarrow> 'a kmem_scheme kres" where
  "proc_mapstacks kpgtbl s =
     kfold (\<lambda>i s. kbind (kalloc s) (\<lambda>(pa, s).
       if pa = 0 then Inl (Panic ''kalloc'')
       else kvmmap kpgtbl (KSTACK i) pa PGSIZE (PTE_R OR PTE_W) s)) [0..<NPROC] s"

definition kvmmake :: "'a kmem_scheme \<Rightarrow> (addr \<times> 'a kmem_scheme) kres" where
  "kvmmake s =
     kbind (kalloc s) (\<lambda>(kpgtbl, s).
     kbind (kvmmap kpgtbl UART0 UART0 PGSIZE (PTE_R OR PTE_W) (s\<lparr>mem := memset (mem s) kpgtbl 0 4096\<rparr>)) (\<lambda>s.
     kbind (kvmmap kpgtbl VIRTIO0 VIRTIO0 PGSIZE (PTE_R OR PTE_W) s) (\<lambda>s.
     kbind (kvmmap kpgtbl PLIC PLIC 0x400000 (PTE_R OR PTE_W) s) (\<lambda>s.
     kbind (kvmmap kpgtbl KERNBASE KERNBASE (etext s - KERNBASE) (PTE_R OR PTE_X) s) (\<lambda>s.
     kbind (kvmmap kpgtbl (etext s) (etext s) (PHYSTOP - etext s) (PTE_R OR PTE_W) s) (\<lambda>s.
     kbind (kvmmap kpgtbl TRAMPOLINE (trampoline s) PGSIZE (PTE_R OR PTE_X) s) (\<lambda>s.
     kbind (proc_mapstacks kpgtbl s) (\<lambda>s.
     Inr (kpgtbl, s)))))))))"

definition procinit :: "'a procs_scheme \<Rightarrow> 'a procs_scheme" where
  "procinit s = fold (\<lambda>i. upd_proc i (\<lambda>p. p\<lparr>p_state := UNUSED, p_kstack := KSTACK i\<rparr>)) [0..<NPROC] s"

section \<open>Allocation and release of a slot\<close>

definition allocpid :: "'a procs_scheme \<Rightarrow> uint \<times> 'a procs_scheme" where
  "allocpid s = (nextpid s, s\<lparr>nextpid := nextpid s + 1\<rparr>)"

definition proc_pagetable :: "nat \<Rightarrow> 'a procs_scheme \<Rightarrow> (addr \<times> 'a procs_scheme) kres" where
  "proc_pagetable p s =
     kbind (uvmcreate s) (\<lambda>(pagetable, s).
     if pagetable = 0 then Inr (0, s)
     else kbind (mappages pagetable TRAMPOLINE PGSIZE (trampoline s) (PTE_R OR PTE_X) s) (\<lambda>(r, s).
       if r < 0 then kbind (uvmfree pagetable 0 s) (\<lambda>s. Inr (0, s))
       else kbind (mappages pagetable TRAPFRAME PGSIZE (p_trapframe (the_proc p s)) (PTE_R OR PTE_W) s) (\<lambda>(r, s).
         if r < 0
         then kbind (uvmunmap pagetable TRAMPOLINE 1 False s) (\<lambda>s.
           kbind (uvmfree pagetable 0 s) (\<lambda>s. Inr (0, s)))
         else Inr (pagetable, s))))"

definition proc_freepagetable :: "addr \<Rightarrow> uint64 \<Rightarrow> 'a kmem_scheme \<Rightarrow> 'a kmem_scheme kres" where
  "proc_freepagetable pagetable sz s =
     kbind (uvmunmap pagetable TRAMPOLINE 1 False s) (\<lambda>s.
     kbind (uvmunmap pagetable TRAPFRAME 1 False s) (\<lambda>s.
     uvmfree pagetable sz s))"

definition freeproc :: "nat \<Rightarrow> 'a procs_scheme \<Rightarrow> 'a procs_scheme kres" where
  "freeproc p s =
     kbind (if p_trapframe (the_proc p s) \<noteq> 0 then kfree (p_trapframe (the_proc p s)) s else Inr s) (\<lambda>s.
     let s = upd_proc p (\<lambda>p. p\<lparr>p_trapframe := 0\<rparr>) s
     in kbind (if p_pagetable (the_proc p s) \<noteq> 0
               then proc_freepagetable (p_pagetable (the_proc p s)) (p_sz (the_proc p s)) s else Inr s) (\<lambda>s.
       Inr (upd_proc p (\<lambda>p. p\<lparr>p_pagetable := 0, p_sz := 0, p_pid := 0, p_parent := None,
         p_name := (p_name p)[0 := 0], p_chan := Chan_null, p_killed := 0, p_xstate := 0,
         p_state := UNUSED\<rparr>) s)))"

fun find_unused :: "nat list \<Rightarrow> 'a procs_scheme \<Rightarrow> nat option" where
  "find_unused [] s = None"
| "find_unused (i # is) s = (if p_state (the_proc i s) = UNUSED then Some i else find_unused is s)"

text \<open>\<open>forkret\<close> is the address of the kernel routine a new process starts in.\<close>

definition allocproc :: "uint64 \<Rightarrow> 'a procs_scheme \<Rightarrow> (nat option \<times> 'a procs_scheme) kres" where
  "allocproc forkret s =
     (case find_unused [0..<NPROC] s of
        None \<Rightarrow> Inr (None, s)
      | Some p \<Rightarrow>
        let (pid, s) = allocpid s;
            s = upd_proc p (\<lambda>p. p\<lparr>p_pid := pid, p_state := USED\<rparr>) s
        in kbind (kalloc s) (\<lambda>(tf, s).
          let s = upd_proc p (\<lambda>p. p\<lparr>p_trapframe := tf\<rparr>) s
          in if tf = 0 then kbind (freeproc p s) (\<lambda>s. Inr (None, s))
          else kbind (proc_pagetable p s) (\<lambda>(pt, s).
            let s = upd_proc p (\<lambda>p. p\<lparr>p_pagetable := pt\<rparr>) s
            in if pt = 0 then kbind (freeproc p s) (\<lambda>s. Inr (None, s))
            else Inr (Some p, upd_proc p (\<lambda>p. p\<lparr>p_context :=
              \<lparr>ctx_ra = forkret, ctx_sp = p_kstack p + PGSIZE, ctx_s = replicate 12 0\<rparr>\<rparr>) s))))"

definition growproc :: "int \<Rightarrow> 'a procs_scheme \<Rightarrow> (int \<times> 'a procs_scheme) kres" where
  "growproc n s =
     kbind (myproc s) (\<lambda>p.
     let sz = p_sz (the_proc p s); pt = p_pagetable (the_proc p s)
     in if 0 < n
        then kbind (uvmalloc pt sz (sz + of_int n) PTE_W s) (\<lambda>(sz, s).
          if sz = 0 then Inr (-1, s) else Inr (0, upd_proc p (\<lambda>p. p\<lparr>p_sz := sz\<rparr>) s))
        else if n < 0
        then kbind (uvmdealloc pt sz (sz + of_int n) s) (\<lambda>(sz, s).
          Inr (0, upd_proc p (\<lambda>p. p\<lparr>p_sz := sz\<rparr>) s))
        else Inr (0, s))"

section \<open>Sleep, wake-up and kill\<close>

definition wakeup :: "chan \<Rightarrow> 'a procs_scheme \<Rightarrow> 'a procs_scheme" where
  "wakeup c s =
     fold (\<lambda>i s. if Some i \<noteq> curproc s \<and> p_state (the_proc i s) = SLEEPING \<and> p_chan (the_proc i s) = c
                then upd_proc i (\<lambda>p. p\<lparr>p_state := RUNNABLE\<rparr>) s else s) [0..<NPROC] s"

lemma wakeup_frame:
  fixes s :: "'a procs_scheme"
  shows "\<exists>ps. wakeup c s = s\<lparr>procs := ps\<rparr> \<and> length ps = length (procs s) \<and>
    (\<forall>i. p_pid (ps ! i) = p_pid (procs s ! i)) \<and> (\<forall>i. Some i = curproc s \<longrightarrow> ps ! i = procs s ! i)"
proof -
  let ?f = "\<lambda>i s. if Some i \<noteq> curproc s \<and> p_state (the_proc i s) = SLEEPING \<and> p_chan (the_proc i s) = c
                then upd_proc i (\<lambda>p. p\<lparr>p_state := RUNNABLE\<rparr>) s else s"
  have "\<exists>ps. fold ?f xs s = s\<lparr>procs := ps\<rparr> \<and> length ps = length (procs s) \<and>
    (\<forall>i. p_pid (ps ! i) = p_pid (procs s ! i)) \<and> (\<forall>i. Some i = curproc s \<longrightarrow> ps ! i = procs s ! i)" for xs
  proof (induction xs rule: rev_induct)
    case Nil
    then show ?case by (intro exI [of _ "procs s"]) simp
  next
    case (snoc x xs)
    then obtain ps where ps: "fold ?f xs s = s\<lparr>procs := ps\<rparr>" "length ps = length (procs s)"
      "\<forall>i. p_pid (ps ! i) = p_pid (procs s ! i)" "\<forall>i. Some i = curproc s \<longrightarrow> ps ! i = procs s ! i" by blast
    have pid: "p_pid (ps[x := (ps ! x)\<lparr>p_state := RUNNABLE\<rparr>] ! i) = p_pid (ps ! i)" for i
      by (cases "x < length ps") (auto simp: nth_list_update list_update_beyond)
    show ?case
    proof (cases "Some x \<noteq> curproc s \<and> p_state (ps ! x) = SLEEPING \<and> p_chan (ps ! x) = c")
      case True
      then have "fold ?f (xs @ [x]) s = s\<lparr>procs := ps[x := (ps ! x)\<lparr>p_state := RUNNABLE\<rparr>]\<rparr>"
        using ps(1) by (simp add: upd_proc_def the_proc_def)
      moreover have "ps[x := (ps ! x)\<lparr>p_state := RUNNABLE\<rparr>] ! i = procs s ! i" if "Some i = curproc s" for i
        using that ps(4) True by (cases "x = i") auto
      ultimately show ?thesis using ps(2,3) pid
        by (intro exI [of _ "ps[x := (ps ! x)\<lparr>p_state := RUNNABLE\<rparr>]"]) simp
    next
      case False
      then have "fold ?f (xs @ [x]) s = s\<lparr>procs := ps\<rparr>" using ps(1) by (auto simp: the_proc_def)
      then show ?thesis using ps by (intro exI [of _ ps]) simp
    qed
  qed
  then show ?thesis unfolding wakeup_def by blast
qed

fun kill_loop :: "uint \<Rightarrow> nat list \<Rightarrow> 'a procs_scheme \<Rightarrow> int \<times> 'a procs_scheme" where
  "kill_loop pid [] s = (-1, s)"
| "kill_loop pid (i # is) s =
     (if p_pid (the_proc i s) = pid
      then (0, upd_proc i (\<lambda>p. p\<lparr>p_killed := 1,
        p_state := (if p_state p = SLEEPING then RUNNABLE else p_state p)\<rparr>) s)
      else kill_loop pid is s)"

definition kill :: "uint \<Rightarrow> 'a procs_scheme \<Rightarrow> int \<times> 'a procs_scheme" where
  "kill pid s = kill_loop pid [0..<NPROC] s"

lemma kill_loop_first:
  assumes "find (\<lambda>i. p_pid (the_proc i s) = pid) is = Some p" "p < length (procs s)"
  shows "kill_loop pid is s = (0, upd_proc p (\<lambda>p. p\<lparr>p_killed := 1,
    p_state := (if p_state p = SLEEPING then RUNNABLE else p_state p)\<rparr>) s)"
  using assms by (induction "is") (auto split: if_splits)

text \<open>
  \<^verbatim>\<open>kill\<close> does not look whether the slot is in use, and a free slot has pid 0: \<^verbatim>\<open>kill(0)\<close> reports success and leaves
  the mark in a slot that \<^verbatim>\<open>allocproc\<close> hands to the next process as it is.
\<close>

lemma kill_zero_marks_free_slot:
  assumes "p < NPROC" "p < length (procs s)" "p_state (the_proc p s) = UNUSED" "p_pid (the_proc p s) = 0"
    "\<forall>i<p. p_pid (the_proc i s) \<noteq> 0"
  shows "fst (kill 0 s) = 0 \<and> p_state (the_proc p (snd (kill 0 s))) = UNUSED \<and> p_killed (the_proc p (snd (kill 0 s))) = 1"
proof -
  have "find (\<lambda>i. p_pid (the_proc i s) = 0) [0..<NPROC] = Some p"
    using assms by (auto simp: find_Some_iff intro!: exI [of _ p])
  from kill_loop_first [OF this assms(2)] show ?thesis
    using assms(2,3) by (simp add: kill_def upd_proc_def the_proc_def)
qed

definition setkilled :: "nat \<Rightarrow> 'a procs_scheme \<Rightarrow> 'a procs_scheme" where
  "setkilled p s = upd_proc p (\<lambda>p. p\<lparr>p_killed := 1\<rparr>) s"

definition killed :: "nat \<Rightarrow> 'a procs_scheme \<Rightarrow> bool" where
  "killed p s \<longleftrightarrow> p_killed (the_proc p s) \<noteq> 0"

definition reparent :: "nat \<Rightarrow> 'a procs_scheme \<Rightarrow> 'a procs_scheme" where
  "reparent p s =
     fold (\<lambda>pp s. if p_parent (the_proc pp s) = Some p
       then wakeup (case initproc s of None \<Rightarrow> Chan_null | Some i \<Rightarrow> Chan_proc i)
              (upd_proc pp (\<lambda>q. q\<lparr>p_parent := initproc s\<rparr>) s)
       else s) [0..<NPROC] s"

section \<open>Copying for the current process\<close>

text \<open>
  With \<open>user_dst\<close> the bytes go to the current process; otherwise the destination is a kernel
  buffer, which the caller fills from the same byte list.
\<close>

definition either_copyout :: "bool \<Rightarrow> uint64 \<Rightarrow> uint8 list \<Rightarrow> 'a procs_scheme \<Rightarrow> (int \<times> 'a procs_scheme) kres" where
  "either_copyout user_dst dst src s =
     (if user_dst then kbind (myproc s) (\<lambda>p. copyout (p_pagetable (the_proc p s)) dst src s)
      else Inr (0, s))"

text \<open>A kernel source is the byte list \<open>ksrc\<close>.\<close>

definition either_copyin :: "bool \<Rightarrow> uint64 \<Rightarrow> uint8 list \<Rightarrow> nat \<Rightarrow> 'a procs_scheme \<Rightarrow> (int \<times> uint8 list) kres" where
  "either_copyin user_src src ksrc len s =
     (if user_src then kbind (myproc s) (\<lambda>p. copyin (p_pagetable (the_proc p s)) src len s)
      else Inr (0, take len ksrc))"

section \<open>Sleep locks\<close>

record sleeplock =
  locked :: bool
  lk_pid :: uint

definition initsleeplock :: sleeplock where
  "initsleeplock = \<lparr>locked = False, lk_pid = 0\<rparr>"

definition acquiresleep :: "chan \<Rightarrow> sleeplock \<Rightarrow> 'a procs_scheme \<Rightarrow> sleeplock kres" where
  "acquiresleep c lk s =
     (if locked lk then Inl (Sleep c)
      else kbind (myproc s) (\<lambda>p. Inr \<lparr>locked = True, lk_pid = p_pid (the_proc p s)\<rparr>))"

definition releasesleep :: "chan \<Rightarrow> sleeplock \<Rightarrow> 'a procs_scheme \<Rightarrow> sleeplock \<times> 'a procs_scheme" where
  "releasesleep c lk s = (\<lparr>locked = False, lk_pid = 0\<rparr>, wakeup c s)"

definition holdingsleep :: "sleeplock \<Rightarrow> 'a procs_scheme \<Rightarrow> bool kres" where
  "holdingsleep lk s =
     (if \<not> locked lk then Inr False
      else kbind (myproc s) (\<lambda>p. Inr (lk_pid lk = p_pid (the_proc p s))))"

section \<open>ps, procdump and the scheduler table\<close>

definition sizeof_user_proc :: nat where "sizeof_user_proc = 36"

definition state_code :: "procstate \<Rightarrow> uint" where
  "state_code st = (case st of UNUSED \<Rightarrow> 0 | USED \<Rightarrow> 1 | SLEEPING \<Rightarrow> 2 | RUNNABLE \<Rightarrow> 3 | RUNNING \<Rightarrow> 4 | ZOMBIE \<Rightarrow> 5)"

definition ps_entry :: "nat \<Rightarrow> nat \<Rightarrow> uint8 list \<Rightarrow> 'a procs_scheme \<Rightarrow> uint8 list" where
  "ps_entry p k buf s =
     (let pr = the_proc p s; off = k * sizeof_user_proc;
          buf = put_bytes off (le32 (state_code (p_state pr)) @ le32 (p_killed pr) @ le32 (p_xstate pr) @ le32 (p_pid pr)) buf;
          buf = put_bytes (off + 20) (take 16 (p_name pr)) buf
      in case p_parent pr of None \<Rightarrow> buf | Some q \<Rightarrow> put_bytes (off + 16) (le32 (p_pid (the_proc q s))) buf)"

fun ps_loop :: "nat list \<Rightarrow> nat \<Rightarrow> nat \<Rightarrow> uint8 list \<Rightarrow> 'a procs_scheme \<Rightarrow> nat \<times> uint8 list" where
  "ps_loop [] count k buf s = (k, buf)"
| "ps_loop (p # ps) count k buf s =
     (if k = count then (k, buf)
      else if p_state (the_proc p s) = UNUSED
      then (k, put_bytes (k * sizeof_user_proc) (le32 (state_code UNUSED)) buf)
      else ps_loop ps count (Suc k) (ps_entry p k buf s) s)"

text \<open>\<open>stack\<close> stands for the bytes the uninitialised array \<^verbatim>\<open>loc_result\<close> starts with.\<close>

definition ps :: "uint8 \<Rightarrow> uint8 \<Rightarrow> uint8 list \<Rightarrow> 'a procs_scheme \<Rightarrow> (uint64 \<times> 'a procs_scheme) kres" where
  "ps start count stack s =
     kbind (myproc s) (\<lambda>me.
     let result = p_sz (the_proc me s)
     in if count = 0 then Inr (0, s)
        else kbind (growproc (uint count * int sizeof_user_proc) s) (\<lambda>(r, s).
          if r < 0 then Inr (0, s)
          else if NPROC \<le> unat start then Inr (0, s)
          else let (k, buf) = ps_loop [unat start..<NPROC] (unat count) 0 (take (unat count * sizeof_user_proc) stack) s;
                   buf = (if k < unat count then put_bytes (k * sizeof_user_proc) (le32 (state_code UNUSED)) buf else buf)
            in kbind (copyout (p_pagetable (the_proc me s)) result buf s) (\<lambda>(_, s). Inr (result, s))))"

definition cstr :: "uint8 list \<Rightarrow> string" where
  "cstr bs = map (\<lambda>b. char_of (unat b)) (takeWhile (\<lambda>b. b \<noteq> 0) bs)"

definition state_name :: "procstate \<Rightarrow> string" where
  "state_name st = (case st of UNUSED \<Rightarrow> ''unused'' | USED \<Rightarrow> ''used'' | SLEEPING \<Rightarrow> ''sleep ''
     | RUNNABLE \<Rightarrow> ''runble'' | RUNNING \<Rightarrow> ''run   '' | ZOMBIE \<Rightarrow> ''zombie'')"

definition procdump :: "'a procs_scheme \<Rightarrow> 'a procs_scheme kres" where
  "procdump s =
     kbind (kprint [CHR 0x0A] [] s) (\<lambda>s.
     kfold (\<lambda>i s. let p = the_proc i s in
       if p_state p = UNUSED then Inr s
       else kbind (kprint ''%d <%s %s'' [ArgInt (p_pid p), ArgStr (Some (state_name (p_state p))), ArgStr (Some (cstr (p_name p)))] s) (\<lambda>s.
         kprint [CHR 0x0A] [] s)) [0..<NPROC] s)"

definition SCHEDC :: int where "SCHEDC = 1"

definition available_schedulers :: "(string \<times> sched_impl \<times> uint) list" where
  "available_schedulers = [(''Round Robin'', Rr_scheduler, 1)]"

definition schedls :: "'a procs_scheme \<Rightarrow> 'a procs_scheme kres" where
  "schedls s =
     kbind (kprint (''[ ]'' @ [CHR 0x09] @ ''Scheduler Name'' @ [CHR 0x09] @ ''Scheduler ID'' @ [CHR 0x0A]) [] s) (\<lambda>s.
     kbind (kprint (''===================================='' @ [CHR 0x0A]) [] s) (\<lambda>s.
     kbind (kfold (\<lambda>i s.
        kbind (if fst (snd (available_schedulers ! i)) = sched_pointer s
               then kprint (''[*]'' @ [CHR 0x09]) [] s else kprint (''   '' @ [CHR 0x09]) [] s) (\<lambda>s.
        kprint (''%s'' @ [CHR 0x09] @ ''%d'' @ [CHR 0x0A])
          [ArgStr (Some (fst (available_schedulers ! i))), ArgInt (snd (snd (available_schedulers ! i)))] s))
        [0..<nat SCHEDC] s) (\<lambda>s.
     kprint ([CHR 0x0A] @ ''*: current scheduler'' @ [CHR 0x0A, CHR 0x0A]) [] s)))"

definition schedset :: "int \<Rightarrow> 'a procs_scheme \<Rightarrow> 'a procs_scheme kres" where
  "schedset i s =
     (if i < 0 \<or> SCHEDC \<le> i then kprint (''Scheduler unchanged: ID out of range'' @ [CHR 0x0A]) [] s
      else kprint (''Scheduler successfully changed to %s'' @ [CHR 0x0A])
        [ArgStr (Some (fst (available_schedulers ! nat i)))]
        (s\<lparr>sched_pointer := fst (snd (available_schedulers ! nat i))\<rparr>))"

end
