(* ===== verification/Bio.thy ===== *)
theory Bio
  imports Proctab
begin

text \<open>
  The buffer cache, \<^verbatim>\<open>bio.c\<close>, over a disk of 1024-byte blocks. The doubly linked list through
  \<^verbatim>\<open>prev\<close> and \<^verbatim>\<open>next\<close> is the list \<open>lru\<close> of buffer numbers from \<^verbatim>\<open>head.next\<close> to
  \<^verbatim>\<open>head.prev\<close>. \<^verbatim>\<open>virtio_disk_rw\<close> is the transfer it performs: the wait for the interrupt is
  folded into it, and \<open>disk_trace\<close> records the writes in the order in which the device
  completes them, so that the disk after a crash is the disk after a prefix of the trace.
  The invariant \<open>binv\<close> says which blocks are pinned and which buffers are held, and \<open>view\<close> is the
  content of a block as the file system sees it: the cached copy if there is one.
\<close>

type_synonym block = "uint8 list"

definition BSIZE :: nat where "BSIZE = 1024"

record buf =
  b_valid :: bool
  b_dev :: uint
  b_blockno :: uint
  b_lock :: sleeplock
  b_refcnt :: uint
  b_data :: block

record bio = procs +
  bufs :: "buf list"
  lru :: "nat list"
  disk :: "uint \<Rightarrow> block"
  disk_trace :: "(uint \<times> block) list"

definition the_buf :: "nat \<Rightarrow> 'a bio_scheme \<Rightarrow> buf" where
  "the_buf i s = bufs s ! i"

definition upd_buf :: "nat \<Rightarrow> (buf \<Rightarrow> buf) \<Rightarrow> 'a bio_scheme \<Rightarrow> 'a bio_scheme" where
  "upd_buf i f s = s\<lparr>bufs := (bufs s)[i := f (bufs s ! i)]\<rparr>"

definition virtio_disk_rw :: "nat \<Rightarrow> bool \<Rightarrow> 'a bio_scheme \<Rightarrow> 'a bio_scheme" where
  "virtio_disk_rw i write s =
     (let b = the_buf i s
      in if write
         then s\<lparr>disk := (disk s)(b_blockno b := b_data b), disk_trace := disk_trace s @ [(b_blockno b, b_data b)]\<rparr>
         else upd_buf i (\<lambda>b. b\<lparr>b_data := disk s (b_blockno b)\<rparr>) s)"

section \<open>The operations\<close>

definition binit :: "'a bio_scheme \<Rightarrow> 'a bio_scheme" where
  "binit s = fold (\<lambda>i s. upd_buf i (\<lambda>b. b\<lparr>b_lock := initsleeplock\<rparr>) (s\<lparr>lru := i # lru s\<rparr>))
     [0..<NBUF] (s\<lparr>lru := []\<rparr>)"

fun find_cached :: "uint \<Rightarrow> uint \<Rightarrow> nat list \<Rightarrow> 'a bio_scheme \<Rightarrow> nat option" where
  "find_cached dev blockno [] s = None"
| "find_cached dev blockno (i # is) s =
     (if b_dev (the_buf i s) = dev \<and> b_blockno (the_buf i s) = blockno then Some i
      else find_cached dev blockno is s)"

fun find_free :: "nat list \<Rightarrow> 'a bio_scheme \<Rightarrow> nat option" where
  "find_free [] s = None"
| "find_free (i # is) s = (if b_refcnt (the_buf i s) = 0 then Some i else find_free is s)"

definition lock_buf :: "nat \<Rightarrow> 'a bio_scheme \<Rightarrow> (nat \<times> 'a bio_scheme) kres" where
  "lock_buf i s =
     kbind (acquiresleep (Chan_buf_lock i) (b_lock (the_buf i s)) s) (\<lambda>lk.
       Inr (i, upd_buf i (\<lambda>b. b\<lparr>b_lock := lk\<rparr>) s))"

definition bget :: "uint \<Rightarrow> uint \<Rightarrow> 'a bio_scheme \<Rightarrow> (nat \<times> 'a bio_scheme) kres" where
  "bget dev blockno s =
     (case find_cached dev blockno (lru s) s of
        Some i \<Rightarrow> lock_buf i (upd_buf i (\<lambda>b. b\<lparr>b_refcnt := b_refcnt b + 1\<rparr>) s)
      | None \<Rightarrow>
        (case find_free (rev (lru s)) s of
           Some i \<Rightarrow> lock_buf i (upd_buf i (\<lambda>b. b\<lparr>b_dev := dev, b_blockno := blockno, b_valid := False, b_refcnt := 1\<rparr>) s)
         | None \<Rightarrow> Inl (Panic ''bget: no buffers'')))"

definition bread :: "uint \<Rightarrow> uint \<Rightarrow> 'a bio_scheme \<Rightarrow> (nat \<times> 'a bio_scheme) kres" where
  "bread dev blockno s =
     kbind (bget dev blockno s) (\<lambda>(i, s).
       if \<not> b_valid (the_buf i s)
       then Inr (i, upd_buf i (\<lambda>b. b\<lparr>b_valid := True\<rparr>) (virtio_disk_rw i False s))
       else Inr (i, s))"

definition bwrite :: "nat \<Rightarrow> 'a bio_scheme \<Rightarrow> 'a bio_scheme kres" where
  "bwrite i s =
     kbind (holdingsleep (b_lock (the_buf i s)) s) (\<lambda>h.
       if \<not> h then Inl (Panic ''bwrite'') else Inr (virtio_disk_rw i True s))"

definition brelse :: "nat \<Rightarrow> 'a bio_scheme \<Rightarrow> 'a bio_scheme kres" where
  "brelse i s =
     kbind (holdingsleep (b_lock (the_buf i s)) s) (\<lambda>h.
       if \<not> h then Inl (Panic ''brelse'')
       else let (lk, s) = releasesleep (Chan_buf_lock i) (b_lock (the_buf i s)) s;
                s = upd_buf i (\<lambda>b. b\<lparr>b_lock := lk, b_refcnt := b_refcnt b - 1\<rparr>) s
         in Inr (if b_refcnt (the_buf i s) = 0 then s\<lparr>lru := i # remove1 i (lru s)\<rparr> else s))"

definition bpin :: "nat \<Rightarrow> 'a bio_scheme \<Rightarrow> 'a bio_scheme" where
  "bpin i s = upd_buf i (\<lambda>b. b\<lparr>b_refcnt := b_refcnt b + 1\<rparr>) s"

definition bunpin :: "nat \<Rightarrow> 'a bio_scheme \<Rightarrow> 'a bio_scheme" where
  "bunpin i s = upd_buf i (\<lambda>b. b\<lparr>b_refcnt := b_refcnt b - 1\<rparr>) s"

text \<open>Storing into the data of a held buffer.\<close>

definition set_data :: "nat \<Rightarrow> block \<Rightarrow> 'a bio_scheme \<Rightarrow> 'a bio_scheme" where
  "set_data i d s = upd_buf i (\<lambda>b. b\<lparr>b_data := d\<rparr>) s"

section \<open>Frame facts\<close>

lemma NBUF_eq: "NBUF = 30" by (simp add: NBUF_def MAXOPBLOCKS_def)

lemma upd_buf_frame [simp]:
  "lru (upd_buf i f s) = lru s" "disk (upd_buf i f s) = disk s" "disk_trace (upd_buf i f s) = disk_trace s"
  "procs (upd_buf i f s) = procs s" "curproc (upd_buf i f s) = curproc s" "mem (upd_buf i f s) = mem s"
  "bio.more (upd_buf i f s) = bio.more s" "length (bufs (upd_buf i f s)) = length (bufs s)"
  by (simp_all add: upd_buf_def)

lemma the_buf_upd_buf:
  "the_buf j (upd_buf i f s) = (if i = j \<and> i < length (bufs s) then f (the_buf j s) else the_buf j s)"
  by (cases "i < length (bufs s)") (auto simp: the_buf_def upd_buf_def nth_list_update list_update_beyond)


section \<open>The invariant and the view\<close>

definition cached :: "'a bio_scheme \<Rightarrow> nat \<Rightarrow> uint \<Rightarrow> bool" where
  "cached s i n \<longleftrightarrow> i < NBUF \<and> b_dev (the_buf i s) = ROOTDEV \<and> b_blockno (the_buf i s) = n"

definition view :: "'a bio_scheme \<Rightarrow> uint \<Rightarrow> block" where
  "view s n = (case find_cached ROOTDEV n (lru s) s of
     Some i \<Rightarrow> if b_valid (the_buf i s) then b_data (the_buf i s) else disk s n
   | None \<Rightarrow> disk s n)"

definition mypid :: "'a procs_scheme \<Rightarrow> uint" where
  "mypid s = p_pid (procs s ! the (curproc s))"

definition held_by_me :: "'a bio_scheme \<Rightarrow> nat \<Rightarrow> bool" where
  "held_by_me s i \<longleftrightarrow> b_lock (the_buf i s) = \<lparr>locked = True, lk_pid = mypid s\<rparr> \<and>
     b_valid (the_buf i s) \<and> b_dev (the_buf i s) = ROOTDEV"

text \<open>
  \<open>P\<close> is the set of pinned block numbers, \<open>H\<close> the list of buffers the current process holds;
  no other process holds one.
\<close>

definition binv :: "'a bio_scheme \<Rightarrow> uint set \<Rightarrow> nat list \<Rightarrow> bool" where
  "binv s P H \<longleftrightarrow>
     length (bufs s) = NBUF \<and> distinct (lru s) \<and> set (lru s) = {..<NBUF} \<and> curproc s \<noteq> None \<and>
     distinct H \<and> set H \<subseteq> {..<NBUF} \<and>
     (\<forall>i j n. cached s i n \<and> cached s j n \<longrightarrow> i = j) \<and>
     (\<forall>i<NBUF. (if i \<in> set H then held_by_me s i else \<not> locked (b_lock (the_buf i s))) \<and>
        b_refcnt (the_buf i s) =
          (if b_dev (the_buf i s) = ROOTDEV \<and> b_blockno (the_buf i s) \<in> P then 1 else 0) + (if i \<in> set H then 1 else 0) \<and>
        length (b_data (the_buf i s)) = BSIZE) \<and>
     (\<forall>n\<in>P. \<exists>i. cached s i n \<and> b_valid (the_buf i s)) \<and>
     (\<forall>i n. cached s i n \<and> b_valid (the_buf i s) \<and> n \<notin> P \<and> i \<notin> set H \<longrightarrow> b_data (the_buf i s) = disk s n) \<and>
     (\<forall>n. length (disk s n) = BSIZE)"

lemma find_cached_Some:
  "find_cached d n xs s = Some i \<Longrightarrow> i \<in> set xs \<and> b_dev (the_buf i s) = d \<and> b_blockno (the_buf i s) = n"
  by (induction xs) (auto split: if_splits)

lemma find_cached_None:
  "find_cached d n xs s = None \<longleftrightarrow> (\<forall>i\<in>set xs. \<not> (b_dev (the_buf i s) = d \<and> b_blockno (the_buf i s) = n))"
  by (induction xs) auto

lemma find_free_Some: "find_free xs s = Some i \<Longrightarrow> i \<in> set xs \<and> b_refcnt (the_buf i s) = 0"
  by (induction xs) (auto split: if_splits)

lemma find_free_None: "find_free xs s = None \<longleftrightarrow> (\<forall>i\<in>set xs. b_refcnt (the_buf i s) \<noteq> 0)"
  by (induction xs) auto

lemma binvD:
  assumes "binv s P H"
  shows "length (bufs s) = NBUF" "set (lru s) = {..<NBUF}" "distinct (lru s)" "distinct H" "set H \<subseteq> {..<NBUF}"
    "curproc s \<noteq> None"
    "\<And>i j n. cached s i n \<Longrightarrow> cached s j n \<Longrightarrow> i = j"
    "\<And>i. i < NBUF \<Longrightarrow> i \<in> set H \<Longrightarrow> held_by_me s i"
    "\<And>i. i < NBUF \<Longrightarrow> i \<notin> set H \<Longrightarrow> \<not> locked (b_lock (the_buf i s))"
    "\<And>i. i < NBUF \<Longrightarrow> b_refcnt (the_buf i s) =
       (if b_dev (the_buf i s) = ROOTDEV \<and> b_blockno (the_buf i s) \<in> P then 1 else 0) + (if i \<in> set H then 1 else 0)"
    "\<And>i. i < NBUF \<Longrightarrow> length (b_data (the_buf i s)) = BSIZE"
    "\<And>n. n \<in> P \<Longrightarrow> \<exists>i. cached s i n \<and> b_valid (the_buf i s)"
    "\<And>i n. cached s i n \<Longrightarrow> b_valid (the_buf i s) \<Longrightarrow> n \<notin> P \<Longrightarrow> i \<notin> set H \<Longrightarrow> b_data (the_buf i s) = disk s n"
    "\<And>n. length (disk s n) = BSIZE"
proof -
  note b = assms [unfolded binv_def]
  show "length (bufs s) = NBUF" "set (lru s) = {..<NBUF}" "distinct (lru s)" "distinct H" "set H \<subseteq> {..<NBUF}"
    "curproc s \<noteq> None" using b by simp_all
  show "i = j" if "cached s i n" "cached s j n" for i j n using b that by meson
  show "held_by_me s i" if "i < NBUF" "i \<in> set H" for i using b that by presburger
  show "\<not> locked (b_lock (the_buf i s))" if "i < NBUF" "i \<notin> set H" for i using b that by presburger
  show "b_refcnt (the_buf i s) = (if b_dev (the_buf i s) = ROOTDEV \<and> b_blockno (the_buf i s) \<in> P then 1 else 0)
      + (if i \<in> set H then 1 else 0)" if "i < NBUF" for i using b that by presburger
  show "length (b_data (the_buf i s)) = BSIZE" if "i < NBUF" for i using b that by presburger
  show "\<exists>i. cached s i n \<and> b_valid (the_buf i s)" if "n \<in> P" for n using b that by meson
  show "b_data (the_buf i s) = disk s n" if "cached s i n" "b_valid (the_buf i s)" "n \<notin> P" "i \<notin> set H" for i n
    using b that by presburger
  show "length (disk s n) = BSIZE" for n using b by presburger
qed

lemma view_cached:
  assumes "binv s P H" "cached s i n"
  shows "view s n = (if b_valid (the_buf i s) then b_data (the_buf i s) else disk s n)"
proof -
  have "find_cached ROOTDEV n (lru s) s = Some i"
  proof (cases "find_cached ROOTDEV n (lru s) s")
    case None
    then show ?thesis using assms binvD(2) [OF assms(1)] by (auto simp: find_cached_None cached_def)
  next
    case (Some j)
    then have "cached s j n" using find_cached_Some [OF Some] binvD(2) [OF assms(1)] by (auto simp: cached_def)
    then show ?thesis using Some binvD(7) [OF assms(1) _ assms(2)] by simp
  qed
  then show ?thesis by (simp add: view_def)
qed

lemma view_uncached:
  assumes "binv s P H" "\<And>i. \<not> cached s i n"
  shows "view s n = disk s n"
proof -
  have "find_cached ROOTDEV n (lru s) s = None"
    using assms binvD(2) [OF assms(1)] by (auto simp: find_cached_None cached_def)
  then show ?thesis by (simp add: view_def)
qed

lemma length_view [simp]:
  assumes "binv s P H" shows "length (view s n) = BSIZE"
proof (cases "\<exists>i. cached s i n")
  case True
  then obtain i where "cached s i n" by blast
  then show ?thesis using view_cached [OF assms] binvD(11,14) [OF assms] by (auto simp: cached_def)
next
  case False
  then show ?thesis using view_uncached [OF assms] binvD(14) [OF assms] by simp
qed

text \<open>A buffer that is neither pinned nor held exists as long as they are fewer than \<^verbatim>\<open>NBUF\<close>.\<close>

lemma free_buffer_exists:
  assumes inv: "binv s P H" and few: "card P + length H < NBUF"
  shows "\<exists>i\<in>set (lru s). b_refcnt (the_buf i s) = 0"
proof (rule ccontr)
  assume none: "\<not> ?thesis"
  define I where "I = {i. i < NBUF \<and> b_dev (the_buf i s) = ROOTDEV \<and> b_blockno (the_buf i s) \<in> P}"
  have "{..<NBUF} \<subseteq> I \<union> set H"
  proof
    fix i assume "i \<in> {..<NBUF}"
    then have "b_refcnt (the_buf i s) \<noteq> 0" "i < NBUF" using none binvD(2) [OF inv] by auto
    then show "i \<in> I \<union> set H" using binvD(10) [OF inv, of i] by (auto simp: I_def split: if_splits)
  qed
  then have "card {..<NBUF} \<le> card (I \<union> set H)" by (intro card_mono) (auto simp: I_def)
  also have "\<dots> \<le> card I + card (set H)" by (rule card_Un_le)
  also have "card (set H) = length H" using binvD(4) [OF inv] by (rule distinct_card)
  also have "card I \<le> card P"
  proof (rule card_inj_on_le)
    show "inj_on (\<lambda>i. b_blockno (the_buf i s)) I"
      using binvD(7) [OF inv] by (auto simp: inj_on_def I_def cached_def)
    show "(\<lambda>i. b_blockno (the_buf i s)) ` I \<subseteq> P" by (auto simp: I_def)
  qed simp
  finally show False using few by simp
qed


section \<open>What the operations do\<close>

lemma myproc_eq: "curproc s \<noteq> None \<Longrightarrow> myproc s = Inr (the (curproc s))"
  by (auto simp: myproc_def)

lemma acquiresleep_free:
  "\<not> locked lk \<Longrightarrow> curproc s \<noteq> None \<Longrightarrow> acquiresleep c lk s = Inr \<lparr>locked = True, lk_pid = mypid s\<rparr>"
  by (simp add: acquiresleep_def myproc_eq mypid_def the_proc_def)

lemma holdingsleep_mine:
  "lk = \<lparr>locked = True, lk_pid = mypid s\<rparr> \<Longrightarrow> curproc s \<noteq> None \<Longrightarrow> holdingsleep lk s = Inr True"
  by (simp add: holdingsleep_def myproc_eq mypid_def the_proc_def)

definition held_buf :: "'a bio_scheme \<Rightarrow> uint set \<Rightarrow> uint \<Rightarrow> buf" where
  "held_buf s P n = \<lparr>b_valid = True, b_dev = ROOTDEV, b_blockno = n,
     b_lock = \<lparr>locked = True, lk_pid = mypid s\<rparr>, b_refcnt = (if n \<in> P then 1 else 0) + 1, b_data = view s n\<rparr>"

text \<open>The state after a \<^verbatim>\<open>bread\<close>: buffer \<open>i\<close> is held and shows block \<open>n\<close>.\<close>

lemma install_held:
  assumes inv: "binv s P H" and i: "i < NBUF" "i \<notin> set H"
    and slot: "cached s i n \<or> (\<forall>j. \<not> cached s j n) \<and> b_refcnt (the_buf i s) = 0"
  defines "s' \<equiv> s\<lparr>bufs := (bufs s)[i := held_buf s P n]\<rparr>"
  shows "binv s' P (i # H)" and "view s' = view s"
proof -
  have len: "length (bufs s) = NBUF" by (rule binvD(1) [OF inv])
  have tb: "the_buf j s' = (if j = i then held_buf s P n else the_buf j s)" for j
    using i len by (simp add: s'_def the_buf_def nth_list_update)
  have ca: "cached s' j m \<longleftrightarrow> (if j = i then m = n else cached s j m)" for j m
    using i by (auto simp: cached_def tb held_buf_def)
  have nP: "n \<notin> P" if "\<forall>j. \<not> cached s j n" using that binvD(12) [OF inv, of n] by blast
  have oldP: "m \<notin> P" if "cached s i m" "m \<noteq> n" for m
  proof -
    have "b_refcnt (the_buf i s) = 0" using that slot by (auto simp: cached_def)
    then show ?thesis using binvD(10) [OF inv i(1)] that by (auto simp: cached_def split: if_splits)
  qed
  have uniq: "j = k" if "cached s' j m" "cached s' k m" for j k m
    using that slot binvD(7) [OF inv] unfolding ca by (metis (full_types))
  have mp: "mypid s' = mypid s" by (simp add: mypid_def s'_def)
  have pin: "\<exists>j. cached s' j m \<and> b_valid (the_buf j s')" if mP: "m \<in> P" for m
  proof (cases "m = n")
    case True
    then show ?thesis by (intro exI [of _ i]) (simp add: ca tb held_buf_def)
  next
    case False
    obtain j where j: "cached s j m" "b_valid (the_buf j s)" using binvD(12) [OF inv mP] by blast
    then have "j \<noteq> i" using oldP [of m] mP False by auto
    then show ?thesis using j by (intro exI [of _ j]) (simp add: ca tb)
  qed
  show inv': "binv s' P (i # H)"
    unfolding binv_def
  proof (intro conjI allI impI ballI)
    fix j assume j: "j < NBUF"
    show "if j \<in> set (i # H) then held_by_me s' j else \<not> locked (b_lock (the_buf j s'))"
      using binvD(8,9) [OF inv j] by (auto simp: tb held_by_me_def mp held_buf_def)
    show "b_refcnt (the_buf j s') = (if b_dev (the_buf j s') = ROOTDEV \<and> b_blockno (the_buf j s') \<in> P then 1 else 0)
      + (if j \<in> set (i # H) then 1 else 0)"
      using binvD(10) [OF inv j] by (auto simp: tb held_buf_def)
    show "length (b_data (the_buf j s')) = BSIZE"
      using binvD(11) [OF inv j] length_view [OF inv] by (simp add: tb held_buf_def)
  next
    fix j m assume a: "cached s' j m \<and> b_valid (the_buf j s') \<and> m \<notin> P \<and> j \<notin> set (i # H)"
    then have "cached s j m" "b_valid (the_buf j s)" "m \<notin> P" "j \<notin> set H" "j \<noteq> i"
      by (auto simp: ca tb split: if_splits)
    then show "b_data (the_buf j s') = disk s' m" using binvD(13) [OF inv] by (simp add: tb) (simp add: s'_def)
  qed (use inv i len uniq pin in \<open>auto simp: s'_def binv_def\<close>)
  show "view s' = view s"
  proof
    fix m
    show "view s' m = view s m"
    proof (cases "m = n")
      case True
      then show ?thesis using view_cached [OF inv', of i n] by (simp add: ca tb held_buf_def)
    next
      case mn: False
      show ?thesis
      proof (cases "cached s i m")
        case True
        have "\<not> cached s' j m" for j using True mn binvD(7) [OF inv True, of j] unfolding ca by auto
        then have "view s' m = disk s m" using view_uncached [OF inv'] by (simp add: s'_def)
        then show ?thesis using view_cached [OF inv True] binvD(13) [OF inv True] oldP [OF True mn] i(2) by simp
      next
        case ni: False
        show ?thesis
        proof (cases "\<exists>j. cached s j m")
          case True
          then obtain j where j: "cached s j m" "j \<noteq> i" using ni by auto
          then show ?thesis using view_cached [OF inv', of j m] view_cached [OF inv j(1)]
            by (simp add: ca tb) (simp add: s'_def)
        next
          case False
          then have "\<not> cached s' j m" for j using mn unfolding ca by auto
          then show ?thesis using view_uncached [OF inv'] view_uncached [OF inv, of m] False by (simp add: s'_def)
        qed
      qed
    qed
  qed
qed

lemma bread_ok:
  assumes inv: "binv s P H" and few: "(\<exists>j. cached s j n) \<or> card P + length H < NBUF"
    and free: "\<And>i. i \<in> set H \<Longrightarrow> b_blockno (the_buf i s) \<noteq> n"
  shows "\<exists>i s'. bread ROOTDEV n s = Inr (i, s') \<and> s' = s\<lparr>bufs := (bufs s)[i := held_buf s P n]\<rparr> \<and>
    i < NBUF \<and> i \<notin> set H \<and> binv s' P (i # H) \<and> view s' = view s"
proof -
  have len: "length (bufs s) = NBUF" and cur: "curproc s \<noteq> None" by (rule binvD [OF inv])+
  show ?thesis
  proof (cases "find_cached ROOTDEV n (lru s) s")
    case (Some i)
    note f = find_cached_Some [OF Some]
    then have i: "i < NBUF" using binvD(2) [OF inv] by auto
    have iH: "i \<notin> set H" using f free by auto
    have ci: "cached s i n" using f i by (simp add: cached_def)
    have lk: "\<not> locked (b_lock (the_buf i s))" using binvD(9) [OF inv i iH] .
    have rc: "b_refcnt (the_buf i s) = (if n \<in> P then 1 else 0)" using binvD(10) [OF inv i] f iH by simp
    let ?s1 = "upd_buf i (\<lambda>b. b\<lparr>b_refcnt := b_refcnt b + 1\<rparr>) s"
    have "bread ROOTDEV n s = Inr (i, s\<lparr>bufs := (bufs s)[i := held_buf s P n]\<rparr>)"
      using Some lk cur i len rc f view_cached [OF inv ci]
      by (auto simp: bread_def bget_def lock_buf_def acquiresleep_free the_buf_upd_buf virtio_disk_rw_def Let_def)
        (cases "bufs s ! i", auto simp: upd_buf_def held_buf_def the_buf_def mypid_def)+
    then show ?thesis using install_held [OF inv i iH] ci i iH by blast
  next
    case None
    then have nc: "\<forall>j. \<not> cached s j n" using binvD(2) [OF inv] by (auto simp: find_cached_None cached_def)
    obtain i where fi: "find_free (rev (lru s)) s = Some i"
      using free_buffer_exists [OF inv] few nc find_free_None [of "rev (lru s)" s] by fastforce
    then have i: "i < NBUF" "b_refcnt (the_buf i s) = 0"
      using find_free_Some [OF fi] binvD(2) [OF inv] by auto
    have iH: "i \<notin> set H" using binvD(10) [OF inv i(1)] i(2) by (auto split: if_splits)
    have lk: "\<not> locked (b_lock (the_buf i s))" using binvD(9) [OF inv i(1) iH] .
    have nP: "n \<notin> P" using nc binvD(12) [OF inv, of n] by blast
    have "bread ROOTDEV n s = Inr (i, s\<lparr>bufs := (bufs s)[i := held_buf s P n]\<rparr>)"
      using None fi lk cur i len nP view_uncached [OF inv] nc
      by (auto simp: bread_def bget_def lock_buf_def acquiresleep_free the_buf_upd_buf virtio_disk_rw_def Let_def)
        (cases "bufs s ! i", auto simp: upd_buf_def held_buf_def the_buf_def mypid_def)+
    then show ?thesis using install_held [OF inv i(1) iH] nc i iH by blast
  qed
qed


text \<open>Replacing the data of a held buffer changes the view of one block.\<close>

lemma binv_upd_held:
  assumes inv: "binv s P H" and i: "i \<in> set H" and len: "length d = BSIZE"
  defines "s' \<equiv> set_data i d s"
  shows "binv s' P H" "view s' = (view s)(b_blockno (the_buf i s) := d)"
    "the_buf j s' = (if j = i then (the_buf i s)\<lparr>b_data := d\<rparr> else the_buf j s)"
proof -
  have iN: "i < NBUF" using i binvD(5) [OF inv] by auto
  have tb: "the_buf j s' = (if j = i then (the_buf i s)\<lparr>b_data := d\<rparr> else the_buf j s)" for j
    using iN binvD(1) [OF inv] by (auto simp: s'_def set_data_def the_buf_upd_buf)
  then show "the_buf j s' = (if j = i then (the_buf i s)\<lparr>b_data := d\<rparr> else the_buf j s)" .
  have ca: "cached s' j m = cached s j m" for j m by (auto simp: cached_def tb)
  have fr: "disk s' = disk s" "curproc s' = curproc s" "lru s' = lru s" "length (bufs s') = length (bufs s)" "mypid s' = mypid s"
    by (simp_all add: s'_def set_data_def mypid_def)
  have hm: "held_by_me s' j = held_by_me s j" for j by (auto simp: held_by_me_def tb fr)
  show inv': "binv s' P H"
    using inv i len unfolding binv_def ca hm fr by (auto simp: tb)
  have hi: "b_valid (the_buf i s)" "b_dev (the_buf i s) = ROOTDEV" using binvD(8) [OF inv iN i] by (auto simp: held_by_me_def)
  show "view s' = (view s)(b_blockno (the_buf i s) := d)"
  proof
    fix m
    show "view s' m = ((view s)(b_blockno (the_buf i s) := d)) m"
    proof (cases "\<exists>j. cached s j m")
      case True
      then obtain j where j: "cached s j m" by blast
      have "m = b_blockno (the_buf i s) \<longleftrightarrow> j = i"
        using binvD(7) [OF inv j, of i] j hi iN by (auto simp: cached_def)
      then show ?thesis
        using view_cached [OF inv', of j m] view_cached [OF inv j] j hi unfolding ca by (auto simp: tb fr)
    next
      case False
      then have "m \<noteq> b_blockno (the_buf i s)" using hi iN by (auto simp: cached_def)
      then show ?thesis using False view_uncached [OF inv', of m] view_uncached [OF inv, of m] by (simp add: ca fr)
    qed
  qed
qed

lemma bwrite_ok:
  assumes inv: "binv s P H" and i: "i \<in> set H"
  defines "n \<equiv> b_blockno (the_buf i s)" and "d \<equiv> b_data (the_buf i s)"
  defines "s' \<equiv> s\<lparr>disk := (disk s)(n := d), disk_trace := disk_trace s @ [(n, d)]\<rparr>"
  shows "bwrite i s = Inr s'" "binv s' P H" "view s' = view s" "the_buf j s' = the_buf j s"
proof -
  have iN: "i < NBUF" using i binvD(5) [OF inv] by auto
  have h: "held_by_me s i" using binvD(8) [OF inv iN i] .
  then show "bwrite i s = Inr s'"
    using binvD(6) [OF inv] by (simp add: bwrite_def holdingsleep_mine held_by_me_def virtio_disk_rw_def Let_def s'_def n_def d_def)
  have tb: "the_buf j s' = the_buf j s" for j by (simp add: s'_def the_buf_def)
  then show "the_buf j s' = the_buf j s" .
  have ca: "cached s' j m = cached s j m" for j m by (simp add: cached_def tb)
  have "mypid s' = mypid s" by (simp add: s'_def mypid_def)
  then have hm: "held_by_me s' j = held_by_me s j" for j by (simp add: held_by_me_def tb)
  have fr: "curproc s' = curproc s" "lru s' = lru s" "bufs s' = bufs s" "disk s' = (disk s)(n := d)" by (simp_all add: s'_def)
  have ci: "cached s i n" using h iN by (simp add: cached_def held_by_me_def n_def)
  have ld: "length d = BSIZE" using binvD(11) [OF inv iN] by (simp add: d_def)
  have cl: "b_data (the_buf j s) = ((disk s)(n := d)) m"
    if "cached s j m \<and> b_valid (the_buf j s) \<and> m \<notin> P \<and> j \<notin> set H" for j m
    using that binvD(7) [OF inv ci, of j] binvD(13) [OF inv, of j m] i by auto
  have dl: "length (((disk s)(n := d)) m) = BSIZE" for m using binvD(14) [OF inv] ld by simp
  show inv': "binv s' P H"
    using inv cl dl unfolding binv_def ca hm tb fr by blast
  show "view s' = view s"
  proof
    fix m
    show "view s' m = view s m"
    proof (cases "\<exists>j. cached s j m")
      case True
      then obtain j where j: "cached s j m" by blast
      have "j = i" if "m = n" using that binvD(7) [OF inv j, of i] ci by simp
      then show ?thesis
        using view_cached [OF inv', of j m] view_cached [OF inv j] j h
        unfolding ca tb fr by (auto simp: d_def held_by_me_def)
    next
      case False
      then have "m \<noteq> n" using ci by auto
      then show ?thesis using False view_uncached [OF inv', of m] view_uncached [OF inv, of m] by (simp add: ca fr)
    qed
  qed
qed


text \<open>The view depends on the cached entries only, not on the order of the list.\<close>

lemma view_cong:
  assumes inv: "binv s P H" and inv': "binv s' P' H'" and d: "disk s' = disk s"
    and eq: "\<And>j. j < NBUF \<Longrightarrow> b_dev (the_buf j s') = b_dev (the_buf j s) \<and> b_blockno (the_buf j s') = b_blockno (the_buf j s) \<and>
      b_valid (the_buf j s') = b_valid (the_buf j s) \<and> b_data (the_buf j s') = b_data (the_buf j s)"
  shows "view s' = view s"
proof
  fix m
  have ca: "cached s' j m = cached s j m" for j using eq by (auto simp: cached_def)
  show "view s' m = view s m"
  proof (cases "\<exists>j. cached s j m")
    case True
    then obtain j where j: "cached s j m" "j < NBUF" by (auto simp: cached_def)
    then show ?thesis using view_cached [OF inv', of j m] view_cached [OF inv j(1)] eq [OF j(2)] by (simp add: ca d)
  next
    case False
    then show ?thesis using view_uncached [OF inv', of m] view_uncached [OF inv, of m] by (simp add: ca d)
  qed
qed

lemma binv_bufs_cong:
  assumes inv: "binv s P H" and len: "length (bufs s') = NBUF" and l: "distinct (lru s')" "set (lru s') = {..<NBUF}"
    and cur: "curproc s' \<noteq> None" and H': "distinct H'" "set H' \<subseteq> {..<NBUF}" and d: "disk s' = disk s"
    and eq: "\<And>j. j < NBUF \<Longrightarrow> b_dev (the_buf j s') = b_dev (the_buf j s) \<and> b_blockno (the_buf j s') = b_blockno (the_buf j s) \<and>
      b_valid (the_buf j s') = b_valid (the_buf j s) \<and> b_data (the_buf j s') = b_data (the_buf j s)"
    and lk: "\<And>j. j < NBUF \<Longrightarrow> (if j \<in> set H' then held_by_me s' j else \<not> locked (b_lock (the_buf j s')))"
    and rc: "\<And>j. j < NBUF \<Longrightarrow> b_refcnt (the_buf j s') =
       (if b_dev (the_buf j s) = ROOTDEV \<and> b_blockno (the_buf j s) \<in> P' then 1 else 0) + (if j \<in> set H' then 1 else 0)"
    and P': "\<And>n. n \<in> P' \<Longrightarrow> \<exists>i. cached s i n \<and> b_valid (the_buf i s)"
    and cl: "\<And>j n. cached s j n \<Longrightarrow> b_valid (the_buf j s) \<Longrightarrow> n \<notin> P' \<Longrightarrow> j \<notin> set H' \<Longrightarrow> b_data (the_buf j s) = disk s n"
  shows "binv s' P' H'"
proof -
  have ca: "cached s' j m = cached s j m" for j m using eq by (auto simp: cached_def)
  have N: "cached s j m \<Longrightarrow> j < NBUF" for j m by (simp add: cached_def)
  show ?thesis
    unfolding binv_def ca d
  proof (intro conjI allI impI ballI)
    fix j assume j: "j < NBUF"
    show "b_refcnt (the_buf j s') = (if b_dev (the_buf j s') = ROOTDEV \<and> b_blockno (the_buf j s') \<in> P' then 1 else 0)
      + (if j \<in> set H' then 1 else 0)" using rc [OF j] eq [OF j] by simp
    show "length (b_data (the_buf j s')) = BSIZE" using binvD(11) [OF inv j] eq [OF j] by simp
    show "if j \<in> set H' then held_by_me s' j else \<not> locked (b_lock (the_buf j s'))" by (rule lk [OF j])
  next
    fix n assume "n \<in> P'"
    then obtain i where "cached s i n" "b_valid (the_buf i s)" using P' by blast
    then show "\<exists>i. cached s i n \<and> b_valid (the_buf i s')" using eq [OF N] by blast
  next
    fix j n assume a: "cached s j n \<and> b_valid (the_buf j s') \<and> n \<notin> P' \<and> j \<notin> set H'"
    then show "b_data (the_buf j s') = disk s n" using eq [OF N, of j n] cl [of j n] by simp
  next
    fix i j n assume "cached s i n \<and> cached s j n"
    then show "i = j" using binvD(7) [OF inv] by blast
  next
    show "length (disk s n) = BSIZE" for n by (rule binvD(14) [OF inv])
  qed (use len l cur H' in simp_all)
qed

lemma brelse_ok:
  assumes inv: "binv s P H" and i: "i \<in> set H"
    and clean: "b_blockno (the_buf i s) \<in> P \<or> b_data (the_buf i s) = disk s (b_blockno (the_buf i s))"
  shows "\<exists>s' ps bs l. brelse i s = Inr s' \<and> s' = s\<lparr>procs := ps, bufs := bs, lru := l\<rparr> \<and>
    binv s' P (remove1 i H) \<and> view s' = view s \<and> mypid s' = mypid s \<and> (\<forall>j. j \<noteq> i \<longrightarrow> the_buf j s' = the_buf j s)"
proof -
  have iN: "i < NBUF" using i binvD(5) [OF inv] by auto
  have h: "held_by_me s i" using binvD(8) [OF inv iN i] .
  have cur: "curproc s \<noteq> None" and len: "length (bufs s) = NBUF" by (rule binvD [OF inv])+
  obtain ps where ps: "wakeup (Chan_buf_lock i) s = s\<lparr>procs := ps\<rparr>" "\<forall>i. p_pid (ps ! i) = p_pid (procs s ! i)"
    using wakeup_frame [of "Chan_buf_lock i" s] by blast
  define b where "b = (the_buf i s)\<lparr>b_lock := \<lparr>locked = False, lk_pid = 0\<rparr>, b_refcnt := b_refcnt (the_buf i s) - 1\<rparr>"
  define l where "l = (if b_refcnt b = 0 then i # remove1 i (lru s) else lru s)"
  define s' where "s' = s\<lparr>procs := ps, bufs := (bufs s)[i := b], lru := l\<rparr>"
  have run: "brelse i s = Inr s'"
    using h cur iN len
    by (auto simp: brelse_def holdingsleep_mine held_by_me_def releasesleep_def ps Let_def s'_def l_def b_def upd_buf_def the_buf_def)
  have tb: "the_buf j s' = (if j = i then b else the_buf j s)" for j
    using iN len by (simp add: s'_def the_buf_def nth_list_update)
  have mp: "mypid s' = mypid s" using ps(2) by (simp add: mypid_def s'_def)
  have lru: "distinct l" "set l = {..<NBUF}"
    using binvD(2,3) [OF inv] iN by (auto simp: l_def)
  have eq: "b_dev (the_buf j s') = b_dev (the_buf j s) \<and> b_blockno (the_buf j s') = b_blockno (the_buf j s) \<and>
      b_valid (the_buf j s') = b_valid (the_buf j s) \<and> b_data (the_buf j s') = b_data (the_buf j s)" for j
    by (simp add: tb b_def)
  have dH: "distinct H" by (rule binvD(4) [OF inv])
  have inv': "binv s' P (remove1 i H)"
  proof (rule binv_bufs_cong [OF inv])
    fix j assume j: "j < NBUF"
    show "if j \<in> set (remove1 i H) then held_by_me s' j else \<not> locked (b_lock (the_buf j s'))"
      using binvD(8,9) [OF inv j] dH by (auto simp: tb b_def held_by_me_def mp)
    show "b_refcnt (the_buf j s') = (if b_dev (the_buf j s) = ROOTDEV \<and> b_blockno (the_buf j s) \<in> P then 1 else 0)
      + (if j \<in> set (remove1 i H) then 1 else 0)"
      using binvD(10) [OF inv j] dH i by (auto simp: tb b_def)
  next
    fix j n assume a: "cached s j n" "b_valid (the_buf j s)" "n \<notin> P" "j \<notin> set (remove1 i H)"
    show "b_data (the_buf j s) = disk s n"
    proof (cases "j = i")
      case True
      then show ?thesis using a clean by (auto simp: cached_def)
    next
      case False
      then show ?thesis using a binvD(13) [OF inv a(1-3)] dH by simp
    qed
  qed (use inv lru cur len binvD(5) [OF inv] dH eq in \<open>auto simp: s'_def binvD(12) [OF inv] dest: notin_set_remove1\<close>)
  have "view s' = view s" by (rule view_cong [OF inv inv' _ eq]) (simp add: s'_def)
  then show ?thesis
    using run inv' mp tb by (intro exI [of _ s'] exI [of _ ps] exI [of _ "(bufs s)[i := b]"] exI [of _ l]) (simp add: s'_def)
qed


lemma refcnt_only:
  assumes inv: "binv s P H" and i: "i \<in> set H"
    and P': "insert (b_blockno (the_buf i s)) P' = insert (b_blockno (the_buf i s)) P"
    and r: "r = (if b_blockno (the_buf i s) \<in> P' then 1 else 0) + 1"
  defines "s' \<equiv> upd_buf i (\<lambda>b. b\<lparr>b_refcnt := r\<rparr>) s"
  shows "binv s' P' H" "view s' = view s" "mypid s' = mypid s"
    "the_buf j s' = (if j = i then (the_buf i s)\<lparr>b_refcnt := r\<rparr> else the_buf j s)"
proof -
  have iN: "i < NBUF" using i binvD(5) [OF inv] by auto
  have len: "length (bufs s) = NBUF" by (rule binvD(1) [OF inv])
  have h: "held_by_me s i" using binvD(8) [OF inv iN i] .
  have tb: "the_buf j s' = (if j = i then (the_buf i s)\<lparr>b_refcnt := r\<rparr> else the_buf j s)" for j
    using iN len by (auto simp: s'_def the_buf_upd_buf)
  then show "the_buf j s' = (if j = i then (the_buf i s)\<lparr>b_refcnt := r\<rparr> else the_buf j s)" .
  show mp: "mypid s' = mypid s" by (simp add: s'_def mypid_def)
  have eq: "b_dev (the_buf j s') = b_dev (the_buf j s) \<and> b_blockno (the_buf j s') = b_blockno (the_buf j s) \<and>
      b_valid (the_buf j s') = b_valid (the_buf j s) \<and> b_data (the_buf j s') = b_data (the_buf j s)" for j
    by (simp add: tb)
  have ci: "cached s i (b_blockno (the_buf i s))" "b_valid (the_buf i s)" using h iN by (auto simp: cached_def held_by_me_def)
  have mem: "n \<in> P' \<longleftrightarrow> n \<in> P" if "n \<noteq> b_blockno (the_buf i s)" for n using P' that by blast
  show inv': "binv s' P' H"
  proof (rule binv_bufs_cong [OF inv])
    fix j assume j: "j < NBUF"
    show "if j \<in> set H then held_by_me s' j else \<not> locked (b_lock (the_buf j s'))"
      using binvD(8,9) [OF inv j] by (auto simp: tb held_by_me_def mp)
    show "b_refcnt (the_buf j s') = (if b_dev (the_buf j s) = ROOTDEV \<and> b_blockno (the_buf j s) \<in> P' then 1 else 0)
      + (if j \<in> set H then 1 else 0)"
    proof (cases "j = i")
      case True
      then show ?thesis using r h i by (simp add: tb held_by_me_def)
    next
      case False
      then have "b_dev (the_buf j s) = ROOTDEV \<Longrightarrow> b_blockno (the_buf j s) \<noteq> b_blockno (the_buf i s)"
        using binvD(7) [OF inv, of j _ i] ci j by (auto simp: cached_def)
      then show ?thesis using False binvD(10) [OF inv j] mem by (simp add: tb)
    qed
  next
    fix n assume "n \<in> P'"
    then show "\<exists>j. cached s j n \<and> b_valid (the_buf j s)"
      using ci binvD(12) [OF inv, of n] mem [of n] by (cases "n = b_blockno (the_buf i s)") auto
  next
    fix j n assume a: "cached s j n" "b_valid (the_buf j s)" "n \<notin> P'" "j \<notin> set H"
    have "n \<noteq> b_blockno (the_buf i s)" using a(1,4) i binvD(7) [OF inv a(1), of i] ci by auto
    then show "b_data (the_buf j s) = disk s n" using a mem binvD(13) [OF inv a(1,2)] by simp
  qed (use inv binvD [OF inv] eq in \<open>auto simp: s'_def\<close>)
  show "view s' = view s" by (rule view_cong [OF inv inv' _ eq]) (simp add: s'_def)
qed

lemma bpin_ok:
  assumes inv: "binv s P H" and i: "i \<in> set H" and n: "b_blockno (the_buf i s) \<notin> P"
  shows "binv (bpin i s) (insert (b_blockno (the_buf i s)) P) H" "view (bpin i s) = view s" "mypid (bpin i s) = mypid s"
    "the_buf j (bpin i s) = (if j = i then (the_buf i s)\<lparr>b_refcnt := 2\<rparr> else the_buf j s)"
proof -
  have iN: "i < NBUF" using i binvD(5) [OF inv] by auto
  have "b_refcnt (the_buf i s) = 1" using binvD(10) [OF inv iN] i n by simp
  then have "bpin i s = upd_buf i (\<lambda>b. b\<lparr>b_refcnt := 2\<rparr>) s"
    by (simp add: bpin_def upd_buf_def the_buf_def)
  then show "binv (bpin i s) (insert (b_blockno (the_buf i s)) P) H" "view (bpin i s) = view s" "mypid (bpin i s) = mypid s"
    "the_buf j (bpin i s) = (if j = i then (the_buf i s)\<lparr>b_refcnt := 2\<rparr> else the_buf j s)"
    using refcnt_only [OF inv i, of "insert (b_blockno (the_buf i s)) P" 2] by auto
qed

lemma bunpin_ok:
  assumes inv: "binv s P H" and i: "i \<in> set H" and n: "b_blockno (the_buf i s) \<in> P"
  shows "binv (bunpin i s) (P - {b_blockno (the_buf i s)}) H" "view (bunpin i s) = view s" "mypid (bunpin i s) = mypid s"
    "the_buf j (bunpin i s) = (if j = i then (the_buf i s)\<lparr>b_refcnt := 1\<rparr> else the_buf j s)"
proof -
  have iN: "i < NBUF" using i binvD(5) [OF inv] by auto
  have "b_refcnt (the_buf i s) = 2" using binvD(8) [OF inv iN i] binvD(10) [OF inv iN] i n by (simp add: held_by_me_def)
  then have "bunpin i s = upd_buf i (\<lambda>b. b\<lparr>b_refcnt := 1\<rparr>) s"
    by (simp add: bunpin_def upd_buf_def the_buf_def)
  then show "binv (bunpin i s) (P - {b_blockno (the_buf i s)}) H" "view (bunpin i s) = view s" "mypid (bunpin i s) = mypid s"
    "the_buf j (bunpin i s) = (if j = i then (the_buf i s)\<lparr>b_refcnt := 1\<rparr> else the_buf j s)"
    using refcnt_only [OF inv i, of "P - {b_blockno (the_buf i s)}" 1] n by auto
qed

end
