(* ===== verification/Log.thy ===== *)
theory Log
  imports Bio
begin

text \<open>
  The write-ahead log, \<^verbatim>\<open>log.c\<close>: the operations on the in-memory log and its header block,
  and the crash-safety theorems. A crash keeps the disk and nothing else; the disk then is the
  one after some prefix of the writes recorded in \<open>disk_trace\<close>. \<open>recover_disk\<close> is the disk that
  recovery makes of it.
\<close>

record superblock =
  sb_magic :: uint
  sb_size :: uint
  sb_nblocks :: uint
  sb_ninodes :: uint
  sb_nlog :: uint
  sb_logstart :: uint
  sb_inodestart :: uint
  sb_bmapstart :: uint

record log = bio +
  log_start :: uint
  log_size :: int
  outstanding :: int
  committing :: bool
  log_dev :: uint
  lh_n :: int
  lh_block :: "uint list"

section \<open>Operations\<close>

text \<open>\<^verbatim>\<open>struct logheader\<close> in a block: \<^verbatim>\<open>n\<close> at offset 0, \<^verbatim>\<open>block[i]\<close> at offset \<open>4 + 4 * i\<close>.\<close>

definition hdr_n :: "block \<Rightarrow> int" where
  "hdr_n d = sint (get32 d 0)"

definition hdr_block :: "block \<Rightarrow> nat \<Rightarrow> uint" where
  "hdr_block d i = get32 d (4 + 4 * i)"

definition hdr_write :: "int \<Rightarrow> uint list \<Rightarrow> block \<Rightarrow> block" where
  "hdr_write n bs d = fold (\<lambda>i d. put32 (4 + 4 * i) (bs ! i) d) [0..<nat n] (put32 0 (of_int n) d)"

definition install_trans :: "bool \<Rightarrow> 'a log_scheme \<Rightarrow> 'a log_scheme kres" where
  "install_trans recovering s =
     kfold (\<lambda>tail s.
       kbind (bread (log_dev s) (log_start s + of_nat tail + 1) s) (\<lambda>(lbuf, s).
       kbind (bread (log_dev s) (lh_block s ! tail) s) (\<lambda>(dbuf, s).
       let s = set_data dbuf (b_data (the_buf lbuf s)) s
       in kbind (bwrite dbuf s) (\<lambda>s.
          let s = (if recovering then s else bunpin dbuf s)
          in kbind (brelse lbuf s) (\<lambda>s. brelse dbuf s))))) [0..<nat (lh_n s)] s"

definition read_head :: "'a log_scheme \<Rightarrow> 'a log_scheme kres" where
  "read_head s =
     kbind (bread (log_dev s) (log_start s) s) (\<lambda>(buf, s).
     let d = b_data (the_buf buf s); s = s\<lparr>lh_n := hdr_n d\<rparr>
     in if int LOGSIZE < lh_n s then Inl (Undef ''log.lh.block'')
        else brelse buf (s\<lparr>lh_block := map (hdr_block d) [0..<nat (lh_n s)] @ drop (nat (lh_n s)) (lh_block s)\<rparr>))"

definition write_head :: "'a log_scheme \<Rightarrow> 'a log_scheme kres" where
  "write_head s =
     kbind (bread (log_dev s) (log_start s) s) (\<lambda>(buf, s).
     kbind (bwrite buf (set_data buf (hdr_write (lh_n s) (lh_block s) (b_data (the_buf buf s))) s)) (\<lambda>s.
     brelse buf s))"

definition recover_from_log :: "'a log_scheme \<Rightarrow> 'a log_scheme kres" where
  "recover_from_log s =
     kbind (read_head s) (\<lambda>s.
     kbind (install_trans True s) (\<lambda>s.
     write_head (s\<lparr>lh_n := 0\<rparr>)))"

text \<open>\<^verbatim>\<open>sizeof(struct logheader)\<close> is \<open>4 + 4 * LOGSIZE\<close>.\<close>

definition initlog :: "uint \<Rightarrow> superblock \<Rightarrow> 'a log_scheme \<Rightarrow> 'a log_scheme kres" where
  "initlog dev sb s =
     (if BSIZE \<le> 4 + 4 * LOGSIZE then Inl (Panic ''initlog: too big logheader'')
      else recover_from_log (s\<lparr>log_start := sb_logstart sb, log_size := sint (sb_nlog sb), log_dev := dev\<rparr>))"

definition begin_op :: "'a log_scheme \<Rightarrow> 'a log_scheme kres" where
  "begin_op s =
     (if committing s then Inl (Sleep Chan_log)
      else if int LOGSIZE < lh_n s + (outstanding s + 1) * int MAXOPBLOCKS then Inl (Sleep Chan_log)
      else Inr (s\<lparr>outstanding := outstanding s + 1\<rparr>))"

definition write_log :: "'a log_scheme \<Rightarrow> 'a log_scheme kres" where
  "write_log s =
     kfold (\<lambda>tail s.
       kbind (bread (log_dev s) (log_start s + of_nat tail + 1) s) (\<lambda>(to, s).
       kbind (bread (log_dev s) (lh_block s ! tail) s) (\<lambda>(from', s).
       kbind (bwrite to (set_data to (b_data (the_buf from' s)) s)) (\<lambda>s.
       kbind (brelse from' s) (\<lambda>s. brelse to s))))) [0..<nat (lh_n s)] s"

definition commit :: "'a log_scheme \<Rightarrow> 'a log_scheme kres" where
  "commit s =
     (if 0 < lh_n s
      then kbind (write_log s) (\<lambda>s.
        kbind (write_head s) (\<lambda>s.
        kbind (install_trans False s) (\<lambda>s.
        write_head (s\<lparr>lh_n := 0\<rparr>))))
      else Inr s)"

definition end_op :: "'a log_scheme \<Rightarrow> 'a log_scheme kres" where
  "end_op s =
     (let s = s\<lparr>outstanding := outstanding s - 1\<rparr>
      in if committing s then Inl (Panic ''log.committing'')
         else if outstanding s = 0
         then kbind (commit (s\<lparr>committing := True\<rparr>)) (\<lambda>s. Inr (wakeup Chan_log (s\<lparr>committing := False\<rparr>)))
         else Inr (wakeup Chan_log s))"

fun find_block :: "uint \<Rightarrow> uint list \<Rightarrow> nat" where
  "find_block b [] = 0"
| "find_block b (x # xs) = (if x = b then 0 else Suc (find_block b xs))"

definition log_write :: "nat \<Rightarrow> 'a log_scheme \<Rightarrow> 'a log_scheme kres" where
  "log_write i s =
     (if int LOGSIZE \<le> lh_n s \<or> log_size s - 1 \<le> lh_n s then Inl (Panic ''too big a transaction'')
      else if outstanding s < 1 then Inl (Panic ''log_write outside of trans'')
      else let b = b_blockno (the_buf i s);
               k = find_block b (take (nat (lh_n s)) (lh_block s));
               s = s\<lparr>lh_block := (lh_block s)[k := b]\<rparr>
        in if int k = lh_n s then Inr ((bpin i s)\<lparr>lh_n := lh_n s + 1\<rparr>) else Inr s)"

section \<open>Buffer steps\<close>

text \<open>\<open>bstep\<close>: only the cache, the disk and the states of sleeping processes changed.\<close>

definition bstep :: "'a bio_scheme \<Rightarrow> 'a bio_scheme \<Rightarrow> bool" where
  "bstep s s' \<longleftrightarrow> mypid s' = mypid s \<and>
     (\<exists>ps bs l d t. s' = s\<lparr>procs := ps, bufs := bs, lru := l, disk := d, disk_trace := t\<rparr>)"

lemma bstepI:
  "mypid s' = mypid s \<Longrightarrow> s' = s\<lparr>procs := pl, bufs := bs, lru := l, disk := d, disk_trace := t\<rparr> \<Longrightarrow> bstep s s'"
  unfolding bstep_def by blast

lemma bstep_refl [simp]: "bstep s s"
  by (rule bstepI [of _ _ "disk_trace s" "disk s" "lru s" "bufs s" "procs s"]) simp_all

lemma bstep_trans: "bstep s s' \<Longrightarrow> bstep s' s'' \<Longrightarrow> bstep s s''"
  unfolding bstep_def by fastforce

lemma bstep_log:
  assumes "bstep s s'"
  shows "log_start s' = log_start s" "log_size s' = log_size s" "outstanding s' = outstanding s"
    "committing s' = committing s" "log_dev s' = log_dev s" "lh_n s' = lh_n s" "lh_block s' = lh_block s"
  using assms by (auto simp: bstep_def)

text \<open>The cache invariant and the view depend on the cache and the current process only.\<close>

lemma find_cached_cong: "bufs s' = bufs s \<Longrightarrow> find_cached d n xs s' = find_cached d n xs s"
  by (induction xs) (simp_all add: the_buf_def)

lemma cache_cong:
  assumes "bufs s' = bufs s" "lru s' = lru s" "disk s' = disk s"
  shows "view s' = view s"
    and "curproc s' = curproc s \<Longrightarrow> mypid s' = mypid s \<Longrightarrow> binv s' P H = binv s P H"
proof -
  have tb: "the_buf i s' = the_buf i s" for i using assms by (simp add: the_buf_def)
  show "view s' = view s" unfolding view_def assms(2,3) tb find_cached_cong [OF assms(1)] ..
  show "curproc s' = curproc s \<Longrightarrow> mypid s' = mypid s \<Longrightarrow> binv s' P H = binv s P H"
    using assms by (simp add: binv_def cached_def held_by_me_def tb)
qed

lemma view_lh [simp]: "view (s\<lparr>lh_n := k\<rparr>) = view s" "view (s\<lparr>lh_block := b\<rparr>) = view s"
  "view (s\<lparr>outstanding := o'\<rparr>) = view s" "view (s\<lparr>committing := c\<rparr>) = view s"
  by (rule cache_cong; simp)+

lemma binv_lh [simp]:
  "binv (s\<lparr>lh_n := k\<rparr>) P H = binv s P H" "binv (s\<lparr>lh_block := b\<rparr>) P H = binv s P H"
  "binv (s\<lparr>outstanding := o'\<rparr>) P H = binv s P H" "binv (s\<lparr>committing := c\<rparr>) P H = binv s P H"
  by (rule cache_cong; simp add: mypid_def)+

lemma wakeup_cache:
  fixes s :: "'a bio_scheme"
  shows "view (wakeup c s) = view s" "binv (wakeup c s) P H = binv s P H" "disk (wakeup c s) = disk s"
proof -
  obtain ps where ps: "wakeup c s = s\<lparr>procs := ps\<rparr>" "\<forall>i. p_pid (ps ! i) = p_pid (procs s ! i)"
    using wakeup_frame [of c s] by blast
  show "disk (wakeup c s) = disk s" by (simp add: ps(1))
  show "view (wakeup c s) = view s" by (rule cache_cong) (simp_all add: ps(1))
  show "binv (wakeup c s) P H = binv s P H" by (rule cache_cong) (simp_all add: ps mypid_def)
qed

lemma wakeup_log:
  fixes s :: "'a log_scheme"
  shows "log_start (wakeup c s) = log_start s" "outstanding (wakeup c s) = outstanding s" "committing (wakeup c s) = committing s"
    "lh_n (wakeup c s) = lh_n s" "lh_block (wakeup c s) = lh_block s"
proof -
  obtain ps where ps: "wakeup c s = s\<lparr>procs := ps\<rparr>" using wakeup_frame [of c s] by blast
  show "log_start (wakeup c s) = log_start s" "outstanding (wakeup c s) = outstanding s" "committing (wakeup c s) = committing s"
    "lh_n (wakeup c s) = lh_n s" "lh_block (wakeup c s) = lh_block s" by (simp_all add: ps)
qed

lemma bread_step:
  assumes "binv s P H" "(\<exists>j. cached s j n) \<or> card P + length H < NBUF"
    and "\<And>i. i \<in> set H \<Longrightarrow> b_blockno (the_buf i s) \<noteq> n"
  shows "\<exists>i s'. bread ROOTDEV n s = Inr (i, s') \<and> bstep s s' \<and> disk s' = disk s \<and> disk_trace s' = disk_trace s \<and>
    i \<notin> set H \<and> binv s' P (i # H) \<and> view s' = view s \<and>
    b_blockno (the_buf i s') = n \<and> b_data (the_buf i s') = view s n \<and>
    (\<forall>j. j \<noteq> i \<longrightarrow> the_buf j s' = the_buf j s)"
proof -
  obtain i s' where r: "bread ROOTDEV n s = Inr (i, s')" "s' = s\<lparr>bufs := (bufs s)[i := held_buf s P n]\<rparr>"
    "i < NBUF" "i \<notin> set H" "binv s' P (i # H)" "view s' = view s"
    using bread_ok [OF assms] by blast
  have "bstep s s'"
    by (rule bstepI [of _ _ "disk_trace s" "disk s" "lru s" "(bufs s)[i := held_buf s P n]" "procs s"])
      (simp_all add: r(2) mypid_def)
  moreover have "the_buf i s' = held_buf s P n" using r(2,3) binvD(1) [OF assms(1)] by (simp add: the_buf_def)
  moreover have "the_buf j s' = the_buf j s" if "j \<noteq> i" for j using that by (simp add: r(2) the_buf_def)
  ultimately show ?thesis using r by (intro exI [of _ i] exI [of _ s']) (simp add: held_buf_def)
qed

lemma set_data_step: "bstep s (set_data i d s)"
  by (rule bstepI [of _ _ "disk_trace s" "disk s" "lru s" _ "procs s"]) (simp_all add: set_data_def upd_buf_def mypid_def)

lemma upd_write_step: "bstep s (s\<lparr>disk := d, disk_trace := t\<rparr>)"
  by (rule bstepI [of _ _ t d "lru s" "bufs s" "procs s"]) (simp_all add: mypid_def)

lemma bunpin_step: "bstep s (bunpin i s)"
  by (rule bstepI [of _ _ "disk_trace s" "disk s" "lru s" _ "procs s"]) (simp_all add: bunpin_def upd_buf_def mypid_def)

lemma brelse_step:
  assumes "binv s P H" "i \<in> set H"
    and "b_blockno (the_buf i s) \<in> P \<or> b_data (the_buf i s) = disk s (b_blockno (the_buf i s))"
  shows "\<exists>s'. brelse i s = Inr s' \<and> bstep s s' \<and> disk s' = disk s \<and> disk_trace s' = disk_trace s \<and>
    binv s' P (remove1 i H) \<and> view s' = view s \<and> (\<forall>j. j \<noteq> i \<longrightarrow> the_buf j s' = the_buf j s)"
proof -
  obtain s' ps bs l where r: "brelse i s = Inr s'" "s' = s\<lparr>procs := ps, bufs := bs, lru := l\<rparr>"
    "binv s' P (remove1 i H)" "view s' = view s" "mypid s' = mypid s" "\<forall>j. j \<noteq> i \<longrightarrow> the_buf j s' = the_buf j s"
    using brelse_ok [OF assms] by blast
  have "bstep s s'" by (rule bstepI [of _ _ "disk_trace s" "disk s" l bs ps, OF r(5)]) (simp add: r(2))
  then show ?thesis using r by auto
qed


section \<open>Copying one block\<close>

text \<open>One iteration of \<open>write_log\<close>: block \<open>b\<close> of the cache goes to the log block \<open>lb\<close>.\<close>

lemma write_log_block:
  assumes inv: "binv s P []" and b: "b \<in> P" and lb: "lb \<notin> P" and few: "card P < NBUF"
  shows "\<exists>s'. kbind (bread ROOTDEV lb s) (\<lambda>(to, s).
      kbind (bread ROOTDEV b s) (\<lambda>(from', s).
      kbind (bwrite to (set_data to (b_data (the_buf from' s)) s)) (\<lambda>s.
      kbind (brelse from' s) (\<lambda>s. brelse to s)))) = Inr s' \<and>
    bstep s s' \<and> binv s' P [] \<and> view s' = (view s)(lb := view s b) \<and>
    disk s' = (disk s)(lb := view s b) \<and> disk_trace s' = disk_trace s @ [(lb, view s b)]"
proof -
  obtain i s1 where s1: "bread ROOTDEV lb s = Inr (i, s1)" "bstep s s1" "disk s1 = disk s" "disk_trace s1 = disk_trace s"
    "binv s1 P [i]" "view s1 = view s" "b_blockno (the_buf i s1) = lb"
    using bread_step [OF inv, of lb] few by auto
  have neq: "lb \<noteq> b" using b lb by auto
  have "\<exists>j. cached s1 j b" using binvD(12) [OF s1(5) b] by blast
  then obtain j s2 where s2: "bread ROOTDEV b s1 = Inr (j, s2)" "bstep s1 s2" "disk s2 = disk s1" "disk_trace s2 = disk_trace s1"
    "j \<noteq> i" "binv s2 P [j, i]" "view s2 = view s1" "b_blockno (the_buf j s2) = b" "b_data (the_buf j s2) = view s1 b"
    "\<forall>k. k \<noteq> j \<longrightarrow> the_buf k s2 = the_buf k s1"
    using bread_step [OF s1(5), of b] s1(7) neq by auto
  let ?d = "view s b"
  let ?s3 = "set_data i ?d s2"
  have len: "length ?d = BSIZE" using length_view [OF inv] .
  have iH: "i \<in> set [j, i]" "j \<in> set [j, i]" by simp_all
  have bi: "b_blockno (the_buf i s2) = lb" using s2(5,10) s1(7) by simp
  note d3 = binv_upd_held [OF s2(6) iH(1) len]
  have t3: "b_blockno (the_buf i ?s3) = lb" "b_data (the_buf i ?s3) = ?d" "the_buf j ?s3 = the_buf j s2"
    using d3(3) bi s2(5) by simp_all
  let ?s4 = "?s3\<lparr>disk := (disk ?s3)(lb := ?d), disk_trace := disk_trace ?s3 @ [(lb, ?d)]\<rparr>"
  have w: "bwrite i ?s3 = Inr ?s4" "binv ?s4 P [j, i]" "view ?s4 = view ?s3" "the_buf k ?s4 = the_buf k ?s3" for k
    using bwrite_ok [OF d3(1) iH(1)] by (simp_all add: t3)
  have "b_blockno (the_buf j ?s4) \<in> P" using w(4) [of j] t3(3) s2(8) b by simp
  then obtain s5 where s5: "brelse j ?s4 = Inr s5" "bstep ?s4 s5" "disk s5 = disk ?s4" "disk_trace s5 = disk_trace ?s4"
    "binv s5 P [i]" "view s5 = view ?s4" "\<forall>k. k \<noteq> j \<longrightarrow> the_buf k s5 = the_buf k ?s4"
    using brelse_step [OF w(2) iH(2)] by auto
  have "the_buf i s5 = the_buf i ?s3" using s5(7) s2(5) w(4) by simp
  then have "b_data (the_buf i s5) = disk s5 (b_blockno (the_buf i s5))" using t3 s5(3) by simp
  then obtain s6 where s6: "brelse i s5 = Inr s6" "bstep s5 s6" "disk s6 = disk s5" "disk_trace s6 = disk_trace s5"
    "binv s6 P []" "view s6 = view s5"
    using brelse_step [OF s5(5), of i] by auto
  have fr: "disk ?s3 = disk s" "disk_trace ?s3 = disk_trace s" using s2 s1 by (simp_all add: set_data_def)
  have "bstep s s6"
    using bstep_trans [OF s1(2) bstep_trans [OF s2(2) bstep_trans [OF set_data_step bstep_trans [OF upd_write_step bstep_trans [OF s5(2) s6(2)]]]]] .
  moreover have "view s6 = (view s)(lb := ?d)" using s6(6) s5(6) w(3) d3(2) bi s2(7) s1(6) by simp
  ultimately show ?thesis
    using s1(1) s2(1,9) w(1) s5(1) s6 s5(3,4) fr s1(6) by (intro exI [of _ s6]) simp
qed

text \<open>
  One iteration of \<open>install_trans\<close>: log block \<open>lb\<close> goes to its home \<open>b\<close>; in a commit the home
  block is unpinned.
\<close>

lemma install_block:
  assumes inv: "binv s P []" and b: "if rc then P = {} else b \<in> P" and lb: "lb \<notin> P" "lb \<noteq> b"
    and clean: "view s lb = disk s lb" and few: "card P < NBUF"
  shows "\<exists>s'. kbind (bread ROOTDEV lb s) (\<lambda>(lbuf, s).
      kbind (bread ROOTDEV b s) (\<lambda>(dbuf, s).
      let s = set_data dbuf (b_data (the_buf lbuf s)) s
      in kbind (bwrite dbuf s) (\<lambda>s.
         let s = (if rc then s else bunpin dbuf s)
         in kbind (brelse lbuf s) (\<lambda>s. brelse dbuf s)))) = Inr s' \<and>
    bstep s s' \<and> binv s' (P - {b}) [] \<and> view s' = (view s)(b := view s lb) \<and>
    disk s' = (disk s)(b := view s lb) \<and> disk_trace s' = disk_trace s @ [(b, view s lb)]"
proof -
  obtain i s1 where s1: "bread ROOTDEV lb s = Inr (i, s1)" "bstep s s1" "disk s1 = disk s" "disk_trace s1 = disk_trace s"
    "binv s1 P [i]" "view s1 = view s" "b_blockno (the_buf i s1) = lb" "b_data (the_buf i s1) = view s lb"
    using bread_step [OF inv, of lb] few by auto
  have "(\<exists>j. cached s1 j b) \<or> card P + length [i] < NBUF"
    using binvD(12) [OF s1(5), of b] b by (cases rc) (auto simp: NBUF_eq)
  then obtain j s2 where s2: "bread ROOTDEV b s1 = Inr (j, s2)" "bstep s1 s2" "disk s2 = disk s1" "disk_trace s2 = disk_trace s1"
    "j \<noteq> i" "binv s2 P [j, i]" "view s2 = view s1" "b_blockno (the_buf j s2) = b"
    "\<forall>k. k \<noteq> j \<longrightarrow> the_buf k s2 = the_buf k s1"
    using bread_step [OF s1(5), of b] s1(7) lb by auto
  let ?d = "view s lb"
  let ?s3 = "set_data j ?d s2"
  have len: "length ?d = BSIZE" using length_view [OF inv] .
  have iH: "i \<in> set [j, i]" "j \<in> set [j, i]" by simp_all
  note d3 = binv_upd_held [OF s2(6) iH(2) len]
  have t3: "b_blockno (the_buf j ?s3) = b" "b_data (the_buf j ?s3) = ?d" "the_buf i ?s3 = the_buf i s1"
    using d3(3) s2(5,8,9) by simp_all
  let ?s4 = "?s3\<lparr>disk := (disk ?s3)(b := ?d), disk_trace := disk_trace ?s3 @ [(b, ?d)]\<rparr>"
  have w: "bwrite j ?s3 = Inr ?s4" "binv ?s4 P [j, i]" "view ?s4 = view ?s3" "the_buf k ?s4 = the_buf k ?s3" for k
    using bwrite_ok [OF d3(1) iH(2)] by (simp_all add: t3)
  let ?s5 = "if rc then ?s4 else bunpin j ?s4"
  have u: "binv ?s5 (P - {b}) [j, i]" "view ?s5 = view ?s4" "the_buf i ?s5 = the_buf i ?s4"
    "b_blockno (the_buf j ?s5) = b" "b_data (the_buf j ?s5) = ?d" "bstep ?s4 ?s5"
    using b w(2,4) bunpin_ok [OF w(2) iH(2)] t3 s2(5) bunpin_step [of ?s4 j] by (cases rc; simp)+
  have fr: "disk ?s5 = (disk s)(b := ?d)" "disk_trace ?s5 = disk_trace s @ [(b, ?d)]"
    using s2(3,4) s1(3,4) by (simp_all add: set_data_def bunpin_def)
  have "b_data (the_buf i ?s5) = disk ?s5 (b_blockno (the_buf i ?s5))"
    unfolding u(3) w(4) t3(3) s1(7,8) fr using clean lb by simp
  then obtain s6 where s6: "brelse i ?s5 = Inr s6" "bstep ?s5 s6" "disk s6 = disk ?s5" "disk_trace s6 = disk_trace ?s5"
    "binv s6 (P - {b}) [j]" "view s6 = view ?s5" "\<forall>k. k \<noteq> i \<longrightarrow> the_buf k s6 = the_buf k ?s5"
    using brelse_step [OF u(1) iH(1)] s2(5) by auto
  have "b_data (the_buf j s6) = disk s6 (b_blockno (the_buf j s6))" using s6(3,7) s2(5) u(4,5) fr by simp
  then obtain s7 where s7: "brelse j s6 = Inr s7" "bstep s6 s7" "disk s7 = disk s6" "disk_trace s7 = disk_trace s6"
    "binv s7 (P - {b}) []" "view s7 = view s6"
    using brelse_step [OF s6(5), of j] by auto
  have "bstep s s7"
    using bstep_trans [OF s1(2) bstep_trans [OF s2(2) bstep_trans [OF set_data_step bstep_trans [OF upd_write_step
      bstep_trans [OF u(6) bstep_trans [OF s6(2) s7(2)]]]]]] .
  moreover have "view s7 = (view s)(b := ?d)" using s7(6) s6(6) u(2) w(3) d3(2) s2(7,8) s1(6) by simp
  moreover have "b_data (the_buf i s2) = ?d" using s2(5,9) s1(8) by simp
  ultimately show ?thesis
    using s1(1) s2(1) w(1) s6 s7 fr by (intro exI [of _ s7]) (simp add: Let_def)
qed


section \<open>The header block\<close>

lemma LOGSIZE_eq: "LOGSIZE = 30" by (simp add: LOGSIZE_def MAXOPBLOCKS_def)

lemma hdr_fold:
  fixes bs :: "uint list"
  assumes "length d = BSIZE" "k \<le> LOGSIZE"
  defines "d' \<equiv> fold (\<lambda>i d. put32 (4 + 4 * i) (bs ! i) d) [0..<k] d"
  shows "length d' = BSIZE \<and> get32 d' 0 = get32 d 0 \<and> (\<forall>j<k. get32 d' (4 + 4 * j) = bs ! j)"
  using assms(2) unfolding d'_def
proof (induction k)
  case (Suc k)
  let ?e = "fold (\<lambda>i d. put32 (4 + 4 * i) (bs ! i) d) [0..<k] d"
  have ih: "length ?e = BSIZE" "get32 ?e 0 = get32 d 0" "\<forall>j<k. get32 ?e (4 + 4 * j) = bs ! j"
    using Suc by simp_all
  have off: "4 + 4 * k + 4 \<le> BSIZE" using Suc.prems by (simp add: LOGSIZE_eq BSIZE_def)
  have "get32 (put32 (4 + 4 * k) (bs ! k) ?e) (4 + 4 * j) = bs ! j" if "j < Suc k" for j
  proof (cases "j = k")
    case False
    then have "j < k" using that by simp
    then show ?thesis using ih off by (subst get32_put32_other) simp_all
  qed (use ih off in simp)
  moreover have "get32 (put32 (4 + 4 * k) (bs ! k) ?e) 0 = get32 d 0"
    using ih off by (subst get32_put32_other) (simp_all add: BSIZE_def)
  ultimately show ?case using ih off by simp
qed (use assms(1) in simp)

lemma sint_of_int_small: "0 \<le> n \<Longrightarrow> n \<le> int LOGSIZE \<Longrightarrow> sint (of_int n :: uint) = n"
  by (simp add: LOGSIZE_eq signed_of_int signed_take_bit_int_eq_self)

lemma hdr_write_props:
  assumes "length d = BSIZE" "0 \<le> n" "n \<le> int LOGSIZE"
  shows "length (hdr_write n bs d) = BSIZE" "hdr_n (hdr_write n bs d) = n"
    "\<And>j. int j < n \<Longrightarrow> hdr_block (hdr_write n bs d) j = bs ! j"
proof -
  have l: "length (put32 0 (of_int n) d) = BSIZE" using assms(1) by (simp add: BSIZE_def)
  have k: "nat n \<le> LOGSIZE" using assms by simp
  note h = hdr_fold [OF l k, of bs]
  show "length (hdr_write n bs d) = BSIZE" using h by (simp add: hdr_write_def)
  show "hdr_n (hdr_write n bs d) = n"
    using h assms by (simp add: hdr_n_def hdr_write_def BSIZE_def sint_of_int_small)
  show "hdr_block (hdr_write n bs d) j = bs ! j" if "int j < n" for j
    using h that by (simp add: hdr_block_def hdr_write_def)
qed

lemma write_head_ok:
  assumes inv: "binv s P []" and st: "log_start s \<notin> P" and few: "card P < NBUF" and dev: "log_dev s = ROOTDEV"
    and n: "0 \<le> lh_n s" "lh_n s \<le> int LOGSIZE"
  defines "h \<equiv> hdr_write (lh_n s) (lh_block s) (view s (log_start s))"
  shows "\<exists>s'. write_head s = Inr s' \<and> bstep s s' \<and> binv s' P [] \<and> view s' = (view s)(log_start s := h) \<and>
    disk s' = (disk s)(log_start s := h) \<and> disk_trace s' = disk_trace s @ [(log_start s, h)]"
proof -
  let ?st = "log_start s"
  obtain i s1 where s1: "bread ROOTDEV ?st s = Inr (i, s1)" "bstep s s1" "disk s1 = disk s" "disk_trace s1 = disk_trace s"
    "binv s1 P [i]" "view s1 = view s" "b_blockno (the_buf i s1) = ?st" "b_data (the_buf i s1) = view s ?st"
    using bread_step [OF inv, of ?st] few by auto
  note lg = bstep_log [OF s1(2)]
  have len: "length h = BSIZE" unfolding h_def using hdr_write_props(1) length_view [OF inv] n by blast
  have iH: "i \<in> set [i]" by simp
  let ?s2 = "set_data i h s1"
  note d2 = binv_upd_held [OF s1(5) iH len]
  have t2: "b_blockno (the_buf i ?s2) = ?st" "b_data (the_buf i ?s2) = h" using d2(3) s1(7) by simp_all
  let ?s3 = "?s2\<lparr>disk := (disk ?s2)(?st := h), disk_trace := disk_trace ?s2 @ [(?st, h)]\<rparr>"
  have w: "bwrite i ?s2 = Inr ?s3" "binv ?s3 P [i]" "view ?s3 = view ?s2" "the_buf k ?s3 = the_buf k ?s2" for k
    using bwrite_ok [OF d2(1) iH] by (simp_all add: t2)
  have "b_data (the_buf i ?s3) = disk ?s3 (b_blockno (the_buf i ?s3))" using w(4) t2 by simp
  then obtain s4 where s4: "brelse i ?s3 = Inr s4" "bstep ?s3 s4" "disk s4 = disk ?s3" "disk_trace s4 = disk_trace ?s3"
    "binv s4 P []" "view s4 = view ?s3"
    using brelse_step [OF w(2) iH] by auto
  have "bstep s s4" using bstep_trans [OF s1(2) bstep_trans [OF set_data_step bstep_trans [OF upd_write_step s4(2)]]] .
  moreover have "write_head s = Inr s4"
    using s1(1,8) w(1) s4(1) lg dev by (simp add: write_head_def h_def)
  ultimately show ?thesis
    using s4 w(3) d2(2) s1(3,4,6,7) by (intro exI [of _ s4]) (simp add: set_data_def)
qed

section \<open>The loops\<close>

definition apply_writes :: "(uint \<times> block) list \<Rightarrow> (uint \<Rightarrow> block) \<Rightarrow> uint \<Rightarrow> block" where
  "apply_writes ws d = fold (\<lambda>(n, b) d. d(n := b)) ws d"

lemma apply_writes_append [simp]: "apply_writes (ws @ ws') d = apply_writes ws' (apply_writes ws d)"
  by (simp add: apply_writes_def)

lemma apply_writes_Nil [simp]: "apply_writes [] d = d" and
  apply_writes_single [simp]: "apply_writes [(n, b)] d = d(n := b)"
  by (simp_all add: apply_writes_def)

lemma apply_writes_Cons [simp]: "apply_writes ((n, b) # ws) d = apply_writes ws (d(n := b))"
  by (simp add: apply_writes_def)

lemma apply_writes_other: "m \<notin> fst ` set ws \<Longrightarrow> apply_writes ws d m = d m"
  by (induction ws rule: rev_induct) auto

lemma apply_writes_mem:
  "m \<in> fst ` set ws \<Longrightarrow> (\<And>n b. (n, b) \<in> set ws \<Longrightarrow> b = f n) \<Longrightarrow> apply_writes ws d m = f m"
proof (induction ws rule: rev_induct)
  case (snoc w ws)
  obtain n b where w: "w = (n, b)" by (cases w)
  show ?case
  proof (cases "m = n")
    case True
    then show ?thesis using snoc.prems(2) [of n b] w by simp
  next
    case False
    then have "m \<in> fst ` set ws" using snoc.prems(1) w by auto
    then show ?thesis using snoc.IH snoc.prems(2) False w by simp
  qed
qed simp

definition log_blk :: "uint \<Rightarrow> nat \<Rightarrow> uint" where
  "log_blk start k = start + of_nat k + 1"

text \<open>The header block and the blocks of the log.\<close>

definition log_region :: "uint \<Rightarrow> uint set" where
  "log_region start = insert start (log_blk start ` {..<LOGSIZE - 1})"

lemma of_nat_small_inj: "(of_nat j :: uint) = of_nat k \<Longrightarrow> j < 2 ^ 32 \<Longrightarrow> k < 2 ^ 32 \<Longrightarrow> j = k"
proof -
  assume "(of_nat j :: uint) = of_nat k" "j < 2 ^ 32" "k < 2 ^ 32"
  then have "unat (of_nat j :: uint) = unat (of_nat k :: uint)" by simp
  then show "j = k" using \<open>j < 2 ^ 32\<close> \<open>k < 2 ^ 32\<close> by (simp add: unat_of_nat)
qed


lemma log_blk_inj: "j < LOGSIZE \<Longrightarrow> k < LOGSIZE \<Longrightarrow> log_blk start j = log_blk start k \<longleftrightarrow> j = k"
  using of_nat_small_inj [of j k] by (auto simp: log_blk_def LOGSIZE_eq)

lemma log_blk_start: "k < LOGSIZE \<Longrightarrow> log_blk start k \<noteq> start"
proof
  assume k: "k < LOGSIZE" "log_blk start k = start"
  then have "(of_nat (Suc k) :: uint) = of_nat 0" by (simp add: log_blk_def add.commute)
  then show False using of_nat_small_inj [of "Suc k" 0] k(1) by (simp add: LOGSIZE_eq)
qed

text \<open>\<open>bs\<close> is the list of blocks the in-memory header holds.\<close>

definition trans_ok :: "'a log_scheme \<Rightarrow> uint list \<Rightarrow> bool" where
  "trans_ok s bs \<longleftrightarrow> log_dev s = ROOTDEV \<and> lh_n s = int (length bs) \<and> take (length bs) (lh_block s) = bs \<and>
     length bs < LOGSIZE \<and> distinct bs \<and> set bs \<inter> log_region (log_start s) = {}"

lemma trans_okD:
  assumes "trans_ok s bs"
  shows "log_dev s = ROOTDEV" "lh_n s = int (length bs)" "\<And>k. k < length bs \<Longrightarrow> lh_block s ! k = bs ! k"
    "length bs < LOGSIZE" "distinct bs" "log_start s \<notin> set bs" "\<And>k. Suc k < LOGSIZE \<Longrightarrow> log_blk (log_start s) k \<notin> set bs"
    "card (set bs) < NBUF"
proof -
  show "lh_block s ! k = bs ! k" if "k < length bs" for k
  proof -
    have "take (length bs) (lh_block s) ! k = bs ! k" using assms by (simp add: trans_ok_def)
    then show ?thesis using that by simp
  qed
  show "card (set bs) < NBUF"
    using assms card_length [of bs] by (simp add: trans_ok_def LOGSIZE_eq NBUF_eq)
qed (use assms in \<open>auto simp: trans_ok_def log_region_def\<close>)

lemma trans_ok_bstep: "bstep s s' \<Longrightarrow> trans_ok s bs \<Longrightarrow> trans_ok s' bs"
  using bstep_log [of s s'] by (simp add: trans_ok_def)

definition log_writes :: "uint \<Rightarrow> uint list \<Rightarrow> (uint \<Rightarrow> block) \<Rightarrow> nat \<Rightarrow> (uint \<times> block) list" where
  "log_writes start bs v k = map (\<lambda>j. (log_blk start j, v (bs ! j))) [0..<k]"

definition home_writes :: "uint \<Rightarrow> uint list \<Rightarrow> (uint \<Rightarrow> block) \<Rightarrow> nat \<Rightarrow> (uint \<times> block) list" where
  "home_writes start bs v k = map (\<lambda>j. (bs ! j, v (log_blk start j))) [0..<k]"

lemma writes_Suc:
  "log_writes start bs v (Suc k) = log_writes start bs v k @ [(log_blk start k, v (bs ! k))]"
  "home_writes start bs v (Suc k) = home_writes start bs v k @ [(bs ! k, v (log_blk start k))]"
  by (simp_all add: log_writes_def home_writes_def)

lemma write_log_ok:
  assumes inv: "binv s (set bs) []" and tr: "trans_ok s bs"
  shows "\<exists>s'. write_log s = Inr s' \<and> bstep s s' \<and> binv s' (set bs) [] \<and>
    view s' = apply_writes (log_writes (log_start s) bs (view s) (length bs)) (view s) \<and>
    disk s' = apply_writes (log_writes (log_start s) bs (view s) (length bs)) (disk s) \<and>
    disk_trace s' = disk_trace s @ log_writes (log_start s) bs (view s) (length bs)"
proof -
  let ?body = "\<lambda>tail (s :: 'a log_scheme).
       kbind (bread (log_dev s) (log_start s + of_nat tail + 1) s) (\<lambda>(to, s).
       kbind (bread (log_dev s) (lh_block s ! tail) s) (\<lambda>(from', s).
       kbind (bwrite to (set_data to (b_data (the_buf from' s)) s)) (\<lambda>s.
       kbind (brelse from' s) (\<lambda>s. brelse to s))))"
  let ?W = "log_writes (log_start s) bs (view s)"
  note T = trans_okD [OF tr]
  have "\<exists>s'. kfold ?body [0..<k] s = Inr s' \<and> bstep s s' \<and> binv s' (set bs) [] \<and>
    view s' = apply_writes (?W k) (view s) \<and> disk s' = apply_writes (?W k) (disk s) \<and>
    disk_trace s' = disk_trace s @ ?W k" if "k \<le> length bs" for k
    using that
  proof (induction k)
    case 0
    then show ?case using inv by (intro exI [of _ s]) (simp add: log_writes_def)
  next
    case (Suc k)
    then obtain s1 where s1: "kfold ?body [0..<k] s = Inr s1" "bstep s s1" "binv s1 (set bs) []"
      "view s1 = apply_writes (?W k) (view s)" "disk s1 = apply_writes (?W k) (disk s)" "disk_trace s1 = disk_trace s @ ?W k"
      by auto
    have k: "k < length bs" "Suc k < LOGSIZE" using Suc.prems T(4) by simp_all
    let ?lb = "log_blk (log_start s) k" and ?b = "bs ! k"
    note L = bstep_log [OF s1(2)]
    have v: "view s1 ?b = view s ?b"
    proof -
      have "?b \<notin> fst ` set (?W k)" using k T(4) T(7) nth_mem [OF k(1)] by (force simp: log_writes_def)
      then show ?thesis by (simp add: s1(4) apply_writes_other)
    qed
    obtain s2 where s2: "kbind (bread ROOTDEV ?lb s1) (\<lambda>(to, s). kbind (bread ROOTDEV ?b s) (\<lambda>(from', s).
        kbind (bwrite to (set_data to (b_data (the_buf from' s)) s)) (\<lambda>s.
        kbind (brelse from' s) (\<lambda>s. brelse to s)))) = Inr s2"
      "bstep s1 s2" "binv s2 (set bs) []" "view s2 = (view s1)(?lb := view s1 ?b)"
      "disk s2 = (disk s1)(?lb := view s1 ?b)" "disk_trace s2 = disk_trace s1 @ [(?lb, view s1 ?b)]"
      using write_log_block [OF s1(3), of ?b ?lb] k T(7) [OF k(2)] T(8) by auto
    have "?body k s1 = Inr s2"
    proof -
      obtain i u where u: "bread ROOTDEV ?lb s1 = Inr (i, u)" "bstep s1 u"
        using bread_step [OF s1(3), of ?lb] T(8) by auto
      have "bread (log_dev s1) (log_start s1 + of_nat k + 1) s1 = Inr (i, u)"
        using u(1) by (simp add: L T(1) log_blk_def)
      moreover have "log_dev u = ROOTDEV" "lh_block u ! k = ?b" using bstep_log [OF u(2)] L T(1) T(3) [OF k(1)] by simp_all
      ultimately show ?thesis using s2(1) u(1) by simp
    qed
    then have "kfold ?body [0..<Suc k] s = Inr s2" using s1(1) by (simp add: kfold_append)
    moreover have "bstep s s2" using bstep_trans [OF s1(2) s2(2)] .
    ultimately show ?case using s2 s1 v by (intro exI [of _ s2]) (simp add: writes_Suc)
  qed
  from this [of "length bs"] show ?thesis using T(2) by (simp add: write_log_def)
qed


lemma install_trans_ok:
  fixes s :: "'a log_scheme"
  assumes inv: "binv s (if rc then {} else set bs) []"
    and hd: "log_dev s = ROOTDEV" "lh_n s = int (length bs)" "\<And>k. k < length bs \<Longrightarrow> lh_block s ! k = bs ! k"
    and len: "length bs < LOGSIZE" and reg: "set bs \<inter> log_region (log_start s) = {}"
    and dis: "rc \<or> distinct bs \<and> length bs < NBUF"
    and clean: "\<And>k. k < length bs \<Longrightarrow> view s (log_blk (log_start s) k) = disk s (log_blk (log_start s) k)"
  defines "W \<equiv> home_writes (log_start s) bs (view s)"
  shows "\<exists>s'. install_trans rc s = Inr s' \<and> bstep s s' \<and> binv s' {} [] \<and>
    view s' = apply_writes (W (length bs)) (view s) \<and> disk s' = apply_writes (W (length bs)) (disk s) \<and>
    disk_trace s' = disk_trace s @ W (length bs)"
proof -
  let ?body = "\<lambda>tail (s :: 'a log_scheme).
       kbind (bread (log_dev s) (log_start s + of_nat tail + 1) s) (\<lambda>(lbuf, s).
       kbind (bread (log_dev s) (lh_block s ! tail) s) (\<lambda>(dbuf, s).
       let s = set_data dbuf (b_data (the_buf lbuf s)) s
       in kbind (bwrite dbuf s) (\<lambda>s.
          let s = (if rc then s else bunpin dbuf s)
          in kbind (brelse lbuf s) (\<lambda>s. brelse dbuf s))))"
  let ?P = "\<lambda>k. (if rc then {} else set bs) - set (take k bs)"
  have few: "card (?P k) < NBUF" for k
    using card_mono [of "set bs" "?P k"] card_length [of bs] dis by (cases rc) (auto simp: NBUF_eq)
  have "\<exists>s'. kfold ?body [0..<k] s = Inr s' \<and> bstep s s' \<and> binv s' (?P k) [] \<and>
    view s' = apply_writes (W k) (view s) \<and> disk s' = apply_writes (W k) (disk s) \<and>
    disk_trace s' = disk_trace s @ W k" if "k \<le> length bs" for k
    using that
  proof (induction k)
    case 0
    then show ?case using inv by (intro exI [of _ s]) (simp add: W_def home_writes_def)
  next
    case (Suc k)
    then obtain s1 where s1: "kfold ?body [0..<k] s = Inr s1" "bstep s s1" "binv s1 (?P k) []"
      "view s1 = apply_writes (W k) (view s)" "disk s1 = apply_writes (W k) (disk s)" "disk_trace s1 = disk_trace s @ W k"
      by auto
    have k: "k < length bs" "Suc k < LOGSIZE" using Suc.prems len by simp_all
    let ?lb = "log_blk (log_start s) k" and ?b = "bs ! k"
    have lbs: "?lb \<notin> set bs" using reg k(2) by (auto simp: log_region_def)
    note L = bstep_log [OF s1(2)]
    have "fst ` set (W k) \<subseteq> set bs" using k by (auto simp: W_def home_writes_def)
    then have ws: "?lb \<notin> fst ` set (W k)" using lbs by blast
    have v: "view s1 ?lb = view s ?lb" "disk s1 ?lb = disk s ?lb" using ws by (simp_all add: s1(4,5) apply_writes_other)
    have bP: "if rc then ?P k = {} else ?b \<in> ?P k"
      using k dis by (auto simp: in_set_conv_nth nth_eq_iff_index_eq)
    have lP: "?lb \<notin> ?P k" "?lb \<noteq> ?b" using lbs k by auto
    have cl: "view s1 ?lb = disk s1 ?lb" using v clean [OF k(1)] by simp
    obtain s2 where s2: "kbind (bread ROOTDEV ?lb s1) (\<lambda>(lbuf, s). kbind (bread ROOTDEV ?b s) (\<lambda>(dbuf, s).
        let s = set_data dbuf (b_data (the_buf lbuf s)) s
        in kbind (bwrite dbuf s) (\<lambda>s. let s = (if rc then s else bunpin dbuf s)
           in kbind (brelse lbuf s) (\<lambda>s. brelse dbuf s)))) = Inr s2"
      "bstep s1 s2" "binv s2 (?P k - {?b}) []" "view s2 = (view s1)(?b := view s1 ?lb)"
      "disk s2 = (disk s1)(?b := view s1 ?lb)" "disk_trace s2 = disk_trace s1 @ [(?b, view s1 ?lb)]"
      using install_block [OF s1(3) bP lP cl few] by blast
    have "?body k s1 = Inr s2"
    proof -
      obtain i u where u: "bread ROOTDEV ?lb s1 = Inr (i, u)" "bstep s1 u"
        using bread_step [OF s1(3), of ?lb] few [of k] by auto
      have "bread (log_dev s1) (log_start s1 + of_nat k + 1) s1 = Inr (i, u)"
        using u(1) by (simp add: L hd(1) log_blk_def)
      moreover have "log_dev u = ROOTDEV" "lh_block u ! k = ?b" using bstep_log [OF u(2)] L hd(1) hd(3) [OF k(1)] by simp_all
      ultimately show ?thesis using s2(1) u(1) by simp
    qed
    then have "kfold ?body [0..<Suc k] s = Inr s2" using s1(1) by (simp add: kfold_append)
    moreover have "bstep s s2" using bstep_trans [OF s1(2) s2(2)] .
    moreover have "?P (Suc k) = ?P k - {?b}" using k by (auto simp: take_Suc_conv_app_nth)
    ultimately show ?case using s2 s1 v by (intro exI [of _ s2]) (simp add: W_def writes_Suc)
  qed
  from this [of "length bs"] show ?thesis
    using hd(2) by (cases rc) (simp_all add: install_trans_def Let_def)
qed

section \<open>commit and recovery\<close>

definition commit_writes :: "uint \<Rightarrow> uint list \<Rightarrow> (uint \<Rightarrow> block) \<Rightarrow> block \<Rightarrow> block \<Rightarrow> (uint \<times> block) list" where
  "commit_writes start bs v h h0 =
     log_writes start bs v (length bs) @ [(start, h)] @ map (\<lambda>b. (b, v b)) bs @ [(start, h0)]"

lemma log_writes_lookup:
  assumes tr: "trans_ok s bs" and k: "k < length bs"
  shows "apply_writes (log_writes (log_start s) bs v (length bs)) f (log_blk (log_start s) k) = v (bs ! k)"
proof -
  let ?st = "log_start s" and ?n = "length bs"
  let ?g = "\<lambda>m. v (bs ! (THE j. j < ?n \<and> log_blk ?st j = m))"
  have th: "(THE j'. j' < ?n \<and> log_blk ?st j' = log_blk ?st j) = j" if "j < ?n" for j
    using that trans_okD(4) [OF tr] log_blk_inj [of _ j ?st] by (intro the_equality) auto
  have "apply_writes (log_writes ?st bs v ?n) f (log_blk ?st k) = ?g (log_blk ?st k)"
    using k by (intro apply_writes_mem) (auto simp: log_writes_def th image_iff)
  then show ?thesis using th [OF k] by simp
qed

lemma commit_ok:
  assumes inv: "binv s (set bs) []" and tr: "trans_ok s bs" and ne: "bs \<noteq> []"
  shows "\<exists>s' h h0. commit s = Inr s' \<and> binv s' {} [] \<and> lh_n s' = 0 \<and> log_start s' = log_start s \<and>
    outstanding s' = outstanding s \<and> log_dev s' = log_dev s \<and> log_size s' = log_size s \<and>
    length h = BSIZE \<and> hdr_n h = int (length bs) \<and> (\<forall>k<length bs. hdr_block h k = bs ! k) \<and> hdr_n h0 = 0 \<and>
    disk_trace s' = disk_trace s @ commit_writes (log_start s) bs (view s) h h0 \<and>
    disk s' = apply_writes (commit_writes (log_start s) bs (view s) h h0) (disk s)"
proof -
  note T = trans_okD [OF tr]
  let ?st = "log_start s" and ?n = "length bs"
  let ?LW = "log_writes ?st bs (view s) ?n"
  obtain s1 where s1: "write_log s = Inr s1" "bstep s s1" "binv s1 (set bs) []" "view s1 = apply_writes ?LW (view s)"
    "disk s1 = apply_writes ?LW (disk s)" "disk_trace s1 = disk_trace s @ ?LW"
    using write_log_ok [OF inv tr] by blast
  note L1 = bstep_log [OF s1(2)]
  define h where "h = hdr_write (lh_n s1) (lh_block s1) (view s1 ?st)"
  have n: "0 \<le> lh_n s1" "lh_n s1 \<le> int LOGSIZE" using L1 T(2,4) by simp_all
  obtain s2 where s2: "write_head s1 = Inr s2" "bstep s1 s2" "binv s2 (set bs) []" "view s2 = (view s1)(?st := h)"
    "disk s2 = (disk s1)(?st := h)" "disk_trace s2 = disk_trace s1 @ [(?st, h)]"
    using write_head_ok [OF s1(3) _ T(8) _ n] T(1,6) L1 unfolding h_def by auto
  note L2 = bstep_log [OF s2(2)]
  have hp: "length h = BSIZE" "hdr_n h = int ?n" "\<And>k. k < ?n \<Longrightarrow> hdr_block h k = bs ! k"
    using hdr_write_props [OF length_view [OF s1(3)] n] L1 T(2,3) unfolding h_def by simp_all
  have lw: "apply_writes ?LW f (log_blk ?st k) = view s (bs ! k)" if "k < ?n" for k f
    using log_writes_lookup [OF tr that] .
  have neqst: "log_blk ?st k \<noteq> ?st" if "k < ?n" for k using that T(4) log_blk_start by auto
  have v2: "view s2 (log_blk ?st k) = view s (bs ! k)" "disk s2 (log_blk ?st k) = view s (bs ! k)" if "k < ?n" for k
    using that lw neqst by (simp_all add: s2(4,5) s1(4,5))
  have hw: "home_writes ?st bs (view s2) ?n = map (\<lambda>b. (b, view s b)) bs"
    using v2 by (intro nth_equalityI) (simp_all add: home_writes_def)
  obtain s3 where s3: "install_trans False s2 = Inr s3" "bstep s2 s3" "binv s3 {} []"
    "disk s3 = apply_writes (map (\<lambda>b. (b, view s b)) bs) (disk s2)"
    "disk_trace s3 = disk_trace s2 @ map (\<lambda>b. (b, view s b)) bs"
    using install_trans_ok [of s2 False bs] s2(3) L1 L2 T tr v2 hw by (auto simp: trans_ok_def LOGSIZE_eq NBUF_eq)
  note L3 = bstep_log [OF s3(2)]
  let ?s3 = "s3\<lparr>lh_n := 0\<rparr>"
  have vw: "view ?s3 = view s3" "disk ?s3 = disk s3" "disk_trace ?s3 = disk_trace s3" "log_start ?s3 = ?st"
    using L1 L2 L3 by simp_all
  have i3: "binv ?s3 {} []" using s3(3) by simp
  define h0 where "h0 = hdr_write 0 (lh_block ?s3) (view ?s3 ?st)"
  obtain s4 where s4: "write_head ?s3 = Inr s4" "bstep ?s3 s4" "binv s4 {} []"
    "disk s4 = (disk s3)(?st := h0)" "disk_trace s4 = disk_trace s3 @ [(?st, h0)]"
    using write_head_ok [OF i3] L1 L2 L3 T(1) vw unfolding h0_def by (auto simp: NBUF_eq LOGSIZE_eq)
  note L4 = bstep_log [OF s4(2)]
  have "hdr_n h0 = 0" using hdr_write_props(2) [OF length_view [OF i3], of 0] by (simp add: h0_def)
  moreover have "commit s = Inr s4" using s1(1) s2(1) s3(1) s4(1) T(2) ne by (simp add: commit_def)
  moreover have "disk_trace s4 = disk_trace s @ commit_writes ?st bs (view s) h h0"
    by (simp add: commit_writes_def s4(5) s3(5) s2(6) s1(6))
  moreover have "disk s4 = apply_writes (commit_writes ?st bs (view s) h h0) (disk s)"
    by (simp add: commit_writes_def s4(4) s3(4) s2(5) s1(5))
  moreover have "log_start s4 = ?st" "outstanding s4 = outstanding s" "log_dev s4 = log_dev s" "lh_n s4 = 0"
    "log_size s4 = log_size s"
    using L4 L3 L2 L1 by simp_all
  ultimately show ?thesis using s4(3) hp by blast
qed


text \<open>With nothing pinned and nothing held, the cache agrees with the disk.\<close>

lemma view_unpinned:
  assumes "binv s P []" "n \<notin> P" shows "view s n = disk s n"
proof (cases "\<exists>i. cached s i n")
  case True
  then obtain i where "cached s i n" by blast
  then show ?thesis using view_cached [OF assms(1)] binvD(13) [OF assms(1)] assms(2) by auto
next
  case False
  then show ?thesis using view_uncached [OF assms(1)] by blast
qed

lemma view_clean: "binv s {} [] \<Longrightarrow> view s = disk s"
  using view_unpinned [of s "{}"] by (simp add: fun_eq_iff)

lemma recover_ok:
  assumes inv: "binv r {} []" and dev: "log_dev r = ROOTDEV" and len: "length (lh_block r) = LOGSIZE"
    and n: "0 \<le> hdr_n (disk r (log_start r))" "hdr_n (disk r (log_start r)) < int LOGSIZE"
  defines "bs \<equiv> map (hdr_block (disk r (log_start r))) [0..<nat (hdr_n (disk r (log_start r)))]"
  assumes reg: "set bs \<inter> log_region (log_start r) = {}"
  shows "\<exists>r' h0. recover_from_log r = Inr r' \<and> binv r' {} [] \<and> lh_n r' = 0 \<and> hdr_n h0 = 0 \<and>
    disk r' = (apply_writes (home_writes (log_start r) bs (disk r) (length bs)) (disk r))(log_start r := h0)"
proof -
  let ?st = "log_start r"
  let ?h = "disk r ?st"
  have vd: "view r = disk r" by (rule view_clean [OF inv])
  have lb: "length bs = nat (hdr_n ?h)" "length bs < LOGSIZE" using n by (simp_all add: bs_def)
  obtain i s1 where s1: "bread ROOTDEV ?st r = Inr (i, s1)" "bstep r s1" "disk s1 = disk r"
    "binv s1 {} [i]" "view s1 = view r" "b_blockno (the_buf i s1) = ?st" "b_data (the_buf i s1) = view r ?st"
    using bread_step [OF inv, of ?st] by (auto simp: NBUF_eq)
  note L1 = bstep_log [OF s1(2)]
  let ?s2 = "s1\<lparr>lh_n := hdr_n ?h, lh_block := bs @ drop (length bs) (lh_block s1)\<rparr>"
  have i2: "binv ?s2 {} [i]" "i \<in> set [i]" "view ?s2 = view r" "disk ?s2 = disk r" "the_buf j ?s2 = the_buf j s1" for j
    using s1(3-5) by (simp_all add: the_buf_def)
  have "b_data (the_buf i ?s2) = disk ?s2 (b_blockno (the_buf i ?s2))" unfolding i2(4,5) s1(6,7) vd ..
  then obtain s3 where s3: "brelse i ?s2 = Inr s3" "bstep ?s2 s3" "disk s3 = disk r" "binv s3 {} []"
    using brelse_step [OF i2(1,2)] i2(4) by auto
  note L3 = bstep_log [OF s3(2)]
  have head: "read_head r = Inr s3"
    using s1(1,7) dev n s3(1) lb by (simp add: read_head_def Let_def vd bs_def)
  have v3: "view s3 = disk r" using view_clean [OF s3(4)] s3(3) by simp
  have b3: "lh_block s3 ! k = bs ! k" if "k < length bs" for k using L3(7) that by (simp add: nth_append)
  obtain s4 where s4: "install_trans True s3 = Inr s4" "bstep s3 s4" "binv s4 {} []"
    "disk s4 = apply_writes (home_writes ?st bs (disk r) (length bs)) (disk r)"
    using install_trans_ok [of s3 True bs] s3(3,4) L3 L1 dev lb n reg b3 v3 by auto
  note L4 = bstep_log [OF s4(2)]
  let ?s4 = "s4\<lparr>lh_n := 0\<rparr>"
  have i4: "binv ?s4 {} []" using s4(3) by simp
  define h0 where "h0 = hdr_write 0 (lh_block ?s4) (view ?s4 ?st)"
  obtain s5 where s5: "write_head ?s4 = Inr s5" "bstep ?s4 s5" "binv s5 {} []" "disk s5 = (disk s4)(?st := h0)"
    using write_head_ok [OF i4] L1 L3 L4 dev unfolding h0_def by (auto simp: NBUF_eq LOGSIZE_eq)
  have "hdr_n h0 = 0" using hdr_write_props(2) [OF length_view [OF i4], of 0] by (simp add: h0_def)
  moreover have "recover_from_log r = Inr s5" using head s4(1) s5(1) by (simp add: recover_from_log_def)
  ultimately show ?thesis using s5 s4(4) bstep_log(6) [OF s5(2)] by (intro exI [of _ s5] exI [of _ h0]) simp
qed

lemma log_writes_region:
  "k < LOGSIZE \<Longrightarrow> fst ` set (log_writes start bs v k) \<subseteq> log_region start"
  by (auto simp: log_writes_def log_region_def)

text \<open>The disk after the first \<open>k\<close> writes of a commit.\<close>

lemma commit_prefix_cases:
  fixes k :: nat
  assumes "length LW = n" "length HW = n"
  obtains "k \<le> n" "take k (LW @ [x] @ HW @ [y]) = take k LW"
  | j where "n < k" "take k (LW @ [x] @ HW @ [y]) = LW @ [x] @ take j HW"
  | "n < k" "take k (LW @ [x] @ HW @ [y]) = LW @ [x] @ HW @ [y]"
proof (cases "k \<le> n")
  case True
  then show ?thesis using that(1) assms by simp
next
  case False
  then obtain j where k: "k = Suc n + j" by (metis add_Suc_shift less_imp_add_positive not_le add_Suc add_0 gr0_implies_Suc)
  show ?thesis
  proof (cases "j \<le> n")
    case True
    then show ?thesis using that(2) [of j] assms k by simp
  next
    case False
    then show ?thesis using that(3) assms k by (simp add: take_all_iff)
  qed
qed


lemma apply_home:
  "apply_writes (map (\<lambda>b. (b, v b)) bs) d m = (if m \<in> set bs then v m else d m)"
proof (cases "m \<in> set bs")
  case True
  then have "m \<in> fst ` set (map (\<lambda>b. (b, v b)) bs)" by force
  moreover have "b = v n" if "(n, b) \<in> set (map (\<lambda>b. (b, v b)) bs)" for n b using that by auto
  ultimately have "apply_writes (map (\<lambda>b. (b, v b)) bs) d m = v m" by (rule apply_writes_mem)
  then show ?thesis using True by simp
next
  case False
  then have "m \<notin> fst ` set (map (\<lambda>b. (b, v b)) bs)" by force
  then show ?thesis using False by (simp add: apply_writes_other)
qed

lemma crash_disk:
  fixes k :: nat and m :: uint
  assumes tr: "trans_ok s bs" and h: "hdr_n h = int (length bs)" "\<forall>k<length bs. hdr_block h k = bs ! k" "hdr_n h0 = 0"
    and old: "hdr_n (disk s (log_start s)) = 0"
  defines "st \<equiv> log_start s" and "v \<equiv> view s"
  defines "D \<equiv> apply_writes (take k (commit_writes st bs v h h0)) (disk s)"
  defines "bs' \<equiv> map (hdr_block (D st)) [0..<nat (hdr_n (D st))]"
  shows "0 \<le> hdr_n (D st)" "hdr_n (D st) < int LOGSIZE" "set bs' \<inter> log_region st = {}"
    "m \<notin> log_region st \<Longrightarrow> apply_writes (home_writes st bs' D (length bs')) D m =
       (if k \<le> length bs then disk s m else if m \<in> set bs then v m else disk s m)"
proof -
  let ?n = "length bs" and ?LW = "log_writes st bs v (length bs)"
  let ?HW = "map (\<lambda>b. (b, v b)) bs"
  note T = trans_okD [OF tr, folded st_def]
  have reg: "set bs \<inter> log_region st = {}" using tr by (simp add: trans_ok_def st_def)
  have lwr: "fst ` set ?LW \<subseteq> log_blk st ` {..<LOGSIZE - 1}" using T(4) by (auto simp: log_writes_def)
  have stn: "st \<notin> log_blk st ` {..<LOGSIZE - 1}" proof
    assume "st \<in> log_blk st ` {..<LOGSIZE - 1}"
    then obtain k where "st = log_blk st k" "k < LOGSIZE" by auto
    then show False using log_blk_start [of k st] by metis
  qed
  have lwst: "apply_writes (take j ?LW) f st = f st" for j f
    using lwr stn set_take_subset [of j ?LW] by (intro apply_writes_other) blast
  have lwm: "apply_writes (take j ?LW) f m = f m" if "m \<notin> log_region st" for j f m
    using lwr that set_take_subset [of j ?LW] by (intro apply_writes_other) (auto simp: log_region_def)
  have lws: "apply_writes ?LW f st = f st" for f using lwst [of ?n f] by (simp add: log_writes_def)
  have lwms: "apply_writes ?LW f m = f m" if "m \<notin> log_region st" for f m
    using lwm [OF that, of ?n f] by (simp add: log_writes_def)
  have hwo: "apply_writes (take j ?HW) f m = f m" if "m \<notin> set bs" for j f m
    using that set_take_subset [of j ?HW] by (intro apply_writes_other) force
  have stb: "st \<in> log_region st" by (simp add: log_region_def)
  have lens: "length ?LW = ?n" "length ?HW = ?n" by (simp_all add: log_writes_def)
  have "0 \<le> hdr_n (D st) \<and> hdr_n (D st) < int LOGSIZE \<and> set bs' \<inter> log_region st = {} \<and>
    (m \<notin> log_region st \<longrightarrow> apply_writes (home_writes st bs' D (length bs')) D m =
       (if k \<le> ?n then disk s m else if m \<in> set bs then v m else disk s m))"
  proof (rule commit_prefix_cases [OF lens, of k "(st, h)" "(st, h0)"])
    assume k: "k \<le> ?n" "take k (?LW @ [(st, h)] @ ?HW @ [(st, h0)]) = take k ?LW"
    have D: "D = apply_writes (take k ?LW) (disk s)" using k(2) by (simp add: D_def commit_writes_def)
    have "hdr_n (D st) = 0" using old by (simp add: D lwst st_def [symmetric])
    moreover from this have "bs' = []" by (simp add: bs'_def)
    ultimately show ?thesis using k(1) lwm by (simp add: D home_writes_def LOGSIZE_eq)
  next
    fix j assume k: "?n < k" "take k (?LW @ [(st, h)] @ ?HW @ [(st, h0)]) = ?LW @ [(st, h)] @ take j ?HW"
    have D: "D = apply_writes (take j ?HW) ((apply_writes ?LW (disk s))(st := h))"
      using k(2) by (simp add: D_def commit_writes_def)
    have Dst: "D st = h" using hwo [of st] T(6) by (simp add: D)
    have bs': "bs' = bs" using h(1,2) by (auto simp: bs'_def Dst intro!: nth_equalityI)
    have "D (log_blk st i) = v (bs ! i)" if "i < ?n" for i
    proof -
      have "log_blk st i \<notin> set bs" "log_blk st i \<noteq> st" using that T(4) T(7) log_blk_start [of i st] by auto
      then show ?thesis using log_writes_lookup [OF tr that] by (simp add: D hwo st_def)
    qed
    then have hw: "home_writes st bs' D (length bs') = ?HW"
      by (intro nth_equalityI) (simp_all add: home_writes_def bs')
    have "apply_writes ?HW D m = (if m \<in> set bs then v m else disk s m)" if "m \<notin> log_region st"
      using that hwo [of m] lwms [OF that] stb by (auto simp: apply_home D)
    then show ?thesis using k(1) hw reg h(1) T(4) by (auto simp: Dst bs')
  next
    assume k: "?n < k" "take k (?LW @ [(st, h)] @ ?HW @ [(st, h0)]) = ?LW @ [(st, h)] @ ?HW @ [(st, h0)]"
    have D: "D = (apply_writes ?HW ((apply_writes ?LW (disk s))(st := h)))(st := h0)"
      using k(2) by (simp add: D_def commit_writes_def)
    have "bs' = []" using h(3) by (simp add: bs'_def D)
    then show ?thesis using k(1) h(3) lwms stb by (auto simp: D home_writes_def apply_home LOGSIZE_eq)
  qed
  then show "0 \<le> hdr_n (D st)" "hdr_n (D st) < int LOGSIZE" "set bs' \<inter> log_region st = {}"
    "m \<notin> log_region st \<Longrightarrow> apply_writes (home_writes st bs' D (length bs')) D m =
       (if k \<le> ?n then disk s m else if m \<in> set bs then v m else disk s m)" by blast+
qed

section \<open>Properties\<close>

text \<open>
  C1: transactions are atomic across crashes. Take any committing state whose on-disk header
  is empty. Stop the machine after any number \<open>k\<close> of the disk writes of \<^verbatim>\<open>commit\<close>, and let
  recovery run from a clean cache on the disk that is left. Recovery always completes, and
  outside the log area the disk is then exactly the old disk when the header write had not
  happened (\<open>k\<close> at most the number of logged blocks), and otherwise the old disk with every
  block of the transaction replaced by its cached content. Never a mixture.
\<close>

theorem commit_is_crash_atomic:
  assumes "binv s (set bs) []" "trans_ok s bs" "bs \<noteq> []" "hdr_n (disk s (log_start s)) = 0"
  shows "\<exists>s' ws. commit s = Inr s' \<and> binv s' {} [] \<and> disk_trace s' = disk_trace s @ ws \<and>
    disk s' = apply_writes ws (disk s) \<and>
    (\<forall>k r. binv r {} [] \<and> disk r = apply_writes (take k ws) (disk s) \<and> log_dev r = ROOTDEV \<and>
        log_start r = log_start s \<and> length (lh_block r) = LOGSIZE \<longrightarrow>
      (\<exists>r'. recover_from_log r = Inr r' \<and> binv r' {} [] \<and> hdr_n (disk r' (log_start s)) = 0 \<and>
        (\<forall>m. m \<notin> log_region (log_start s) \<longrightarrow> disk r' m =
          (if k \<le> length bs then disk s m else if m \<in> set bs then view s m else disk s m))))"
proof -
  let ?st = "log_start s"
  obtain s' h h0 where c: "commit s = Inr s'" "binv s' {} []"
    "hdr_n h = int (length bs)" "\<forall>k<length bs. hdr_block h k = bs ! k" "hdr_n h0 = 0"
    "disk_trace s' = disk_trace s @ commit_writes ?st bs (view s) h h0"
    "disk s' = apply_writes (commit_writes ?st bs (view s) h h0) (disk s)"
    using commit_ok [OF assms(1-3)] by blast
  have "\<exists>r'. recover_from_log r = Inr r' \<and> binv r' {} [] \<and> hdr_n (disk r' ?st) = 0 \<and>
        (\<forall>m. m \<notin> log_region ?st \<longrightarrow> disk r' m =
          (if k \<le> length bs then disk s m else if m \<in> set bs then view s m else disk s m))"
    if r: "binv r {} []" "disk r = apply_writes (take k (commit_writes ?st bs (view s) h h0)) (disk s)"
      "log_dev r = ROOTDEV" "log_start r = ?st" "length (lh_block r) = LOGSIZE" for k and r :: "'b log_scheme"
  proof -
    note cd = crash_disk [OF assms(2) c(3,4,5) assms(4), where k = k, folded r(2)]
    obtain r' h1 where r': "recover_from_log r = Inr r'" "binv r' {} []" "hdr_n h1 = 0"
      "disk r' = (apply_writes (home_writes ?st (map (hdr_block (disk r ?st)) [0..<nat (hdr_n (disk r ?st))]) (disk r)
         (length (map (hdr_block (disk r ?st)) [0..<nat (hdr_n (disk r ?st))]))) (disk r))(?st := h1)"
      using recover_ok [OF r(1,3,5)] cd(1-3) r(4) by auto
    have "?st \<in> log_region ?st" by (simp add: log_region_def)
    then show ?thesis using r' cd(4) by (intro exI [of _ r']) auto
  qed
  then show ?thesis using c(1,2,6,7) by blast
qed


lemma find_block_le: "find_block b xs \<le> length xs"
  by (induction xs) auto

lemma find_block_less: "find_block b xs < length xs \<longleftrightarrow> b \<in> set xs"
  by (induction xs) auto

lemma find_block_nth: "find_block b xs < length xs \<Longrightarrow> xs ! find_block b xs = b"
  by (induction xs) auto

text \<open>\<open>tstep\<close>: a step inside an operation changes the cache, the header in memory and the states of sleepers only.\<close>

definition tstep :: "'a log_scheme \<Rightarrow> 'a log_scheme \<Rightarrow> bool" where
  "tstep s s' \<longleftrightarrow> mypid s' = mypid s \<and>
     (\<exists>ps bs l n h. s' = s\<lparr>procs := ps, bufs := bs, lru := l, lh_n := n, lh_block := h\<rparr>)"

lemma tstepI:
  "mypid s' = mypid s \<Longrightarrow> s' = s\<lparr>procs := pl, bufs := bs, lru := l, lh_n := n, lh_block := h\<rparr> \<Longrightarrow> tstep s s'"
  unfolding tstep_def by blast

lemma tstep_refl [simp]: "tstep s s"
  by (rule tstepI [of _ _ "lh_block s" "lh_n s" "lru s" "bufs s" "procs s"]) simp_all

lemma tstep_trans: "tstep s s' \<Longrightarrow> tstep s' s'' \<Longrightarrow> tstep s s''"
  unfolding tstep_def by fastforce

lemma bstep_tstep:
  fixes s s' :: "'a log_scheme"
  assumes "bstep s s'" "disk s' = disk s" "disk_trace s' = disk_trace s"
  shows "tstep s s'"
proof -
  obtain ps bs l d t where s': "mypid s' = mypid s" "s' = s\<lparr>procs := ps, bufs := bs, lru := l, disk := d, disk_trace := t\<rparr>"
    using assms(1) unfolding bstep_def by blast
  then have "d = disk s" "t = disk_trace s" using assms(2,3) by simp_all
  then have "s' = s\<lparr>procs := ps, bufs := bs, lru := l, lh_n := lh_n s, lh_block := lh_block s\<rparr>" using s'(2) by simp
  then show ?thesis using s'(1) by (rule tstepI [rotated])
qed

lemma tstep_log:
  assumes "tstep s s'"
  shows "disk s' = disk s" "log_start s' = log_start s" "log_size s' = log_size s" "outstanding s' = outstanding s"
    "committing s' = committing s" "log_dev s' = log_dev s"
  using assms by (auto simp: tstep_def)

lemma log_write_ok:
  assumes "binv s (set bs) H" "trans_ok s bs" "i \<in> set H" "b_blockno (the_buf i s) = b"
    and "b \<notin> log_region (log_start s)" "length (lh_block s) = LOGSIZE" "int (length bs) < log_size s - 1"
    and "1 \<le> outstanding s" "Suc (length bs) < LOGSIZE"
  shows "\<exists>s'. log_write i s = Inr s' \<and> view s' = view s \<and> tstep s s' \<and> length (lh_block s') = LOGSIZE \<and>
    (\<forall>j. b_blockno (the_buf j s') = b_blockno (the_buf j s) \<and> b_data (the_buf j s') = b_data (the_buf j s)) \<and>
    (let bs' = (if b \<in> set bs then bs else bs @ [b]) in trans_ok s' bs' \<and> binv s' (set bs') H)"
proof -
  note T = trans_okD [OF assms(2)]
  have tk: "take (nat (lh_n s)) (lh_block s) = bs" using assms(2) by (simp add: trans_ok_def)
  let ?k = "find_block b bs"
  have k: "?k \<le> length bs" by (rule find_block_le)
  have g: "\<not> (int LOGSIZE \<le> lh_n s \<or> log_size s - 1 \<le> lh_n s)" using assms(6,7) T(2,4) by simp
  show ?thesis
  proof (cases "b \<in> set bs")
    case True
    then have kl: "?k < length bs" "bs ! ?k = b" using find_block_less find_block_nth by metis+
    then have same: "(lh_block s)[?k := b] = lh_block s" using T(3) [OF kl(1)] by (metis list_update_id)
    have "log_write i s = Inr s"
      using g assms(4,8) tk kl T(2) same by (simp add: log_write_def Let_def)
    then show ?thesis using True assms(1,2,6) by simp
  next
    case False
    then have kl: "?k = length bs" using k find_block_less [of b bs] by simp
    let ?s1 = "s\<lparr>lh_block := (lh_block s)[length bs := b]\<rparr>"
    let ?s2 = "(bpin i ?s1)\<lparr>lh_n := lh_n s + 1\<rparr>"
    have run: "log_write i s = Inr ?s2"
      using g assms(4,8) tk kl T(2) by (simp add: log_write_def Let_def)
    have b1: "binv ?s1 (set bs) H" "b_blockno (the_buf i ?s1) = b" using assms(1,4) by (simp_all add: the_buf_def)
    have p: "binv (bpin i ?s1) (insert b (set bs)) H" "view (bpin i ?s1) = view ?s1"
      "the_buf j (bpin i ?s1) = (if j = i then (the_buf i ?s1)\<lparr>b_refcnt := 2\<rparr> else the_buf j ?s1)" for j
      using bpin_ok [OF b1(1) assms(3)] b1(2) False by simp_all
    have "b_blockno (the_buf j ?s2) = b_blockno (the_buf j s) \<and> b_data (the_buf j ?s2) = b_data (the_buf j s)" for j
      using p(3) [of j] by (simp add: the_buf_def split: if_splits)
    moreover have "tstep s ?s2"
      by (rule tstepI [of _ _ "(lh_block s)[length bs := b]" "lh_n s + 1" "lru s" "bufs ?s2" "procs s"]) (simp_all add: bpin_def upd_buf_def mypid_def)
    moreover have "binv ?s2 (set (bs @ [b])) H" using p(1) by simp
    moreover have "view ?s2 = view s" using p(2) by simp
    moreover have "length (lh_block ?s2) = LOGSIZE" using assms(6) by (simp add: bpin_def upd_buf_def)
    moreover have "trans_ok ?s2 (bs @ [b])"
    proof -
      have "lh_block ?s2 = (lh_block s)[length bs := b]" "log_start ?s2 = log_start s" "log_dev ?s2 = log_dev s"
        by (simp_all add: bpin_def upd_buf_def)
      moreover have "take (Suc (length bs)) ((lh_block s)[length bs := b]) = bs @ [b]"
        using assms(6) T(4) tk T(2) by (simp add: take_Suc_conv_app_nth)
      ultimately show ?thesis using assms(2,5,9) False by (auto simp: trans_ok_def)
    qed
    ultimately show ?thesis using run False by simp
  qed
qed

text \<open>
  \<^verbatim>\<open>log_write\<close> inside an operation records a modified block exactly once: a block already
  in the log is absorbed, a new one is appended and its buffer pinned, and the log stays
  well-formed. No block content changes.
\<close>

theorem log_write_absorbs:
  assumes "binv s (set bs) H" "trans_ok s bs" "i \<in> set H" "b_blockno (the_buf i s) = b"
    and "b \<notin> log_region (log_start s)" "length (lh_block s) = LOGSIZE" "int (length bs) < log_size s - 1"
    and "1 \<le> outstanding s" "Suc (length bs) < LOGSIZE"
  shows "\<exists>s'. log_write i s = Inr s' \<and> view s' = view s \<and> disk s' = disk s \<and>
    (let bs' = (if b \<in> set bs then bs else bs @ [b]) in trans_ok s' bs' \<and> binv s' (set bs') H)"
proof -
  obtain s' where "log_write i s = Inr s'" "view s' = view s" "tstep s s'"
    "let bs' = (if b \<in> set bs then bs else bs @ [b]) in trans_ok s' bs' \<and> binv s' (set bs') H"
    using log_write_ok [OF assms] by blast
  then show ?thesis using tstep_log(1) by (intro exI [of _ s']) simp
qed

text \<open>Recovery replays nothing when the header on disk has the count 0.\<close>

lemma recover_empty:
  assumes "binv r {} []" "log_dev r = ROOTDEV" "length (lh_block r) = LOGSIZE" "hdr_n (disk r (log_start r)) = 0"
  shows "\<exists>r'. recover_from_log r = Inr r' \<and> (\<forall>m. m \<noteq> log_start r \<longrightarrow> disk r' m = disk r m)"
  using recover_ok [OF assms(1-3)] assms(4) by (auto simp: LOGSIZE_eq home_writes_def)

text \<open>
  C24: durability. When the last outstanding operation ends, \<^verbatim>\<open>end_op\<close> returns with the
  transaction on disk: every block outside the log area holds on disk what the file system saw
  in the cache, nothing stays pinned, and the log is empty again, in memory and on disk: the count in the header
  block of the log is 0 (it was written by this commit; a transaction without writes writes nothing and leaves the header
  as it was). So a crash after the commit replays nothing: recovery from that disk returns and keeps every block.
\<close>

theorem end_op_is_durable:
  assumes "binv s (set bs) []" "trans_ok s bs" "outstanding s = 1" "\<not> committing s"
  shows "\<exists>s'. end_op s = Inr s' \<and> outstanding s' = 0 \<and> \<not> committing s' \<and> lh_n s' = 0 \<and> binv s' {} [] \<and>
    (\<forall>m. m \<notin> log_region (log_start s) \<longrightarrow> disk s' m = view s m) \<and>
    (bs = [] \<longrightarrow> disk s' = disk s) \<and>
    (bs \<noteq> [] \<or> hdr_n (disk s (log_start s)) = 0 \<longrightarrow> hdr_n (disk s' (log_start s)) = 0 \<and>
      (\<forall>r :: 'b log_scheme. binv r {} [] \<and> disk r = disk s' \<and> log_dev r = ROOTDEV \<and> log_start r = log_start s \<and>
          length (lh_block r) = LOGSIZE \<longrightarrow>
        (\<exists>r'. recover_from_log r = Inr r' \<and> (\<forall>m. m \<notin> log_region (log_start s) \<longrightarrow> disk r' m = view s m))))"
proof -
  let ?s1 = "s\<lparr>outstanding := 0, committing := True\<rparr>"
  have inv1: "binv ?s1 (set bs) []" and tr1: "trans_ok ?s1 bs" using assms(1,2) by (simp_all add: trans_ok_def)
  have "\<exists>s2. commit ?s1 = Inr s2 \<and> binv s2 {} [] \<and> lh_n s2 = 0 \<and> outstanding s2 = 0 \<and>
    (\<forall>m. m \<notin> log_region (log_start s) \<longrightarrow> disk s2 m = view s m) \<and> (bs = [] \<longrightarrow> disk s2 = disk s) \<and>
    (bs \<noteq> [] \<longrightarrow> hdr_n (disk s2 (log_start s)) = 0)"
  proof (cases "bs = []")
    case True
    then have "commit ?s1 = Inr ?s1" using trans_okD(2) [OF tr1] by (simp add: commit_def)
    then show ?thesis using True inv1 trans_okD(2) [OF tr1] view_clean [OF inv1 [simplified True list.set]] by simp
  next
    case False
    let ?st = "log_start s"
    obtain s2 h h0 where c: "commit ?s1 = Inr s2" "binv s2 {} []" "lh_n s2 = 0" "outstanding s2 = outstanding ?s1"
      "disk s2 = apply_writes (commit_writes ?st bs (view s) h h0) (disk s)" "hdr_n h0 = 0"
      using commit_ok [OF inv1 tr1 False] by auto
    have hd: "hdr_n (disk s2 ?st) = 0" by (simp add: c(5,6) commit_writes_def)
    have "disk s2 m = view s m" if m: "m \<notin> log_region ?st" for m
    proof -
      have st: "m \<noteq> ?st" using m by (auto simp: log_region_def)
      have "fst ` set (log_writes ?st bs (view s) (length bs)) \<subseteq> log_region ?st"
        using trans_okD(4) [OF assms(2)] by (intro log_writes_region) simp
      then have "apply_writes (log_writes ?st bs (view s) (length bs)) (disk s) m = disk s m"
        using m by (intro apply_writes_other) blast
      then show ?thesis
        using st view_unpinned [OF assms(1), of m] by (simp add: c(5) commit_writes_def apply_home)
    qed
    then show ?thesis using c hd False by (intro exI [of _ s2]) simp
  qed
  then obtain s2 where s2: "commit ?s1 = Inr s2" "binv s2 {} []" "lh_n s2 = 0" "outstanding s2 = 0"
    "\<forall>m. m \<notin> log_region (log_start s) \<longrightarrow> disk s2 m = view s m" "bs = [] \<longrightarrow> disk s2 = disk s"
    "bs \<noteq> [] \<longrightarrow> hdr_n (disk s2 (log_start s)) = 0" by blast
  have "end_op s = Inr (wakeup Chan_log (s2\<lparr>committing := False\<rparr>))"
    using assms(3,4) s2(1) by (simp add: end_op_def Let_def)
  moreover have "\<exists>r'. recover_from_log r = Inr r' \<and> (\<forall>m. m \<notin> log_region (log_start s) \<longrightarrow> disk r' m = view s m)"
    if "hdr_n (disk s2 (log_start s)) = 0" "binv r {} []" "disk r = disk s2" "log_dev r = ROOTDEV" "log_start r = log_start s"
      "length (lh_block r) = LOGSIZE" for r :: "'b log_scheme"
    using recover_empty [OF that(2,4,6)] that(1,3,5) s2(5) by (auto simp: log_region_def)
  ultimately show ?thesis using s2(2-7) by (auto simp: wakeup_cache wakeup_log)
qed

text \<open>
  A small machine: one process, buffer 0 holds block 46 with new content, pinned by the one
  transaction in the log, whose area starts at block 2; the disk is zero.
\<close>

definition log_proc :: proc where
  "log_proc = \<lparr>p_state = RUNNING, p_chan = Chan_null, p_killed = 0, p_xstate = 0, p_pid = 1, p_parent = None,
     p_kstack = 0, p_sz = 0, p_pagetable = 0, p_trapframe = 0,
     p_context = \<lparr>ctx_ra = 0, ctx_sp = 0, ctx_s = replicate 12 0\<rparr>, p_ofile = replicate 16 None, p_cwd = None,
     p_name = replicate 16 0\<rparr>"

definition log_buf :: "bool \<Rightarrow> uint \<Rightarrow> uint \<Rightarrow> uint \<Rightarrow> uint8 \<Rightarrow> buf" where
  "log_buf v dev n rc c = \<lparr>b_valid = v, b_dev = dev, b_blockno = n, b_lock = initsleeplock, b_refcnt = rc,
     b_data = replicate BSIZE c\<rparr>"

definition log_machine :: log where
  "log_machine = \<lparr>mem = (\<lambda>_. 0), freelist = 0, refcounts = (\<lambda>_. 0), MAX_PAGES = 0, FREE_PAGES = 0, kend = KERNBASE,
     etext = KERNBASE, trampoline = KERNBASE, procs = [log_proc], curproc = Some 0, initproc = Some 0, nextpid = 2,
     ticks = 0, sched_pointer = Rr_scheduler, console_out = [],
     bufs = log_buf True 1 46 1 7 # replicate 29 (log_buf False 0 0 0 0), lru = [0..<NBUF],
     disk = (\<lambda>_. replicate BSIZE 0), disk_trace = [],
     log_start = 2, log_size = 30, outstanding = 1, committing = False, log_dev = 1, lh_n = 1,
     lh_block = 46 # replicate 29 0\<rparr>"

lemma log_machine_buf:
  "i < NBUF \<Longrightarrow> the_buf i log_machine = (if i = 0 then log_buf True 1 46 1 7 else log_buf False 0 0 0 0)"
  by (cases i) (simp_all add: the_buf_def log_machine_def NBUF_eq)

lemma log_machine_cached: "cached log_machine i n \<longleftrightarrow> i = 0 \<and> n = 46"
  by (auto simp: cached_def log_machine_buf log_buf_def ROOTDEV_def NBUF_eq split: if_splits)

lemma log_machine_binv: "binv log_machine {46} []"
proof -
  have v: "b_valid (the_buf 0 log_machine)" using log_machine_buf [of 0] by (simp add: NBUF_eq log_buf_def)
  show ?thesis
    unfolding binv_def log_machine_cached
    by (auto simp: log_machine_buf log_buf_def initsleeplock_def ROOTDEV_def v)
      (auto simp: log_machine_def NBUF_eq)
qed

lemma log_machine_trans: "trans_ok log_machine [46]"
proof -
  have lt: "unat (log_blk 2 k) < 46" if "k < LOGSIZE" for k
  proof -
    have "log_blk 2 k = of_nat (k + 3)" by (simp add: log_blk_def)
    then have "unat (log_blk 2 k) = unat (of_nat (k + 3) :: uint)" by (rule arg_cong)
    also have "\<dots> = k + 3" using that unfolding unat_of_nat by (simp add: LOGSIZE_eq)
    finally show ?thesis using that by (simp add: LOGSIZE_eq)
  qed
  have ne: "log_blk 2 k \<noteq> 46" if "k < LOGSIZE - 1" for k
  proof
    assume e: "log_blk 2 k = 46"
    have "k < LOGSIZE" using that by linarith
    from lt [OF this] show False by (simp only: e) simp
  qed
  have "46 \<notin> log_blk 2 ` {..<LOGSIZE - 1}"
  proof
    assume "46 \<in> log_blk 2 ` {..<LOGSIZE - 1}"
    then obtain k where "46 = log_blk 2 k" "k \<in> {..<LOGSIZE - 1}" by (rule imageE)
    then show False using ne [of k] by simp
  qed
  then show ?thesis by (simp add: trans_ok_def log_machine_def ROOTDEV_def LOGSIZE_eq log_region_def)
qed

theorem commit_is_crash_atomic_witness:
  "\<exists>s' ws. commit log_machine = Inr s' \<and> disk_trace s' = ws \<and>
    (\<forall>k (r :: log). binv r {} [] \<and> disk r = apply_writes (take k ws) (disk log_machine) \<and> log_dev r = ROOTDEV \<and>
        log_start r = 2 \<and> length (lh_block r) = LOGSIZE \<longrightarrow>
      (\<exists>r'. recover_from_log r = Inr r' \<and>
        disk r' 46 = (if k \<le> 1 then replicate BSIZE 0 else replicate BSIZE 7)))"
proof -
  have z: "hdr_n (disk log_machine (log_start log_machine)) = 0"
    by (simp add: hdr_n_def get32_def log_machine_def BSIZE_def)
  have inv: "binv log_machine (set [46]) []" using log_machine_binv by simp
  have v: "view log_machine 46 = replicate BSIZE 7"
    using view_cached [OF log_machine_binv, of 0 46] by (simp add: log_machine_cached log_machine_buf NBUF_eq log_buf_def)
  have st: "log_start log_machine = 2" "disk log_machine 46 = replicate BSIZE 0" "disk_trace log_machine = []"
    by (simp_all add: log_machine_def)
  have m: "46 \<notin> log_region 2" using log_machine_trans by (simp add: trans_ok_def st)
  from commit_is_crash_atomic [OF inv log_machine_trans _ z, where 'b = unit]
  show ?thesis using m v st by (fastforce simp: st)
qed


theorem end_op_is_durable_witness:
  "\<exists>s'. end_op log_machine = Inr s' \<and> outstanding s' = 0 \<and> lh_n s' = 0 \<and> binv s' {} [] \<and> disk s' 46 = replicate BSIZE 7 \<and>
    hdr_n (disk s' 2) = 0"
proof -
  have inv: "binv log_machine (set [46]) []" using log_machine_binv by simp
  have v: "view log_machine 46 = replicate BSIZE 7"
    using view_cached [OF log_machine_binv, of 0 46] by (simp add: log_machine_cached log_machine_buf NBUF_eq log_buf_def)
  have m: "46 \<notin> log_region (log_start log_machine)" using log_machine_trans by (simp add: trans_ok_def)
  have f: "outstanding log_machine = 1" "\<not> committing log_machine" "log_start log_machine = 2" by (simp_all add: log_machine_def)
  from end_op_is_durable [OF inv log_machine_trans f(1,2), where 'b = unit] obtain s' where
    "end_op log_machine = Inr s'" "outstanding s' = 0" "lh_n s' = 0" "binv s' {} []" "hdr_n (disk s' (log_start log_machine)) = 0"
    "\<forall>m. m \<notin> log_region (log_start log_machine) \<longrightarrow> disk s' m = view log_machine m" by auto
  then show ?thesis using m v f(3) by (intro exI [of _ s']) simp
qed

theorem log_write_absorbs_witness:
  "\<exists>i s1 s2. bread 1 46 log_machine = Inr (i, s1) \<and> log_write i s1 = Inr s2 \<and> trans_ok s2 [46] \<and> binv s2 {46} [i]"
proof -
  obtain i s1 where s1: "bread ROOTDEV 46 log_machine = Inr (i, s1)" "bstep log_machine s1" "binv s1 {46} [i]"
    "b_blockno (the_buf i s1) = 46"
    using bread_step [OF log_machine_binv, of 46] by (auto simp: NBUF_eq)
  note L = bstep_log [OF s1(2)]
  have tr: "trans_ok s1 [46]" using trans_ok_bstep [OF s1(2) log_machine_trans] .
  have f: "log_size s1 = 30" "outstanding s1 = 1" "length (lh_block s1) = LOGSIZE" "log_start s1 = 2"
    using L by (simp_all add: log_machine_def LOGSIZE_eq)
  have "46 \<notin> log_region (log_start s1)" using tr by (simp add: trans_ok_def)
  then have "\<exists>s'. log_write i s1 = Inr s' \<and> view s' = view s1 \<and> disk s' = disk s1 \<and>
    (let bs' = (if (46 :: uint) \<in> set [46] then [46] else [46] @ [46]) in trans_ok s' bs' \<and> binv s' (set bs') [i])"
    using s1(3) f by (intro log_write_absorbs [OF _ tr _ s1(4)]) (simp_all add: LOGSIZE_eq)
  then show ?thesis using s1(1) by (auto simp: ROOTDEV_def)
qed

end
