(* ===== verification/Fs.thy ===== *)
theory Fs
  imports Log
begin

text \<open>
  The file system proper, \<^verbatim>\<open>fs.c\<close>: the block bitmap, the table of in-memory inodes, the
  mapping from file offsets to blocks, reading and writing of file contents, directories and
  path names. A \<^verbatim>\<open>struct inode *\<close> is the index of the table entry (\<open>None\<close> for a null
  pointer). Path names and directory entry names are byte lists without the closing NUL.
\<close>

section \<open>On-disk format\<close>

definition ROOTINO :: uint where "ROOTINO = 1"
definition FSMAGIC :: uint where "FSMAGIC = 0x10203040"
definition NDIRECT :: nat where "NDIRECT = 12"
definition NINDIRECT :: nat where "NINDIRECT = BSIZE div 4"
definition MAXFILE :: nat where "MAXFILE = NDIRECT + NINDIRECT"
definition IPB :: nat where "IPB = BSIZE div 64"
definition BPB :: nat where "BPB = BSIZE * 8"
definition DIRSIZ :: nat where "DIRSIZ = 14"
definition sizeof_dirent :: nat where "sizeof_dirent = 16"
definition T_DIR :: uint16 where "T_DIR = 1"
definition T_FILE :: uint16 where "T_FILE = 2"
definition T_DEVICE :: uint16 where "T_DEVICE = 3"

lemmas fs_defs = NDIRECT_def NINDIRECT_def MAXFILE_def IPB_def BPB_def BSIZE_def DIRSIZ_def sizeof_dirent_def

record inode =
  i_dev :: uint
  i_inum :: uint
  i_ref :: int
  i_lock :: sleeplock
  i_valid :: bool
  i_type :: uint16
  i_major :: uint16
  i_minor :: uint16
  i_nlink :: uint16
  i_size :: uint
  i_addrs :: "uint list"

record fs = log +
  sb :: superblock
  inodes :: "inode list"

definition IBLOCK :: "uint \<Rightarrow> superblock \<Rightarrow> uint" where
  "IBLOCK i b = i div of_nat IPB + sb_inodestart b"

definition BBLOCK :: "nat \<Rightarrow> superblock \<Rightarrow> uint" where
  "BBLOCK b super = of_nat (b div BPB) + sb_bmapstart super"

definition the_inode :: "nat \<Rightarrow> 'a fs_scheme \<Rightarrow> inode" where
  "the_inode i s = inodes s ! i"

definition upd_inode :: "nat \<Rightarrow> (inode \<Rightarrow> inode) \<Rightarrow> 'a fs_scheme \<Rightarrow> 'a fs_scheme" where
  "upd_inode i f s = s\<lparr>inodes := (inodes s)[i := f (inodes s ! i)]\<rparr>"

definition get_superblock :: "block \<Rightarrow> superblock" where
  "get_superblock d = \<lparr>sb_magic = get32 d 0, sb_size = get32 d 4, sb_nblocks = get32 d 8, sb_ninodes = get32 d 12,
     sb_nlog = get32 d 16, sb_logstart = get32 d 20, sb_inodestart = get32 d 24, sb_bmapstart = get32 d 28\<rparr>"

definition readsb :: "uint \<Rightarrow> 'a fs_scheme \<Rightarrow> (superblock \<times> 'a fs_scheme) kres" where
  "readsb dev s = kbind (bread dev 1 s) (\<lambda>(bp, s).
     let super = get_superblock (b_data (the_buf bp s)) in kbind (brelse bp s) (\<lambda>s. Inr (super, s)))"

definition fsinit :: "uint \<Rightarrow> 'a fs_scheme \<Rightarrow> 'a fs_scheme kres" where
  "fsinit dev s = kbind (readsb dev s) (\<lambda>(b, s).
     let s = s\<lparr>sb := b\<rparr>
     in if sb_magic b \<noteq> FSMAGIC then Inl (Panic ''invalid file system'') else initlog dev b s)"

section \<open>Blocks\<close>

definition bzero :: "uint \<Rightarrow> uint \<Rightarrow> 'a fs_scheme \<Rightarrow> 'a fs_scheme kres" where
  "bzero dev bno s =
     kbind (bread dev bno s) (\<lambda>(bp, s).
     kbind (log_write bp (set_data bp (replicate BSIZE 0) s)) (\<lambda>s. brelse bp s))"

text \<open>The inner loop of \<^verbatim>\<open>balloc\<close>: the first clear bit of one bitmap block.\<close>

fun balloc_scan :: "block \<Rightarrow> nat \<Rightarrow> nat \<Rightarrow> nat list \<Rightarrow> nat option" where
  "balloc_scan d b sz [] = None"
| "balloc_scan d b sz (bi # bis) =
     (if \<not> b + bi < sz then None
      else if \<not> bit (d ! (bi div 8)) (bi mod 8) then Some bi
      else balloc_scan d b sz bis)"

definition set_bit_at :: "nat \<Rightarrow> block \<Rightarrow> block" where
  "set_bit_at bi d = d[bi div 8 := d ! (bi div 8) OR push_bit (bi mod 8) 1]"

definition clear_bit_at :: "nat \<Rightarrow> block \<Rightarrow> block" where
  "clear_bit_at bi d = d[bi div 8 := d ! (bi div 8) AND NOT (push_bit (bi mod 8) 1)]"

text \<open>The outer loop; \<open>sz\<close> is \<^verbatim>\<open>sb.size\<close>, which nothing changes after \<^verbatim>\<open>fsinit\<close>.\<close>

function balloc_loop :: "uint \<Rightarrow> nat \<Rightarrow> nat \<Rightarrow> 'a fs_scheme \<Rightarrow> (uint \<times> 'a fs_scheme) kres" where
  "balloc_loop dev sz b s =
     (if \<not> b < sz
      then kbind (kprint (''balloc: out of blocks'' @ [CHR 0x0A]) [] s) (\<lambda>s. Inr (0, s))
      else kbind (bread dev (BBLOCK b (sb s)) s) (\<lambda>(bp, s).
        case balloc_scan (b_data (the_buf bp s)) b sz [0..<BPB] of
          Some bi \<Rightarrow>
            kbind (log_write bp (set_data bp (set_bit_at bi (b_data (the_buf bp s))) s)) (\<lambda>s.
            kbind (brelse bp s) (\<lambda>s.
            kbind (bzero dev (of_nat (b + bi)) s) (\<lambda>s. Inr (of_nat (b + bi), s))))
        | None \<Rightarrow> kbind (brelse bp s) (\<lambda>s. balloc_loop dev sz (b + BPB) s)))"
  by pat_completeness auto
termination
  by (relation "measure (\<lambda>(dev, sz, b, s). sz - b)") (auto simp: BPB_def BSIZE_def)

declare balloc_loop.simps [simp del]

definition balloc :: "uint \<Rightarrow> 'a fs_scheme \<Rightarrow> (uint \<times> 'a fs_scheme) kres" where
  "balloc dev s = balloc_loop dev (unat (sb_size (sb s))) 0 s"

definition bfree :: "uint \<Rightarrow> uint \<Rightarrow> 'a fs_scheme \<Rightarrow> 'a fs_scheme kres" where
  "bfree dev b s =
     kbind (bread dev (BBLOCK (unat b) (sb s)) s) (\<lambda>(bp, s).
     let bi = unat b mod BPB; d = b_data (the_buf bp s)
     in if \<not> bit (d ! (bi div 8)) (bi mod 8) then Inl (Panic ''freeing free block'')
        else kbind (log_write bp (set_data bp (clear_bit_at bi d) s)) (\<lambda>s. brelse bp s))"

section \<open>Inodes\<close>

text \<open>\<^verbatim>\<open>struct dinode\<close> is 64 bytes; \<open>dip_off\<close> is its place in the block.\<close>

definition dip_off :: "uint \<Rightarrow> nat" where
  "dip_off inum = (unat inum mod IPB) * 64"

definition put_dinode :: "nat \<Rightarrow> inode \<Rightarrow> block \<Rightarrow> block" where
  "put_dinode off ip d = put_bytes off (le16 (i_type ip) @ le16 (i_major ip) @ le16 (i_minor ip) @ le16 (i_nlink ip)
     @ le32 (i_size ip) @ concat (map le32 (i_addrs ip))) d"

definition get_dinode :: "nat \<Rightarrow> block \<Rightarrow> inode \<Rightarrow> inode" where
  "get_dinode off d ip = ip\<lparr>i_type := get16 d off, i_major := get16 d (off + 2), i_minor := get16 d (off + 4),
     i_nlink := get16 d (off + 6), i_size := get32 d (off + 8),
     i_addrs := map (\<lambda>k. get32 d (off + 12 + 4 * k)) [0..<NDIRECT + 1]\<rparr>"

definition iinit :: "'a fs_scheme \<Rightarrow> 'a fs_scheme" where
  "iinit s = fold (\<lambda>i. upd_inode i (\<lambda>ip. ip\<lparr>i_lock := initsleeplock\<rparr>)) [0..<NINODE] s"

fun iget_find :: "uint \<Rightarrow> uint \<Rightarrow> nat list \<Rightarrow> nat option \<Rightarrow> 'a fs_scheme \<Rightarrow> nat option \<times> nat option" where
  "iget_find dev inum [] empt s = (None, empt)"
| "iget_find dev inum (i # is) empt s =
     (let ip = the_inode i s
      in if 0 < i_ref ip \<and> i_dev ip = dev \<and> i_inum ip = inum then (Some i, empt)
         else iget_find dev inum is (if empt = None \<and> i_ref ip = 0 then Some i else empt) s)"

definition iget :: "uint \<Rightarrow> uint \<Rightarrow> 'a fs_scheme \<Rightarrow> (nat \<times> 'a fs_scheme) kres" where
  "iget dev inum s =
     (case iget_find dev inum [0..<NINODE] None s of
        (Some i, _) \<Rightarrow> Inr (i, upd_inode i (\<lambda>ip. ip\<lparr>i_ref := i_ref ip + 1\<rparr>) s)
      | (None, None) \<Rightarrow> Inl (Panic ''iget: no inodes'')
      | (None, Some i) \<Rightarrow>
          Inr (i, upd_inode i (\<lambda>ip. ip\<lparr>i_dev := dev, i_inum := inum, i_ref := 1, i_valid := False\<rparr>) s))"

fun ialloc_loop :: "uint \<Rightarrow> uint16 \<Rightarrow> nat list \<Rightarrow> 'a fs_scheme \<Rightarrow> (nat option \<times> 'a fs_scheme) kres" where
  "ialloc_loop dev type [] s =
     kbind (kprint (''ialloc: no inodes'' @ [CHR 0x0A]) [] s) (\<lambda>s. Inr (None, s))"
| "ialloc_loop dev type (inum # inums) s =
     kbind (bread dev (IBLOCK (of_nat inum) (sb s)) s) (\<lambda>(bp, s).
     let off = dip_off (of_nat inum); d = b_data (the_buf bp s)
     in if get16 d off = 0
        then kbind (log_write bp (set_data bp (put16 off type (put_bytes off (replicate 64 0) d)) s)) (\<lambda>s.
          kbind (brelse bp s) (\<lambda>s.
          kbind (iget dev (of_nat inum) s) (\<lambda>(i, s). Inr (Some i, s))))
        else kbind (brelse bp s) (\<lambda>s. ialloc_loop dev type inums s))"

definition ialloc :: "uint \<Rightarrow> uint16 \<Rightarrow> 'a fs_scheme \<Rightarrow> (nat option \<times> 'a fs_scheme) kres" where
  "ialloc dev type s = ialloc_loop dev type [1..<unat (sb_ninodes (sb s))] s"

definition iupdate :: "nat \<Rightarrow> 'a fs_scheme \<Rightarrow> 'a fs_scheme kres" where
  "iupdate i s =
     (let ip = the_inode i s
      in kbind (bread (i_dev ip) (IBLOCK (i_inum ip) (sb s)) s) (\<lambda>(bp, s).
         kbind (log_write bp (set_data bp (put_dinode (dip_off (i_inum ip)) ip (b_data (the_buf bp s))) s)) (\<lambda>s.
         brelse bp s)))"

definition idup :: "nat \<Rightarrow> 'a fs_scheme \<Rightarrow> nat \<times> 'a fs_scheme" where
  "idup i s = (i, upd_inode i (\<lambda>ip. ip\<lparr>i_ref := i_ref ip + 1\<rparr>) s)"

definition ilock :: "nat \<Rightarrow> 'a fs_scheme \<Rightarrow> 'a fs_scheme kres" where
  "ilock i s =
     (if i_ref (the_inode i s) < 1 then Inl (Panic ''ilock'')
      else kbind (acquiresleep (Chan_inode_lock i) (i_lock (the_inode i s)) s) (\<lambda>lk.
        let s = upd_inode i (\<lambda>ip. ip\<lparr>i_lock := lk\<rparr>) s; ip = the_inode i s
        in if i_valid ip then Inr s
           else kbind (bread (i_dev ip) (IBLOCK (i_inum ip) (sb s)) s) (\<lambda>(bp, s).
             let s = upd_inode i (get_dinode (dip_off (i_inum ip)) (b_data (the_buf bp s))) s
             in kbind (brelse bp s) (\<lambda>s.
               let s = upd_inode i (\<lambda>ip. ip\<lparr>i_valid := True\<rparr>) s
               in if i_type (the_inode i s) = 0 then Inl (Panic ''ilock: no type'') else Inr s))))"

definition iunlock :: "nat \<Rightarrow> 'a fs_scheme \<Rightarrow> 'a fs_scheme kres" where
  "iunlock i s =
     kbind (holdingsleep (i_lock (the_inode i s)) s) (\<lambda>h.
       if \<not> h \<or> i_ref (the_inode i s) < 1 then Inl (Panic ''iunlock'')
       else let (lk, s) = releasesleep (Chan_inode_lock i) (i_lock (the_inode i s)) s
         in Inr (upd_inode i (\<lambda>ip. ip\<lparr>i_lock := lk\<rparr>) s))"

text \<open>\<^verbatim>\<open>bmap\<close>: the block of a file that holds block \<open>bn\<close> of its contents, allocating on demand.\<close>

definition bmap :: "nat \<Rightarrow> uint \<Rightarrow> 'a fs_scheme \<Rightarrow> (uint \<times> 'a fs_scheme) kres" where
  "bmap i bn s =
     (if unat bn < NDIRECT
      then let addr = i_addrs (the_inode i s) ! unat bn
        in if addr \<noteq> 0 then Inr (addr, s)
           else kbind (balloc (i_dev (the_inode i s)) s) (\<lambda>(addr, s).
             if addr = 0 then Inr (0, s)
             else Inr (addr, upd_inode i (\<lambda>ip. ip\<lparr>i_addrs := (i_addrs ip)[unat bn := addr]\<rparr>) s))
      else let bn = unat bn - NDIRECT
        in if bn < NINDIRECT
           then kbind (let addr = i_addrs (the_inode i s) ! NDIRECT
               in if addr \<noteq> 0 then Inr (addr, s)
                  else kbind (balloc (i_dev (the_inode i s)) s) (\<lambda>(addr, s).
                    Inr (addr, if addr = 0 then s
                      else upd_inode i (\<lambda>ip. ip\<lparr>i_addrs := (i_addrs ip)[NDIRECT := addr]\<rparr>) s))) (\<lambda>(addr, s).
             if addr = 0 then Inr (0, s)
             else kbind (bread (i_dev (the_inode i s)) addr s) (\<lambda>(bp, s).
               let a = get32 (b_data (the_buf bp s)) (4 * bn)
               in kbind (if a \<noteq> 0 then Inr (a, s)
                    else kbind (balloc (i_dev (the_inode i s)) s) (\<lambda>(addr, s).
                      if addr = 0 then Inr (0, s)
                      else kbind (log_write bp (set_data bp (put32 (4 * bn) addr (b_data (the_buf bp s))) s)) (\<lambda>s.
                        Inr (addr, s)))) (\<lambda>(addr, s).
                  kbind (brelse bp s) (\<lambda>s. Inr (addr, s)))))
           else Inl (Panic ''bmap: out of range''))"

definition itrunc :: "nat \<Rightarrow> 'a fs_scheme \<Rightarrow> 'a fs_scheme kres" where
  "itrunc i s =
     kbind (kfold (\<lambda>k s. let a = i_addrs (the_inode i s) ! k
        in if a = 0 then Inr s
           else kbind (bfree (i_dev (the_inode i s)) a s) (\<lambda>s.
             Inr (upd_inode i (\<lambda>ip. ip\<lparr>i_addrs := (i_addrs ip)[k := 0]\<rparr>) s))) [0..<NDIRECT] s) (\<lambda>s.
     kbind (let a = i_addrs (the_inode i s) ! NDIRECT
        in if a = 0 then Inr s
           else kbind (bread (i_dev (the_inode i s)) a s) (\<lambda>(bp, s).
             kbind (kfold (\<lambda>j s. let x = get32 (b_data (the_buf bp s)) (4 * j)
                in if x = 0 then Inr s else bfree (i_dev (the_inode i s)) x s) [0..<NINDIRECT] s) (\<lambda>s.
             kbind (brelse bp s) (\<lambda>s.
             kbind (bfree (i_dev (the_inode i s)) a s) (\<lambda>s.
             Inr (upd_inode i (\<lambda>ip. ip\<lparr>i_addrs := (i_addrs ip)[NDIRECT := 0]\<rparr>) s)))))) (\<lambda>s.
     iupdate i (upd_inode i (\<lambda>ip. ip\<lparr>i_size := 0\<rparr>) s)))"

definition iput :: "nat \<Rightarrow> 'a fs_scheme \<Rightarrow> 'a fs_scheme kres" where
  "iput i s =
     kbind (let ip = the_inode i s
        in if i_ref ip = 1 \<and> i_valid ip \<and> i_nlink ip = 0
           then kbind (acquiresleep (Chan_inode_lock i) (i_lock ip) s) (\<lambda>lk.
             kbind (itrunc i (upd_inode i (\<lambda>ip. ip\<lparr>i_lock := lk\<rparr>) s)) (\<lambda>s.
             kbind (iupdate i (upd_inode i (\<lambda>ip. ip\<lparr>i_type := 0\<rparr>) s)) (\<lambda>s.
             let (lk, s) = releasesleep (Chan_inode_lock i) (i_lock (the_inode i s)) (upd_inode i (\<lambda>ip. ip\<lparr>i_valid := False\<rparr>) s)
             in Inr (upd_inode i (\<lambda>ip. ip\<lparr>i_lock := lk\<rparr>) s))))
           else Inr s) (\<lambda>s.
     Inr (upd_inode i (\<lambda>ip. ip\<lparr>i_ref := i_ref ip - 1\<rparr>) s))"

definition iunlockput :: "nat \<Rightarrow> 'a fs_scheme \<Rightarrow> 'a fs_scheme kres" where
  "iunlockput i s = kbind (iunlock i s) (\<lambda>s. iput i s)"


section \<open>Contents\<close>

record stat =
  st_dev :: uint
  st_ino :: uint
  st_type :: uint16
  st_nlink :: uint16
  st_size :: uint64

definition stati :: "nat \<Rightarrow> 'a fs_scheme \<Rightarrow> stat" where
  "stati i s = (let ip = the_inode i s in \<lparr>st_dev = i_dev ip, st_ino = i_inum ip, st_type = i_type ip,
     st_nlink = i_nlink ip, st_size = ucast (i_size ip)\<rparr>)"

text \<open>
  The loops of \<^verbatim>\<open>readi\<close> and \<^verbatim>\<open>writei\<close>. \<open>chunk\<close> is the number of bytes of one round. \<^verbatim>\<open>readi\<close> into a
  kernel buffer returns the bytes; \<^verbatim>\<open>writei\<close> from a kernel buffer takes them from \<open>ksrc\<close>.
\<close>

definition chunk :: "uint \<Rightarrow> uint \<Rightarrow> uint \<Rightarrow> uint" where
  "chunk n tot off = (if n - tot < of_nat BSIZE - off mod of_nat BSIZE then n - tot else of_nat BSIZE - off mod of_nat BSIZE)"

lemma chunk_bounds:
  assumes "tot < n"
  shows "0 < chunk n tot off" "chunk n tot off \<le> n - tot" "unat (chunk n tot off) \<le> BSIZE"
    "unat (tot + chunk n tot off) = unat tot + unat (chunk n tot off)"
proof -
  have m: "unat (off mod of_nat BSIZE) < 1024" by (simp add: BSIZE_def unat_mod)
  have b: "unat (of_nat BSIZE - off mod of_nat BSIZE) = 1024 - unat (off mod of_nat BSIZE)"
    using m by (subst unat_sub) (simp_all add: word_le_nat_alt BSIZE_def)
  have d: "unat (n - tot) = unat n - unat tot" using assms by (simp add: unat_sub word_less_nat_alt word_le_nat_alt)
  show 1: "0 < chunk n tot off" using assms m b d by (auto simp: chunk_def word_less_nat_alt)
  show 2: "chunk n tot off \<le> n - tot" by (auto simp: chunk_def)
  show "unat (chunk n tot off) \<le> BSIZE" using b by (auto simp: chunk_def word_less_nat_alt BSIZE_def)
  have "unat tot + unat (chunk n tot off) \<le> unat n" using 2 d assms by (simp add: word_le_nat_alt word_less_nat_alt)
  then show "unat (tot + chunk n tot off) = unat tot + unat (chunk n tot off)"
    using le_less_trans [OF _ unat_uint_less [of n]] by (simp add: unat_word_ariths)
qed

lemma chunk_decreases: "tot < n \<Longrightarrow> unat n - unat (tot + chunk n tot off) < unat n - unat tot"
  using chunk_bounds [of tot n off] by (simp add: word_less_nat_alt)

function readi_loop ::
  "nat \<Rightarrow> bool \<Rightarrow> uint64 \<Rightarrow> uint \<Rightarrow> uint \<Rightarrow> uint \<Rightarrow> 'a fs_scheme \<Rightarrow> (uint \<times> uint8 list \<times> 'a fs_scheme) kres" where
  "readi_loop i user_dst dst off n tot s =
     (if \<not> tot < n then Inr (tot, [], s)
      else kbind (bmap i (off div of_nat BSIZE) s) (\<lambda>(addr, s).
        if addr = 0 then Inr (tot, [], s)
        else kbind (bread (i_dev (the_inode i s)) addr s) (\<lambda>(bp, s).
          let m = chunk n tot off;
              bytes = take (unat m) (drop (unat off mod BSIZE) (b_data (the_buf bp s)))
          in kbind (either_copyout user_dst dst bytes s) (\<lambda>(r, s).
            if r = -1 then kbind (brelse bp s) (\<lambda>s. Inr (-1, [], s))
            else kbind (brelse bp s) (\<lambda>s.
              kbind (readi_loop i user_dst (dst + ucast m) (off + m) n (tot + m) s) (\<lambda>(tot, bs, s).
                Inr (tot, bytes @ bs, s)))))))"
  by pat_completeness auto
termination
  by (relation "measure (\<lambda>(i, u, d, off, n, tot, s). unat n - unat tot)")
    (simp_all add: chunk_decreases)

definition readi :: "nat \<Rightarrow> bool \<Rightarrow> uint64 \<Rightarrow> uint \<Rightarrow> uint \<Rightarrow> 'a fs_scheme \<Rightarrow> (int \<times> uint8 list \<times> 'a fs_scheme) kres" where
  "readi i user_dst dst off n s =
     (let sz = i_size (the_inode i s)
      in if sz < off \<or> off + n < off then Inr (0, [], s)
         else let n = (if sz < off + n then sz - off else n)
           in kbind (readi_loop i user_dst dst off n 0 s) (\<lambda>(tot, bs, s). Inr (sint tot, bs, s)))"

function writei_loop ::
  "nat \<Rightarrow> bool \<Rightarrow> uint64 \<Rightarrow> uint8 list \<Rightarrow> uint \<Rightarrow> uint \<Rightarrow> uint \<Rightarrow> 'a fs_scheme \<Rightarrow> (uint \<times> uint \<times> 'a fs_scheme) kres" where
  "writei_loop i user_src src ksrc off n tot s =
     (if \<not> tot < n then Inr (tot, off, s)
      else kbind (bmap i (off div of_nat BSIZE) s) (\<lambda>(addr, s).
        if addr = 0 then Inr (tot, off, s)
        else kbind (bread (i_dev (the_inode i s)) addr s) (\<lambda>(bp, s).
          let m = chunk n tot off
          in kbind (either_copyin user_src src ksrc (unat m) s) (\<lambda>(r, bytes).
            let s = set_data bp (put_bytes (unat off mod BSIZE) bytes (b_data (the_buf bp s))) s
            in if r = -1 then kbind (brelse bp s) (\<lambda>s. Inr (tot, off, s))
            else kbind (log_write bp s) (\<lambda>s.
              kbind (brelse bp s) (\<lambda>s.
              writei_loop i user_src (src + ucast m) (drop (unat m) ksrc) (off + m) n (tot + m) s))))))"
  by pat_completeness auto
termination
  by (relation "measure (\<lambda>(i, u, d, ks, off, n, tot, s). unat n - unat tot)")
    (simp_all add: chunk_decreases)

definition writei :: "nat \<Rightarrow> bool \<Rightarrow> uint64 \<Rightarrow> uint8 list \<Rightarrow> uint \<Rightarrow> uint \<Rightarrow> 'a fs_scheme \<Rightarrow> (int \<times> 'a fs_scheme) kres" where
  "writei i user_src src ksrc off n s =
     (if i_size (the_inode i s) < off \<or> off + n < off then Inr (-1, s)
      else if of_nat (MAXFILE * BSIZE) < off + n then Inr (-1, s)
      else kbind (writei_loop i user_src src ksrc off n 0 s) (\<lambda>(tot, off, s).
        let s = (if i_size (the_inode i s) < off then upd_inode i (\<lambda>ip. ip\<lparr>i_size := off\<rparr>) s else s)
        in kbind (iupdate i s) (\<lambda>s. Inr (sint tot, s))))"

declare readi_loop.simps [simp del] writei_loop.simps [simp del]

lemma bmap_in_range: "bmap i bn s = Inr x \<Longrightarrow> unat bn < MAXFILE"
  by (auto simp: bmap_def MAXFILE_def Let_def split: if_splits)

text \<open>A read that returns anything started below the largest file size.\<close>

lemma readi_below_MAXFILE:
  assumes "readi i u d off n s = Inr (r, x)" "r \<noteq> 0"
  shows "unat off < MAXFILE * BSIZE"
proof -
  from assms obtain n' tot y where l: "readi_loop i u d off n' 0 s = Inr (tot, y)" "tot \<noteq> 0"
    unfolding readi_def Let_def by (fastforce simp: kbind_eq_Inr_iff split: if_splits)
  then obtain z where "bmap i (off div of_nat BSIZE) s = Inr z"
    by (subst (asm) readi_loop.simps) (auto simp: kbind_eq_Inr_iff split: if_splits)
  then have "unat (off div of_nat BSIZE) < MAXFILE" by (rule bmap_in_range)
  then show ?thesis by (simp add: unat_div BSIZE_def MAXFILE_def NDIRECT_def NINDIRECT_def)
qed

section \<open>Directories\<close>

definition cbuf_of :: "uint8 list \<Rightarrow> cbuf" where
  "cbuf_of xs = (\<lambda>k. if k < length xs then xs ! k else 0)"

definition namecmp :: "uint8 list \<Rightarrow> uint8 list \<Rightarrow> int" where
  "namecmp p q = strncmp (cbuf_of p) (cbuf_of q) DIRSIZ"

text \<open>\<^verbatim>\<open>struct dirent\<close>: a 16-bit inode number and 14 bytes of name.\<close>

definition de_inum :: "uint8 list \<Rightarrow> uint16" where "de_inum de = get16 de 0"
definition de_name :: "uint8 list \<Rightarrow> uint8 list" where "de_name de = take DIRSIZ (drop 2 de)"

lemma readi_no_wrap: "readi i u d off n s = Inr (r, x) \<Longrightarrow> r \<noteq> 0 \<Longrightarrow> \<not> off + n < off"
  by (auto simp: readi_def Let_def split: if_splits)

lemma no_wrap_unat: "\<not> off + n < off \<Longrightarrow> unat (off + n) = unat off + unat (n :: uint)"
proof (rule ccontr)
  assume nw: "\<not> off + n < off" and neq: "unat (off + n) \<noteq> unat off + unat n"
  have s: "unat (off + n) = (unat off + unat n) mod 4294967296" by (simp add: unat_word_ariths)
  then have ge: "4294967296 \<le> unat off + unat n" using neq by (metis mod_less not_le)
  have lt: "unat off < 4294967296" "unat n < 4294967296" by (rule unat_uint_less)+
  have "(unat off + unat n) mod 4294967296 = (unat off + unat n - 4294967296) mod 4294967296"
    using ge by (rule le_mod_geq)
  also have "\<dots> = unat off + unat n - 4294967296" using lt by (intro mod_less) linarith
  finally have "unat (off + n) = unat off + unat n - 4294967296" using s by argo
  then have "unat (off + n) < unat off" using ge unat_uint_less [of n] by linarith
  with nw show False by (simp add: word_less_nat_alt)
qed

function dirlookup_loop ::
  "nat \<Rightarrow> uint8 list \<Rightarrow> uint \<Rightarrow> 'a fs_scheme \<Rightarrow> ((nat \<times> uint) option \<times> 'a fs_scheme) kres" where
  "dirlookup_loop dp name off s =
     (if \<not> off < i_size (the_inode dp s) then Inr (None, s)
      else kbind (readi dp False 0 off (of_nat sizeof_dirent) s) (\<lambda>(r, de, s).
        if r \<noteq> int sizeof_dirent then Inl (Panic ''dirlookup read'')
        else if de_inum de \<noteq> 0 \<and> namecmp name (de_name de) = 0
        then kbind (iget (i_dev (the_inode dp s)) (ucast (de_inum de)) s) (\<lambda>(ip, s). Inr (Some (ip, off), s))
        else dirlookup_loop dp name (off + of_nat sizeof_dirent) s))"
  by pat_completeness auto
termination
proof (relation "measure (\<lambda>(dp, name, off, s). 2 ^ 32 - unat off)", goal_cases)
  case (2 dp name off s x r y de s')
  then have "\<not> off + of_nat sizeof_dirent < off"
    by (intro readi_no_wrap [of dp False 0 off "of_nat sizeof_dirent" s r]) (auto simp: sizeof_dirent_def)
  then have "unat (off + of_nat sizeof_dirent) = unat off + 16"
    by (simp add: no_wrap_unat sizeof_dirent_def)
  moreover have "unat off < 2 ^ 32" using unat_uint_less [of off] by simp
  ultimately show ?case unfolding in_measure split_conv by linarith
qed simp

definition dirlookup :: "nat \<Rightarrow> uint8 list \<Rightarrow> 'a fs_scheme \<Rightarrow> ((nat \<times> uint) option \<times> 'a fs_scheme) kres" where
  "dirlookup dp name s =
     (if i_type (the_inode dp s) \<noteq> T_DIR then Inl (Panic ''dirlookup not DIR'')
      else dirlookup_loop dp name 0 s)"

text \<open>The search of \<^verbatim>\<open>dirlink\<close> for an empty slot; it ends at the size when there is none.\<close>

function dirlink_slot :: "nat \<Rightarrow> uint \<Rightarrow> 'a fs_scheme \<Rightarrow> (uint \<times> 'a fs_scheme) kres" where
  "dirlink_slot dp off s =
     (if \<not> off < i_size (the_inode dp s) then Inr (off, s)
      else kbind (readi dp False 0 off (of_nat sizeof_dirent) s) (\<lambda>(r, de, s).
        if r \<noteq> int sizeof_dirent then Inl (Panic ''dirlink read'')
        else if de_inum de = 0 then Inr (off, s)
        else dirlink_slot dp (off + of_nat sizeof_dirent) s))"
  by pat_completeness auto
termination
proof (relation "measure (\<lambda>(dp, off, s). 2 ^ 32 - unat off)", goal_cases)
  case (2 dp off s x r y de s')
  then have "\<not> off + of_nat sizeof_dirent < off"
    by (intro readi_no_wrap [of dp False 0 off "of_nat sizeof_dirent" s r]) (auto simp: sizeof_dirent_def)
  then have "unat (off + of_nat sizeof_dirent) = unat off + 16"
    by (simp add: no_wrap_unat sizeof_dirent_def)
  moreover have "unat off < 2 ^ 32" using unat_uint_less [of off] by simp
  ultimately show ?case unfolding in_measure split_conv by linarith
qed simp

definition make_dirent :: "uint \<Rightarrow> uint8 list \<Rightarrow> uint8 list" where
  "make_dirent inum name = le16 (ucast inum) @ map (strncpy (\<lambda>_. 0) (cbuf_of name) DIRSIZ) [0..<DIRSIZ]"

definition dirlink :: "nat \<Rightarrow> uint8 list \<Rightarrow> uint \<Rightarrow> 'a fs_scheme \<Rightarrow> (int \<times> 'a fs_scheme) kres" where
  "dirlink dp name inum s =
     kbind (dirlookup dp name s) (\<lambda>(found, s).
       case found of
         Some (ip, _) \<Rightarrow> kbind (iput ip s) (\<lambda>s. Inr (-1, s))
       | None \<Rightarrow>
         kbind (dirlink_slot dp 0 s) (\<lambda>(off, s).
         kbind (writei dp False 0 (make_dirent inum name) off (of_nat sizeof_dirent) s) (\<lambda>(r, s).
           Inr (if r \<noteq> int sizeof_dirent then -1 else 0, s))))"

declare dirlookup_loop.simps [simp del] dirlink_slot.simps [simp del]

section \<open>Paths\<close>

definition slash :: uint8 where "slash = 0x2F"

definition skipelem :: "uint8 list \<Rightarrow> (uint8 list \<times> uint8 list) option" where
  "skipelem path =
     (let s = dropWhile (\<lambda>c. c = slash) path
      in if s = [] then None
         else let name = takeWhile (\<lambda>c. c \<noteq> slash) s; path = dropWhile (\<lambda>c. c \<noteq> slash) s
           in Some (dropWhile (\<lambda>c. c = slash) path, if DIRSIZ \<le> length name then take DIRSIZ name else name))"

lemma skipelem_shorter: "skipelem path = Some (rest, name) \<Longrightarrow> length rest < length path"
proof -
  assume sk: "skipelem path = Some (rest, name)"
  let ?s = "dropWhile (\<lambda>c. c = slash) path"
  have ne: "?s \<noteq> []" and rest: "rest = dropWhile (\<lambda>c. c = slash) (dropWhile (\<lambda>c. c \<noteq> slash) ?s)"
    using sk by (auto simp: skipelem_def Let_def split: if_splits)
  then have "hd ?s \<noteq> slash" by (metis (mono_tags, lifting) hd_dropWhile)
  then have "length (dropWhile (\<lambda>c. c \<noteq> slash) ?s) < length ?s"
    using ne by (cases ?s) (auto intro: le_imp_less_Suc length_dropWhile_le)
  moreover have "length rest \<le> length (dropWhile (\<lambda>c. c \<noteq> slash) ?s)" "length ?s \<le> length path"
    by (simp_all add: rest length_dropWhile_le)
  ultimately show ?thesis by linarith
qed

function namex_loop :: "nat \<Rightarrow> uint8 list \<Rightarrow> bool \<Rightarrow> uint8 list \<Rightarrow> 'a fs_scheme \<Rightarrow> ((nat \<times> uint8 list) option \<times> 'a fs_scheme) kres" where
  "namex_loop ip path parent name s =
     (case skipelem path of
        None \<Rightarrow> if parent then kbind (iput ip s) (\<lambda>s. Inr (None, s)) else Inr (Some (ip, name), s)
      | Some (path, name) \<Rightarrow>
        kbind (ilock ip s) (\<lambda>s.
          if i_type (the_inode ip s) \<noteq> T_DIR then kbind (iunlockput ip s) (\<lambda>s. Inr (None, s))
          else if parent \<and> path = [] then kbind (iunlock ip s) (\<lambda>s. Inr (Some (ip, name), s))
          else kbind (dirlookup ip name s) (\<lambda>(found, s).
            case found of
              None \<Rightarrow> kbind (iunlockput ip s) (\<lambda>s. Inr (None, s))
            | Some (next, _) \<Rightarrow> kbind (iunlockput ip s) (\<lambda>s. namex_loop next path parent name s))))"
  by pat_completeness auto
termination
  by (relation "measure (\<lambda>(ip, path, par, name, s). length path)") (auto dest: skipelem_shorter)

declare namex_loop.simps [simp del]

definition namex :: "uint8 list \<Rightarrow> bool \<Rightarrow> 'a fs_scheme \<Rightarrow> ((nat \<times> uint8 list) option \<times> 'a fs_scheme) kres" where
  "namex path parent s =
     kbind (if path \<noteq> [] \<and> hd path = slash then iget ROOTDEV ROOTINO s
            else kbind (myproc s) (\<lambda>p. case p_cwd (the_proc p s) of
              None \<Rightarrow> Inl (Undef ''null inode'') | Some ip \<Rightarrow> Inr (idup ip s))) (\<lambda>(ip, s).
     namex_loop ip path parent [] s)"

definition namei :: "uint8 list \<Rightarrow> 'a fs_scheme \<Rightarrow> (nat option \<times> 'a fs_scheme) kres" where
  "namei path s = kbind (namex path False s) (\<lambda>(r, s). Inr (map_option fst r, s))"

definition nameiparent :: "uint8 list \<Rightarrow> 'a fs_scheme \<Rightarrow> ((nat \<times> uint8 list) option \<times> 'a fs_scheme) kres" where
  "nameiparent path s = namex path True s"

end
