(* ===== verification/Mkfs.thy ===== *)
theory Mkfs
  imports Fs
begin

text \<open>
  The program that makes the initial file system (\<^verbatim>\<open>mkfs/mkfs.c\<close>). The image file is a list of blocks; the
  layout, the on-disk inodes and the bitmap are those of theory Fs, whose readers (\<open>get_superblock\<close>,
  \<open>get_dinode\<close>, \<open>get32\<close>, \<open>balloc_scan\<close>) the properties use: they say what the kernel will find. The fields
  of a \<^verbatim>\<open>struct dinode\<close> in the memory of \<^verbatim>\<open>mkfs\<close> are kept as the values that \<^verbatim>\<open>xshort\<close> and \<^verbatim>\<open>xint\<close> read from
  them; \<^verbatim>\<open>xshort(x)\<close> and \<^verbatim>\<open>xint(x)\<close> are the little-endian bytes of \<open>x\<close> on every host.
\<close>

section \<open>The image\<close>

text \<open>\<^verbatim>\<open>die\<close> and a failing \<^verbatim>\<open>assert\<close> end the program.\<close>

datatype mkfail = Die string | Assertion

definition mbind :: "mkfail + 'a \<Rightarrow> ('a \<Rightarrow> mkfail + 'b) \<Rightarrow> mkfail + 'b" where
  "mbind m f = (case m of Inl e \<Rightarrow> Inl e | Inr x \<Rightarrow> f x)"

lemma mbind_simps [simp]: "mbind (Inl e) f = Inl e" "mbind (Inr x) f = f x"
  by (simp_all add: mbind_def)

lemma mbind_cong [fundef_cong]: "m = m' \<Longrightarrow> (\<And>x. m' = Inr x \<Longrightarrow> f x = f' x) \<Longrightarrow> mbind m f = mbind m' f'"
  by (cases m') simp_all

definition xshort :: "uint16 \<Rightarrow> uint8 list" where
  "xshort x = [ucast x, ucast (drop_bit 8 x)]"

definition xint :: "uint \<Rightarrow> uint8 list" where
  "xint x = [ucast x, ucast (drop_bit 8 x), ucast (drop_bit 16 x), ucast (drop_bit 24 x)]"

definition NINODES :: nat where "NINODES = 200"
definition nbitmap :: nat where "nbitmap = FSSIZE div (BSIZE * 8) + 1"
definition ninodeblocks :: nat where "ninodeblocks = NINODES div IPB + 1"
definition nlog :: nat where "nlog = LOGSIZE"
definition nmeta :: nat where "nmeta = 2 + nlog + ninodeblocks + nbitmap"
definition nblocks :: nat where "nblocks = FSSIZE - nmeta"

record fsimage =
  img :: "block list"
  freeinode :: nat
  freeblock :: nat

definition zeroes :: block where "zeroes = replicate BSIZE 0"

definition wsect :: "nat \<Rightarrow> block \<Rightarrow> fsimage \<Rightarrow> fsimage" where
  "wsect sec buf s = s\<lparr>img := (img s @ replicate (Suc sec - length (img s)) zeroes)[sec := buf]\<rparr>"

definition rsect :: "nat \<Rightarrow> fsimage \<Rightarrow> mkfail + block" where
  "rsect sec s = (if sec < length (img s) then Inr (img s ! sec) else Inl (Die ''read''))"

definition mk_sb :: superblock where
  "mk_sb = \<lparr>sb_magic = FSMAGIC, sb_size = of_nat FSSIZE, sb_nblocks = of_nat nblocks, sb_ninodes = of_nat NINODES,
     sb_nlog = of_nat nlog, sb_logstart = 2, sb_inodestart = of_nat (2 + nlog), sb_bmapstart = of_nat (2 + nlog + ninodeblocks)\<rparr>"

definition sb_bytes :: "superblock \<Rightarrow> uint8 list" where
  "sb_bytes b = xint (sb_magic b) @ xint (sb_size b) @ xint (sb_nblocks b) @ xint (sb_ninodes b) @
     xint (sb_nlog b) @ xint (sb_logstart b) @ xint (sb_inodestart b) @ xint (sb_bmapstart b)"

section \<open>Inodes\<close>

record dinode =
  d_type :: uint16
  d_major :: uint16
  d_minor :: uint16
  d_nlink :: uint16
  d_size :: uint
  d_addrs :: "uint list"

definition dinode_bytes :: "dinode \<Rightarrow> uint8 list" where
  "dinode_bytes d = xshort (d_type d) @ xshort (d_major d) @ xshort (d_minor d) @ xshort (d_nlink d) @ xint (d_size d) @
     concat (map xint (d_addrs d))"

definition dinode_at :: "block \<Rightarrow> nat \<Rightarrow> dinode" where
  "dinode_at b off = \<lparr>d_type = get16 b off, d_major = get16 b (off + 2), d_minor = get16 b (off + 4), d_nlink = get16 b (off + 6),
     d_size = get32 b (off + 8), d_addrs = map (\<lambda>k. get32 b (off + 12 + 4 * k)) [0..<NDIRECT + 1]\<rparr>"

definition winode :: "nat \<Rightarrow> dinode \<Rightarrow> fsimage \<Rightarrow> mkfail + fsimage" where
  "winode inum d s =
     (let bn = unat (IBLOCK (of_nat inum) mk_sb) in
      mbind (rsect bn s) (\<lambda>buf. Inr (wsect bn (put_bytes (inum mod IPB * 64) (dinode_bytes d) buf) s)))"

definition rinode :: "nat \<Rightarrow> fsimage \<Rightarrow> mkfail + dinode" where
  "rinode inum s =
     mbind (rsect (unat (IBLOCK (of_nat inum) mk_sb)) s) (\<lambda>buf. Inr (dinode_at buf (inum mod IPB * 64)))"

definition mk_ialloc :: "uint16 \<Rightarrow> fsimage \<Rightarrow> mkfail + nat \<times> fsimage" where
  "mk_ialloc type s =
     (let inum = freeinode s; s = s\<lparr>freeinode := freeinode s + 1\<rparr>;
          din = \<lparr>d_type = type, d_major = 0, d_minor = 0, d_nlink = 1, d_size = 0, d_addrs = replicate (NDIRECT + 1) 0\<rparr>
      in mbind (winode inum din s) (\<lambda>s. Inr (inum, s)))"

text \<open>\<^verbatim>\<open>balloc(used)\<close>: the bitmap with the first \<open>used\<close> blocks taken.\<close>

definition mk_balloc :: "nat \<Rightarrow> fsimage \<Rightarrow> mkfail + fsimage" where
  "mk_balloc used s =
     (if \<not> used < BSIZE * 8 then Inl Assertion
      else Inr (wsect (unat (sb_bmapstart mk_sb)) (fold set_bit_at [0..<used] (replicate BSIZE 0)) s))"

section \<open>Appending to files\<close>

text \<open>A fresh block, and the block of the file for \<open>fbn\<close>, which is made if there is none.\<close>

definition fresh :: "fsimage \<Rightarrow> uint \<times> fsimage" where
  "fresh s = (of_nat (freeblock s), s\<lparr>freeblock := freeblock s + 1\<rparr>)"

definition slot :: "nat \<Rightarrow> dinode \<Rightarrow> fsimage \<Rightarrow> dinode \<times> fsimage" where
  "slot k din s =
     (if d_addrs din ! k = 0 then (let (a, s) = fresh s in (din\<lparr>d_addrs := (d_addrs din)[k := a]\<rparr>, s)) else (din, s))"

definition locate :: "nat \<Rightarrow> dinode \<Rightarrow> fsimage \<Rightarrow> mkfail + nat \<times> dinode \<times> fsimage" where
  "locate fbn din s =
     (if fbn < NDIRECT then (let (din, s) = slot fbn din s in Inr (unat (d_addrs din ! fbn), din, s))
      else (let (din, s) = slot NDIRECT din s; ind = unat (d_addrs din ! NDIRECT) in
        mbind (rsect ind s) (\<lambda>indirect.
          let (indirect, s) = (if get32 indirect (4 * (fbn - NDIRECT)) = 0
            then (let (a, s) = fresh s; indirect = put_bytes (4 * (fbn - NDIRECT)) (xint a) indirect in (indirect, wsect ind indirect s))
            else (indirect, s))
          in Inr (unat (get32 indirect (4 * (fbn - NDIRECT))), din, s))))"

text \<open>
  The loop of \<^verbatim>\<open>iappend\<close> over the bytes left. The offset is a natural number: the assertion keeps it below
  the largest file, far from the end of \<^verbatim>\<open>uint\<close>.
\<close>

function iappend_loop :: "uint8 list \<Rightarrow> nat \<Rightarrow> dinode \<Rightarrow> fsimage \<Rightarrow> mkfail + nat \<times> dinode \<times> fsimage" where
  "iappend_loop p off din s =
     (if p = [] then Inr (off, din, s)
      else let fbn = off div BSIZE in
        if \<not> fbn < MAXFILE then Inl Assertion
        else mbind (locate fbn din s) (\<lambda>(x, din, s).
          let n1 = min (length p) ((fbn + 1) * BSIZE - off) in
          mbind (rsect x s) (\<lambda>buf.
            iappend_loop (drop n1 p) (off + n1) din (wsect x (put_bytes (off - fbn * BSIZE) (take n1 p) buf) s))))"
  by pat_completeness auto
termination
proof (relation "measure (\<lambda>(p, off, din, s). length p)", goal_cases)
  case (2 p off din s fbn x2 x y din' s' n1 buf)
  have "off < (off div BSIZE + 1) * BSIZE" by (simp add: BSIZE_def)
  then show ?case using 2 by (cases p) auto
qed simp

declare iappend_loop.simps [simp del]

definition iappend :: "nat \<Rightarrow> uint8 list \<Rightarrow> fsimage \<Rightarrow> mkfail + fsimage" where
  "iappend inum p s =
     mbind (rinode inum s) (\<lambda>din.
     mbind (iappend_loop p (unat (d_size din)) din s) (\<lambda>(off, din, s).
     winode inum (din\<lparr>d_size := of_nat off\<rparr>) s))"

section \<open>The main program\<close>

definition cbytes :: "string \<Rightarrow> uint8 list" where "cbytes = map of_char"

definition dirent_bytes :: "nat \<Rightarrow> uint8 list \<Rightarrow> uint8 list" where
  "dirent_bytes inum name = xshort (of_nat inum) @ take DIRSIZ (name @ replicate DIRSIZ 0)"

definition shortname :: "string \<Rightarrow> string" where
  "shortname path = (if take 5 path = ''user/'' then drop 5 path else path)"

definition stored_name :: "string \<Rightarrow> string" where
  "stored_name path = (let n = shortname path in if take 1 n = ''_'' then drop 1 n else n)"

text \<open>\<open>files\<close> gives what the reads of a file deliver, in pieces.\<close>

fun append_all :: "nat \<Rightarrow> uint8 list list \<Rightarrow> fsimage \<Rightarrow> mkfail + fsimage" where
  "append_all inum [] s = Inr s"
| "append_all inum (b # bs) s = mbind (iappend inum b s) (append_all inum bs)"

fun add_files :: "(string \<Rightarrow> uint8 list list option) \<Rightarrow> string list \<Rightarrow> fsimage \<Rightarrow> mkfail + fsimage" where
  "add_files files [] s = Inr s"
| "add_files files (f # fs) s =
     (if CHR 0x2F \<in> set (shortname f) then Inl Assertion
      else case files f of
        None \<Rightarrow> Inl (Die f)
      | Some bs \<Rightarrow>
          mbind (mk_ialloc T_FILE s) (\<lambda>(inum, s).
          mbind (iappend (unat ROOTINO) (dirent_bytes inum (cbytes (stored_name f))) s) (\<lambda>s.
          mbind (append_all inum bs s) (add_files files fs))))"

definition mk_blank :: fsimage where
  "mk_blank = wsect 1 (put_bytes 0 (sb_bytes mk_sb) zeroes)
     (fold (\<lambda>i. wsect i zeroes) [0..<FSSIZE] \<lparr>img = [], freeinode = 1, freeblock = nmeta\<rparr>)"

definition round_root :: "fsimage \<Rightarrow> mkfail + fsimage" where
  "round_root s =
     mbind (rinode (unat ROOTINO) s) (\<lambda>din.
     winode (unat ROOTINO) (din\<lparr>d_size := (d_size din div of_nat BSIZE + 1) * of_nat BSIZE\<rparr>) s)"

definition mkfs :: "(string \<Rightarrow> uint8 list list option) \<Rightarrow> string list \<Rightarrow> mkfail + fsimage" where
  "mkfs files fs =
     mbind (mk_ialloc T_DIR mk_blank) (\<lambda>(rootino, s).
     if of_nat rootino \<noteq> ROOTINO then Inl Assertion
     else mbind (iappend rootino (dirent_bytes rootino (cbytes ''.'')) s) (\<lambda>s.
       mbind (iappend rootino (dirent_bytes rootino (cbytes ''..'')) s) (\<lambda>s.
       mbind (add_files files fs s) (\<lambda>s.
       mbind (round_root s) (\<lambda>s. mk_balloc (freeblock s) s)))))"


section \<open>Encoding\<close>

lemma xint_le32: "xint x = le32 x" and xshort_le16: "xshort y = le16 y"
  by (simp_all add: xint_def le32_def xshort_def le16_def)

lemma length_xint [simp]: "length (xint x) = 4" and length_xshort [simp]: "length (xshort y) = 2"
  by (simp_all add: xint_le32 xshort_le16)

lemma nth_shift: "(xs @ ys) ! (length xs + i) = ys ! i"
  by simp

lemma get32_append: "get32 (xs @ ys) (length xs + i) = get32 ys i" and get16_append: "get16 (xs @ ys) (length xs + i) = get16 ys i"
  unfolding get32_def get16_def add.assoc nth_shift by simp_all

lemma get32_append': "length xs \<le> j \<Longrightarrow> get32 (xs @ ys) j = get32 ys (j - length xs)"
  and get16_append': "length xs \<le> j \<Longrightarrow> get16 (xs @ ys) j = get16 ys (j - length xs)"
  using get32_append [of xs ys "j - length xs"] get16_append [of xs ys "j - length xs"] by simp_all

lemma get32_xint [simp]: "get32 (xint v @ ys) 0 = v"
  using get32_put32 [of 0 "xint v @ ys" v] by (simp add: put32_def put_bytes_def xint_le32)

lemma get32_xint' [simp]: "get32 (xint v) 0 = v"
  using get32_xint [of v "[]"] by simp

lemma get16_xshort [simp]: "get16 (xshort v @ ys) 0 = v"
  using get16_put16 [of 0 "xshort v @ ys" v] by (simp add: put16_def put_bytes_def xshort_le16)

lemma get32_concat: "k < length as \<Longrightarrow> get32 (concat (map xint as) @ ys) (4 * k) = as ! k"
proof (induction as arbitrary: k)
  case (Cons a as)
  then show ?case by (cases k) (simp_all add: get32_append')
qed simp

lemma get32_inside: "off + length ds \<le> length b \<Longrightarrow> j + 4 \<le> length ds \<Longrightarrow> get32 (put_bytes off ds b) (off + j) = get32 ds j"
  by (simp add: get32_def nth_put_bytes)

lemma get16_inside: "off + length ds \<le> length b \<Longrightarrow> j + 2 \<le> length ds \<Longrightarrow> get16 (put_bytes off ds b) (off + j) = get16 ds j"
  by (simp add: get16_def nth_put_bytes)

lemma length_dinode_bytes: "length (dinode_bytes d) = 12 + 4 * length (d_addrs d)"
  by (simp add: dinode_bytes_def length_concat comp_def sum_list_triv)

text \<open>An inode that is written is read back, and the others of the block stay.\<close>

lemma dinode_at_put:
  assumes "off + 64 \<le> length b" "length (d_addrs d) = NDIRECT + 1"
  shows "dinode_at (put_bytes off (dinode_bytes d) b) off = d"
proof -
  let ?ds = "dinode_bytes d"
  have len: "length ?ds = 64" using assms(2) by (simp add: length_dinode_bytes NDIRECT_def)
  have le: "off + length ?ds \<le> length b" using assms(1) len by simp
  have ds: "get16 ?ds 0 = d_type d" "get16 ?ds 2 = d_major d" "get16 ?ds 4 = d_minor d" "get16 ?ds 6 = d_nlink d" "get32 ?ds 8 = d_size d"
    by (simp_all add: dinode_bytes_def get16_append' get32_append')
  have "get16 (put_bytes off ?ds b) off = d_type d" "get16 (put_bytes off ?ds b) (off + 2) = d_major d"
    "get16 (put_bytes off ?ds b) (off + 4) = d_minor d" "get16 (put_bytes off ?ds b) (off + 6) = d_nlink d"
    "get32 (put_bytes off ?ds b) (off + 8) = d_size d"
    using get16_inside [OF le, of 0] get16_inside [OF le, of 2] get16_inside [OF le, of 4] get16_inside [OF le, of 6]
      get32_inside [OF le, of 8] ds len by simp_all
  moreover have "get32 (put_bytes off ?ds b) (off + 12 + 4 * k) = d_addrs d ! k" if k: "k < NDIRECT + 1" for k
  proof -
    have "get32 ?ds (12 + 4 * k) = get32 (concat (map xint (d_addrs d)) @ []) (4 * k)" by (simp add: dinode_bytes_def get32_append')
    also have "\<dots> = d_addrs d ! k" using k assms(2) by (intro get32_concat) simp
    finally show ?thesis using get32_inside [OF le, of "12 + 4 * k"] k len by (simp add: NDIRECT_def add.assoc)
  qed
  then have "map (\<lambda>k. get32 (put_bytes off ?ds b) (off + 12 + 4 * k)) [0..<NDIRECT + 1] = d_addrs d"
    using assms(2) by (intro nth_equalityI) (simp_all del: upt_Suc)
  ultimately show ?thesis by (simp add: dinode_at_def del: upt_Suc)
qed

lemma dinode_at_put_other:
  assumes "off + 64 \<le> length b" "off' + 64 \<le> length b" "length (d_addrs d) = NDIRECT + 1" "off' + 64 \<le> off \<or> off + 64 \<le> off'"
  shows "dinode_at (put_bytes off (dinode_bytes d) b) off' = dinode_at b off'"
proof -
  have len: "length (dinode_bytes d) = 64" using assms(3) by (simp add: length_dinode_bytes NDIRECT_def)
  have "get32 (put_bytes off (dinode_bytes d) b) (off' + j) = get32 b (off' + j)" if "j + 4 \<le> 64" for j
    using assms(1,2,4) len that by (intro get32_put_other) auto
  moreover have "get16 (put_bytes off (dinode_bytes d) b) (off' + j) = get16 b (off' + j)" if "j + 2 \<le> 64" for j
    using assms(1,2,4) len that by (intro get16_put_other) auto
  from this [of 0] this [of 2] this [of 4] this [of 6]
  have "get16 (put_bytes off (dinode_bytes d) b) off' = get16 b off'" "get16 (put_bytes off (dinode_bytes d) b) (off' + 2) = get16 b (off' + 2)"
    "get16 (put_bytes off (dinode_bytes d) b) (off' + 4) = get16 b (off' + 4)" "get16 (put_bytes off (dinode_bytes d) b) (off' + 6) = get16 b (off' + 6)"
    by simp_all
  ultimately show ?thesis by (simp add: dinode_at_def add.assoc NDIRECT_def)
qed

text \<open>What the kernel reads: its copy of an inode has the fields of \<open>dinode_at\<close>.\<close>

lemma get_dinode_eq:
  "get_dinode off b ip = ip\<lparr>i_type := d_type (dinode_at b off), i_major := d_major (dinode_at b off), i_minor := d_minor (dinode_at b off),
     i_nlink := d_nlink (dinode_at b off), i_size := d_size (dinode_at b off), i_addrs := d_addrs (dinode_at b off)\<rparr>"
  by (simp add: get_dinode_def dinode_at_def)

lemma superblock_read: "get_superblock (put_bytes 0 (sb_bytes b) zeroes) = b"
proof -
  have le: "0 + length (sb_bytes b) \<le> length zeroes" and len: "length (sb_bytes b) = 32"
    by (simp_all add: sb_bytes_def zeroes_def BSIZE_def)
  have "get32 (put_bytes 0 (sb_bytes b) zeroes) j = get32 (sb_bytes b) j" if "j + 4 \<le> 32" for j
    using get32_inside [OF le, of j] that len by simp
  then show ?thesis by (simp add: get_superblock_def) (simp add: sb_bytes_def get32_append')
qed

section \<open>Good files\<close>

definition good_img :: "fsimage \<Rightarrow> bool" where
  "good_img s \<longleftrightarrow> length (img s) = FSSIZE \<and> (\<forall>b\<in>set (img s). length b = BSIZE) \<and> nmeta \<le> freeblock s \<and> freeblock s \<le> FSSIZE \<and>
     (\<forall>b. freeblock s \<le> b \<and> b < FSSIZE \<longrightarrow> img s ! b = zeroes)"

definition ind_blk :: "dinode \<Rightarrow> nat" where "ind_blk d = unat (d_addrs d ! NDIRECT)"

definition data_blk :: "block list \<Rightarrow> dinode \<Rightarrow> nat \<Rightarrow> nat" where
  "data_blk im d k = unat (if k < NDIRECT then d_addrs d ! k else get32 (im ! ind_blk d) (4 * (k - NDIRECT)))"

definition own :: "block list \<Rightarrow> dinode \<Rightarrow> nat \<Rightarrow> nat set" where
  "own im d K = data_blk im d ` {..<K} \<union> (if NDIRECT < K then {ind_blk d} else {})"

text \<open>The inode \<open>d\<close> has the first \<open>K\<close> blocks of its file, all below \<open>fb\<close>, no block twice, and nothing behind them.\<close>

definition good_file :: "block list \<Rightarrow> nat \<Rightarrow> dinode \<Rightarrow> nat \<Rightarrow> bool" where
  "good_file im fb d K \<longleftrightarrow> length (d_addrs d) = NDIRECT + 1 \<and> K \<le> MAXFILE \<and> inj_on (data_blk im d) {..<K} \<and>
     own im d K \<subseteq> {nmeta..<fb} \<and>
     (\<forall>k<NDIRECT. K \<le> k \<longrightarrow> d_addrs d ! k = 0) \<and>
     (if K \<le> NDIRECT then d_addrs d ! NDIRECT = 0
      else ind_blk d \<notin> data_blk im d ` {..<K} \<and> (\<forall>k<MAXFILE. K \<le> k \<longrightarrow> get32 (im ! ind_blk d) (4 * (k - NDIRECT)) = 0))"

definition cost :: "nat \<Rightarrow> nat" where "cost K = K + (if NDIRECT < K then 1 else 0)"

lemma nmeta_val: "nmeta = 46"
  by (simp add: nmeta_def nlog_def LOGSIZE_def MAXOPBLOCKS_def ninodeblocks_def NINODES_def IPB_def nbitmap_def FSSIZE_def BSIZE_def)

lemma fresh_addr: "n \<le> FSSIZE \<Longrightarrow> unat (of_nat n :: uint) = n"
  by (simp add: unat_of_nat FSSIZE_def)


lemma good_imgD:
  assumes "good_img s"
  shows "length (img s) = FSSIZE" "b < FSSIZE \<Longrightarrow> length (img s ! b) = BSIZE" "nmeta \<le> freeblock s" "freeblock s \<le> FSSIZE"
    "freeblock s \<le> b \<Longrightarrow> b < FSSIZE \<Longrightarrow> img s ! b = zeroes"
  using assms by (auto simp: good_img_def)

lemma rsect_ok: "good_img s \<Longrightarrow> b < FSSIZE \<Longrightarrow> rsect b s = Inr (img s ! b)"
  by (simp add: rsect_def good_img_def)

lemma wsect_img: "good_img s \<Longrightarrow> b < FSSIZE \<Longrightarrow> wsect b d s = s\<lparr>img := (img s)[b := d]\<rparr>"
  by (simp add: wsect_def good_img_def)

lemma good_img_update:
  assumes "good_img s" "b < freeblock s" "length d = BSIZE"
  shows "good_img (s\<lparr>img := (img s)[b := d]\<rparr>)"
  using assms by (auto simp: good_img_def nth_list_update dest!: set_update_subset_insert [THEN subsetD])

lemma fresh_ok:
  assumes "good_img s" "freeblock s < FSSIZE"
  shows "unat (fst (fresh s)) = freeblock s" "good_img (snd (fresh s))" "img (snd (fresh s)) = img s"
    "freeblock (snd (fresh s)) = Suc (freeblock s)" "freeinode (snd (fresh s)) = freeinode s" "fst (fresh s) \<noteq> 0"
proof -
  show u: "unat (fst (fresh s)) = freeblock s" using assms by (simp add: fresh_def fresh_addr)
  show "fst (fresh s) \<noteq> 0" using u good_imgD(3) [OF assms(1)] by (auto simp: nmeta_val)
  show "good_img (snd (fresh s))" using assms by (auto simp: good_img_def fresh_def)
qed (simp_all add: fresh_def)

text \<open>The image after one call of \<open>locate\<close> for block \<open>fbn\<close>, relative to the state before.\<close>

definition located :: "nat \<Rightarrow> dinode \<Rightarrow> fsimage \<Rightarrow> nat \<Rightarrow> dinode \<Rightarrow> fsimage \<Rightarrow> bool" where
  "located fbn d s K d' s' \<longleftrightarrow>
     good_img s' \<and> freeinode s' = freeinode s \<and> good_file (img s') (freeblock s') d' (Suc fbn) \<and>
     own (img s') d' (Suc fbn) \<subseteq> own (img s) d K \<union> {freeblock s..<freeblock s'} \<and> freeblock s \<le> freeblock s' \<and>
     (\<forall>k<K. data_blk (img s') d' k = data_blk (img s) d k) \<and> (K \<le> fbn \<longrightarrow> freeblock s \<le> data_blk (img s') d' fbn) \<and>
     (\<forall>b. img s' ! b \<noteq> img s ! b \<longrightarrow> b \<in> own (img s') d' (Suc fbn) \<and> b \<notin> data_blk (img s') d' ` {..<Suc fbn}) \<and>
     d' = d\<lparr>d_addrs := d_addrs d'\<rparr>"

lemma good_fileD:
  assumes "good_file im fb d K"
  shows "length (d_addrs d) = NDIRECT + 1" "K \<le> MAXFILE" "inj_on (data_blk im d) {..<K}" "own im d K \<subseteq> {nmeta..<fb}"
    "k < K \<Longrightarrow> data_blk im d k \<in> {nmeta..<fb}" "NDIRECT < K \<Longrightarrow> ind_blk d \<in> {nmeta..<fb}"
    "NDIRECT < K \<Longrightarrow> ind_blk d \<notin> data_blk im d ` {..<K}"
    "NDIRECT < K \<Longrightarrow> k < MAXFILE \<Longrightarrow> K \<le> k \<Longrightarrow> get32 (im ! ind_blk d) (4 * (k - NDIRECT)) = 0"
    "k < NDIRECT \<Longrightarrow> K \<le> k \<Longrightarrow> d_addrs d ! k = 0" "K \<le> NDIRECT \<Longrightarrow> d_addrs d ! NDIRECT = 0"
  using assms by (auto simp: good_file_def own_def split: if_splits)

lemma locate_old:
  assumes "good_img s" "good_file (img s) (freeblock s) d (Suc fbn)"
  shows "locate fbn d s = Inr (data_blk (img s) d fbn, d, s)" "located fbn d s (Suc fbn) d s"
proof -
  have nz: "data_blk (img s) d fbn \<noteq> 0" using good_fileD(5) [OF assms(2), of fbn] by (simp add: nmeta_val)
  show "locate fbn d s = Inr (data_blk (img s) d fbn, d, s)"
  proof (cases "fbn < NDIRECT")
    case True
    then show ?thesis using nz by (auto simp: locate_def slot_def data_blk_def)
  next
    case False
    then have i: "ind_blk d \<in> {nmeta..<freeblock s}" using good_fileD(6) [OF assms(2)] by simp
    then have "d_addrs d ! NDIRECT \<noteq> 0" by (auto simp: ind_blk_def nmeta_val)
    moreover have "rsect (ind_blk d) s = Inr (img s ! ind_blk d)" using i good_imgD(4) [OF assms(1)] by (intro rsect_ok [OF assms(1)]) simp
    ultimately show ?thesis using False nz by (auto simp: locate_def slot_def data_blk_def Let_def simp flip: ind_blk_def)
  qed
  show "located fbn d s (Suc fbn) d s" using assms by (simp add: located_def)
qed

lemma locate_direct:
  assumes "good_img s" "good_file (img s) (freeblock s) d fbn" "fbn < NDIRECT" "freeblock s < FSSIZE"
  shows "\<exists>d' s'. locate fbn d s = Inr (data_blk (img s') d' fbn, d', s') \<and> located fbn d s fbn d' s' \<and> freeblock s' = Suc (freeblock s)"
proof -
  note f = fresh_ok [OF assms(1,4)] and g = good_fileD [OF assms(2)]
  define d' where "d' = d\<lparr>d_addrs := (d_addrs d)[fbn := fst (fresh s)]\<rparr>"
  define s' where "s' = snd (fresh s)"
  note s' = f(2-5) [folded s'_def]
  have new: "data_blk (img s') d' fbn = freeblock s" using assms(3) g(1) f(1) by (simp add: data_blk_def d'_def)
  have old: "data_blk (img s') d' k = data_blk (img s) d k" if "k < fbn" for k using that assms(3) by (simp add: data_blk_def d'_def s'(2))
  have own: "own (img s') d' (Suc fbn) = insert (freeblock s) (own (img s) d fbn)"
    using assms(3) old by (auto simp: own_def lessThan_Suc new image_iff)
  have "inj_on (data_blk (img s') d') {..<Suc fbn}"
  proof -
    have "inj_on (data_blk (img s') d') {..<fbn}" using g(3) old by (auto simp: inj_on_def)
    moreover have "freeblock s \<notin> data_blk (img s') d' ` {..<fbn}" using g(5) old by fastforce
    ultimately show ?thesis by (auto simp: lessThan_Suc new)
  qed
  moreover have "own (img s') d' (Suc fbn) \<subseteq> {nmeta..<freeblock s'}" using own g(4) good_imgD(3) [OF assms(1)] s'(3) by auto
  ultimately have "good_file (img s') (freeblock s') d' (Suc fbn)"
    using g(1,9,10) assms(3) by (auto simp: good_file_def d'_def MAXFILE_def nth_list_update)
  then have "located fbn d s fbn d' s'"
    using s' own old new by (auto simp: located_def) (simp add: d'_def)
  moreover have "locate fbn d s = Inr (data_blk (img s') d' fbn, d', s')"
    using assms(3) g(9) [of fbn] g(1) new f(1) by (simp add: locate_def slot_def d'_def s'_def split_beta)
  ultimately show ?thesis using s'(3) by blast
qed


text \<open>After the indirect block is there: \<open>fbn\<close> has no block yet.\<close>

definition ind_ready :: "nat \<Rightarrow> dinode \<Rightarrow> fsimage \<Rightarrow> dinode \<Rightarrow> fsimage \<Rightarrow> bool" where
  "ind_ready fbn d s d1 s1 \<longleftrightarrow> good_img s1 \<and> img s1 = img s \<and> freeinode s1 = freeinode s \<and> freeblock s \<le> freeblock s1 \<and>
     length (d_addrs d1) = NDIRECT + 1 \<and> d1 = d\<lparr>d_addrs := d_addrs d1\<rparr> \<and>
     ind_blk d1 \<in> {nmeta..<freeblock s1} \<and> ind_blk d1 \<notin> data_blk (img s) d ` {..<fbn} \<and>
     ind_blk d1 \<in> own (img s) d fbn \<union> {freeblock s..<freeblock s1} \<and>
     (\<forall>k<fbn. data_blk (img s) d1 k = data_blk (img s) d k) \<and>
     (\<forall>k<MAXFILE. fbn \<le> k \<longrightarrow> get32 (img s ! ind_blk d1) (4 * (k - NDIRECT)) = 0)"

lemma zeroes_get32: "j + 4 \<le> BSIZE \<Longrightarrow> get32 zeroes j = 0"
  by (simp add: get32_def zeroes_def)

lemma slot_ind:
  assumes "good_img s" "good_file (img s) (freeblock s) d fbn" "NDIRECT \<le> fbn" "fbn < MAXFILE" "fbn = NDIRECT \<longrightarrow> freeblock s < FSSIZE"
  shows "\<exists>d1 s1. slot NDIRECT d s = (d1, s1) \<and> ind_ready fbn d s d1 s1 \<and> freeblock s1 = freeblock s + (if fbn = NDIRECT then 1 else 0)"
proof (cases "fbn = NDIRECT")
  case False
  note g = good_fileD [OF assms(2)]
  have i: "ind_blk d \<in> {nmeta..<freeblock s}" "ind_blk d \<notin> data_blk (img s) d ` {..<fbn}" using g(6,7) assms(3) False by auto
  then have "d_addrs d ! NDIRECT \<noteq> 0" by (auto simp: ind_blk_def nmeta_val)
  then have "slot NDIRECT d s = (d, s)" by (simp add: slot_def)
  moreover have "ind_ready fbn d s d s" using assms(1,3) False g(1,8) i by (auto simp: ind_ready_def own_def)
  ultimately show ?thesis using False by auto
next
  case True
  note g = good_fileD [OF assms(2)]
  have lt: "freeblock s < FSSIZE" using assms(5) True by simp
  note f = fresh_ok [OF assms(1) lt]
  define d1 where "d1 = d\<lparr>d_addrs := (d_addrs d)[NDIRECT := fst (fresh s)]\<rparr>"
  have sl: "slot NDIRECT d s = (d1, snd (fresh s))" using g(10) True by (simp add: slot_def d1_def split_beta)
  have i: "ind_blk d1 = freeblock s" using g(1) f(1) by (simp add: ind_blk_def d1_def)
  have z: "img s ! freeblock s = zeroes" using good_imgD(5) [OF assms(1)] lt by simp
  have "freeblock s \<notin> data_blk (img s) d ` {..<fbn}" using g(5) by fastforce
  moreover have "data_blk (img s) d1 k = data_blk (img s) d k" if "k < fbn" for k using that True by (simp add: data_blk_def d1_def)
  moreover have "get32 zeroes (4 * (k - NDIRECT)) = 0" if "k < MAXFILE" for k
    using that by (intro zeroes_get32) (auto simp: MAXFILE_def NDIRECT_def NINDIRECT_def BSIZE_def)
  moreover have "nmeta \<le> freeblock s" by (rule good_imgD(3) [OF assms(1)])
  ultimately have "ind_ready fbn d s d1 (snd (fresh s))" using f g(1) i z by (auto simp: ind_ready_def) (simp_all add: d1_def)
  then show ?thesis using sl f(4) True by auto
qed

lemma locate_indirect:
  assumes "good_img s" "good_file (img s) (freeblock s) d fbn" "NDIRECT \<le> fbn" "fbn < MAXFILE"
    "freeblock s + (if fbn = NDIRECT then 1 else 0) < FSSIZE"
  shows "\<exists>d' s'. locate fbn d s = Inr (data_blk (img s') d' fbn, d', s') \<and> located fbn d s fbn d' s' \<and>
    freeblock s' = freeblock s + (if fbn = NDIRECT then 2 else 1)"
proof -
  obtain d1 s1 where sl: "slot NDIRECT d s = (d1, s1)" and r: "ind_ready fbn d s d1 s1"
    and fb: "freeblock s1 = freeblock s + (if fbn = NDIRECT then 1 else 0)"
    using slot_ind [OF assms(1-4)] assms(5) by auto
  define I where "I = ind_blk d1"
  define j where "j = 4 * (fbn - NDIRECT)"
  have lt: "freeblock s1 < FSSIZE" using fb assms(5) by simp
  have gi: "good_img s1" and im: "img s1 = img s" and fi: "freeinode s1 = freeinode s" and le: "freeblock s \<le> freeblock s1"
    and len: "length (d_addrs d1) = NDIRECT + 1" and dd: "d1 = d\<lparr>d_addrs := d_addrs d1\<rparr>" and I: "nmeta \<le> I" "I < freeblock s1"
    and Inot: "I \<notin> data_blk (img s) d ` {..<fbn}" and Iown: "I \<in> own (img s) d fbn \<union> {freeblock s..<freeblock s1}"
    and old: "\<And>k. k < fbn \<Longrightarrow> data_blk (img s) d1 k = data_blk (img s) d k"
    and z: "\<And>k. k < MAXFILE \<Longrightarrow> fbn \<le> k \<Longrightarrow> get32 (img s ! I) (4 * (k - NDIRECT)) = 0"
    using r by (auto simp: ind_ready_def I_def)
  note f = fresh_ok [OF gi lt] and g = good_fileD [OF assms(2)]
  define a where "a = fst (fresh s1)"
  define s2 where "s2 = snd (fresh s1)"
  note f = f [folded a_def s2_def]
  define s' where "s' = s2\<lparr>img := (img s)[I := put32 j a (img s ! I)]\<rparr>"
  have lenI: "length (img s ! I) = BSIZE" and Ilt: "I < length (img s)" using good_imgD(1,2) [OF gi] I lt im by auto
  have jle: "j + 4 \<le> BSIZE" using assms(3,4) by (auto simp: j_def MAXFILE_def NDIRECT_def NINDIRECT_def BSIZE_def)
  have s': "img s' ! I = put32 j a (img s ! I)" "\<And>b. b \<noteq> I \<Longrightarrow> img s' ! b = img s ! b" "freeblock s' = Suc (freeblock s1)"
    "freeinode s' = freeinode s"
    using Ilt f(4,5) fi by (simp_all add: s'_def)
  have I2: "ind_blk d1 = I" by (simp add: I_def)
  have gI: "get32 (img s' ! I) j = a" using jle lenI by (simp add: s'(1))
  have gO: "get32 (img s' ! I) (4 * (k - NDIRECT)) = get32 (img s ! I) (4 * (k - NDIRECT))" if "NDIRECT \<le> k" "k \<noteq> fbn" "k < MAXFILE" for k
  proof -
    have "4 * (k - NDIRECT) + 4 \<le> BSIZE" using that by (auto simp: MAXFILE_def NDIRECT_def NINDIRECT_def BSIZE_def)
    then show ?thesis using that assms(3) jle lenI unfolding s'(1) put32_def
      by (intro get32_put_other) (auto simp: j_def)
  qed
  have new: "data_blk (img s') d1 fbn = freeblock s1" using assms(3) gI f(1) by (simp add: data_blk_def I2 flip: j_def)
  have old': "data_blk (img s') d1 k = data_blk (img s) d k" if "k < fbn" for k
    using old [OF that] gO [of k] that assms(4) by (auto simp: data_blk_def I2)
  have img_eq: "data_blk (img s') d1 ` {..<Suc fbn} = insert (freeblock s1) (data_blk (img s) d ` {..<fbn})"
    using old' by (auto simp: lessThan_Suc new image_iff)
  have own: "own (img s') d1 (Suc fbn) = insert I (insert (freeblock s1) (data_blk (img s) d ` {..<fbn}))"
    using assms(3) by (simp add: own_def img_eq I2)
  have dsub: "data_blk (img s) d ` {..<fbn} \<subseteq> own (img s) d fbn" by (auto simp: own_def)
  have "inj_on (data_blk (img s') d1) {..<Suc fbn}"
  proof -
    have "inj_on (data_blk (img s') d1) {..<fbn}" using g(3) old' by (auto simp: inj_on_def)
    moreover have "freeblock s1 \<notin> data_blk (img s') d1 ` {..<fbn}" using g(5) old' le by fastforce
    ultimately show ?thesis by (auto simp: lessThan_Suc new)
  qed
  moreover have "own (img s') d1 (Suc fbn) \<subseteq> {nmeta..<freeblock s'}"
    using own g(4) good_imgD(3) [OF assms(1)] s'(3) I dsub le by fastforce
  moreover have "I \<notin> data_blk (img s') d1 ` {..<Suc fbn}" using img_eq Inot I(2) by auto
  moreover have "get32 (img s' ! I) (4 * (k - NDIRECT)) = 0" if "k < MAXFILE" "Suc fbn \<le> k" for k
    using gO [of k] z [of k] that assms(3) by simp
  ultimately have gf: "good_file (img s') (freeblock s') d1 (Suc fbn)"
    using assms(3,4) len by (simp add: good_file_def I2)
  have "length (put32 j a (img s ! I)) = BSIZE" using jle lenI by (simp add: put32_def)
  then have "good_img s'" using good_img_update [OF f(2), of I "put32 j a (img s ! I)"] I(2) f(3,4) im by (simp add: s'_def)
  moreover have "I \<in> own (img s') d1 (Suc fbn) \<and> I \<notin> data_blk (img s') d1 ` {..<Suc fbn}" using own img_eq Inot I(2) by simp
  moreover have "own (img s') d1 (Suc fbn) \<subseteq> own (img s) d fbn \<union> {freeblock s..<freeblock s'}"
    using own Iown dsub le s'(3) by auto
  ultimately have "located fbn d s fbn d1 s'"
    using s' gf old' le dd new unfolding located_def by (metis le_SucI)
  moreover have "locate fbn d s = Inr (data_blk (img s') d1 fbn, d1, s')"
  proof -
    have rs: "rsect I s1 = Inr (img s ! I)" using rsect_ok [OF gi, of I] I lt im by simp
    have w: "wsect I (put32 j a (img s ! I)) s2 = s'"
      using wsect_img [OF f(2), of I] I lt f(3) im by (simp add: s'_def)
    have fr: "fresh s1 = (a, s2)" by (simp add: a_def s2_def)
    have "get32 (img s ! I) j = 0" using z [of fbn] assms(4) by (simp add: j_def)
    then show ?thesis using assms(3) rs w sl fr f(1) new jle lenI
      by (simp add: locate_def Let_def xint_le32 flip: ind_blk_def I_def j_def put32_def)
  qed
  ultimately show ?thesis using s'(3) fb by force
qed

lemma locate_ok:
  assumes "good_img s" "good_file (img s) (freeblock s) d K" "K = fbn \<or> K = Suc fbn" "fbn < MAXFILE"
    "freeblock s + cost (Suc fbn) \<le> FSSIZE + cost K"
  shows "\<exists>d' s'. locate fbn d s = Inr (data_blk (img s') d' fbn, d', s') \<and> located fbn d s K d' s' \<and>
    freeblock s' + cost K = freeblock s + cost (Suc fbn)"
proof -
  consider "K = Suc fbn" | "K = fbn" "fbn < NDIRECT" | "K = fbn" "NDIRECT \<le> fbn" using assms(3) by linarith
  then show ?thesis
  proof cases
    case 1
    then show ?thesis using locate_old [OF assms(1)] assms(2) by force
  next
    case 2
    then show ?thesis using locate_direct [OF assms(1), of d fbn] assms(2,5) by (fastforce simp: cost_def)
  next
    case 3
    then obtain d' s' where "locate fbn d s = Inr (data_blk (img s') d' fbn, d', s')" "located fbn d s fbn d' s'"
      "freeblock s' = freeblock s + (if fbn = NDIRECT then 2 else 1)"
      using locate_indirect [OF assms(1), of d fbn] assms(2,4,5) by (force simp: cost_def split: if_splits)
    then show ?thesis using 3 by (intro exI [of _ d'] exI [of _ s']) (auto simp: cost_def)
  qed
qed

end
