(* ===== verification/Mkimage.thy ===== *)
theory Mkimage
  imports Mkfs
begin

text \<open>
  What \<^verbatim>\<open>mkfs\<close> leaves on the disk: \<open>files_ok\<close> says which bytes each file of the image holds and that no two files
  share a block; the operations of theory Mkfs keep it, and \<open>mkfs\<close> ends with the files it was given.
\<close>

section \<open>What a file holds\<close>

definition nblk :: "nat \<Rightarrow> nat" where "nblk n = (n + BSIZE - 1) div BSIZE"

definition fbytes :: "block list \<Rightarrow> dinode \<Rightarrow> nat \<Rightarrow> uint8 list" where
  "fbytes im d K = concat (map (\<lambda>k. im ! data_blk im d k) [0..<K])"

text \<open>The file of inode \<open>d\<close> has the blocks for the bytes \<open>c\<close>, which fill them with zeroes behind.\<close>

definition holds :: "block list \<Rightarrow> nat \<Rightarrow> dinode \<Rightarrow> uint8 list \<Rightarrow> bool" where
  "holds im fb d c \<longleftrightarrow> good_file im fb d (nblk (length c)) \<and>
     fbytes im d (nblk (length c)) = c @ replicate (nblk (length c) * BSIZE - length c) 0"

definition blocks_of :: "block list \<Rightarrow> dinode \<Rightarrow> uint8 list \<Rightarrow> nat set" where
  "blocks_of im d c = own im d (nblk (length c))"

definition appended :: "uint8 list \<Rightarrow> uint8 list \<Rightarrow> dinode \<Rightarrow> fsimage \<Rightarrow> dinode \<Rightarrow> fsimage \<Rightarrow> bool" where
  "appended c q d s d' s' \<longleftrightarrow> good_img s' \<and> freeinode s' = freeinode s \<and> holds (img s') (freeblock s') d' (c @ q) \<and>
     freeblock s \<le> freeblock s' \<and> freeblock s' + cost (nblk (length c)) = freeblock s + cost (nblk (length c + length q)) \<and>
     blocks_of (img s') d' (c @ q) \<subseteq> blocks_of (img s) d c \<union> {freeblock s..<freeblock s'} \<and>
     (\<forall>b. b \<notin> blocks_of (img s) d c \<union> {freeblock s..<freeblock s'} \<longrightarrow> img s' ! b = img s ! b) \<and> d' = d\<lparr>d_addrs := d_addrs d'\<rparr>"

lemma appended_trans:
  assumes "appended c q d s d1 s1" "appended (c @ q) r d1 s1 d2 s2"
  shows "appended c (q @ r) d s d2 s2"
proof -
  have "d2 = d\<lparr>d_addrs := d_addrs d2\<rparr>" using assms unfolding appended_def by (metis dinode.update_convs(6) dinode.surjective)
  moreover have "img s2 ! b = img s ! b" if "b \<notin> blocks_of (img s) d c \<union> {freeblock s..<freeblock s2}" for b
  proof -
    have "b \<notin> blocks_of (img s) d c \<union> {freeblock s..<freeblock s1}" using that assms by (auto simp: appended_def)
    moreover from this have "b \<notin> blocks_of (img s1) d1 (c @ q)" using assms(1) unfolding appended_def by blast
    then have "b \<notin> blocks_of (img s1) d1 (c @ q) \<union> {freeblock s1..<freeblock s2}" using that assms by (auto simp: appended_def)
    ultimately show ?thesis using assms unfolding appended_def by metis
  qed
  moreover have "blocks_of (img s2) d2 (c @ q @ r) \<subseteq> blocks_of (img s) d c \<union> {freeblock s..<freeblock s2}"
    using assms unfolding appended_def by (simp add: subset_iff) (metis less_le_trans order_trans)
  ultimately show ?thesis using assms unfolding appended_def by (simp add: add.assoc)
qed

lemma put_bytes_last:
  assumes "A @ B = c @ replicate m 0" "length A \<le> length c" "length q \<le> m"
  shows "A @ put_bytes (length c - length A) q B = c @ q @ replicate (m - length q) 0"
proof -
  have "A @ put_bytes (length c - length A) q B = put_bytes (length c) q (A @ B)" using assms(2) by (simp add: put_bytes_def)
  also have "\<dots> = c @ q @ replicate (m - length q) 0" unfolding assms(1) by (simp add: put_bytes_def)
  finally show ?thesis .
qed

lemma good_img_data: "good_img s \<Longrightarrow> good_file (img s) (freeblock s) d K \<Longrightarrow> k < K \<Longrightarrow> length (img s ! data_blk (img s) d k) = BSIZE"
  using good_fileD(5) [of "img s" "freeblock s" d K k] good_imgD [of s] by simp

lemma length_fbytes:
  "good_img s \<Longrightarrow> good_file (img s) (freeblock s) d K \<Longrightarrow> k \<le> K \<Longrightarrow> length (fbytes (img s) d k) = k * BSIZE"
  by (induction k) (simp_all add: fbytes_def good_img_data)

lemma nblk_eq: "b * BSIZE \<le> n + BSIZE - 1 \<Longrightarrow> n + BSIZE - 1 < Suc b * BSIZE \<Longrightarrow> nblk n = b"
  unfolding nblk_def by (intro div_nat_eqI) (simp_all add: mult.commute)

lemma nblk_in: "b * BSIZE < n \<Longrightarrow> n \<le> (b + 1) * BSIZE \<Longrightarrow> nblk n = Suc b"
  by (rule nblk_eq) (simp_all add: BSIZE_def)

lemma nblk_cases: "nblk n = n div BSIZE \<and> n mod BSIZE = 0 \<or> nblk n = Suc (n div BSIZE) \<and> 0 < n mod BSIZE"
proof -
  have n: "n = n div BSIZE * BSIZE + n mod BSIZE" "n mod BSIZE < BSIZE" by (simp_all add: BSIZE_def)
  then show ?thesis
  proof (cases "n mod BSIZE = 0")
    case True
    then have "nblk n = n div BSIZE" using n(1) by (intro nblk_eq) (simp_all add: BSIZE_def)
    then show ?thesis using True by simp
  next
    case False
    have "(n div BSIZE + 1) * BSIZE = n div BSIZE * BSIZE + BSIZE" by simp
    then have "n div BSIZE * BSIZE < n" "n \<le> (n div BSIZE + 1) * BSIZE" using n False by linarith+
    then show ?thesis using nblk_in False by blast
  qed
qed

text \<open>Only the indirect block of a file holds addresses.\<close>

lemma data_blk_cong: "im' ! ind_blk d = im ! ind_blk d \<Longrightarrow> data_blk im' d = data_blk im d"
  by (intro ext) (simp add: data_blk_def)

lemma good_file_cong: "im' ! ind_blk d = im ! ind_blk d \<Longrightarrow> fb \<le> fb' \<Longrightarrow> good_file im fb d K \<Longrightarrow> good_file im' fb' d K"
  using data_blk_cong [of im' d im] by (fastforce simp: good_file_def own_def)

lemma data_not_ind: "good_file im fb d K \<Longrightarrow> k < K \<Longrightarrow> data_blk im d k \<noteq> ind_blk d"
proof (cases "NDIRECT < K")
  case True
  moreover assume "good_file im fb d K" "k < K"
  ultimately show ?thesis using good_fileD(7) [of im fb d K] by (metis imageI lessThan_iff)
next
  case False
  moreover assume "good_file im fb d K" "k < K"
  ultimately show ?thesis using good_fileD(5) [of im fb d K k] good_fileD(10) [of im fb d K]
    by (auto simp: ind_blk_def nmeta_val)
qed

lemma append_step:
  assumes "good_img s" "holds (img s) (freeblock s) d c" "q \<noteq> []" "fbn = length c div BSIZE" "fbn < MAXFILE"
    "length c + length q \<le> (fbn + 1) * BSIZE" "freeblock s + cost (Suc fbn) \<le> FSSIZE + cost (nblk (length c))"
  shows "\<exists>x d' s1 buf. locate fbn d s = Inr (x, d', s1) \<and> rsect x s1 = Inr buf \<and>
    appended c q d s d' (wsect x (put_bytes (length c - fbn * BSIZE) q buf) s1)"
proof -
  define K where "K = nblk (length c)"
  have K: "K = fbn \<or> K = Suc fbn" "K = fbn \<longrightarrow> length c = fbn * BSIZE"
    using nblk_cases [of "length c"] assms(4) div_mult_mod_eq [of "length c" BSIZE] by (auto simp: K_def)
  have gf: "good_file (img s) (freeblock s) d K" and fby: "fbytes (img s) d K = c @ replicate (K * BSIZE - length c) 0"
    using assms(2) by (simp_all add: holds_def K_def)
  obtain d' s1 where l: "locate fbn d s = Inr (data_blk (img s1) d' fbn, d', s1)" and lo: "located fbn d s K d' s1"
    and co: "freeblock s1 + cost K = freeblock s + cost (Suc fbn)"
    using locate_ok [OF assms(1) gf K(1) assms(5)] assms(7) by (auto simp: K_def)
  define x where "x = data_blk (img s1) d' fbn"
  define buf where "buf = img s1 ! x"
  define r where "r = length c - fbn * BSIZE"
  define s2 where "s2 = wsect x (put_bytes r q buf) s1"
  have g1: "good_img s1" and fi: "freeinode s1 = freeinode s" and gf1: "good_file (img s1) (freeblock s1) d' (Suc fbn)"
    and ow: "own (img s1) d' (Suc fbn) \<subseteq> own (img s) d K \<union> {freeblock s..<freeblock s1}" and le: "freeblock s \<le> freeblock s1"
    and old: "\<And>k. k < K \<Longrightarrow> data_blk (img s1) d' k = data_blk (img s) d k" and new: "K \<le> fbn \<longrightarrow> freeblock s \<le> x"
    and fr: "\<And>b. img s1 ! b \<noteq> img s ! b \<Longrightarrow> b \<in> own (img s1) d' (Suc fbn) \<and> b \<notin> data_blk (img s1) d' ` {..<Suc fbn}"
    and dd: "d' = d\<lparr>d_addrs := d_addrs d'\<rparr>"
    using lo by (auto simp: located_def x_def)
  have xin: "x \<in> {nmeta..<freeblock s1}" using good_fileD(5) [OF gf1, of fbn] by (simp add: x_def)
  then have xlt: "x < freeblock s1" "x < FSSIZE" using good_imgD(4) [OF g1] by auto
  have lbuf: "length buf = BSIZE" using good_imgD(2) [OF g1 xlt(2)] by (simp add: buf_def)
  have r: "fbn * BSIZE \<le> length c" "r + length q \<le> BSIZE" using assms(4,6) by (auto simp: r_def)
  have same: "img s1 ! data_blk (img s1) d' k = img s ! data_blk (img s1) d' k" if "k < Suc fbn" for k
    using fr that by blast
  have fby1: "fbytes (img s1) d' k = fbytes (img s) d k" if "k \<le> K" "k \<le> Suc fbn" for k
  proof -
    have "img s1 ! data_blk (img s1) d' j = img s ! data_blk (img s) d j" if "j < k" for j
      using same [of j] old [of j] that \<open>k \<le> K\<close> \<open>k \<le> Suc fbn\<close> by simp
    then show ?thesis unfolding fbytes_def by (intro arg_cong [where f = concat] map_cong) auto
  qed
  have full: "fbytes (img s1) d' fbn @ buf = c @ replicate ((fbn + 1) * BSIZE - length c) 0"
  proof (cases "K = fbn")
    case True
    then have "buf = zeroes" using same [of fbn] new xlt(2) good_imgD(5) [OF assms(1)] by (simp add: buf_def flip: x_def)
    then show ?thesis using fby1 [of fbn] fby True K(2) by (simp add: zeroes_def)
  next
    case False
    then have "K = Suc fbn" using K(1) by simp
    then show ?thesis using fby1 [of "Suc fbn"] fby by (simp add: fbytes_def buf_def x_def)
  qed
  have lA: "length (fbytes (img s1) d' fbn) = fbn * BSIZE" using length_fbytes [OF g1 gf1] by simp
  have s2: "s2 = s1\<lparr>img := (img s1)[x := put_bytes r q buf]\<rparr>" using wsect_img [OF g1 xlt(2)] by (simp add: s2_def)
  have g2: "good_img s2" using good_img_update [OF g1 xlt(1), of "put_bytes r q buf"] r lbuf by (simp add: s2)
  have ne: "x \<noteq> ind_blk d'" using data_not_ind [OF gf1, of fbn] by (simp add: x_def)
  have ind: "img s2 ! ind_blk d' = img s1 ! ind_blk d'" using ne by (simp add: s2)
  note dbe = data_blk_cong [OF ind]
  have gf2: "good_file (img s2) (freeblock s2) d' (Suc fbn)" using good_file_cong [OF ind _ gf1] by (simp add: s2)
  have nb: "nblk (length (c @ q)) = Suc fbn"
    using assms(3,6) r(1) by (intro nblk_in) (cases q, auto)
  have xl: "x < length (img s1)" using xlt(2) good_imgD(1) [OF g1] by simp
  have "fbytes (img s2) d' (Suc fbn) = fbytes (img s1) d' fbn @ put_bytes r q buf"
  proof -
    have "fbytes (img s2) d' fbn = fbytes (img s1) d' fbn"
    proof -
      have "x \<noteq> data_blk (img s1) d' j" if "j < fbn" for j
        using inj_onD [OF good_fileD(3) [OF gf1], of j fbn] that by (auto simp: x_def)
      then show ?thesis unfolding fbytes_def dbe by (intro arg_cong [where f = concat] map_cong) (auto simp: s2)
    qed
    then show ?thesis using xl by (simp add: fbytes_def dbe flip: x_def) (simp add: s2)
  qed
  also have "\<dots> = c @ q @ replicate ((fbn + 1) * BSIZE - length c - length q) 0"
    using put_bytes_last [OF full, of q] lA r assms(6) by (simp add: r_def)
  finally have h: "holds (img s2) (freeblock s2) d' (c @ q)" using gf2 by (simp add: holds_def nb flip: length_append)
  have ow2: "own (img s2) d' (Suc fbn) = own (img s1) d' (Suc fbn)" by (simp add: own_def dbe)
  have xo: "x \<in> own (img s1) d' (Suc fbn)" by (auto simp: own_def x_def)
  have "img s2 ! b = img s ! b" if "b \<notin> own (img s) d K \<union> {freeblock s..<freeblock s1}" for b
  proof -
    have "b \<noteq> x" "img s1 ! b = img s ! b" using that ow xo fr by blast+
    then show ?thesis by (simp add: s2)
  qed
  moreover have "freeblock s2 = freeblock s1" "freeinode s2 = freeinode s1" by (simp_all add: s2)
  ultimately have "appended c q d s d' s2"
    unfolding appended_def blocks_of_def K_def [symmetric] using g2 h fi le co ow dd nb ow2 by simp
  then show ?thesis using l rsect_ok [OF g1 xlt(2)] by (auto simp: s2_def r_def buf_def simp flip: x_def)
qed


lemma cost_mono: "a \<le> b \<Longrightarrow> cost a \<le> cost b"
  by (simp add: cost_def)

lemma nblk_mono: "a \<le> b \<Longrightarrow> nblk a \<le> nblk b"
  by (simp add: nblk_def div_le_mono)

lemma appended_refl: "good_img s \<Longrightarrow> holds (img s) (freeblock s) d c \<Longrightarrow> appended c [] d s d s"
  by (simp add: appended_def)

lemma iappend_loop_step:
  assumes "p \<noteq> []" "off div BSIZE < MAXFILE" "locate (off div BSIZE) d s = Inr (x, d1, s1)" "rsect x s1 = Inr buf"
    "n1 = min (length p) ((off div BSIZE + 1) * BSIZE - off)"
  shows "iappend_loop p off d s =
    iappend_loop (drop n1 p) (off + n1) d1 (wsect x (put_bytes (off - off div BSIZE * BSIZE) (take n1 p) buf) s1)"
  using assms by (subst iappend_loop.simps) (simp add: Let_def)

lemma iappend_loop_ok:
  assumes "good_img s" "holds (img s) (freeblock s) d c" "length c + length p \<le> MAXFILE * BSIZE"
    "freeblock s + cost (nblk (length c + length p)) \<le> FSSIZE + cost (nblk (length c))"
  shows "\<exists>d' s'. iappend_loop p (length c) d s = Inr (length c + length p, d', s') \<and> appended c p d s d' s'"
  using assms
proof (induction "length p" arbitrary: p c d s rule: less_induct)
  case less
  show ?case
  proof (cases "p = []")
    case True
    then show ?thesis using appended_refl [OF less.prems(1,2)] by (simp add: iappend_loop.simps)
  next
    case False
    define fbn where "fbn = length c div BSIZE"
    define n1 where "n1 = min (length p) ((fbn + 1) * BSIZE - length c)"
    define q where "q = take n1 p"
    have c: "fbn * BSIZE \<le> length c" "length c < (fbn + 1) * BSIZE"
      using div_mult_mod_eq [of "length c" BSIZE] by (simp_all add: fbn_def dividend_less_div_times BSIZE_def)
    have q: "q \<noteq> []" "length q = n1" "length c + length q \<le> (fbn + 1) * BSIZE" "0 < n1" using False c by (auto simp: q_def n1_def)
    have "length c < MAXFILE * BSIZE" using less.prems(3) False by (cases p) auto
    then have fbn: "fbn < MAXFILE" unfolding fbn_def by (simp add: less_mult_imp_div_less)
    have nb: "nblk (length c + n1) = Suc fbn" using q c(1) by (intro nblk_in) auto
    have pl: "length c + n1 \<le> length c + length p" by (simp add: n1_def)
    have "cost (Suc fbn) \<le> cost (nblk (length c + length p))"
      using cost_mono [OF nblk_mono [OF pl]] nb by simp
    then have "freeblock s + cost (Suc fbn) \<le> FSSIZE + cost (nblk (length c))" using less.prems(4) by linarith
    then obtain x d1 s1 buf where l: "locate fbn d s = Inr (x, d1, s1)" "rsect x s1 = Inr buf"
      and a: "appended c q d s d1 (wsect x (put_bytes (length c - fbn * BSIZE) q buf) s1)"
      using append_step [OF less.prems(1,2) q(1) fbn_def fbn q(3)] by blast
    define s2 where "s2 = wsect x (put_bytes (length c - fbn * BSIZE) q buf) s1"
    note a = a [folded s2_def]
    have a': "good_img s2" "holds (img s2) (freeblock s2) d1 (c @ q)" "freeblock s2 + cost (nblk (length c)) = freeblock s + cost (Suc fbn)"
      using a q(2) nb by (simp_all add: appended_def)
    have len: "length (c @ q) + length (drop n1 p) = length c + length p" using q(2) pl by simp
    have "\<exists>d' s'. iappend_loop (drop n1 p) (length (c @ q)) d1 s2 = Inr (length (c @ q) + length (drop n1 p), d', s') \<and>
        appended (c @ q) (drop n1 p) d1 s2 d' s'"
    proof (rule less.hyps [OF _ a'(1,2)])
      show "length (drop n1 p) < length p" using q(4) False by (cases p) auto
      show "length (c @ q) + length (drop n1 p) \<le> MAXFILE * BSIZE" using less.prems(3) len by simp
      show "freeblock s2 + cost (nblk (length (c @ q) + length (drop n1 p))) \<le> FSSIZE + cost (nblk (length (c @ q)))"
        using less.prems(4) a'(3) nb q(2) unfolding len by simp
    qed
    then obtain d' s' where r: "iappend_loop (drop n1 p) (length (c @ q)) d1 s2 = Inr (length c + length p, d', s')"
      "appended (c @ q) (drop n1 p) d1 s2 d' s'" unfolding len by blast
    have "iappend_loop p (length c) d s = Inr (length c + length p, d', s')"
      using iappend_loop_step [OF False fbn [unfolded fbn_def] l(1) [unfolded fbn_def] l(2) n1_def [unfolded fbn_def]] r(1) q(2)
      by (simp add: s2_def q_def fbn_def)
    moreover have "appended c p d s d' s'" using appended_trans [OF a r(2)] by (simp add: q_def)
    ultimately show ?thesis by blast
  qed
qed

section \<open>Inodes of the image\<close>

definition iblk :: "nat \<Rightarrow> nat" where "iblk i = unat (IBLOCK (of_nat i) mk_sb)"

definition ino :: "fsimage \<Rightarrow> nat \<Rightarrow> dinode" where "ino s i = dinode_at (img s ! iblk i) (i mod IPB * 64)"

lemma iblk_eq: "i < NINODES \<Longrightarrow> iblk i = 32 + i div IPB"
  by (simp add: iblk_def IBLOCK_def mk_sb_def nlog_def LOGSIZE_def MAXOPBLOCKS_def IPB_def BSIZE_def NINODES_def unat_word_ariths unat_div unat_of_nat)


lemma iblk_range: "i < NINODES \<Longrightarrow> 32 \<le> iblk i \<and> iblk i < 45"
  by (simp add: iblk_eq IPB_def BSIZE_def NINODES_def)

lemma inode_slots: "i mod IPB * 64 + 64 \<le> BSIZE" "i mod IPB \<noteq> j mod IPB \<Longrightarrow> i mod IPB * 64 + 64 \<le> j mod IPB * 64 \<or> j mod IPB * 64 + 64 \<le> i mod IPB * 64"
  by (auto simp: IPB_def BSIZE_def)

lemma rinode_ok: "good_img s \<Longrightarrow> i < NINODES \<Longrightarrow> rinode i s = Inr (ino s i)"
  using iblk_range [of i] by (simp add: rinode_def ino_def rsect_ok FSSIZE_def flip: iblk_def)

lemma winode_ok:
  assumes "good_img s" "i < NINODES" "length (d_addrs d) = NDIRECT + 1"
  shows "\<exists>s'. winode i d s = Inr s' \<and> good_img s' \<and> freeinode s' = freeinode s \<and> freeblock s' = freeblock s \<and>
    ino s' i = d \<and> (\<forall>j<NINODES. j \<noteq> i \<longrightarrow> ino s' j = ino s j) \<and> (\<forall>b. b \<noteq> iblk i \<longrightarrow> img s' ! b = img s ! b)"
proof -
  let ?off = "i mod IPB * 64"
  define B where "B = img s ! iblk i"
  define s' where "s' = s\<lparr>img := (img s)[iblk i := put_bytes ?off (dinode_bytes d) B]\<rparr>"
  have lt: "iblk i < FSSIZE" "iblk i < freeblock s" "iblk i < length (img s)"
    using iblk_range [OF assms(2)] good_imgD(1,3) [OF assms(1)] by (simp_all add: FSSIZE_def nmeta_val)
  have lB: "length B = BSIZE" using good_imgD(2) [OF assms(1) lt(1)] by (simp add: B_def)
  have fit: "?off + length (dinode_bytes d) \<le> length B" using inode_slots(1) [of i] assms(3) lB by (simp add: length_dinode_bytes NDIRECT_def)
  have w: "winode i d s = Inr s'"
    using wsect_img [OF assms(1) lt(1)] rsect_ok [OF assms(1) lt(1)] by (simp add: winode_def s'_def B_def Let_def flip: iblk_def)
  have "good_img s'" using good_img_update [OF assms(1) lt(2), of "put_bytes ?off (dinode_bytes d) B"] fit lB by (simp add: s'_def)
  moreover have "ino s' i = d"
    using dinode_at_put [of ?off B d] inode_slots(1) [of i] lB assms(3) lt(3) by (simp add: ino_def s'_def)
  moreover have "ino s' j = ino s j" if j: "j < NINODES" "j \<noteq> i" for j
  proof (cases "iblk j = iblk i")
    case True
    then have "j div IPB = i div IPB" using iblk_eq j assms(2) by simp
    then have "i mod IPB \<noteq> j mod IPB" using j(2) by (metis div_mult_mod_eq)
    then show ?thesis
      using dinode_at_put_other [of ?off B "j mod IPB * 64" d] inode_slots(1) [of i] inode_slots(2) [of i j] inode_slots(1) [of j] lB assms(3) lt(3) True
      by (auto simp: ino_def s'_def B_def)
  qed (simp add: ino_def s'_def)
  ultimately show ?thesis using w by (intro exI [of _ s']) (simp add: s'_def)
qed

text \<open>
  The image holds the files \<open>cs\<close>, of inodes 1, 2 and so on: each has its size in its inode and its bytes in its
  blocks, no two files share a block, the blocks taken are those the sizes ask for, and the blocks before the inodes are those of \<open>mk_blank\<close>.
\<close>

definition data_of :: "fsimage \<Rightarrow> nat \<Rightarrow> uint8 list \<Rightarrow> nat set" where "data_of s i c = blocks_of (img s) (ino s i) c"

definition files_ok :: "uint8 list list \<Rightarrow> fsimage \<Rightarrow> bool" where
  "files_ok cs s \<longleftrightarrow> good_img s \<and> freeinode s = Suc (length cs) \<and> length cs < NINODES \<and>
     (\<forall>i<length cs. unat (d_size (ino s (Suc i))) = length (cs ! i) \<and> length (cs ! i) \<le> MAXFILE * BSIZE \<and>
        holds (img s) (freeblock s) (ino s (Suc i)) (cs ! i)) \<and>
     (\<forall>i<length cs. \<forall>j<length cs. i \<noteq> j \<longrightarrow> data_of s (Suc i) (cs ! i) \<inter> data_of s (Suc j) (cs ! j) = {}) \<and>
     freeblock s = nmeta + sum_list (map (\<lambda>c. cost (nblk (length c))) cs) \<and> (\<forall>b<32. img s ! b = img mk_blank ! b)"

text \<open>What the inode says beside its size and its addresses.\<close>

definition head :: "dinode \<Rightarrow> uint16 \<times> uint16 \<times> uint16 \<times> uint16" where
  "head d = (d_type d, d_major d, d_minor d, d_nlink d)"

text \<open>A file stays when its blocks and its inode do.\<close>

lemma holds_frame:
  assumes "holds im fb d c" "\<forall>b\<in>blocks_of im d c. im' ! b = im ! b" "fb \<le> fb'"
  shows "holds im' fb' d c \<and> blocks_of im' d c = blocks_of im d c"
proof -
  define K where "K = nblk (length c)"
  have gf: "good_file im fb d K" and same: "\<And>b. b \<in> own im d K \<Longrightarrow> im' ! b = im ! b" using assms(1,2) by (auto simp: holds_def blocks_of_def K_def)
  have db: "data_blk im' d k = data_blk im d k" if "k < K" for k
    using same [of "ind_blk d"] that by (cases "k < NDIRECT") (simp_all add: data_blk_def own_def)
  have own: "own im' d K = own im d K" using db by (auto simp: own_def)
  have "fbytes im' d K = fbytes im d K" unfolding fbytes_def using db same
    by (intro arg_cong [where f = concat] map_cong) (auto simp: own_def)
  moreover have "good_file im' fb' d K"
    unfolding good_file_def
  proof (intro conjI)
    show "inj_on (data_blk im' d) {..<K}" using good_fileD(3) [OF gf] db by (auto simp: inj_on_def)
    show "own im' d K \<subseteq> {nmeta..<fb'}" using own good_fileD(4) [OF gf] assms(3) by auto
    show "if K \<le> NDIRECT then d_addrs d ! NDIRECT = 0
      else ind_blk d \<notin> data_blk im' d ` {..<K} \<and> (\<forall>k<MAXFILE. K \<le> k \<longrightarrow> get32 (im' ! ind_blk d) (4 * (k - NDIRECT)) = 0)"
      using good_fileD(7,8,10) [OF gf] db same [of "ind_blk d"] by (auto simp: own_def)
  qed (use good_fileD [OF gf] in auto)
  ultimately show ?thesis using assms(1) own by (simp add: holds_def blocks_of_def K_def)
qed


lemma holds_size [simp]: "holds im fb (d\<lparr>d_size := z\<rparr>) c = holds im fb d c" "blocks_of im (d\<lparr>d_size := z\<rparr>) c = blocks_of im d c"
proof -
  have "data_blk im (d\<lparr>d_size := z\<rparr>) = data_blk im d" by (intro ext) (simp add: data_blk_def ind_blk_def)
  then show "holds im fb (d\<lparr>d_size := z\<rparr>) c = holds im fb d c" "blocks_of im (d\<lparr>d_size := z\<rparr>) c = blocks_of im d c"
    by (simp_all add: holds_def good_file_def fbytes_def blocks_of_def own_def ind_blk_def)
qed

lemma files_okD:
  assumes "files_ok cs s"
  shows "good_img s" "freeinode s = Suc (length cs)" "length cs < NINODES" "\<forall>b<32. img s ! b = img mk_blank ! b"
    "freeblock s = nmeta + sum_list (map (\<lambda>c. cost (nblk (length c))) cs)"
    "i < length cs \<Longrightarrow> unat (d_size (ino s (Suc i))) = length (cs ! i)" "i < length cs \<Longrightarrow> length (cs ! i) \<le> MAXFILE * BSIZE"
    "i < length cs \<Longrightarrow> holds (img s) (freeblock s) (ino s (Suc i)) (cs ! i)"
    "i < length cs \<Longrightarrow> data_of s (Suc i) (cs ! i) \<subseteq> {nmeta..<freeblock s}"
    "i < length cs \<Longrightarrow> length (d_addrs (ino s (Suc i))) = NDIRECT + 1"
    "i < length cs \<Longrightarrow> j < length cs \<Longrightarrow> i \<noteq> j \<Longrightarrow> data_of s (Suc i) (cs ! i) \<inter> data_of s (Suc j) (cs ! j) = {}"
proof -
  have *: "blocks_of im d c \<subseteq> {nmeta..<fb} \<and> length (d_addrs d) = NDIRECT + 1" if "holds im fb d c" for im fb d c
    using that by (simp add: holds_def good_file_def blocks_of_def)
  show h: "i < length cs \<Longrightarrow> holds (img s) (freeblock s) (ino s (Suc i)) (cs ! i)" using assms unfolding files_ok_def by blast
  show "i < length cs \<Longrightarrow> data_of s (Suc i) (cs ! i) \<subseteq> {nmeta..<freeblock s}" "i < length cs \<Longrightarrow> length (d_addrs (ino s (Suc i))) = NDIRECT + 1"
    unfolding data_of_def using * [OF h] by blast+
qed (use assms in \<open>simp_all add: files_ok_def\<close>)

text \<open>Blocks behind the bitmap do not hold inodes or the superblock.\<close>

lemma ino_frame: "\<forall>b<nmeta. img s' ! b = img s ! b \<Longrightarrow> i < NINODES \<Longrightarrow> ino s' i = ino s i"
  using iblk_range [of i] by (simp add: ino_def nmeta_val)

lemma max_size: "n \<le> MAXFILE * BSIZE \<Longrightarrow> unat (of_nat n :: uint) = n"
  by (simp add: unat_of_nat MAXFILE_def NDIRECT_def NINDIRECT_def BSIZE_def)

lemma iappend_runs:
  assumes "files_ok cs s" "i < length cs" "length (cs ! i) + length p \<le> MAXFILE * BSIZE"
    "freeblock s + cost (nblk (length (cs ! i) + length p)) \<le> FSSIZE + cost (nblk (length (cs ! i)))"
  shows "\<exists>d' s1 s'. iappend (Suc i) p s = Inr s' \<and> appended (cs ! i) p (ino s (Suc i)) s d' s1 \<and> good_img s' \<and>
    freeinode s' = freeinode s \<and> freeblock s' = freeblock s1 \<and> ino s' (Suc i) = d'\<lparr>d_size := of_nat (length (cs ! i) + length p)\<rparr> \<and>
    (\<forall>j<NINODES. j \<noteq> Suc i \<longrightarrow> ino s' j = ino s j) \<and> (\<forall>b. b < 32 \<or> nmeta \<le> b \<longrightarrow> img s' ! b = img s1 ! b)"
proof -
  note f = files_okD [OF assms(1)]
  have lt: "Suc i < NINODES" using f(3) assms(2) by simp
  obtain d' s1 where l: "iappend_loop p (length (cs ! i)) (ino s (Suc i)) s = Inr (length (cs ! i) + length p, d', s1)"
    and a: "appended (cs ! i) p (ino s (Suc i)) s d' s1"
    using iappend_loop_ok [OF f(1) f(8) [OF assms(2)] assms(3,4)] by blast
  have g1: "good_img s1" "length (d_addrs d') = NDIRECT + 1" "freeinode s1 = freeinode s"
    using a by (auto simp: appended_def holds_def good_file_def)
  define d2 where "d2 = d'\<lparr>d_size := of_nat (length (cs ! i) + length p)\<rparr>"
  have "length (d_addrs d2) = NDIRECT + 1" using g1(2) by (simp add: d2_def)
  then obtain s' where w: "winode (Suc i) d2 s1 = Inr s'" "good_img s'" "freeinode s' = freeinode s1" "freeblock s' = freeblock s1"
    "ino s' (Suc i) = d2" "\<forall>j<NINODES. j \<noteq> Suc i \<longrightarrow> ino s' j = ino s1 j" "\<forall>b. b \<noteq> iblk (Suc i) \<longrightarrow> img s' ! b = img s1 ! b"
    using winode_ok [OF g1(1) lt, of d2] by auto
  have "img s1 ! b = img s ! b" if "b < nmeta" for b
  proof -
    have "b \<notin> blocks_of (img s) (ino s (Suc i)) (cs ! i) \<union> {freeblock s..<freeblock s1}"
      using that f(9) [OF assms(2)] good_imgD(3) [OF f(1)] by (auto simp: data_of_def)
    then show ?thesis using a unfolding appended_def by blast
  qed
  then have "\<forall>j<NINODES. j \<noteq> Suc i \<longrightarrow> ino s' j = ino s j" using w(6) ino_frame [of s1 s] by simp
  moreover have "iappend (Suc i) p s = Inr s'" using rinode_ok [OF f(1) lt] f(6) [OF assms(2)] l w(1) by (simp add: iappend_def d2_def)
  moreover have "\<forall>b. b < 32 \<or> nmeta \<le> b \<longrightarrow> img s' ! b = img s1 ! b" using w(7) iblk_range [OF lt] by (auto simp: nmeta_val)
  ultimately show ?thesis using a w g1(3) by (auto simp: d2_def)
qed

lemma iappend_ok:
  assumes "files_ok cs s" "i < length cs" "length (cs ! i) + length p \<le> MAXFILE * BSIZE"
    "freeblock s + cost (nblk (length (cs ! i) + length p)) \<le> FSSIZE + cost (nblk (length (cs ! i)))"
  shows "\<exists>s'. iappend (Suc i) p s = Inr s' \<and> files_ok (cs[i := cs ! i @ p]) s' \<and> (\<forall>j<length cs. head (ino s' (Suc j)) = head (ino s (Suc j)))"
proof -
  note f = files_okD [OF assms(1)]
  define c where "c = cs ! i"
  define d where "d = ino s (Suc i)"
  obtain d' s1 s' where r: "iappend (Suc i) p s = Inr s'" and a: "appended c p d s d' s1" and g: "good_img s'"
    and fi: "freeinode s' = freeinode s" and fb: "freeblock s' = freeblock s1" and di: "ino s' (Suc i) = d'\<lparr>d_size := of_nat (length c + length p)\<rparr>"
    and oth: "\<And>j. j < NINODES \<Longrightarrow> j \<noteq> Suc i \<Longrightarrow> ino s' j = ino s j" and im: "\<And>b. b < 32 \<or> nmeta \<le> b \<Longrightarrow> img s' ! b = img s1 ! b"
    using iappend_runs [OF assms] unfolding c_def d_def by blast
  have a1: "holds (img s1) (freeblock s1) d' (c @ p)" "freeblock s \<le> freeblock s1"
    "freeblock s1 + cost (nblk (length c)) = freeblock s + cost (nblk (length c + length p))"
    "blocks_of (img s1) d' (c @ p) \<subseteq> blocks_of (img s) d c \<union> {freeblock s..<freeblock s1}" "d' = d\<lparr>d_addrs := d_addrs d'\<rparr>"
    and fr: "\<And>b. b \<notin> blocks_of (img s) d c \<union> {freeblock s..<freeblock s1} \<Longrightarrow> img s1 ! b = img s ! b"
    using a by (auto simp: appended_def)
  have bi: "blocks_of (img s) d c \<subseteq> {nmeta..<freeblock s}" using f(9) [OF assms(2)] by (simp add: data_of_def c_def d_def)
  have nb: "blocks_of (img s1) d' (c @ p) \<subseteq> {nmeta..}" using a1(1) by (auto simp: holds_def good_file_def blocks_of_def)
  have hi: "holds (img s') (freeblock s') d' (c @ p) \<and> blocks_of (img s') d' (c @ p) = blocks_of (img s1) d' (c @ p)"
    using holds_frame [OF a1(1), of "img s'" "freeblock s'"] im nb fb by auto
  have hj: "holds (img s') (freeblock s') (ino s (Suc j)) (cs ! j) \<and> blocks_of (img s') (ino s (Suc j)) (cs ! j) = data_of s (Suc j) (cs ! j)"
    if j: "j < length cs" "j \<noteq> i" for j
    unfolding data_of_def
  proof (rule holds_frame [OF f(8) [OF j(1)]])
    show "\<forall>b\<in>blocks_of (img s) (ino s (Suc j)) (cs ! j). img s' ! b = img s ! b"
    proof
      fix b assume "b \<in> blocks_of (img s) (ino s (Suc j)) (cs ! j)"
      then have b: "b \<in> data_of s (Suc j) (cs ! j)" by (simp add: data_of_def)
      then have "b \<notin> blocks_of (img s) d c" using f(11) [OF j(1) assms(2) j(2)] by (auto simp: data_of_def c_def d_def)
      moreover have "nmeta \<le> b" "b < freeblock s" using b f(9) [OF j(1)] by auto
      ultimately show "img s' ! b = img s ! b" using fr im by auto
    qed
  qed (use a1(2) fb in simp)
  have ij: "ino s' (Suc j) = ino s (Suc j)" if "j < length cs" "j \<noteq> i" for j using that oth f(3) by simp
  have bj: "data_of s' (Suc j) (cs[i := c @ p] ! j) = (if j = i then blocks_of (img s1) d' (c @ p) else data_of s (Suc j) (cs ! j))"
    if "j < length cs" for j
    using that hi hj ij di by (simp add: data_of_def)
  have disj: "blocks_of (img s1) d' (c @ p) \<inter> data_of s (Suc j) (cs ! j) = {}" if "j < length cs" "j \<noteq> i" for j
    using a1(4) f(11) [OF that(1) assms(2) that(2)] f(9) [OF that(1)] unfolding data_of_def c_def d_def by fastforce
  have "unat (of_nat (length c + length p) :: uint) = length (c @ p)" using max_size assms(3) by (simp only: c_def length_append)
  then have "\<forall>j<length (cs[i := c @ p]). unat (d_size (ino s' (Suc j))) = length (cs[i := c @ p] ! j) \<and>
      length (cs[i := c @ p] ! j) \<le> MAXFILE * BSIZE \<and> holds (img s') (freeblock s') (ino s' (Suc j)) (cs[i := c @ p] ! j)"
    using hi hj ij di f(6,7) assms(3) by (intro allI impI, case_tac "j = i") (simp_all add: c_def)
  moreover have "\<forall>j<length (cs[i := c @ p]). \<forall>k<length (cs[i := c @ p]). j \<noteq> k \<longrightarrow>
      data_of s' (Suc j) (cs[i := c @ p] ! j) \<inter> data_of s' (Suc k) (cs[i := c @ p] ! k) = {}"
    using bj disj f(11) by (simp add: Int_commute)
  moreover have "freeblock s' = nmeta + sum_list (map (\<lambda>c. cost (nblk (length c))) (cs[i := c @ p]))"
  proof -
    have "cs ! i \<in> set cs" using assms(2) by simp
    then have "cost (nblk (length c)) \<le> sum_list (map (\<lambda>c. cost (nblk (length c))) cs)" unfolding c_def by (intro member_le_sum_list) auto
    then show ?thesis using a1(3) f(5) fb assms(2) by (simp add: map_update sum_list_update c_def)
  qed
  moreover have "img s' ! b = img s ! b" if "b < 32" for b
  proof -
    have "b \<notin> blocks_of (img s) d c \<union> {freeblock s..<freeblock s1}"
      using that subsetD [OF bi, of b] good_imgD(3) [OF f(1)] by (auto simp: nmeta_val)
    then show ?thesis using im [of b] fr [of b] that by simp
  qed
  ultimately have "files_ok (cs[i := c @ p]) s'" using g fi f(2,3,4) unfolding files_ok_def by simp
  moreover have "head d' = head d" by (subst a1(5)) (simp add: head_def)
  then have "head (ino s' (Suc j)) = head (ino s (Suc j))" if "j < length cs" for j
    using that ij di by (cases "j = i") (simp_all add: head_def d_def)
  ultimately show ?thesis using r unfolding c_def by blast
qed


lemma holds_empty: "length (d_addrs d) = NDIRECT + 1 \<Longrightarrow> \<forall>k<NDIRECT + 1. d_addrs d ! k = 0 \<Longrightarrow> holds im fb d [] \<and> blocks_of im d [] = {}"
  by (auto simp: holds_def good_file_def nblk_def BSIZE_def own_def blocks_of_def fbytes_def)

lemma mk_ialloc_ok:
  assumes "files_ok cs s" "length cs + 1 < NINODES"
  shows "\<exists>s'. mk_ialloc t s = Inr (Suc (length cs), s') \<and> files_ok (cs @ [[]]) s' \<and>
    (\<forall>j<length cs. head (ino s' (Suc j)) = head (ino s (Suc j))) \<and> head (ino s' (Suc (length cs))) = (t, 0, 0, 1)"
proof -
  note f = files_okD [OF assms(1)]
  define n where "n = length cs"
  define d where "d = \<lparr>d_type = t, d_major = 0, d_minor = 0, d_nlink = 1, d_size = 0, d_addrs = replicate (NDIRECT + 1) 0\<rparr>"
  define s0 where "s0 = s\<lparr>freeinode := freeinode s + 1\<rparr>"
  have g0: "good_img s0" using f(1) by (auto simp: good_img_def s0_def)
  have lt: "Suc n < NINODES" using assms(2) by (simp add: n_def)
  obtain s' where w: "winode (Suc n) d s0 = Inr s'" "good_img s'" "freeinode s' = freeinode s0" "freeblock s' = freeblock s0"
    "ino s' (Suc n) = d" "\<forall>j<NINODES. j \<noteq> Suc n \<longrightarrow> ino s' j = ino s0 j" "\<forall>b. b \<noteq> iblk (Suc n) \<longrightarrow> img s' ! b = img s0 ! b"
    using winode_ok [OF g0 lt, of d] by (auto simp: d_def)
  have s0: "img s0 = img s" "freeblock s0 = freeblock s" "freeinode s0 = Suc (Suc n)" "\<And>j. ino s0 j = ino s j"
    using f(2) by (simp_all add: s0_def n_def ino_def)
  have new: "holds (img s') (freeblock s') d [] \<and> blocks_of (img s') d [] = {}" by (rule holds_empty) (simp_all add: d_def del: replicate_Suc)
  have old: "ino s' (Suc j) = ino s (Suc j) \<and> holds (img s') (freeblock s') (ino s (Suc j)) (cs ! j) \<and>
      data_of s' (Suc j) (cs ! j) = data_of s (Suc j) (cs ! j)" if j: "j < n" for j
  proof -
    have i: "ino s' (Suc j) = ino s (Suc j)" using w(6) s0(4) j lt by simp
    have "\<forall>b\<in>blocks_of (img s) (ino s (Suc j)) (cs ! j). img s' ! b = img s ! b"
      using f(9) [of j] j w(7) iblk_range [OF lt] unfolding s0(1) by (force simp: data_of_def nmeta_val n_def)
    from holds_frame [OF f(8) [of j] this, of "freeblock s'"] i j show ?thesis by (simp add: w(4) s0(2) data_of_def n_def)
  qed
  have "\<forall>j<Suc n. unat (d_size (ino s' (Suc j))) = length ((cs @ [[]]) ! j) \<and> length ((cs @ [[]]) ! j) \<le> MAXFILE * BSIZE \<and>
      holds (img s') (freeblock s') (ino s' (Suc j)) ((cs @ [[]]) ! j)"
    using old new f(6,7) w(5) by (simp add: nth_append less_Suc_eq n_def) (simp add: d_def)
  moreover have "\<forall>i<Suc n. \<forall>j<Suc n. i \<noteq> j \<longrightarrow> data_of s' (Suc i) ((cs @ [[]]) ! i) \<inter> data_of s' (Suc j) ((cs @ [[]]) ! j) = {}"
  proof -
    have "data_of s' (Suc j) ((cs @ [[]]) ! j) = (if j = n then {} else data_of s (Suc j) (cs ! j))" if "j < Suc n" for j
      using that old new w(5) by (cases "j = n") (simp add: nth_append n_def data_of_def, simp add: nth_append n_def)
    then show ?thesis using f(11) by (simp add: n_def less_Suc_eq)
  qed
  moreover have "\<forall>b<32. img s' ! b = img s ! b" using w(7) iblk_range [OF lt] s0(1) by auto
  ultimately have "files_ok (cs @ [[]]) s'"
    using w(2-4) s0 f(4,5) lt unfolding files_ok_def n_def by (simp add: nblk_def cost_def BSIZE_def)
  moreover have "mk_ialloc t s = Inr (Suc n, s')" using w(1) f(2) by (simp add: mk_ialloc_def Let_def n_def s0_def d_def)
  moreover have "head (ino s' (Suc n)) = (t, 0, 0, 1)" using w(5) by (simp add: head_def d_def)
  ultimately show ?thesis using old unfolding n_def by auto
qed

lemma append_all_ok:
  assumes "files_ok cs s" "i < length cs" "length (cs ! i) + length (concat bs) \<le> MAXFILE * BSIZE"
    "freeblock s + cost (nblk (length (cs ! i) + length (concat bs))) \<le> FSSIZE + cost (nblk (length (cs ! i)))"
  shows "\<exists>s'. append_all (Suc i) bs s = Inr s' \<and> files_ok (cs[i := cs ! i @ concat bs]) s' \<and>
    (\<forall>j<length cs. head (ino s' (Suc j)) = head (ino s (Suc j)))"
  using assms
proof (induction bs arbitrary: cs s)
  case (Cons b bs)
  note f = files_okD [OF Cons.prems(1)]
  define c where "c = cs ! i"
  have le: "length c + length b \<le> length c + length (concat (b # bs))" by simp
  then have "cost (nblk (length c + length b)) \<le> cost (nblk (length c + length (concat (b # bs))))" by (intro cost_mono nblk_mono)
  then obtain s1 where 1: "iappend (Suc i) b s = Inr s1" "files_ok (cs[i := c @ b]) s1"
    "\<forall>j<length cs. head (ino s1 (Suc j)) = head (ino s (Suc j))"
    using iappend_ok [OF Cons.prems(1,2), of b] Cons.prems(3,4) le unfolding c_def by fastforce
  have "cs ! i \<in> set cs" using Cons.prems(2) by simp
  then have "cost (nblk (length c)) \<le> sum_list (map (\<lambda>c. cost (nblk (length c))) cs)" unfolding c_def by (intro member_le_sum_list) auto
  then have "freeblock s1 + cost (nblk (length c)) = freeblock s + cost (nblk (length c + length b))"
    using files_okD(5) [OF 1(2)] f(5) Cons.prems(2) by (simp add: map_update sum_list_update c_def)
  then have "\<exists>s'. append_all (Suc i) bs s1 = Inr s' \<and> files_ok ((cs[i := c @ b])[i := (cs[i := c @ b]) ! i @ concat bs]) s' \<and>
    (\<forall>j<length (cs[i := c @ b]). head (ino s' (Suc j)) = head (ino s1 (Suc j)))"
    using Cons.prems(2-4) by (intro Cons.IH [OF 1(2)]) (simp_all add: c_def add.assoc)
  then show ?case using 1 Cons.prems(2) by (auto simp: c_def)
qed auto


section \<open>The whole image\<close>

definition file_of :: "(string \<Rightarrow> uint8 list list option) \<Rightarrow> string \<Rightarrow> uint8 list" where
  "file_of files f = concat (the (files f))"

fun entries :: "nat \<Rightarrow> string list \<Rightarrow> uint8 list" where
  "entries k [] = []"
| "entries k (f # fs) = dirent_bytes k (cbytes (stored_name f)) @ entries (Suc k) fs"

definition room :: "uint8 list \<Rightarrow> nat" where "room c = cost (nblk (length c))"

definition fits :: "(string \<Rightarrow> uint8 list list option) \<Rightarrow> string \<Rightarrow> bool" where
  "fits files f \<longleftrightarrow> CHR 0x2F \<notin> set (shortname f) \<and> files f \<noteq> None \<and> length (file_of files f) \<le> MAXFILE * BSIZE"

lemma length_dirent [simp]: "length (dirent_bytes k n) = 16"
  by (simp add: dirent_bytes_def DIRSIZ_def)

lemma length_entries [simp]: "length (entries k fs) = 16 * length fs"
  by (induction fs arbitrary: k) simp_all

lemma room_grow:
  assumes "files_ok cs s" "files_ok (cs[i := cs ! i @ p]) s'" "i < length cs"
  shows "freeblock s' + room (cs ! i) = freeblock s + room (cs ! i @ p)"
proof -
  have "cs ! i \<in> set cs" using assms(3) by simp
  then have "room (cs ! i) \<le> sum_list (map room cs)" by (intro member_le_sum_list) auto
  then show ?thesis using files_okD(5) [OF assms(1)] files_okD(5) [OF assms(2)] assms(3)
    by (simp add: map_update sum_list_update flip: room_def)
qed

lemma add_files_ok:
  assumes "files_ok (r # cs) s" "list_all (fits files) fs" "length cs + length fs + 2 < NINODES + 1"
    "length r + 16 * length fs \<le> MAXFILE * BSIZE"
    "freeblock s + cost (nblk (length r + 16 * length fs)) + sum_list (map (\<lambda>f. room (file_of files f)) fs) \<le> FSSIZE + room r"
  shows "\<exists>s'. add_files files fs s = Inr s' \<and> files_ok ((r @ entries (length cs + 2) fs) # cs @ map (file_of files) fs) s' \<and>
    (\<forall>j\<le>length cs. head (ino s' (Suc j)) = head (ino s (Suc j))) \<and>
    (\<forall>j. length cs < j \<and> j \<le> length cs + length fs \<longrightarrow> head (ino s' (Suc j)) = (T_FILE, 0, 0, 1))"
  using assms
proof (induction fs arbitrary: r cs s)
  case (Cons f fs)
  define n where "n = length cs + 2"
  define e where "e = dirent_bytes n (cbytes (stored_name f))"
  define c where "c = file_of files f"
  obtain bs where bs: "files f = Some bs" "concat bs = c" using Cons.prems(2) by (auto simp: fits_def file_of_def c_def)
  have fit: "CHR 0x2F \<notin> set (shortname f)" "length c \<le> MAXFILE * BSIZE" using Cons.prems(2) by (auto simp: fits_def c_def)
  have le: "length e = 16" by (simp add: e_def)
  have mono: "room r \<le> room (r @ e)" "room (r @ e) \<le> cost (nblk (length r + 16 * length (f # fs)))"
    unfolding room_def by (intro cost_mono nblk_mono; simp add: le)+
  obtain s1 where 1: "mk_ialloc T_FILE s = Inr (n, s1)" "files_ok (r # cs @ [[]]) s1"
    "\<forall>j<Suc (length cs). head (ino s1 (Suc j)) = head (ino s (Suc j))" "head (ino s1 n) = (T_FILE, 0, 0, 1)"
    using mk_ialloc_ok [OF Cons.prems(1), of T_FILE] Cons.prems(3) by (auto simp: n_def)
  have fb1: "freeblock s1 = freeblock s" using files_okD(5) [OF 1(2)] files_okD(5) [OF Cons.prems(1)] by (simp add: nblk_def cost_def BSIZE_def)
  obtain s2 where 2: "iappend (Suc 0) e s1 = Inr s2" "files_ok ((r @ e) # cs @ [[]]) s2"
    "\<forall>j<length cs + 2. head (ino s2 (Suc j)) = head (ino s1 (Suc j))"
    using iappend_ok [OF 1(2), of 0 e] Cons.prems(4,5) fb1 mono by (auto simp: le room_def)
  have fb2: "freeblock s2 + room r = freeblock s + room (r @ e)" using room_grow [OF 1(2), of 0 e] 2(2) fb1 by simp
  have nth: "((r @ e) # cs @ [[]]) ! Suc (length cs) = []" by (simp add: nth_append)
  have upd: "((r @ e) # cs @ [[]])[Suc (length cs) := c] = (r @ e) # cs @ [c]" by (simp add: list_update_append)
  have room0: "cost (nblk 0) = 0" by (simp add: nblk_def cost_def BSIZE_def)
  have "freeblock s2 + room c \<le> FSSIZE" using Cons.prems(5) fb2 mono by (simp add: c_def)
  then obtain s3 where 3: "append_all n bs s2 = Inr s3" "files_ok ((r @ e) # cs @ [c]) s3"
    "\<forall>j<length cs + 2. head (ino s3 (Suc j)) = head (ino s2 (Suc j))"
    using append_all_ok [OF 2(2), of "Suc (length cs)" bs] fit(2) unfolding nth bs(2)
    by (auto simp: upd room0 room_def n_def)
  have fb3: "freeblock s3 = freeblock s2 + room c"
    using files_okD(5) [OF 3(2)] files_okD(5) [OF 2(2)] room0 by (simp add: room_def)
  have sz: "length (r @ e) + 16 * length fs = length r + 16 * length (f # fs)" using le by simp
  have pre: "length (r @ e) + 16 * length fs \<le> MAXFILE * BSIZE"
    "freeblock s3 + cost (nblk (length (r @ e) + 16 * length fs)) + sum_list (map (\<lambda>f. room (file_of files f)) fs) \<le> FSSIZE + room (r @ e)"
    unfolding sz using Cons.prems(4,5) fb2 fb3 by (simp_all add: c_def)
  obtain s' where 4: "add_files files fs s3 = Inr s'"
    "files_ok (((r @ e) @ entries (length (cs @ [c]) + 2) fs) # (cs @ [c]) @ map (file_of files) fs) s'"
    "\<forall>j\<le>length (cs @ [c]). head (ino s' (Suc j)) = head (ino s3 (Suc j))"
    "\<forall>j. length (cs @ [c]) < j \<and> j \<le> length (cs @ [c]) + length fs \<longrightarrow> head (ino s' (Suc j)) = (T_FILE, 0, 0, 1)"
    using Cons.IH [OF 3(2) _ _ pre] Cons.prems(2,3) by auto
  have "add_files files (f # fs) s = Inr s'" using fit(1) bs 1(1) 2(1) 3(1) 4(1) by (simp add: e_def ROOTINO_def)
  moreover have "(r @ e) @ entries (length (cs @ [c]) + 2) fs = r @ entries (length cs + 2) (f # fs)" by (simp add: e_def n_def)
  moreover have "head (ino s' (Suc j)) = (T_FILE, 0, 0, 1)" if "length cs < j" "j \<le> length cs + length (f # fs)" for j
    using that 1(4) 2(3) 3(3) 4(3,4) by (cases "j = Suc (length cs)") (simp_all add: n_def)
  ultimately show ?case using 1(3) 2(3) 3(3) 4(2,3) by (auto simp: c_def)
qed auto


text \<open>The empty image.\<close>

lemma replicate_put: "(replicate k z @ replicate (Suc k - k) z)[k := z] = replicate (Suc k) z"
  by (intro nth_equalityI) (auto simp: nth_list_update nth_append less_Suc_eq simp del: replicate_Suc)

lemma blank_img: "fold (\<lambda>i. wsect i zeroes) [0..<k] \<lparr>img = [], freeinode = 1, freeblock = nmeta\<rparr> =
  \<lparr>img = replicate k zeroes, freeinode = 1, freeblock = nmeta\<rparr>"
proof (induction k)
  case (Suc k)
  have "wsect k zeroes \<lparr>img = replicate k zeroes, freeinode = 1, freeblock = nmeta\<rparr> =
      \<lparr>img = replicate (Suc k) zeroes, freeinode = 1, freeblock = nmeta\<rparr>"
    unfolding wsect_def using replicate_put [of k zeroes] by (simp del: replicate_Suc)
  then show ?case unfolding upt_Suc_append [OF le0] fold_append comp_apply Suc by simp
qed simp

lemma mk_blank_eq: "mk_blank = \<lparr>img = (replicate FSSIZE zeroes)[1 := put_bytes 0 (sb_bytes mk_sb) zeroes], freeinode = 1, freeblock = nmeta\<rparr>"
proof -
  have "Suc 1 - FSSIZE = 0" by (simp add: FSSIZE_def)
  then show ?thesis unfolding mk_blank_def blank_img wsect_def by simp
qed

lemma mk_blank_ok: "files_ok [] mk_blank"
proof -
  have "length (put_bytes 0 (sb_bytes mk_sb) zeroes) = BSIZE" by (simp add: sb_bytes_def zeroes_def BSIZE_def)
  then show ?thesis
    by (auto simp: files_ok_def mk_blank_eq good_img_def NINODES_def nmeta_val FSSIZE_def zeroes_def nth_list_update
        dest!: set_update_subset_insert [THEN subsetD])
qed

text \<open>The bitmap.\<close>

lemma fold_set_bits:
  assumes "n \<le> BSIZE * 8"
  shows "length (fold set_bit_at [0..<n] zeroes) = BSIZE \<and>
    (\<forall>b<BSIZE * 8. bit (fold set_bit_at [0..<n] zeroes ! (b div 8)) (b mod 8) \<longleftrightarrow> b < n)"
  using assms
proof (induction n)
  case (Suc n)
  define d where "d = fold set_bit_at [0..<n] zeroes"
  have d: "length d = BSIZE" "\<And>b. b < BSIZE * 8 \<Longrightarrow> bit (d ! (b div 8)) (b mod 8) \<longleftrightarrow> b < n" using Suc by (simp_all add: d_def)
  have "bit (set_bit_at n d ! (b div 8)) (b mod 8) \<longleftrightarrow> b < Suc n" if b: "b < BSIZE * 8" for b
  proof -
    have bd: "b div 8 < length d" using b d(1) by (simp add: BSIZE_def)
    have bit1: "bit (push_bit (n mod 8) 1 :: uint8) (b mod 8) \<longleftrightarrow> n mod 8 = b mod 8"
      by (auto simp: bit_exp_iff possible_bit_word)
    show ?thesis
    proof (cases "b div 8 = n div 8")
      case True
      then have "b = n \<longleftrightarrow> n mod 8 = b mod 8" by (metis div_mult_mod_eq)
      moreover have "bit (set_bit_at n d ! (b div 8)) (b mod 8) \<longleftrightarrow> b < n \<or> n mod 8 = b mod 8"
        using True bd d(2) [OF b] bit1 by (simp add: set_bit_at_def bit_or_iff)
      ultimately show ?thesis by (auto simp: less_Suc_eq)
    next
      case False
      then have "b \<noteq> n" by auto
      then show ?thesis using False d(2) [OF b] by (simp add: set_bit_at_def less_Suc_eq)
    qed
  qed
  moreover have "length (set_bit_at n d) = BSIZE" using d(1) by (simp add: set_bit_at_def)
  ultimately show ?case by (simp flip: d_def)
qed (simp add: zeroes_def BSIZE_def)

lemma balloc_scan_first:
  assumes "\<And>b. b \<in> set bs \<Longrightarrow> bit (d ! (b div 8)) (b mod 8) \<longleftrightarrow> b < n" "sorted bs" "n \<in> set bs" "n < sz"
  shows "balloc_scan d 0 sz bs = Some n"
  using assms
proof (induction bs)
  case (Cons b bs)
  then show ?case by (cases "b = n") auto
qed simp

text \<open>
  The promise of \<open>mkfs\<close>: the superblock, an empty log, the root directory and the files, and a bitmap that marks
  exactly the blocks in use. The root is as long as its blocks and a block more when its entries fill them.
\<close>

definition image_holds :: "uint8 list \<Rightarrow> uint8 list list \<Rightarrow> fsimage \<Rightarrow> bool" where
  "image_holds root cs s \<longleftrightarrow>
     get_superblock (img s ! 1) = mk_sb \<and> (\<forall>b. 2 \<le> b \<and> b < 2 + nlog \<longrightarrow> img s ! b = zeroes) \<and>
     head (ino s 1) = (T_DIR, 0, 0, 1) \<and> unat (d_size (ino s 1)) = (length root div BSIZE + 1) * BSIZE \<and>
     holds (img s) (freeblock s) (ino s 1) root \<and>
     (\<forall>i<length cs. head (ino s (i + 2)) = (T_FILE, 0, 0, 1) \<and> unat (d_size (ino s (i + 2))) = length (cs ! i) \<and>
        holds (img s) (freeblock s) (ino s (i + 2)) (cs ! i)) \<and>
     (\<forall>i\<le>length cs. \<forall>j\<le>length cs. i \<noteq> j \<longrightarrow> data_of s (Suc i) ((root # cs) ! i) \<inter> data_of s (Suc j) ((root # cs) ! j) = {}) \<and>
     freeblock s = nmeta + sum_list (map room (root # cs)) \<and>
     (\<forall>b<BPB. bit (img s ! unat (sb_bmapstart mk_sb) ! (b div 8)) (b mod 8) \<longleftrightarrow> b < freeblock s)"

lemma finish_ok:
  assumes "files_ok (root # cs) s" "length root \<le> MAXFILE * BSIZE - BSIZE" "head (ino s 1) = (T_DIR, 0, 0, 1)"
    "\<forall>j<length cs. head (ino s (j + 2)) = (T_FILE, 0, 0, 1)"
  shows "\<exists>s'. mbind (round_root s) (\<lambda>s. mk_balloc (freeblock s) s) = Inr s' \<and> image_holds root cs s'"
proof -
  note f = files_okD [OF assms(1)]
  define d where "d = (ino s 1)\<lparr>d_size := (d_size (ino s 1) div of_nat BSIZE + 1) * of_nat BSIZE\<rparr>"
  have i1: "1 < NINODES" by (simp add: NINODES_def)
  have "length (d_addrs d) = NDIRECT + 1" using f(10) [of 0] by (simp add: d_def)
  then obtain s1 where w: "winode 1 d s = Inr s1" "good_img s1" "freeinode s1 = freeinode s" "freeblock s1 = freeblock s"
    "ino s1 1 = d" "\<forall>j<NINODES. j \<noteq> 1 \<longrightarrow> ino s1 j = ino s j" "\<forall>b. b \<noteq> iblk 1 \<longrightarrow> img s1 ! b = img s ! b"
    using winode_ok [OF f(1) i1, of d] by blast
  have rr: "round_root s = Inr s1" using rinode_ok [OF f(1) i1] w(1) by (simp add: round_root_def ROOTINO_def d_def)
  define bm where "bm = fold set_bit_at [0..<freeblock s] zeroes"
  define s' where "s' = s1\<lparr>img := (img s1)[45 := bm]\<rparr>"
  have used: "freeblock s < BSIZE * 8" "45 < FSSIZE" using good_imgD(4) [OF f(1)] by (simp_all add: FSSIZE_def BSIZE_def)
  have bms: "unat (sb_bmapstart mk_sb) = 45"
    by (simp add: mk_sb_def nlog_def LOGSIZE_def MAXOPBLOCKS_def ninodeblocks_def NINODES_def IPB_def BSIZE_def)
  have "mk_balloc (freeblock s1) s1 = Inr s'"
    using used wsect_img [OF w(2) used(2)] by (simp add: mk_balloc_def w(4) bms s'_def bm_def zeroes_def)
  then have run: "mbind (round_root s) (\<lambda>s. mk_balloc (freeblock s) s) = Inr s'" by (simp add: rr)
  have im: "img s' ! b = img s ! b" if "b < 32 \<or> nmeta \<le> b" for b
    using that w(7) iblk_range [OF i1] by (auto simp: s'_def nmeta_val)
  have ino': "ino s' j = ino s1 j" if "j < NINODES" for j using iblk_range [OF that] by (simp add: ino_def s'_def)
  have keep: "holds (img s') (freeblock s') (ino s (Suc j)) ((root # cs) ! j) \<and>
      blocks_of (img s') (ino s (Suc j)) ((root # cs) ! j) = data_of s (Suc j) ((root # cs) ! j)" if "j \<le> length cs" for j
    unfolding data_of_def
  proof (rule holds_frame [OF f(8)])
    show "\<forall>b\<in>blocks_of (img s) (ino s (Suc j)) ((root # cs) ! j). img s' ! b = img s ! b"
      using im f(9) [of j] that by (auto simp: data_of_def)
  qed (use that w(4) in \<open>simp_all add: s'_def\<close>)
  have dat: "data_of s' (Suc j) ((root # cs) ! j) = data_of s (Suc j) ((root # cs) ! j)" if "j \<le> length cs" for j
    using keep [OF that] ino' [of "Suc j"] w(5,6) that f(3) by (cases j) (simp_all add: data_of_def d_def NINODES_def)
  have "head (ino s' 1) = (T_DIR, 0, 0, 1)" "holds (img s') (freeblock s') (ino s' 1) root"
    using keep [of 0] ino' [OF i1] w(5) assms(3) by (simp_all add: d_def head_def)
  moreover have "unat (d_size (ino s' 1)) = (length root div BSIZE + 1) * BSIZE"
  proof -
    have "unat (d_size (ino s 1)) = length root" using f(6) [of 0] by simp
    then have "unat (d_size (ino s 1)) \<le> 273408" using assms(2) by (simp add: MAXFILE_def NDIRECT_def NINDIRECT_def BSIZE_def)
    moreover from this have "unat (d_size (ino s 1)) div 1024 \<le> 267" by simp
    ultimately have "unat ((d_size (ino s 1) div 1024 + 1) * 1024 :: uint) = (unat (d_size (ino s 1)) div 1024 + 1) * 1024"
      by (simp add: unat_word_ariths unat_div)
    then show ?thesis using \<open>unat (d_size (ino s 1)) = length root\<close> ino' [OF i1] w(5) by (simp add: d_def BSIZE_def)
  qed
  moreover have "head (ino s' (i + 2)) = (T_FILE, 0, 0, 1) \<and> unat (d_size (ino s' (i + 2))) = length (cs ! i) \<and>
      holds (img s') (freeblock s') (ino s' (i + 2)) (cs ! i)" if "i < length cs" for i
    using that keep [of "Suc i"] ino' [of "i + 2"] w(6) f(3) f(6) [of "Suc i"] assms(4) by simp
  moreover have "get_superblock (img s' ! 1) = mk_sb" "\<forall>b. 2 \<le> b \<and> b < 2 + nlog \<longrightarrow> img s' ! b = zeroes"
    using im f(4) by (simp_all add: mk_blank_eq superblock_read nlog_def LOGSIZE_def MAXOPBLOCKS_def FSSIZE_def)
  moreover have "\<forall>b<BPB. bit (img s' ! unat (sb_bmapstart mk_sb) ! (b div 8)) (b mod 8) \<longleftrightarrow> b < freeblock s'"
    using fold_set_bits [of "freeblock s"] used w(4) good_imgD(1) [OF w(2)] by (simp add: bms s'_def bm_def BPB_def)
  moreover have "freeblock s' = nmeta + sum_list (map room (root # cs))" using f(5) w(4) by (simp add: s'_def flip: room_def)
  moreover have "\<forall>i\<le>length cs. \<forall>j\<le>length cs. i \<noteq> j \<longrightarrow>
      data_of s' (Suc i) ((root # cs) ! i) \<inter> data_of s' (Suc j) ((root # cs) ! j) = {}"
    using dat f(11) by (simp add: less_Suc_eq_le)
  ultimately show ?thesis using run unfolding image_holds_def by blast
qed


definition root_bytes :: "string list \<Rightarrow> uint8 list" where
  "root_bytes fs = dirent_bytes 1 (cbytes ''.'') @ dirent_bytes 1 (cbytes ''..'') @ entries 2 fs"

lemma mkfs_ok:
  assumes "list_all (fits files) fs" "length fs + 1 < NINODES"
    "room (root_bytes fs) + sum_list (map (\<lambda>f. room (file_of files f)) fs) \<le> nblocks"
  shows "\<exists>s. mkfs files fs = Inr s \<and> image_holds (root_bytes fs) (map (file_of files) fs) s"
proof -
  define e1 e2 where "e1 = dirent_bytes 1 (cbytes ''.'')" and "e2 = dirent_bytes 1 (cbytes ''..'')"
  have len: "length e1 = 16" "length e2 = 16" by (simp_all add: e1_def e2_def)
  have small: "room [] = 0" "cost (nblk 16) = 1" "cost (nblk 32) = 1" "room e1 = 1" "room (e1 @ e2) = 1"
    by (simp_all add: room_def nblk_def cost_def BSIZE_def NDIRECT_def len)
  have lims: "length fs < 199" "MAXFILE * BSIZE = 274432" "FSSIZE = nmeta + nblocks"
    using assms(2) by (simp_all add: NINODES_def MAXFILE_def NDIRECT_def NINDIRECT_def BSIZE_def nblocks_def nmeta_val FSSIZE_def)
  have fb0: "freeblock mk_blank = nmeta" by (simp add: mk_blank_eq)
  have fb: "freeblock s = nmeta + sum_list (map room cs)" if "files_ok cs s" for cs s using files_okD(5) [OF that] by (simp add: room_def [abs_def])
  obtain s1 where 1: "mk_ialloc T_DIR mk_blank = Inr (1, s1)" "files_ok [[]] s1" "head (ino s1 1) = (T_DIR, 0, 0, 1)"
    using mk_ialloc_ok [OF mk_blank_ok, of T_DIR] by (auto simp: NINODES_def)
  have "freeblock s1 + 1 \<le> FSSIZE" using fb [OF 1(2)] small by (simp add: nmeta_val FSSIZE_def)
  then obtain s2 where 2: "iappend 1 e1 s1 = Inr s2" "files_ok [e1] s2" "head (ino s2 1) = (T_DIR, 0, 0, 1)"
    using iappend_ok [OF 1(2), of 0 e1] 1(3) lims(2) small by (auto simp: len room_def)
  have "freeblock s2 \<le> FSSIZE" using fb [OF 2(2)] small by (simp add: nmeta_val FSSIZE_def)
  then obtain s3 where 3: "iappend 1 e2 s2 = Inr s3" "files_ok [e1 @ e2] s3" "head (ino s3 1) = (T_DIR, 0, 0, 1)"
    using iappend_ok [OF 2(2), of 0 e2] 2(3) lims(2) small by (auto simp: len)
  have rb: "root_bytes fs = (e1 @ e2) @ entries 2 fs" by (simp add: root_bytes_def e1_def e2_def)
  have "room (root_bytes fs) = cost (nblk (length (e1 @ e2) + 16 * length fs))" by (simp add: room_def rb add.assoc)
  then have "freeblock s3 + cost (nblk (length (e1 @ e2) + 16 * length fs)) + sum_list (map (\<lambda>f. room (file_of files f)) fs)
      \<le> FSSIZE + room (e1 @ e2)"
    using fb [OF 3(2)] assms(3) lims(3) by simp
  then obtain s4 where 4: "add_files files fs s3 = Inr s4" "files_ok (root_bytes fs # map (file_of files) fs) s4"
    "head (ino s4 1) = (T_DIR, 0, 0, 1)" "\<forall>j<length fs. head (ino s4 (j + 2)) = (T_FILE, 0, 0, 1)"
    using add_files_ok [of "e1 @ e2" "[]" s3 files fs] 3 assms(1,2) lims(1,2) by (auto simp: len rb numeral_2_eq_2)
  have "length (root_bytes fs) \<le> MAXFILE * BSIZE - BSIZE" using lims(1,2) by (simp add: rb len BSIZE_def)
  then obtain s5 where 5: "mbind (round_root s4) (\<lambda>s. mk_balloc (freeblock s) s) = Inr s5"
    "image_holds (root_bytes fs) (map (file_of files) fs) s5"
    using finish_ok [OF 4(2) _ 4(3)] 4(4) by auto
  have "mkfs files fs = Inr s5" using 1(1) 2(1) 3(1) 4(1) 5(1) by (simp add: mkfs_def ROOTINO_def e1_def e2_def)
  then show ?thesis using 5(2) by blast
qed

text \<open>
  C8 \<^verbatim>\<open>mkfs\<close> makes the file system it is asked for. Given files that can be opened, have no slash in their names,
  are no longer than the largest file and fit together in the data blocks (an indirect block counted for each file of
  more than twelve blocks), and fewer than 199 of them, the program ends without a failed assertion and the image
  has the superblock, an empty log, a root directory with the entries for the directory and for the files in order,
  inodes 2, 3 and so on with exactly the bytes of the files, no block in two files, and a bitmap that marks the
  blocks taken and no other.
\<close>

theorem mkfs_makes_image:
  assumes "list_all (fits files) fs" "length fs + 1 < NINODES"
    "room (root_bytes fs) + sum_list (map (\<lambda>f. room (file_of files f)) fs) \<le> nblocks"
  shows "\<exists>s. mkfs files fs = Inr s \<and> image_holds (root_bytes fs) (map (file_of files) fs) s"
  using assms by (rule mkfs_ok)

lemma mkfs_makes_image_witness:
  "\<exists>s. mkfs [''user/_cat'' \<mapsto> [[127, 69], [76]]] [''user/_cat''] = Inr s \<and>
     image_holds (root_bytes [''user/_cat'']) (map (file_of [''user/_cat'' \<mapsto> [[127, 69], [76]]]) [''user/_cat'']) s"
  by (rule mkfs_makes_image)
    (simp_all add: fits_def file_of_def shortname_def room_def cost_def nblk_def root_bytes_def nblocks_def nmeta_val fs_defs NINODES_def FSSIZE_def)

text \<open>
  C40 When the entries of the root fill its blocks (62 files, 126 and so on), the size that \<^verbatim>\<open>mkfs\<close> gives the root
  is a block more than it has: the address of that block in the inode is zero, inside the size.
\<close>

theorem mkfs_root_has_hole:
  assumes "list_all (fits files) fs" "length fs + 1 < NINODES"
    "room (root_bytes fs) + sum_list (map (\<lambda>f. room (file_of files f)) fs) \<le> nblocks" "(length fs + 2) mod 64 = 0"
  shows "\<exists>s. mkfs files fs = Inr s \<and> (length fs + 2) div 64 < NDIRECT \<and>
    d_addrs (ino s 1) ! ((length fs + 2) div 64) = 0 \<and> (length fs + 2) div 64 * BSIZE < unat (d_size (ino s 1))"
proof -
  obtain s where s: "mkfs files fs = Inr s" "image_holds (root_bytes fs) (map (file_of files) fs) s"
    using mkfs_ok [OF assms(1-3)] by blast
  obtain k where k: "length fs + 2 = 64 * k" using assms(4) by auto
  have len: "length (root_bytes fs) = k * BSIZE" using k by (simp add: root_bytes_def BSIZE_def)
  have nb: "nblk (length (root_bytes fs)) = k" unfolding len by (rule nblk_eq) (simp_all add: BSIZE_def)
  have small: "k < NDIRECT" using k assms(2) by (simp add: NDIRECT_def NINODES_def)
  have "good_file (img s) (freeblock s) (ino s 1) k" using s(2) nb unfolding image_holds_def holds_def by blast
  then have "d_addrs (ino s 1) ! k = 0" using good_fileD(9) small by blast
  moreover have "k * BSIZE < unat (d_size (ino s 1))" using s(2) len by (simp add: image_holds_def BSIZE_def)
  ultimately show ?thesis using s(1) k small by simp
qed

lemma mkfs_root_has_hole_witness:
  "\<exists>s. mkfs (\<lambda>f. Some []) (replicate 62 ''a'') = Inr s \<and> (length (replicate 62 ''a'') + 2) div 64 < NDIRECT \<and>
    d_addrs (ino s 1) ! ((length (replicate 62 ''a'') + 2) div 64) = 0 \<and>
    (length (replicate 62 ''a'') + 2) div 64 * BSIZE < unat (d_size (ino s 1))"
  by (rule mkfs_root_has_hole)
    (simp_all add: list_all_length fits_def file_of_def shortname_def room_def cost_def nblk_def root_bytes_def nblocks_def nmeta_val
      fs_defs NINODES_def FSSIZE_def sum_list_replicate)

end
