(* ===== verification/Filedata.thy ===== *)
theory Filedata
  imports Fs
begin

text \<open>
  The contents of files: \<^verbatim>\<open>readi\<close> and \<^verbatim>\<open>writei\<close> against the file as one sequence of bytes. \<open>contents\<close>
  puts the blocks together that \<^verbatim>\<open>bmap\<close> finds through the direct and the indirect block addresses;
  block contents are those of the buffer cache (\<open>view\<close>). The lemmas on whole block accesses
  (read, and read-modify-log) carry the proofs.
\<close>

section \<open>Whole block accesses\<close>

text \<open>Inside an operation, with the blocks \<open>bs\<close> logged so far.\<close>

definition in_op :: "'a log_scheme \<Rightarrow> uint list \<Rightarrow> bool" where
  "in_op s bs \<longleftrightarrow> binv s (set bs) [] \<and> trans_ok s bs \<and> length (lh_block s) = LOGSIZE \<and> log_size s = int LOGSIZE \<and> 1 \<le> outstanding s"

lemma in_opD:
  assumes "in_op s bs"
  shows "binv s (set bs) []" "trans_ok s bs" "length (lh_block s) = LOGSIZE" "log_size s = int LOGSIZE" "1 \<le> outstanding s"
    "card (set bs) < NBUF"
  using assms trans_okD(8) [of s bs] by (auto simp: in_op_def)

lemma block_read:
  fixes s :: "'a log_scheme"
  assumes "binv s P []" "card P < NBUF"
  obtains i s1 s2 where "bread ROOTDEV n s = Inr (i, s1)" "b_data (the_buf i s1) = view s n" "tstep s s1"
    "binv s1 P [i]" "view s1 = view s" "b_blockno (the_buf i s1) = n"
    "brelse i s1 = Inr s2" "tstep s s2" "binv s2 P []" "view s2 = view s" "lh_block s2 = lh_block s" "lh_n s2 = lh_n s"
    "lh_block s1 = lh_block s" "lh_n s1 = lh_n s"
proof -
  obtain i s1 where r: "bread ROOTDEV n s = Inr (i, s1)" "bstep s s1" "disk s1 = disk s" "disk_trace s1 = disk_trace s"
    "binv s1 P [i]" "view s1 = view s" "b_blockno (the_buf i s1) = n" "b_data (the_buf i s1) = view s n"
    using bread_step [OF assms(1), of n] assms(2) by auto
  have "n \<in> P \<or> b_data (the_buf i s1) = disk s1 n" using view_unpinned [OF assms(1), of n] r(3,8) by auto
  then obtain s2 where t: "brelse i s1 = Inr s2" "bstep s1 s2" "disk s2 = disk s1" "disk_trace s2 = disk_trace s1"
    "binv s2 P []" "view s2 = view s1"
    using brelse_step [OF r(5), of i] r(7) by auto
  show ?thesis
    using that [OF r(1,8) bstep_tstep [OF r(2-4)] r(5-7) t(1) tstep_trans [OF bstep_tstep [OF r(2-4)] bstep_tstep [OF t(2-4)]]]
      t(5,6) r(6) bstep_log [OF r(2)] bstep_log [OF t(2)] by simp
qed

definition logged :: "uint \<Rightarrow> uint list \<Rightarrow> uint list" where
  "logged n bs = (if n \<in> set bs then bs else bs @ [n])"

lemma length_logged: "length (logged n bs) \<le> Suc (length bs)" "length bs \<le> length (logged n bs)"
  by (simp_all add: logged_def)

lemma block_modify:
  fixes s :: "'a log_scheme"
  assumes "in_op s bs" "Suc (length bs) < LOGSIZE" "n \<notin> log_region (log_start s)"
  obtains i s1 where "bread ROOTDEV n s = Inr (i, s1)" "b_data (the_buf i s1) = view s n" "tstep s s1"
    "binv s1 (set bs) [i]"
    "\<And>d. length d = BSIZE \<Longrightarrow> \<exists>s2 s3. log_write i (set_data i d s1) = Inr s2 \<and> brelse i s2 = Inr s3 \<and> tstep s s3 \<and>
       in_op s3 (logged n bs) \<and> view s3 = (view s)(n := d)"
proof -
  note o = in_opD [OF assms(1)]
  obtain i s1 where r: "bread ROOTDEV n s = Inr (i, s1)" "b_data (the_buf i s1) = view s n" "tstep s s1"
    "binv s1 (set bs) [i]" "view s1 = view s" "b_blockno (the_buf i s1) = n" "lh_block s1 = lh_block s" "lh_n s1 = lh_n s"
    by (rule block_read [OF o(1,6), of n])
  note L1 = tstep_log [OF r(3)]
  have "\<exists>s2 s3. log_write i (set_data i d s1) = Inr s2 \<and> brelse i s2 = Inr s3 \<and> tstep s s3 \<and>
       in_op s3 (logged n bs) \<and> view s3 = (view s)(n := d)" if d: "length d = BSIZE" for d
  proof -
    let ?t = "set_data i d s1"
    have i: "i \<in> set [i]" by simp
    note u = binv_upd_held [OF r(4) i d]
    have st: "bstep s1 ?t" by (rule set_data_step)
    have dt: "disk ?t = disk s1" "disk_trace ?t = disk_trace s1" by (simp_all add: set_data_def)
    have tt: "trans_ok ?t bs"
      using o(2) r(7,8) L1 bstep_log [OF st] by (simp add: trans_ok_def)
    have b: "b_blockno (the_buf i ?t) = n" using u(3) [of i] r(6) by simp
    have room: "int (length bs) < log_size ?t - 1" using assms(2) o(4) L1 bstep_log [OF st] by simp
    obtain s2 where s2: "log_write i ?t = Inr s2" "view s2 = view ?t" "tstep ?t s2" "length (lh_block s2) = LOGSIZE"
      "b_blockno (the_buf i s2) = n" "trans_ok s2 (logged n bs)" "binv s2 (set (logged n bs)) [i]"
      using log_write_ok [OF u(1) tt i b _ _ room] assms(2,3) o(3,5) r(7) L1 bstep_log [OF st] b
      by (auto simp: logged_def Let_def)
    have mem: "n \<in> set (logged n bs)" by (simp add: logged_def)
    obtain s3 where s3: "brelse i s2 = Inr s3" "bstep s2 s3" "disk s3 = disk s2" "disk_trace s3 = disk_trace s2"
      "binv s3 (set (logged n bs)) []" "view s3 = view s2"
      using brelse_step [OF s2(7) i] s2(5) mem by auto
    have T: "tstep s s3"
      by (rule tstep_trans [OF r(3) tstep_trans [OF bstep_tstep [OF st dt] tstep_trans [OF s2(3) bstep_tstep [OF s3(2-4)]]]])
    moreover have "in_op s3 (logged n bs)"
      using s3(5) trans_ok_bstep [OF s3(2) s2(6)] s2(4) bstep_log [OF s3(2)] o(4,5) tstep_log [OF T] by (simp add: in_op_def)
    moreover have "view s3 = (view s)(n := d)" using s3(6) s2(2) u(2) r(5,6) by simp
    ultimately show ?thesis using s2(1) s3(1) by blast
  qed
  then show ?thesis using that [OF r(1-4)] by blast
qed

lemma in_op_read:
  assumes "in_op s bs" "tstep s s'" "binv s' (set bs) []" "lh_block s' = lh_block s" "lh_n s' = lh_n s"
  shows "in_op s' bs"
  using assms tstep_log [OF assms(2)] by (simp add: in_op_def trans_ok_def)

lemma tstep_fs:
  assumes "tstep s s'"
  shows "inodes s' = inodes s" "sb s' = sb s" "the_inode i s' = the_inode i s" "mem s' = mem s"
  using assms by (auto simp: tstep_def the_inode_def)

section \<open>Contents\<close>

definition fblock :: "nat \<Rightarrow> 'a fs_scheme \<Rightarrow> nat \<Rightarrow> uint" where
  "fblock i s k = (if k < NDIRECT then i_addrs (the_inode i s) ! k
     else get32 (view s (i_addrs (the_inode i s) ! NDIRECT)) (4 * (k - NDIRECT)))"

definition contents :: "nat \<Rightarrow> 'a fs_scheme \<Rightarrow> nat \<Rightarrow> uint8 list" where
  "contents i s K = concat (map (\<lambda>k. view s (fblock i s k)) [0..<K])"

text \<open>The first \<open>K\<close> blocks of the file are allocated.\<close>

definition file_ok :: "nat \<Rightarrow> 'a fs_scheme \<Rightarrow> nat \<Rightarrow> bool" where
  "file_ok i s K \<longleftrightarrow> i_dev (the_inode i s) = ROOTDEV \<and> length (i_addrs (the_inode i s)) = NDIRECT + 1 \<and> K \<le> MAXFILE \<and> (\<forall>k<K. fblock i s k \<noteq> 0) \<and>
     (NDIRECT < K \<longrightarrow> i_addrs (the_inode i s) ! NDIRECT \<noteq> 0)"

lemma file_cong:
  assumes "the_inode i s' = the_inode i s" "view s' = view s"
  shows "fblock i s' = fblock i s" "contents i s' K = contents i s K" "file_ok i s' K = file_ok i s K"
proof -
  show f: "fblock i s' = fblock i s" using assms by (simp add: fblock_def fun_eq_iff)
  show "contents i s' K = contents i s K" "file_ok i s' K = file_ok i s K"
    using assms f by (simp_all add: contents_def file_ok_def)
qed

lemma length_concat_uniform: "(\<And>k. k < K \<Longrightarrow> length (f k) = B) \<Longrightarrow> length (concat (map f [0..<K])) = K * B"
  by (induction K) auto

lemma nth_concat_uniform:
  "(\<And>k. k < K \<Longrightarrow> length (f k) = B) \<Longrightarrow> x < K * B \<Longrightarrow> concat (map f [0..<K]) ! x = f (x div B) ! (x mod B)"
proof (induction K)
  case (Suc K)
  have l: "length (concat (map f [0..<K])) = K * B" using Suc.prems(1) by (intro length_concat_uniform) simp
  show ?case
  proof (cases "x < K * B")
    case True
    then show ?thesis using Suc.IH Suc.prems(1) l by (simp add: nth_append)
  next
    case False
    then have d: "x div B = K" using Suc.prems(2) by (intro div_nat_eqI) (simp_all add: mult.commute)
    then have "x mod B = x - K * B" using div_mult_mod_eq [of x B] by simp
    then show ?thesis using False l d by (simp add: nth_append)
  qed
qed simp

lemma length_contents: "binv s P H \<Longrightarrow> length (contents i s K) = K * BSIZE"
  unfolding contents_def by (rule length_concat_uniform) simp

lemma nth_contents:
  "binv s P H \<Longrightarrow> x < K * BSIZE \<Longrightarrow> contents i s K ! x = view s (fblock i s (x div BSIZE)) ! (x mod BSIZE)"
  unfolding contents_def by (rule nth_concat_uniform) simp_all

text \<open>A piece that lies within one block.\<close>

lemma contents_piece:
  assumes "binv s P H" "x + m \<le> K * BSIZE" "m \<le> BSIZE - x mod BSIZE"
  shows "take m (drop (x mod BSIZE) (view s (fblock i s (x div BSIZE)))) = take m (drop x (contents i s K))"
proof (rule nth_equalityI)
  have B: "0 < BSIZE" by (simp add: BSIZE_def)
  have x: "x mod BSIZE < BSIZE" using B by simp
  show "length (take m (drop (x mod BSIZE) (view s (fblock i s (x div BSIZE))))) = length (take m (drop x (contents i s K)))"
    using assms x by (simp add: length_contents [OF assms(1)])
  fix j assume "j < length (take m (drop (x mod BSIZE) (view s (fblock i s (x div BSIZE)))))"
  then have j: "j < m" "x mod BSIZE + j < BSIZE" using assms by simp_all
  have "x + j = BSIZE * (x div BSIZE) + (x mod BSIZE + j)" by simp
  then have "(x + j) div BSIZE = x div BSIZE" "(x + j) mod BSIZE = x mod BSIZE + j"
    using j(2) B by (metis add.right_neutral div_less div_mult_self4 less_not_refl2, metis mod_less mod_mult_self4)
  then show "take m (drop (x mod BSIZE) (view s (fblock i s (x div BSIZE)))) ! j = take m (drop x (contents i s K)) ! j"
    using assms j by (simp add: nth_contents [OF assms(1)] length_contents [OF assms(1)])
qed

lemma bmap_mapped:
  assumes "binv s P []" "card P < NBUF" "file_ok i s K" "k < K"
  obtains s' where "bmap i (of_nat k) s = Inr (fblock i s k, s')" "tstep s s'" "binv s' P []" "view s' = view s"
    "lh_block s' = lh_block s" "lh_n s' = lh_n s"
proof -
  have nz: "fblock i s k \<noteq> 0" and dev: "i_dev (the_inode i s) = ROOTDEV" and mx: "k < MAXFILE"
    using assms(3,4) by (auto simp: file_ok_def)
  have u: "unat (of_nat k :: uint) = k" using mx by (simp add: unat_of_nat MAXFILE_def NDIRECT_def NINDIRECT_def BSIZE_def)
  show ?thesis
  proof (cases "k < NDIRECT")
    case True
    then have "bmap i (of_nat k) s = Inr (fblock i s k, s)" using nz u by (simp add: bmap_def fblock_def Let_def)
    then show ?thesis using that assms(1) by simp
  next
    case False
    let ?a = "i_addrs (the_inode i s) ! NDIRECT"
    have a: "?a \<noteq> 0" using False assms(3,4) by (auto simp: file_ok_def)
    obtain b s1 s2 where r: "bread ROOTDEV ?a s = Inr (b, s1)" "b_data (the_buf b s1) = view s ?a" "tstep s s1"
      "brelse b s1 = Inr s2" "tstep s s2" "binv s2 P []" "view s2 = view s" "lh_block s2 = lh_block s" "lh_n s2 = lh_n s"
      by (rule block_read [OF assms(1,2), of ?a])
    have lt: "k - NDIRECT < NINDIRECT" using mx False by (simp add: MAXFILE_def)
    have "get32 (view s ?a) (4 * (k - NDIRECT)) = fblock i s k" using False by (simp add: fblock_def)
    then have "bmap i (of_nat k) s = Inr (fblock i s k, s2)"
      using False lt nz u a r(1,2,4) dev by (simp add: bmap_def Let_def)
    then show ?thesis using that r(5-9) by blast
  qed
qed

section \<open>Reading\<close>

lemma unat_chunk:
  assumes "tot < n"
  shows "unat (chunk n tot off) = min (unat n - unat tot) (BSIZE - unat off mod BSIZE)"
proof -
  have m: "unat (off mod of_nat BSIZE) = unat off mod BSIZE" by (simp add: unat_mod BSIZE_def)
  have B: "unat off mod BSIZE < BSIZE" by (simp add: BSIZE_def)
  have b: "unat (of_nat BSIZE - off mod of_nat BSIZE) = BSIZE - unat off mod BSIZE"
    using m B by (subst unat_sub) (simp_all add: word_le_nat_alt BSIZE_def)
  have d: "unat (n - tot) = unat n - unat tot" using assms by (simp add: unat_sub word_less_nat_alt word_le_nat_alt)
  show ?thesis using b d by (auto simp: chunk_def word_less_nat_alt)
qed

lemma file_bytes_small: "K \<le> MAXFILE \<Longrightarrow> x \<le> K * BSIZE \<Longrightarrow> x < 2 ^ 31"
  by (simp add: MAXFILE_def NDIRECT_def NINDIRECT_def BSIZE_def)

lemma mod_BSIZE: "x mod BSIZE < BSIZE"
  by (simp add: BSIZE_def)

lemma div_block_less: "x < K * BSIZE \<Longrightarrow> x div BSIZE < K"
  by (simp add: BSIZE_def div_less_iff_less_mult)

lemma off_div: "off div of_nat BSIZE = (of_nat (unat off div BSIZE) :: uint)"
proof -
  have "unat off div BSIZE < 2 ^ 32" by (rule le_less_trans [OF div_le_dividend]) simp
  then have "unat (of_nat (unat off div BSIZE) :: uint) = unat (off div of_nat BSIZE)"
    by (simp add: unat_of_nat unat_div BSIZE_def)
  then show ?thesis by (simp add: word_unat_eq_iff)
qed

lemma readi_loop_ok:
  assumes "binv s P []" "card P < NBUF" "file_ok i s K" "tot \<le> n" "unat off + (unat n - unat tot) \<le> K * BSIZE" "k = unat n - unat tot"
  shows "\<exists>s'. readi_loop i False dst off n tot s = Inr (n, take (unat n - unat tot) (drop (unat off) (contents i s K)), s') \<and>
    tstep s s' \<and> binv s' P [] \<and> view s' = view s \<and> lh_block s' = lh_block s \<and> lh_n s' = lh_n s"
  using assms
proof (induction k arbitrary: dst off tot s rule: less_induct)
  case (less k)
  show ?case
  proof (cases "tot < n")
    case False
    then have "tot = n" using less.prems(4) by simp
    then show ?thesis using less.prems(1) by (subst readi_loop.simps) simp
  next
    case True
    let ?m = "chunk n tot off" and ?x = "unat off" and ?r = "unat n - unat tot"
    have r: "0 < ?r" using True by (simp add: word_less_nat_alt)
    have m: "unat ?m = min ?r (BSIZE - ?x mod BSIZE)" by (rule unat_chunk [OF True])
    have k: "?x div BSIZE < K" using less.prems(5) r by (intro div_block_less) linarith
    have tm: "unat (tot + ?m) = unat tot + unat ?m" by (rule chunk_bounds(4) [OF True])
    have "?x + ?r < 2 ^ 31" using less.prems(3,5) by (intro file_bytes_small [of K]) (simp_all add: file_ok_def)
    then have om: "unat (off + ?m) = ?x + unat ?m" using m by (simp add: unat_word_ariths)
    obtain s1 where s1: "bmap i (off div of_nat BSIZE) s = Inr (fblock i s (?x div BSIZE), s1)" "tstep s s1" "binv s1 P []"
      "view s1 = view s" "lh_block s1 = lh_block s" "lh_n s1 = lh_n s"
      unfolding off_div by (rule bmap_mapped [OF less.prems(1-3) k])
    note c1 = file_cong [OF tstep_fs(3) [OF s1(2)] s1(4)]
    let ?a = "fblock i s (?x div BSIZE)"
    have a: "?a \<noteq> 0" and dev: "i_dev (the_inode i s1) = ROOTDEV"
      using less.prems(3) k tstep_fs(3) [OF s1(2)] by (simp_all add: file_ok_def)
    obtain b s2 s3 where s2: "bread ROOTDEV ?a s1 = Inr (b, s2)" "b_data (the_buf b s2) = view s1 ?a" "tstep s1 s2"
      "brelse b s2 = Inr s3" "tstep s1 s3" "binv s3 P []" "view s3 = view s1" "lh_block s3 = lh_block s1" "lh_n s3 = lh_n s1"
      by (rule block_read [OF s1(3) less.prems(2), of ?a])
    have c3: "contents i s3 K = contents i s K" "file_ok i s3 K"
      using file_cong [OF tstep_fs(3) [OF s2(5)] s2(7)] c1 less.prems(3) by simp_all
    let ?bytes = "take (unat ?m) (drop (?x mod BSIZE) (view s ?a))"
    have p: "?bytes = take (unat ?m) (drop ?x (contents i s K))"
      using m less.prems(5) r by (intro contents_piece [OF less.prems(1)]) auto
    have "\<exists>s4. readi_loop i False (dst + ucast ?m) (off + ?m) n (tot + ?m) s3 =
        Inr (n, take (unat n - unat (tot + ?m)) (drop (unat (off + ?m)) (contents i s3 K)), s4) \<and>
      tstep s3 s4 \<and> binv s4 P [] \<and> view s4 = view s3 \<and> lh_block s4 = lh_block s3 \<and> lh_n s4 = lh_n s3"
    proof (rule less.IH [OF _ s2(6) less.prems(2) c3(2) _ _ refl])
      show "unat n - unat (tot + ?m) < k" using tm m r less.prems(6) mod_BSIZE [of ?x] by linarith
      show "tot + ?m \<le> n" using tm m True by (simp add: word_le_nat_alt word_less_nat_alt)
      show "unat (off + ?m) + (unat n - unat (tot + ?m)) \<le> K * BSIZE" using om tm m less.prems(5) by linarith
    qed
    then obtain s4 where s4: "readi_loop i False (dst + ucast ?m) (off + ?m) n (tot + ?m) s3 =
        Inr (n, take (unat n - unat (tot + ?m)) (drop (unat (off + ?m)) (contents i s3 K)), s4)"
      "tstep s3 s4" "binv s4 P []" "view s4 = view s3" "lh_block s4 = lh_block s3" "lh_n s4 = lh_n s3" by blast
    have "readi_loop i False dst off n tot s =
        Inr (n, ?bytes @ take (unat n - unat (tot + ?m)) (drop (unat (off + ?m)) (contents i s3 K)), s4)"
      using True a dev s1(1) s2(1,2,4) s4(1) s1(4)
      by (subst readi_loop.simps) (simp add: either_copyout_def Let_def)
    moreover have "?bytes @ take (unat n - unat (tot + ?m)) (drop (unat (off + ?m)) (contents i s3 K)) =
        take ?r (drop ?x (contents i s K))"
    proof -
      have "?r = unat ?m + (unat n - unat (tot + ?m))" using m tm by linarith
      then show ?thesis by (simp only: p c3(1) om take_add drop_drop add.commute)
    qed
    moreover have "tstep s s4" using s1(2) s2(5) s4(2) tstep_trans by blast
    ultimately show ?thesis using s4 s2 s1 by auto
  qed
qed

lemma sint_small: "n < 2 ^ 31 \<Longrightarrow> sint (of_nat n :: uint) = int n"
  by (simp add: sint_uint uint_nat unat_of_nat signed_take_bit_int_eq_self)

lemma readi_ok:
  assumes "binv s P []" "card P < NBUF" "file_ok i s K" "unat (i_size (the_inode i s)) \<le> K * BSIZE"
    "unat off \<le> unat (i_size (the_inode i s))" "unat off + unat n < 2 ^ 32"
  shows "\<exists>s'. let len = min (unat n) (unat (i_size (the_inode i s)) - unat off)
    in readi i False dst off n s = Inr (int len, take len (drop (unat off) (contents i s K)), s') \<and>
      tstep s s' \<and> binv s' P [] \<and> view s' = view s \<and> lh_block s' = lh_block s \<and> lh_n s' = lh_n s"
proof -
  let ?sz = "i_size (the_inode i s)"
  let ?n = "if ?sz < off + n then ?sz - off else n"
  have on: "unat (off + n) = unat off + unat n" using assms(6) by (simp add: unat_word_ariths)
  have un: "unat ?n = min (unat n) (unat ?sz - unat off)"
    using on assms(5) by (simp add: word_less_nat_alt unat_sub word_le_nat_alt)
  have "unat off + unat ?n \<le> unat ?sz" using un assms(5) by linarith
  then have "unat off + (unat ?n - unat (0 :: uint)) \<le> K * BSIZE" using assms(4) by simp
  from readi_loop_ok [OF assms(1-3) _ this refl, of dst] obtain s' where
    l: "readi_loop i False dst off ?n 0 s = Inr (?n, take (unat ?n) (drop (unat off) (contents i s K)), s')"
    and r: "tstep s s' \<and> binv s' P [] \<and> view s' = view s \<and> lh_block s' = lh_block s \<and> lh_n s' = lh_n s" by auto
  have "unat ?n < 2 ^ 31" using un assms(3,4) by (intro file_bytes_small [of K]) (auto simp: file_ok_def)
  then have si: "sint ?n = int (unat ?n)" using sint_small [of "unat ?n"] by simp
  have g: "\<not> (?sz < off \<or> off + n < off)" using on assms(5) by (simp add: word_less_nat_alt)
  have "readi i False dst off n s = Inr (int (unat ?n), take (unat ?n) (drop (unat off) (contents i s K)), s')"
    using g l si unfolding readi_def Let_def by simp
  then show ?thesis using r un unfolding Let_def by metis
qed

section \<open>Writing\<close>

text \<open>
  The blocks of the file are all different, and none of them is the indirect block, the block of
  the inode or a block of the log.
\<close>

definition file_sep :: "nat \<Rightarrow> 'a fs_scheme \<Rightarrow> nat \<Rightarrow> bool" where
  "file_sep i s K \<longleftrightarrow>
     (let ind = i_addrs (the_inode i s) ! NDIRECT; ib = IBLOCK (i_inum (the_inode i s)) (sb s); lr = log_region (log_start s)
      in inj_on (fblock i s) {..<K} \<and> (\<forall>k<K. fblock i s k \<notin> lr \<and> fblock i s k \<noteq> ib \<and> (NDIRECT < K \<longrightarrow> fblock i s k \<noteq> ind)) \<and>
         ib \<notin> lr \<and> (NDIRECT < K \<longrightarrow> ind \<noteq> ib))"

lemma fblock_other:
  assumes "the_inode i s' = the_inode i s" "view s' = (view s)(b := d)" "k < K" "NDIRECT < K \<Longrightarrow> b \<noteq> i_addrs (the_inode i s) ! NDIRECT"
  shows "fblock i s' k = fblock i s k"
  using assms by (auto simp: fblock_def)

lemma put_bytes_append:
  assumes "x + length (as @ bs) \<le> length c"
  shows "put_bytes (x + length as) bs (put_bytes x as c) = put_bytes x (as @ bs) c"
  using assms by (simp add: put_bytes_def ac_simps)

lemma contents_update:
  assumes "binv s P H" "binv s' P' H'" "the_inode i s' = the_inode i s" "file_sep i s K" "x + length bs \<le> K * BSIZE"
    "length bs \<le> BSIZE - x mod BSIZE" "bs \<noteq> []"
    "view s' = (view s)(fblock i s (x div BSIZE) := put_bytes (x mod BSIZE) bs (view s (fblock i s (x div BSIZE))))"
  shows "contents i s' K = put_bytes x bs (contents i s K)"
proof (rule nth_equalityI)
  let ?k = "x div BSIZE"
  have k: "?k < K" using assms(5,7) by (intro div_block_less) (cases bs; simp)
  have ind: "NDIRECT < K \<Longrightarrow> fblock i s ?k \<noteq> i_addrs (the_inode i s) ! NDIRECT" using assms(4) k by (simp add: file_sep_def Let_def)
  show "length (contents i s' K) = length (put_bytes x bs (contents i s K))"
    using assms(5) by (simp add: length_contents [OF assms(1)] length_contents [OF assms(2)])
  fix y assume "y < length (contents i s' K)"
  then have y: "y < K * BSIZE" by (simp add: length_contents [OF assms(2)])
  then have yk: "y div BSIZE < K" by (rule div_block_less)
  have fb: "fblock i s' (y div BSIZE) = fblock i s (y div BSIZE)" by (rule fblock_other [OF assms(3,8) yk ind])
  have same: "fblock i s (y div BSIZE) = fblock i s ?k \<longleftrightarrow> y div BSIZE = ?k"
    using assms(4) k yk by (auto simp: file_sep_def Let_def inj_on_def)
  have xd: "x = ?k * BSIZE + x mod BSIZE" and yd: "y = y div BSIZE * BSIZE + y mod BSIZE" by simp_all
  have m: "x mod BSIZE < BSIZE" "y mod BSIZE < BSIZE" by (rule mod_BSIZE)+
  show "contents i s' K ! y = put_bytes x bs (contents i s K) ! y"
  proof (cases "y div BSIZE = ?k")
    case True
    then have e: "y div BSIZE * BSIZE = ?k * BSIZE" by simp
    have "y - x = y mod BSIZE - x mod BSIZE" using xd yd e by linarith
    moreover have "x \<le> y \<longleftrightarrow> x mod BSIZE \<le> y mod BSIZE" using xd yd e by linarith
    moreover have "y < x + length bs \<longleftrightarrow> y mod BSIZE < x mod BSIZE + length bs" using xd yd e by linarith
    moreover have in_blk: "x mod BSIZE + length bs \<le> BSIZE" using m assms(6) by linarith
    moreover have "put_bytes (x mod BSIZE) bs (view s (fblock i s ?k)) ! (y mod BSIZE) =
        (if x mod BSIZE \<le> y mod BSIZE \<and> y mod BSIZE < x mod BSIZE + length bs then bs ! (y mod BSIZE - x mod BSIZE)
         else view s (fblock i s ?k) ! (y mod BSIZE))"
      using m in_blk length_view [OF assms(1)] by (intro nth_put_bytes) simp_all
    ultimately show ?thesis
      using y assms(5) True fb
      by (simp add: nth_contents [OF assms(2)] nth_contents [OF assms(1)] assms(8) nth_put_bytes length_contents [OF assms(1)])
  next
    case False
    have "y < x \<or> x + length bs \<le> y"
    proof (cases "y div BSIZE < ?k")
      case True
      then have "Suc (y div BSIZE) * BSIZE \<le> ?k * BSIZE" by (intro mult_le_mono1) simp
      then show ?thesis using xd yd m unfolding mult_Suc by linarith
    next
      case 2: False
      then have "Suc ?k * BSIZE \<le> y div BSIZE * BSIZE" using False by (intro mult_le_mono1) simp
      then show ?thesis using xd yd m assms(6) unfolding mult_Suc by linarith
    qed
    then show ?thesis
      using y assms(5) False fb same
      by (auto simp: nth_contents [OF assms(2)] nth_contents [OF assms(1)] assms(8) nth_put_bytes length_contents [OF assms(1)])
  qed
qed

text \<open>The number of blocks that the bytes from \<open>x\<close> to \<open>e\<close> touch.\<close>

definition span :: "nat \<Rightarrow> nat \<Rightarrow> nat" where
  "span x e = (if x < e then (e + BSIZE - 1) div BSIZE - x div BSIZE else 0)"

lemma span_step:
  assumes "x < e" "y = min e (x - x mod BSIZE + BSIZE)"
  shows "Suc (span y e) \<le> span x e"
proof -
  have B: "0 < BSIZE" by (simp add: BSIZE_def)
  have xd: "x - x mod BSIZE = x div BSIZE * BSIZE" "x div BSIZE * BSIZE \<le> x" by (simp_all add: minus_mod_eq_div_mult)
  have "Suc (x div BSIZE) * BSIZE \<le> e + BSIZE - 1" using assms(1) xd B unfolding mult_Suc by linarith
  then have s: "Suc (x div BSIZE) \<le> (e + BSIZE - 1) div BSIZE" using B by (simp add: less_eq_div_iff_mult_less_eq)
  show ?thesis
  proof (cases "x div BSIZE * BSIZE + BSIZE < e")
    case True
    then have y: "y = Suc (x div BSIZE) * BSIZE" "y < e" using assms(2) xd(1) unfolding mult_Suc by linarith+
    then have "y div BSIZE = Suc (x div BSIZE)" using B by simp
    then show ?thesis using s assms(1) y(2) by (simp add: span_def)
  next
    case False
    then have "y = e" using assms(2) xd(1) by linarith
    then show ?thesis using s assms(1) by (simp add: span_def)
  qed
qed

lemma file_keep:
  assumes "the_inode i s' = the_inode i s" "sb s' = sb s" "log_start s' = log_start s" "view s' = (view s)(b := d)"
    "NDIRECT < K \<Longrightarrow> b \<noteq> i_addrs (the_inode i s) ! NDIRECT"
  shows "file_ok i s' K = file_ok i s K" "file_sep i s' K = file_sep i s K"
proof -
  have fb: "fblock i s' k = fblock i s k" if "k < K" for k by (rule fblock_other [OF assms(1,4) that assms(5)])
  then have "inj_on (fblock i s') {..<K} = inj_on (fblock i s) {..<K}" by (intro inj_on_cong) simp
  then show "file_ok i s' K = file_ok i s K" "file_sep i s' K = file_sep i s K"
    using assms(1-3) fb by (simp_all add: file_ok_def file_sep_def Let_def)
qed

lemma writei_loop_ok:
  assumes "in_op s bs" "file_ok i s K" "file_sep i s K" "tot \<le> n" "r = unat n - unat tot" "unat off + r \<le> K * BSIZE"
    "length ksrc = r" "length bs + span (unat off) (unat off + r) < LOGSIZE"
  shows "\<exists>s' bs'. writei_loop i False src ksrc off n tot s = Inr (n, off + (n - tot), s') \<and> tstep s s' \<and> in_op s' bs' \<and>
    length bs' \<le> length bs + span (unat off) (unat off + r) \<and> file_ok i s' K \<and> file_sep i s' K \<and>
    contents i s' K = put_bytes (unat off) ksrc (contents i s K)"
  using assms
proof (induction r arbitrary: src ksrc off tot s bs rule: less_induct)
  case (less r)
  show ?case
  proof (cases "tot < n")
    case False
    then have "tot = n" using less.prems(4) by simp
    then show ?thesis using less.prems by (intro exI [of _ s] exI [of _ bs]) (subst writei_loop.simps, simp add: put_bytes_def)
  next
    case True
    let ?m = "chunk n tot off" and ?x = "unat off" and ?e = "unat off + r"
    have r: "0 < r" using True less.prems(5) by (simp add: word_less_nat_alt)
    have m: "unat ?m = min r (BSIZE - ?x mod BSIZE)" unfolding less.prems(5) by (rule unat_chunk [OF True])
    have m0: "0 < unat ?m" "unat ?m \<le> r" using m r mod_BSIZE [of ?x] by linarith+
    have k: "?x div BSIZE < K" using less.prems(6) r by (intro div_block_less) linarith
    have tm: "unat (tot + ?m) = unat tot + unat ?m" by (rule chunk_bounds(4) [OF True])
    have "?x + r < 2 ^ 31" using less.prems(2,6) by (intro file_bytes_small [of K]) (simp_all add: file_ok_def)
    then have om: "unat (off + ?m) = ?x + unat ?m" using m by (simp add: unat_word_ariths)
    have y: "?x + unat ?m = min ?e (?x - ?x mod BSIZE + BSIZE)" using m mod_less_eq_dividend [of ?x BSIZE] mod_BSIZE [of ?x] by linarith
    have sp: "Suc (span (?x + unat ?m) ?e) \<le> span ?x ?e" by (rule span_step [OF _ y]) (use r in simp)
    note o = in_opD [OF less.prems(1)]
    obtain s1 where s1: "bmap i (off div of_nat BSIZE) s = Inr (fblock i s (?x div BSIZE), s1)" "tstep s s1" "binv s1 (set bs) []"
      "view s1 = view s" "lh_block s1 = lh_block s" "lh_n s1 = lh_n s"
      unfolding off_div by (rule bmap_mapped [OF o(1,6) less.prems(2) k])
    have o1: "in_op s1 bs" by (rule in_op_read [OF less.prems(1) s1(2,3,5,6)])
    let ?a = "fblock i s (?x div BSIZE)"
    have a: "?a \<noteq> 0" "?a \<notin> log_region (log_start s1)" "NDIRECT < K \<Longrightarrow> ?a \<noteq> i_addrs (the_inode i s) ! NDIRECT"
      and dev: "i_dev (the_inode i s1) = ROOTDEV"
      using less.prems(2,3) k tstep_fs(3) [OF s1(2)] tstep_log(2) [OF s1(2)] by (simp_all add: file_ok_def file_sep_def Let_def)
    have room: "Suc (length bs) < LOGSIZE" using less.prems(8) sp by linarith
    let ?d = "put_bytes (?x mod BSIZE) (take (unat ?m) ksrc) (view s ?a)"
    have ld: "length ?d = BSIZE" using m less.prems(7) mod_BSIZE [of ?x] length_view [OF o(1)] by (subst length_put_bytes) auto
    obtain b s2 where s2: "bread ROOTDEV ?a s1 = Inr (b, s2)" "b_data (the_buf b s2) = view s1 ?a"
      "\<And>d. length d = BSIZE \<Longrightarrow> \<exists>s3 s4. log_write b (set_data b d s2) = Inr s3 \<and> brelse b s3 = Inr s4 \<and> tstep s1 s4 \<and>
         in_op s4 (logged ?a bs) \<and> view s4 = (view s1)(?a := d)"
      by (rule block_modify [OF o1 room a(2)]) blast
    obtain s3 s4 where s4: "log_write b (set_data b ?d s2) = Inr s3" "brelse b s3 = Inr s4" "tstep s1 s4"
      "in_op s4 (logged ?a bs)" "view s4 = (view s)(?a := ?d)" using s2(3) [OF ld] s1(4) by auto
    have t4: "tstep s s4" by (rule tstep_trans [OF s1(2) s4(3)])
    note keep = file_keep [OF tstep_fs(3) [OF t4] tstep_fs(2) [OF t4] tstep_log(2) [OF t4] s4(5) a(3)]
    have c4: "contents i s4 K = put_bytes ?x (take (unat ?m) ksrc) (contents i s K)"
      using m m0 less.prems(6,7)
      by (intro contents_update [OF o(1) in_opD(1) [OF s4(4)] tstep_fs(3) [OF t4] less.prems(3) _ _ _ s4(5)]) auto
    have "\<exists>s' bs'. writei_loop i False (src + ucast ?m) (drop (unat ?m) ksrc) (off + ?m) n (tot + ?m) s4 =
        Inr (n, off + ?m + (n - (tot + ?m)), s') \<and> tstep s4 s' \<and> in_op s' bs' \<and>
      length bs' \<le> length (logged ?a bs) + span (unat (off + ?m)) (unat (off + ?m) + (r - unat ?m)) \<and> file_ok i s' K \<and> file_sep i s' K \<and>
      contents i s' K = put_bytes (unat (off + ?m)) (drop (unat ?m) ksrc) (contents i s4 K)"
    proof (rule less.IH [OF _ s4(4)])
      show "r - unat ?m < r" using m0 r by simp
      show "file_ok i s4 K" "file_sep i s4 K" using keep less.prems(2,3) by simp_all
      show "tot + ?m \<le> n" using tm m0 less.prems(5) True by (simp add: word_le_nat_alt word_less_nat_alt)
      show "r - unat ?m = unat n - unat (tot + ?m)" using tm less.prems(5) by simp
      show "unat (off + ?m) + (r - unat ?m) \<le> K * BSIZE" using om m0 less.prems(6) by simp
      show "length (drop (unat ?m) ksrc) = r - unat ?m" using less.prems(7) by simp
      show "length (logged ?a bs) + span (unat (off + ?m)) (unat (off + ?m) + (r - unat ?m)) < LOGSIZE"
        using om m0 sp less.prems(8) length_logged(1) [of ?a bs] by simp
    qed
    then obtain s' bs' where s': "writei_loop i False (src + ucast ?m) (drop (unat ?m) ksrc) (off + ?m) n (tot + ?m) s4 =
        Inr (n, off + ?m + (n - (tot + ?m)), s')" "tstep s4 s'" "in_op s' bs'"
      "length bs' \<le> length (logged ?a bs) + span (unat (off + ?m)) (unat (off + ?m) + (r - unat ?m))" "file_ok i s' K" "file_sep i s' K"
      "contents i s' K = put_bytes (unat (off + ?m)) (drop (unat ?m) ksrc) (contents i s4 K)" by blast
    have "writei_loop i False src ksrc off n tot s = Inr (n, off + (n - tot), s')"
      using True a(1) dev s1(1,4) s2(1,2) s4(1,2) s'(1) by (subst writei_loop.simps) (simp add: either_copyin_def Let_def)
    moreover have "length bs' \<le> length bs + span ?x ?e" using s'(4) om m0 sp length_logged(1) [of ?a bs] by simp
    moreover have "contents i s' K = put_bytes ?x ksrc (contents i s K)"
      using put_bytes_append [of ?x "take (unat ?m) ksrc" "drop (unat ?m) ksrc" "contents i s K"] m0 less.prems(6,7)
      by (simp add: s'(7) c4 om length_contents [OF o(1)])
    ultimately show ?thesis using tstep_trans [OF t4 s'(2)] s'(3,5,6) by blast
  qed
qed

lemma length_concat_le32: "length (concat (map le32 xs)) = 4 * length xs"
  by (induction xs) simp_all

lemma length_put_dinode:
  assumes "length d = BSIZE" "length (i_addrs ip) = NDIRECT + 1"
  shows "length (put_dinode (dip_off inum) ip d) = BSIZE"
proof -
  have "unat inum mod 16 < 16" by simp
  then have "dip_off inum + 64 \<le> BSIZE" by (simp add: dip_off_def IPB_def BSIZE_def)
  moreover have "length (concat (map le32 (i_addrs ip))) = 52"
    using assms(2) by (simp only: length_concat_le32) (simp add: NDIRECT_def)
  ultimately show ?thesis unfolding put_dinode_def using assms(1) by (subst length_put_bytes) (simp_all del: length_concat)
qed

lemma iupdate_ok:
  assumes "in_op s bs" "Suc (length bs) < LOGSIZE" "i_dev (the_inode i s) = ROOTDEV" "length (i_addrs (the_inode i s)) = NDIRECT + 1"
  defines "ip \<equiv> the_inode i s"
  defines "ib \<equiv> IBLOCK (i_inum ip) (sb s)"
  assumes "ib \<notin> log_region (log_start s)"
  shows "\<exists>s'. iupdate i s = Inr s' \<and> tstep s s' \<and> in_op s' (logged ib bs) \<and>
    view s' = (view s)(ib := put_dinode (dip_off (i_inum ip)) ip (view s ib))"
proof -
  obtain b s1 where s1: "bread ROOTDEV ib s = Inr (b, s1)" "b_data (the_buf b s1) = view s ib"
    "\<And>d. length d = BSIZE \<Longrightarrow> \<exists>s2 s3. log_write b (set_data b d s1) = Inr s2 \<and> brelse b s2 = Inr s3 \<and> tstep s s3 \<and>
       in_op s3 (logged ib bs) \<and> view s3 = (view s)(ib := d)"
    by (rule block_modify [OF assms(1,2,7)]) blast
  have "length (put_dinode (dip_off (i_inum ip)) ip (view s ib)) = BSIZE"
    using assms(4) length_view [OF in_opD(1) [OF assms(1)]] by (intro length_put_dinode) (simp_all add: ip_def)
  from s1(3) [OF this] show ?thesis using s1(1,2) assms(3) by (auto simp: iupdate_def Let_def ib_def ip_def)
qed

lemma in_op_inodes: "in_op (s\<lparr>inodes := x\<rparr>) bs = in_op s bs" "view (s\<lparr>inodes := x\<rparr>) = view s"
proof -
  show "view (s\<lparr>inodes := x\<rparr>) = view s" by (rule cache_cong) simp_all
  have "binv (s\<lparr>inodes := x\<rparr>) P [] = binv s P []" for P by (rule cache_cong) (simp_all add: mypid_def)
  then show "in_op (s\<lparr>inodes := x\<rparr>) bs = in_op s bs" by (simp add: in_op_def trans_ok_def)
qed

text \<open>The size of a file in the inode does not matter for its blocks.\<close>

lemma file_resize:
  fixes z :: uint
  assumes "i < length (inodes s)"
  defines "s' \<equiv> upd_inode i (\<lambda>ip. ip\<lparr>i_size := z\<rparr>) s"
  shows "the_inode i s' = (the_inode i s)\<lparr>i_size := z\<rparr>" "contents i s' K = contents i s K"
    "file_ok i s' K = file_ok i s K" "file_sep i s' K = file_sep i s K" "in_op s' bs = in_op s bs" "view s' = view s"
    "sb s' = sb s" "log_start s' = log_start s" "inodes s' = (inodes s)[i := (the_inode i s)\<lparr>i_size := z\<rparr>]"
proof -
  show ti: "the_inode i s' = (the_inode i s)\<lparr>i_size := z\<rparr>" and v: "view s' = view s" and "in_op s' bs = in_op s bs"
    and l: "sb s' = sb s" "log_start s' = log_start s" "inodes s' = (inodes s)[i := (the_inode i s)\<lparr>i_size := z\<rparr>]"
    using assms(1) by (simp_all add: s'_def upd_inode_def the_inode_def in_op_inodes)
  have f: "fblock i s' = fblock i s" by (simp add: fblock_def fun_eq_iff ti v)
  show "contents i s' K = contents i s K" "file_ok i s' K = file_ok i s K" "file_sep i s' K = file_sep i s K"
    by (simp_all add: contents_def file_ok_def file_sep_def f ti v l)
qed

lemma writei_ok:
  assumes "in_op s bs" "file_ok i s K" "file_sep i s K" "i < length (inodes s)" "unat off \<le> unat (i_size (the_inode i s))"
    "unat off + unat n \<le> K * BSIZE" "length data = unat n" "length bs + span (unat off) (unat off + unat n) + 1 < LOGSIZE"
  shows "\<exists>s' bs'. writei i False src data off n s = Inr (int (unat n), s') \<and> in_op s' bs' \<and> file_ok i s' K \<and> file_sep i s' K \<and>
    contents i s' K = put_bytes (unat off) data (contents i s K) \<and>
    unat (i_size (the_inode i s')) = max (unat (i_size (the_inode i s))) (unat off + unat n) \<and>
    i_type (the_inode i s') = i_type (the_inode i s) \<and> inodes s' = (inodes s)[i := the_inode i s']"
proof -
  have K: "K \<le> MAXFILE" using assms(2) by (simp add: file_ok_def)
  have sm: "unat off + unat n < 2 ^ 31" "unat n < 2 ^ 31" using file_bytes_small [OF K assms(6)] by simp_all
  have on: "unat (off + n) = unat off + unat n" using sm by (simp add: unat_word_ariths)
  have "K * BSIZE \<le> MAXFILE * BSIZE" using K by simp
  then have mx: "\<not> of_nat (MAXFILE * BSIZE) < off + n"
    using on assms(6) by (simp add: word_less_nat_alt MAXFILE_def NDIRECT_def NINDIRECT_def BSIZE_def)
  have g: "\<not> (i_size (the_inode i s) < off \<or> off + n < off)" using on assms(5) by (simp add: word_less_nat_alt)
  have "length bs + span (unat off) (unat off + (unat n)) < LOGSIZE" using assms(8) by simp
  then obtain s1 bs1 where s1: "writei_loop i False src data off n 0 s = Inr (n, off + n, s1)" "tstep s s1" "in_op s1 bs1"
    "length bs1 \<le> length bs + span (unat off) (unat off + unat n)" "file_ok i s1 K" "file_sep i s1 K"
    "contents i s1 K = put_bytes (unat off) data (contents i s K)"
    using writei_loop_ok [OF assms(1-3), of 0 n "unat n" off data src] assms(6,7) by auto
  note f1 = tstep_fs [OF s1(2)]
  let ?s2 = "if i_size (the_inode i s1) < off + n then upd_inode i (\<lambda>ip. ip\<lparr>i_size := off + n\<rparr>) s1 else s1"
  have i1: "i < length (inodes s1)" using assms(4) f1(1) by simp
  note fr = file_resize [OF i1, of "off + n"]
  have s2: "contents i ?s2 K = contents i s1 K" "file_ok i ?s2 K" "file_sep i ?s2 K" "in_op ?s2 bs1" "view ?s2 = view s1"
    "unat (i_size (the_inode i ?s2)) = max (unat (i_size (the_inode i s))) (unat off + unat n)"
    using s1(3,5,6) fr(1-6) on f1(3) by (simp_all add: word_less_nat_alt)
  have ty: "i_type (the_inode i ?s2) = i_type (the_inode i s)" using fr(1) f1(3) by simp
  have il: "inodes ?s2 = (inodes s)[i := the_inode i ?s2]"
    using fr(1,9) f1(1,3) by (auto simp: the_inode_def)
  let ?ip = "the_inode i ?s2"
  let ?ib = "IBLOCK (i_inum ?ip) (sb ?s2)"
  have ib: "?ib \<notin> log_region (log_start ?s2)" "NDIRECT < K \<Longrightarrow> ?ib \<noteq> i_addrs ?ip ! NDIRECT"
    "\<And>k. k < K \<Longrightarrow> fblock i ?s2 k \<noteq> ?ib"
    using s2(3) by (auto simp: file_sep_def Let_def)
  have "Suc (length bs1) < LOGSIZE" using s1(4) assms(8) by simp
  then obtain s3 where s3: "iupdate i ?s2 = Inr s3" "tstep ?s2 s3" "in_op s3 (logged ?ib bs1)"
    "view s3 = (view ?s2)(?ib := put_dinode (dip_off (i_inum ?ip)) ?ip (view ?s2 ?ib))"
    using iupdate_ok [OF s2(4), of i] s2(2) ib(1) unfolding file_ok_def by blast
  note f3 = tstep_fs [OF s3(2)]
  note keep = file_keep [OF f3(3) f3(2) tstep_log(2) [OF s3(2)] s3(4) ib(2)]
  have "contents i s3 K = contents i ?s2 K"
    unfolding contents_def using fblock_other [OF f3(3) s3(4) _ ib(2)] ib(3) by (intro arg_cong [where f = concat] map_cong) (auto simp: s3(4))
  moreover have "writei i False src data off n s = Inr (int (unat n), s3)"
    using g mx s1(1) s3(1) sint_small [OF sm(2)] by (simp add: writei_def Let_def)
  ultimately show ?thesis using s3(3) keep s2 s1(7) f3(1,3) ty il by auto
qed

section \<open>Properties\<close>

text \<open>
  C20: \<^verbatim>\<open>readi\<close> into a kernel buffer returns the bytes of the file. The read stops at the end of the
  file; it crosses block boundaries and the step from direct to indirect blocks, and changes
  neither any block nor the log.
\<close>

theorem readi_returns_contents:
  assumes "binv s P []" "card P < NBUF" "file_ok i s K" "unat (i_size (the_inode i s)) \<le> K * BSIZE"
    "unat off \<le> unat (i_size (the_inode i s))" "unat off + unat n < 2 ^ 32"
  shows "\<exists>s'. let len = min (unat n) (unat (i_size (the_inode i s)) - unat off)
    in readi i False dst off n s = Inr (int len, take len (drop (unat off) (contents i s K)), s') \<and>
      binv s' P [] \<and> view s' = view s \<and> inodes s' = inodes s \<and> disk s' = disk s"
proof -
  let ?len = "min (unat n) (unat (i_size (the_inode i s)) - unat off)"
  obtain s' where "readi i False dst off n s = Inr (int ?len, take ?len (drop (unat off) (contents i s K)), s')"
    "tstep s s'" "binv s' P []" "view s' = view s"
    using readi_ok [OF assms, of dst] unfolding Let_def by blast
  then show ?thesis using tstep_fs(1) [of s s'] tstep_log(1) [of s s'] unfolding Let_def by blast
qed

text \<open>
  C6: write, then read. Inside an operation with room in the log, \<^verbatim>\<open>writei\<close> over allocated blocks
  replaces exactly the bytes of its range, grows the size when it writes past the end, and a
  following \<^verbatim>\<open>readi\<close> of the range returns the bytes written.
\<close>

theorem writei_then_readi:
  assumes "in_op s bs" "file_ok i s K" "file_sep i s K" "i < length (inodes s)"
    "unat off \<le> unat (i_size (the_inode i s))" "unat (i_size (the_inode i s)) \<le> K * BSIZE"
    "unat off + unat n \<le> K * BSIZE" "length data = unat n" "length bs + span (unat off) (unat off + unat n) + 1 < LOGSIZE"
  shows "\<exists>s' bs' s''. writei i False src data off n s = Inr (int (unat n), s') \<and> in_op s' bs' \<and>
    contents i s' K = put_bytes (unat off) data (contents i s K) \<and>
    unat (i_size (the_inode i s')) = max (unat (i_size (the_inode i s))) (unat off + unat n) \<and>
    readi i False dst off n s' = Inr (int (unat n), data, s'')"
proof -
  obtain s' bs' where w: "writei i False src data off n s = Inr (int (unat n), s')" "in_op s' bs'" "file_ok i s' K"
    "contents i s' K = put_bytes (unat off) data (contents i s K)"
    "unat (i_size (the_inode i s')) = max (unat (i_size (the_inode i s))) (unat off + unat n)"
    using writei_ok [OF assms(1-5,7-9), of src] by blast
  have lc: "length (contents i s K) = K * BSIZE" by (rule length_contents [OF in_opD(1) [OF assms(1)]])
  have "K \<le> MAXFILE" using assms(2) by (simp add: file_ok_def)
  then have small: "unat off + unat n < 2 ^ 32" using file_bytes_small [OF _ assms(7)] by fastforce
  have len: "min (unat n) (unat (i_size (the_inode i s')) - unat off) = unat n" using w(5) by simp
  have data: "take (unat n) (drop (unat off) (put_bytes (unat off) data (contents i s K))) = data"
    using assms(7,8) lc by (simp add: put_bytes_def)
  have sz: "unat (i_size (the_inode i s')) \<le> K * BSIZE" "unat off \<le> unat (i_size (the_inode i s'))" using w(5) assms(5-7) by simp_all
  obtain s'' where "readi i False dst off n s' = Inr (int (unat n), data, s'')"
    using readi_ok [OF in_opD(1,6) [OF w(2)] w(3) sz small, of dst] unfolding Let_def len w(4) data by blast
  then show ?thesis using w by blast
qed

text \<open>
  A small file on the machine of theory Log: inode 1 with two direct blocks, the first of them in
  the cache and in the transaction, and 1500 bytes.
\<close>

definition file_machine :: fs where
  "file_machine = log.extend log_machine (fs.fields
     \<lparr>sb_magic = FSMAGIC, sb_size = 2000, sb_nblocks = 1954, sb_ninodes = 200, sb_nlog = 30, sb_logstart = 2,
       sb_inodestart = 32, sb_bmapstart = 45\<rparr>
     [\<lparr>i_dev = ROOTDEV, i_inum = 1, i_ref = 1, i_lock = initsleeplock, i_valid = True, i_type = T_FILE, i_major = 0,
       i_minor = 0, i_nlink = 1, i_size = 1500, i_addrs = 46 # 47 # replicate 11 0\<rparr>])"

lemma file_machine_log:
  "bufs file_machine = bufs log_machine" "lru file_machine = lru log_machine" "disk file_machine = disk log_machine"
  "curproc file_machine = curproc log_machine" "procs file_machine = procs log_machine" "log_dev file_machine = log_dev log_machine"
  "lh_n file_machine = lh_n log_machine" "lh_block file_machine = lh_block log_machine" "log_start file_machine = log_start log_machine"
  "log_size file_machine = log_size log_machine" "outstanding file_machine = outstanding log_machine"
  by (simp_all add: file_machine_def log.defs)

lemma find_cached_fields:
  fixes s :: "'a bio_scheme" and t :: "'b bio_scheme"
  shows "bufs s = bufs t \<Longrightarrow> find_cached d n xs s = find_cached d n xs t"
  by (induction xs) (simp_all add: the_buf_def)

lemma cache_fields:
  fixes s :: "'a bio_scheme" and t :: "'b bio_scheme"
  assumes "bufs s = bufs t" "lru s = lru t" "disk s = disk t" "curproc s = curproc t" "procs s = procs t"
  shows "binv s P H = binv t P H" "view s = view t"
proof -
  have b: "the_buf j s = the_buf j t" for j using assms(1) by (simp add: the_buf_def)
  show "binv s P H = binv t P H" 
    unfolding binv_def cached_def held_by_me_def mypid_def assms b ..
  show "view s = view t" by (rule ext) (simp only: view_def assms b find_cached_fields [OF assms(1)])
qed

lemma file_machine_in_op: "in_op file_machine [46]"
proof -
  have "binv file_machine {46} []"
    using log_machine_binv cache_fields(1) [of file_machine log_machine] file_machine_log by simp
  moreover have "trans_ok file_machine [46]" using log_machine_trans file_machine_log by (simp add: trans_ok_def)
  moreover have "length (lh_block log_machine) = LOGSIZE" "log_size log_machine = int LOGSIZE" "1 \<le> outstanding log_machine"
    by (simp_all add: log_machine_def LOGSIZE_eq)
  ultimately show ?thesis using file_machine_log by (simp add: in_op_def)
qed

lemma file_machine_inode:
  "inodes file_machine ! 0 = \<lparr>i_dev = ROOTDEV, i_inum = 1, i_ref = 1, i_lock = initsleeplock, i_valid = True, i_type = T_FILE,
     i_major = 0, i_minor = 0, i_nlink = 1, i_size = 1500, i_addrs = 46 # 47 # replicate 11 0\<rparr>"
  "length (inodes file_machine) = 1" "sb_inodestart (sb file_machine) = 32"
  by (simp_all add: file_machine_def log.defs fs.defs)

lemma not_in_log: "32 \<le> unat b \<Longrightarrow> b \<notin> log_region 2"
proof
  assume b: "32 \<le> unat b" "b \<in> log_region 2"
  then consider "b = 2" | k where "k < LOGSIZE - 1" "b = log_blk 2 k" by (auto simp: log_region_def)
  then show False
  proof cases
    case (2 k)
    then have "b = of_nat (k + 3)" by (simp add: log_blk_def)
    then have "unat b = k + 3" using 2(1) unat_of_nat [of "k + 3", where ?'a = 32] by (simp add: LOGSIZE_eq)
    then show False using b(1) 2(1) by (simp add: LOGSIZE_eq)
  qed (use b(1) in simp)
qed

lemma file_machine_file: "file_ok 0 file_machine 2" "file_sep 0 file_machine 2"
proof -
  have f: "fblock 0 file_machine k = (if k = 0 then 46 else 47)" if "k < 2" for k
    using that by (cases k) (simp_all add: fblock_def the_inode_def file_machine_inode NDIRECT_def)
  then show "file_ok 0 file_machine 2"
    by (auto simp: file_ok_def the_inode_def file_machine_inode NDIRECT_def MAXFILE_def NINDIRECT_def BSIZE_def)
  have st: "log_start file_machine = 2" by (simp add: file_machine_log log_machine_def)
  have "inj_on (fblock 0 file_machine) {..<2}" by (auto simp: inj_on_def f)
  moreover have "IBLOCK 1 (sb file_machine) = 32" by (simp add: IBLOCK_def file_machine_inode IPB_def BSIZE_def)
  ultimately show "file_sep 0 file_machine 2"
    using not_in_log [of 46] not_in_log [of 47] not_in_log [of 32]
    by (auto simp: file_sep_def Let_def f st the_inode_def file_machine_inode NDIRECT_def)
qed

lemma file_machine_contents: "contents 0 file_machine 2 = replicate BSIZE 7 @ replicate BSIZE 0"
proof -
  have v: "view file_machine 46 = replicate BSIZE 7" "view file_machine 47 = replicate BSIZE 0"
  proof -
    have "view file_machine = view log_machine" using cache_fields(2) [of file_machine log_machine] file_machine_log by simp
    moreover have "cached log_machine 0 46" by (simp add: log_machine_cached)
    moreover have "view log_machine 47 = disk log_machine 47"
      by (rule view_uncached [OF log_machine_binv]) (simp add: log_machine_cached)
    ultimately show "view file_machine 46 = replicate BSIZE 7" "view file_machine 47 = replicate BSIZE 0"
      using view_cached [OF log_machine_binv, of 0 46] log_machine_buf [of 0]
      by (simp_all add: log_buf_def NBUF_eq) (simp add: log_machine_def)
  qed
  show "contents 0 file_machine 2 = replicate BSIZE 7 @ replicate BSIZE 0"
    by (simp add: contents_def fblock_def the_inode_def file_machine_inode NDIRECT_def v upt_rec numeral_2_eq_2)
qed

theorem readi_returns_contents_witness:
  "\<exists>s'. readi 0 False 0 1020 8 file_machine = Inr (8, [7, 7, 7, 7, 0, 0, 0, 0], s')"
proof -
  have "take 8 (drop 1020 (contents 0 file_machine 2)) = [7, 7, 7, 7, 0, 0, 0, 0]"
    unfolding file_machine_contents by (simp add: BSIZE_def numeral_eq_Suc)
  then show ?thesis
    using readi_returns_contents [OF in_opD(1,6) [OF file_machine_in_op] file_machine_file(1), of 1020 8 0]
    by (auto simp: the_inode_def file_machine_inode BSIZE_def Let_def)
qed

theorem writei_then_readi_witness:
  "\<exists>s' s''. writei 0 False 0 (replicate 600 5) 1000 600 file_machine = Inr (600, s') \<and> unat (i_size (the_inode 0 s')) = 1600 \<and>
    readi 0 False 0 1000 600 s' = Inr (600, replicate 600 5, s'')"
  using writei_then_readi [OF file_machine_in_op file_machine_file, of 1000 600 "replicate 600 5" 0 0]
  by (auto simp: the_inode_def file_machine_inode BSIZE_def span_def LOGSIZE_eq)

end
