(* ===== verification/Directory.thy ===== *)
theory Directory
  imports Filedata
begin

text \<open>
  Directories as maps (\<^verbatim>\<open>dirlookup\<close>, \<^verbatim>\<open>dirlink\<close> and \<^verbatim>\<open>namecmp\<close> of \<^verbatim>\<open>fs.c\<close>). A directory is a file of entries of 16
  bytes; \<open>dir_map\<close> is the map from names to inode numbers that its contents stand for: the first entry in use
  with the name counts. \<open>canon\<close> is the part of a name that the code compares.
\<close>

section \<open>Names\<close>

definition canon :: "uint8 list \<Rightarrow> uint8 list" where
  "canon p = takeWhile (\<lambda>b. b \<noteq> 0) (take DIRSIZ p)"

lemma canon_le: "length (canon p) \<le> DIRSIZ" "length (canon p) \<le> length p"
  using length_takeWhile_le [of "\<lambda>b. b \<noteq> 0" "take DIRSIZ p"] by (simp_all add: canon_def)

lemma canon_nth: "j < length (canon p) \<Longrightarrow> cbuf_of p j = canon p ! j \<and> canon p ! j \<noteq> 0"
  using canon_le [of p] nth_mem [of j "canon p"] set_takeWhileD [of "canon p ! j" "\<lambda>b. b \<noteq> 0" "take DIRSIZ p"]
  by (auto simp: canon_def cbuf_of_def takeWhile_nth)

lemma canon_end: "length (canon p) < DIRSIZ \<Longrightarrow> cbuf_of p (length (canon p)) = 0"
proof (cases "length (canon p) < length (take DIRSIZ p)")
  case True
  then show ?thesis using nth_length_takeWhile [of "\<lambda>b. b \<noteq> 0" "take DIRSIZ p"] by (simp add: canon_def cbuf_of_def)
qed (auto simp: cbuf_of_def)

lemma canon_prefix: "j \<le> length (canon p) \<longleftrightarrow> j \<le> DIRSIZ \<and> (\<forall>k<j. cbuf_of p k \<noteq> 0)"
proof
  assume "j \<le> length (canon p)"
  then show "j \<le> DIRSIZ \<and> (\<forall>k<j. cbuf_of p k \<noteq> 0)" using canon_le(1) [of p] canon_nth [of _ p] by fastforce
next
  assume j: "j \<le> DIRSIZ \<and> (\<forall>k<j. cbuf_of p k \<noteq> 0)"
  show "j \<le> length (canon p)"
  proof (rule ccontr)
    assume "\<not> j \<le> length (canon p)"
    then show False using j canon_end [of p] by simp
  qed
qed

lemma namecmp_zero: "namecmp p q = 0 \<longleftrightarrow> canon p = canon q"
proof
  assume "namecmp p q = 0"
  then have eq: "cbuf_of p j = cbuf_of q j" if "j < DIRSIZ" "j \<le> length (canon p)" for j
    using that canon_prefix [of j p] by (simp add: namecmp_def strncmp_zero_iff)
  have "length (canon q) = length (canon p)"
  proof (rule ccontr)
    assume "length (canon q) \<noteq> length (canon p)"
    then consider "length (canon q) < length (canon p)" | "length (canon p) < length (canon q)" by linarith
    then show False
    proof cases
      case 1
      then have "cbuf_of p (length (canon q)) = 0" using eq [of "length (canon q)"] canon_end [of q] canon_le(1) [of p] by simp
      then show False using canon_nth [OF 1] by simp
    next
      case 2
      then have "cbuf_of q (length (canon p)) = 0" using eq [of "length (canon p)"] canon_end [of p] canon_le(1) [of q] by simp
      then show False using canon_nth [OF 2] by simp
    qed
  qed
  moreover have "canon p ! j = canon q ! j" if "j < length (canon p)" "length (canon q) = length (canon p)" for j
    using that eq [of j] canon_nth [of j p] canon_nth [of j q] canon_le(1) [of p] by simp
  ultimately show "canon p = canon q" by (intro nth_equalityI) auto
next
  assume c: "canon p = canon q"
  have "cbuf_of p j = cbuf_of q j" if "j < DIRSIZ" "\<forall>k<j. cbuf_of p k \<noteq> 0" for j
  proof (cases "j < length (canon p)")
    case True
    then show ?thesis using canon_nth [of j p] canon_nth [of j q] c by simp
  next
    case False
    then have "j = length (canon p)" using canon_prefix [of j p] that by simp
    then show ?thesis using canon_end [of p] canon_end [of q] that(1) c by simp
  qed
  then show "namecmp p q = 0" unfolding namecmp_def strncmp_zero_iff by blast
qed

section \<open>Entries\<close>

definition dent :: "uint8 list \<Rightarrow> nat \<Rightarrow> uint8 list" where
  "dent c k = take sizeof_dirent (drop (sizeof_dirent * k) c)"

definition names_at :: "uint8 list \<Rightarrow> uint8 list \<Rightarrow> nat \<Rightarrow> bool" where
  "names_at c nm k \<longleftrightarrow> de_inum (dent c k) \<noteq> 0 \<and> canon (de_name (dent c k)) = nm"

definition dir_find :: "uint8 list \<Rightarrow> nat \<Rightarrow> uint8 list \<Rightarrow> nat option" where
  "dir_find c n nm = find (names_at c nm) [0..<n]"

definition dir_map :: "uint8 list \<Rightarrow> nat \<Rightarrow> uint8 list \<Rightarrow> uint16 option" where
  "dir_map c n nm = map_option (\<lambda>k. de_inum (dent c k)) (dir_find c n nm)"

text \<open>A directory of \<open>n\<close> entries, within the first \<open>K\<close> blocks of its file.\<close>

definition dir_ok :: "nat \<Rightarrow> 'a fs_scheme \<Rightarrow> nat \<Rightarrow> nat \<Rightarrow> bool" where
  "dir_ok i s K n \<longleftrightarrow> i_type (the_inode i s) = T_DIR \<and> file_ok i s K \<and> unat (i_size (the_inode i s)) = sizeof_dirent * n \<and>
     sizeof_dirent * n \<le> K * BSIZE"

definition same_view :: "uint set \<Rightarrow> 'a fs_scheme \<Rightarrow> 'a fs_scheme \<Rightarrow> bool" where
  "same_view P s s' \<longleftrightarrow> tstep s s' \<and> binv s' P [] \<and> view s' = view s \<and> lh_block s' = lh_block s \<and> lh_n s' = lh_n s"

lemma same_view_refl: "binv s P [] \<Longrightarrow> same_view P s s"
  by (simp add: same_view_def)

lemma same_view_trans: "same_view P s t \<Longrightarrow> same_view P t u \<Longrightarrow> same_view P s u"
  by (auto simp: same_view_def intro: tstep_trans)

lemma same_viewD:
  assumes "same_view P s t"
  shows "binv t P []" "the_inode i t = the_inode i s" "contents i t K = contents i s K" "dir_ok i t K n = dir_ok i s K n"
    "inodes t = inodes s" "view t = view s"
proof -
  have t: "tstep s t" "view t = view s" "binv t P []" using assms by (simp_all add: same_view_def)
  then show "binv t P []" "the_inode i t = the_inode i s" "inodes t = inodes s" "view t = view s" using tstep_fs [OF t(1)] by simp_all
  show "contents i t K = contents i s K" "dir_ok i t K n = dir_ok i s K n"
    using tstep_fs(3) [OF t(1)] file_cong [OF tstep_fs(3) [OF t(1)] t(2)] by (simp_all add: dir_ok_def)
qed

lemma dir_small: "dir_ok i s K n \<Longrightarrow> j \<le> n \<Longrightarrow> sizeof_dirent * j + sizeof_dirent < 2 ^ 32 \<and> unat (of_nat (sizeof_dirent * j) :: uint) = sizeof_dirent * j"
proof -
  assume d: "dir_ok i s K n" and j: "j \<le> n"
  have "sizeof_dirent * j \<le> K * BSIZE" using d j by (auto simp: dir_ok_def sizeof_dirent_def)
  then have "sizeof_dirent * j < 2 ^ 31" using d file_bytes_small [of K "sizeof_dirent * j"] by (simp add: dir_ok_def file_ok_def)
  then show ?thesis using unat_of_nat [of "sizeof_dirent * j", where ?'a = 32] by (simp add: sizeof_dirent_def del: of_nat_mult)
qed

lemma dir_more: "dir_ok i s K n \<Longrightarrow> j \<le> n \<Longrightarrow> (of_nat (sizeof_dirent * j) :: uint) < i_size (the_inode i s) \<longleftrightarrow> j < n"
  using dir_small [of i s K n j] by (simp add: word_less_nat_alt dir_ok_def sizeof_dirent_def)

text \<open>Reading one entry.\<close>

lemma read_dent:
  assumes "binv s P []" "card P < NBUF" "dir_ok dp s K n" "j < n"
  shows "\<exists>s'. readi dp False 0 (of_nat (sizeof_dirent * j)) (of_nat sizeof_dirent) s = Inr (int sizeof_dirent, dent (contents dp s K) j, s') \<and>
    same_view P s s'"
proof -
  define off :: uint where "off = of_nat (sizeof_dirent * j)"
  have u: "unat off = sizeof_dirent * j" "unat (of_nat sizeof_dirent :: uint) = sizeof_dirent" "unat off + unat (of_nat sizeof_dirent :: uint) < 2 ^ 32"
    using dir_small [OF assms(3), of j] assms(4) by (simp_all add: off_def sizeof_dirent_def)
  have len: "min (unat (of_nat sizeof_dirent :: uint)) (unat (i_size (the_inode dp s)) - unat off) = sizeof_dirent"
    using assms(3,4) u by (simp add: dir_ok_def sizeof_dirent_def)
  have "unat (i_size (the_inode dp s)) \<le> K * BSIZE" "unat off \<le> unat (i_size (the_inode dp s))" "file_ok dp s K"
    using assms(3,4) u by (simp_all add: dir_ok_def)
  then obtain s' where "readi dp False 0 off (of_nat sizeof_dirent) s =
      Inr (int sizeof_dirent, take sizeof_dirent (drop (unat off) (contents dp s K)), s')"
    "tstep s s'" "binv s' P []" "view s' = view s" "lh_block s' = lh_block s" "lh_n s' = lh_n s"
    using readi_ok [OF assms(1,2) _ _ _ u(3), of dp K 0] unfolding Let_def len by blast
  then show ?thesis unfolding dent_def same_view_def u(1) by (auto simp: off_def)
qed

section \<open>Looking up\<close>

lemma dirlookup_loop_ok:
  assumes "binv s P []" "card P < NBUF" "dir_ok dp s K n" "j \<le> n"
  shows "\<exists>s'. same_view P s s' \<and> dirlookup_loop dp name (of_nat (sizeof_dirent * j)) s =
    (case find (names_at (contents dp s K) (canon name)) [j..<n] of
       None \<Rightarrow> Inr (None, s')
     | Some k \<Rightarrow> kbind (iget (i_dev (the_inode dp s)) (ucast (de_inum (dent (contents dp s K) k))) s')
         (\<lambda>(ip, s). Inr (Some (ip, of_nat (sizeof_dirent * k)), s)))"
  using assms
proof (induction "n - j" arbitrary: j s)
  case 0
  then show ?case using dir_more [of dp s K n j] same_view_refl [of s P] by (auto simp: dirlookup_loop.simps)
next
  case (Suc d)
  then have j: "j < n" by simp
  obtain s1 where r: "readi dp False 0 (of_nat (sizeof_dirent * j)) (of_nat sizeof_dirent) s =
      Inr (int sizeof_dirent, dent (contents dp s K) j, s1)" and v: "same_view P s s1"
    using read_dent [OF Suc.prems(1-3) j] by blast
  note D = same_viewD [OF v]
  have up: "[j..<n] = j # [Suc j..<n]" using j by (simp add: upt_conv_Cons)
  have nx: "of_nat (sizeof_dirent * j) + of_nat sizeof_dirent = (of_nat (sizeof_dirent * Suc j) :: uint)" by simp
  show ?case
  proof (cases "names_at (contents dp s K) (canon name) j")
    case True
    then have "de_inum (dent (contents dp s K) j) \<noteq> 0 \<and> namecmp name (de_name (dent (contents dp s K) j)) = 0"
      by (simp add: names_at_def namecmp_zero)
    then have "dirlookup_loop dp name (of_nat (sizeof_dirent * j)) s =
        kbind (iget (i_dev (the_inode dp s)) (ucast (de_inum (dent (contents dp s K) j))) s1)
         (\<lambda>(ip, s). Inr (Some (ip, of_nat (sizeof_dirent * j)), s))"
      using dir_more [OF Suc.prems(3,4)] j r D(2) by (subst dirlookup_loop.simps) simp
    then show ?thesis using v True unfolding up by auto
  next
    case False
    then have "\<not> (de_inum (dent (contents dp s K) j) \<noteq> 0 \<and> namecmp name (de_name (dent (contents dp s K) j)) = 0)"
      by (auto simp: names_at_def namecmp_zero)
    then have st: "dirlookup_loop dp name (of_nat (sizeof_dirent * j)) s = dirlookup_loop dp name (of_nat (sizeof_dirent * Suc j)) s1"
      using dir_more [OF Suc.prems(3,4)] j r unfolding nx [symmetric] by (subst dirlookup_loop.simps) auto
    have "d = n - Suc j" using Suc.hyps(2) by simp
    from Suc.hyps(1) [OF this D(1) Suc.prems(2), unfolded D, OF Suc.prems(3)] j False v
    show ?thesis unfolding st up by (auto intro: same_view_trans)
  qed
qed


section \<open>Adding an entry\<close>

definition free_slot :: "uint8 list \<Rightarrow> nat \<Rightarrow> nat" where
  "free_slot c n = (case find (\<lambda>k. de_inum (dent c k) = 0) [0..<n] of None \<Rightarrow> n | Some k \<Rightarrow> k)"

lemma dirlink_slot_ok:
  assumes "binv s P []" "card P < NBUF" "dir_ok dp s K n" "j \<le> n"
  shows "\<exists>s'. same_view P s s' \<and> dirlink_slot dp (of_nat (sizeof_dirent * j)) s =
    Inr (of_nat (sizeof_dirent * (case find (\<lambda>k. de_inum (dent (contents dp s K) k) = 0) [j..<n] of None \<Rightarrow> n | Some k \<Rightarrow> k)), s')"
  using assms
proof (induction "n - j" arbitrary: j s)
  case 0
  then show ?case using dir_more [of dp s K n j] same_view_refl [of s P] by (auto simp: dirlink_slot.simps)
next
  case (Suc d)
  then have j: "j < n" by simp
  obtain s1 where r: "readi dp False 0 (of_nat (sizeof_dirent * j)) (of_nat sizeof_dirent) s =
      Inr (int sizeof_dirent, dent (contents dp s K) j, s1)" and v: "same_view P s s1"
    using read_dent [OF Suc.prems(1-3) j] by blast
  note D = same_viewD [OF v]
  have up: "[j..<n] = j # [Suc j..<n]" using j by (simp add: upt_conv_Cons)
  have nx: "of_nat (sizeof_dirent * j) + of_nat sizeof_dirent = (of_nat (sizeof_dirent * Suc j) :: uint)" by simp
  show ?case
  proof (cases "de_inum (dent (contents dp s K) j) = 0")
    case True
    then have "dirlink_slot dp (of_nat (sizeof_dirent * j)) s = Inr (of_nat (sizeof_dirent * j), s1)"
      using dir_more [OF Suc.prems(3,4)] j r by (subst dirlink_slot.simps) simp
    then show ?thesis using v True unfolding up by auto
  next
    case False
    then have st: "dirlink_slot dp (of_nat (sizeof_dirent * j)) s = dirlink_slot dp (of_nat (sizeof_dirent * Suc j)) s1"
      using dir_more [OF Suc.prems(3,4)] j r unfolding nx [symmetric] by (subst dirlink_slot.simps) auto
    have "d = n - Suc j" using Suc.hyps(2) by simp
    from Suc.hyps(1) [OF this D(1) Suc.prems(2), unfolded D, OF Suc.prems(3)] j False v
    show ?thesis unfolding st up by (auto intro: same_view_trans)
  qed
qed

lemma make_dirent_fields:
  "length (make_dirent inum name) = sizeof_dirent" "de_inum (make_dirent inum name) = ucast inum"
  "canon (de_name (make_dirent inum name)) = canon name"
proof -
  let ?m = "map (strncpy (\<lambda>_. 0) (cbuf_of name) DIRSIZ) [0..<DIRSIZ]"
  have l: "length (le16 (ucast inum)) = 2" by (simp add: le16_def)
  show "length (make_dirent inum name) = sizeof_dirent" by (simp add: make_dirent_def l sizeof_dirent_def DIRSIZ_def)
  show "de_inum (make_dirent inum name) = ucast inum"
    using get16_put16 [of 0 "le16 (ucast inum) @ ?m" "ucast inum"] by (simp add: de_inum_def make_dirent_def put16_def put_bytes_def l)
  have "de_name (make_dirent inum name) = ?m" by (simp add: de_name_def make_dirent_def l)
  moreover have "namecmp name ?m = 0"
    by (simp add: namecmp_def strncmp_zero_iff) (simp add: cbuf_of_def strncpy_eq)
  ultimately show "canon (de_name (make_dirent inum name)) = canon name" by (simp add: namecmp_zero)
qed

text \<open>The entries after one of them has been written.\<close>

lemma dent_put:
  assumes "sizeof_dirent * k + sizeof_dirent \<le> length c" "length e = sizeof_dirent" "sizeof_dirent * j + sizeof_dirent \<le> length c"
  shows "dent (put_bytes (sizeof_dirent * k) e c) j = (if j = k then e else dent c j)"
proof (rule nth_equalityI)
  have l: "length (put_bytes (sizeof_dirent * k) e c) = length c" using assms by simp
  show "length (dent (put_bytes (sizeof_dirent * k) e c) j) = length (if j = k then e else dent c j)"
    using assms l by (simp add: dent_def)
  fix i assume "i < length (dent (put_bytes (sizeof_dirent * k) e c) j)"
  then have i: "i < sizeof_dirent" using assms(3) l by (simp add: dent_def)
  have "put_bytes (sizeof_dirent * k) e c ! (sizeof_dirent * j + i) =
      (if sizeof_dirent * k \<le> sizeof_dirent * j + i \<and> sizeof_dirent * j + i < sizeof_dirent * k + sizeof_dirent
       then e ! (sizeof_dirent * j + i - sizeof_dirent * k) else c ! (sizeof_dirent * j + i))"
    using assms i by (simp add: nth_put_bytes)
  moreover have "sizeof_dirent * k \<le> sizeof_dirent * j + i \<and> sizeof_dirent * j + i < sizeof_dirent * k + sizeof_dirent \<longleftrightarrow> j = k"
    using i by (auto simp: sizeof_dirent_def)
  ultimately show "dent (put_bytes (sizeof_dirent * k) e c) j ! i = (if j = k then e else dent c j) ! i"
    using assms l i by (simp add: dent_def)
qed

lemma find_upt_None: "find P [0..<n] = None \<longleftrightarrow> (\<forall>k<n. \<not> P k)"
  by (auto simp: find_None_iff)

lemma find_upt_Some: "find P [0..<n] = Some k \<longleftrightarrow> k < n \<and> P k \<and> (\<forall>j<k. \<not> P j)"
  by (auto simp: find_Some_iff)

lemma find_upt_cong: "n \<le> m \<Longrightarrow> (\<And>k. k < n \<Longrightarrow> P k = Q k) \<Longrightarrow> (\<And>k. n \<le> k \<Longrightarrow> k < m \<Longrightarrow> \<not> Q k) \<Longrightarrow> find Q [0..<m] = find P [0..<n]"
proof (cases "find P [0..<n]")
  case None
  moreover assume "\<And>k. k < n \<Longrightarrow> P k = Q k" "\<And>k. n \<le> k \<Longrightarrow> k < m \<Longrightarrow> \<not> Q k"
  ultimately have "\<forall>k<m. \<not> Q k" by (metis find_upt_None not_less)
  then have "find Q [0..<m] = None" by (simp only: find_upt_None)
  then show ?thesis using None by simp
next
  case (Some k)
  moreover assume "n \<le> m" "\<And>k. k < n \<Longrightarrow> P k = Q k"
  ultimately have "find Q [0..<m] = Some k" by (auto simp: find_upt_Some)
  then show ?thesis using Some by simp
qed

lemma free_slot_le: "free_slot c n \<le> n" and free_slot_free: "free_slot c n < n \<Longrightarrow> de_inum (dent c (free_slot c n)) = 0"
proof -
  have "free_slot c n \<le> n \<and> (free_slot c n < n \<longrightarrow> de_inum (dent c (free_slot c n)) = 0)"
    by (cases "find (\<lambda>k. de_inum (dent c k) = 0) [0..<n]") (auto simp: free_slot_def dest: find_upt_Some [THEN iffD1])
  then show "free_slot c n \<le> n" "free_slot c n < n \<Longrightarrow> de_inum (dent c (free_slot c n)) = 0" by blast+
qed

lemma dir_map_insert:
  assumes "dir_map c n nm = None" "k = free_slot c n" "sizeof_dirent * max n (Suc k) \<le> length c"
    "length e = sizeof_dirent" "de_inum e \<noteq> 0" "canon (de_name e) = nm"
  shows "dir_map (put_bytes (sizeof_dirent * k) e c) (max n (Suc k)) = (dir_map c n)(nm \<mapsto> de_inum e)"
proof
  fix x
  define c' where "c' = put_bytes (sizeof_dirent * k) e c"
  define m where "m = max n (Suc k)"
  have le: "k \<le> n" and fr: "k < n \<Longrightarrow> de_inum (dent c k) = 0" using free_slot_le free_slot_free assms(2) by blast+
  have d: "dent c' j = (if j = k then e else dent c j)" if "j < m" for j
  proof -
    have "sizeof_dirent * j + sizeof_dirent \<le> sizeof_dirent * m" "sizeof_dirent * k + sizeof_dirent \<le> sizeof_dirent * m"
      using that by (simp_all add: m_def sizeof_dirent_def max_def)
    then show ?thesis unfolding c'_def using assms(3,4) by (intro dent_put) (simp_all add: m_def)
  qed
  have nf: "\<forall>j<n. \<not> names_at c nm j" using assms(1) by (simp add: dir_map_def dir_find_def find_upt_None)
  show "dir_map c' m x = ((dir_map c n)(nm \<mapsto> de_inum e)) x"
  proof (cases "x = nm")
    case True
    have "names_at c' nm j \<longleftrightarrow> j = k" if "j < m" for j
      using that d nf assms(5,6) le by (cases "j = k") (auto simp: names_at_def m_def)
    then have "find (names_at c' nm) [0..<m] = Some k" by (auto simp: find_upt_Some m_def)
    then show ?thesis using True d [of k] by (simp add: dir_map_def dir_find_def m_def)
  next
    case False
    have "names_at c' x j = names_at c x j" if "j < n" for j
      using that d fr False assms(6) by (cases "j = k") (auto simp: names_at_def m_def)
    moreover have "\<not> names_at c' x j" if "n \<le> j" "j < m" for j
    proof -
      have "j = k" using that le by (auto simp: m_def)
      then show ?thesis using d [of j] that(2) False assms(6) by (auto simp: names_at_def)
    qed
    ultimately have f: "find (names_at c' x) [0..<m] = find (names_at c x) [0..<n]"
      by (intro find_upt_cong) (auto simp: m_def)
    have "dent c' j = dent c j" if "find (names_at c x) [0..<n] = Some j" for j
    proof -
      have "j < n" "names_at c x j" using that by (auto simp: find_upt_Some)
      then have "j \<noteq> k" using fr by (auto simp: names_at_def)
      then show ?thesis using d [of j] \<open>j < n\<close> by (simp add: m_def)
    qed
    then show ?thesis using False f by (cases "find (names_at c x) [0..<n]") (auto simp: dir_map_def dir_find_def)
  qed
qed

lemma span_entry: "span (sizeof_dirent * k) (sizeof_dirent * k + sizeof_dirent) \<le> 1"
proof -
  have "sizeof_dirent * k + sizeof_dirent \<le> (sizeof_dirent * k div BSIZE + 1) * BSIZE"
  proof -
    define q where "q = 16 * k div 1024"
    define r where "r = 16 * k mod 1024"
    define t where "t = k mod 64"
    have "16 * k = q * 1024 + r" unfolding q_def r_def by (rule div_mult_mod_eq [symmetric])
    moreover have "r = 16 * t" using mult_mod_right [of 16 k 64] by (simp add: r_def t_def)
    moreover have "t < 64" by (simp add: t_def)
    ultimately have "16 * k + 16 \<le> (q + 1) * 1024" by simp
    then show ?thesis by (simp add: sizeof_dirent_def BSIZE_def q_def)
  qed
  then have "(sizeof_dirent * k + sizeof_dirent + BSIZE - 1) div BSIZE \<le> ((sizeof_dirent * k div BSIZE + 1) * BSIZE + BSIZE - 1) div BSIZE"
    by (intro div_le_mono) simp
  also have "\<dots> = sizeof_dirent * k div BSIZE + 1"
    by (intro div_nat_eqI) (simp_all add: BSIZE_def)
  finally have "(sizeof_dirent * k + sizeof_dirent + BSIZE - 1) div BSIZE - sizeof_dirent * k div BSIZE \<le> 1" by linarith
  then show ?thesis unfolding span_def by presburger
qed


lemma same_view_op:
  assumes "same_view (set bs) s t" "in_op s bs"
  shows "in_op t bs" "file_sep i t K = file_sep i s K"
proof -
  have t: "tstep s t" "view t = view s" "binv t (set bs) []" "lh_block t = lh_block s" "lh_n t = lh_n s"
    using assms(1) by (simp_all add: same_view_def)
  then show "in_op t bs" using in_op_read [OF assms(2)] by blast
  show "file_sep i t K = file_sep i s K"
    using tstep_fs [OF t(1)] tstep_log(2) [OF t(1)] file_cong(1) [OF tstep_fs(3) [OF t(1)] t(2)] by (simp add: file_sep_def Let_def)
qed

lemma dirlookup_ok:
  assumes "binv s P []" "card P < NBUF" "dir_ok dp s K n"
  shows "\<exists>s'. same_view P s s' \<and> dirlookup dp name s =
    (case dir_find (contents dp s K) n (canon name) of
       None \<Rightarrow> Inr (None, s')
     | Some k \<Rightarrow> kbind (iget (i_dev (the_inode dp s)) (ucast (de_inum (dent (contents dp s K) k))) s')
         (\<lambda>(ip, s). Inr (Some (ip, of_nat (sizeof_dirent * k)), s)))"
  using dirlookup_loop_ok [OF assms, of 0 name] assms(3) by (simp add: dirlookup_def dir_find_def dir_ok_def)

lemma dirlink_ok:
  assumes "in_op s bs" "dir_ok dp s K n" "file_sep dp s K" "dp < length (inodes s)" "length bs + 2 < LOGSIZE"
    "dir_map (contents dp s K) n (canon name) = None" "(ucast inum :: uint16) \<noteq> 0"
    "k = free_slot (contents dp s K) n" "sizeof_dirent * max n (Suc k) \<le> K * BSIZE"
  shows "\<exists>s' bs'. dirlink dp name inum s = Inr (0, s') \<and> in_op s' bs' \<and> dir_ok dp s' K (max n (Suc k)) \<and>
    contents dp s' K = put_bytes (sizeof_dirent * k) (make_dirent inum name) (contents dp s K)"
proof -
  note o = in_opD [OF assms(1)]
  have "dir_find (contents dp s K) n (canon name) = None" using assms(6) by (simp add: dir_map_def)
  then obtain s1 where s1: "same_view (set bs) s s1" "dirlookup dp name s = Inr (None, s1)"
    using dirlookup_ok [OF o(1,6) assms(2), of name] by auto
  note D1 = same_viewD [OF s1(1)] and O1 = same_view_op [OF s1(1) assms(1)]
  have ok1: "dir_ok dp s1 K n" using assms(2) D1(4) by simp
  obtain s2 where s2: "same_view (set bs) s1 s2" "dirlink_slot dp 0 s1 = Inr (of_nat (sizeof_dirent * k), s2)"
    using dirlink_slot_ok [OF D1(1) o(6) ok1, of 0] by (auto simp: assms(8) free_slot_def D1(3))
  note D2 = same_viewD [OF s2(1)] and O2 = same_view_op [OF s2(1) O1(1)]
  have ok2: "dir_ok dp s2 K n" using ok1 D2(4) by simp
  have kn: "k \<le> n" using free_slot_le assms(8) by simp
  define off :: uint where "off = of_nat (sizeof_dirent * k)"
  have off: "unat off = sizeof_dirent * k" using dir_small [OF ok2 kn] by (simp add: off_def)
  have n16: "unat (of_nat sizeof_dirent :: uint) = sizeof_dirent" by (simp add: sizeof_dirent_def)
  have "sizeof_dirent * k + sizeof_dirent \<le> sizeof_dirent * max n (Suc k)" by (simp add: sizeof_dirent_def max_def)
  then have fit: "unat off + unat (of_nat sizeof_dirent :: uint) \<le> K * BSIZE" using assms(9) unfolding off n16 by linarith
  have room: "length bs + span (unat off) (unat off + unat (of_nat sizeof_dirent :: uint)) + 1 < LOGSIZE"
    using span_entry [of k] assms(5) unfolding off n16 by linarith
  have "unat off \<le> unat (i_size (the_inode dp s2))" using ok2 kn by (simp add: off dir_ok_def sizeof_dirent_def)
  then obtain s3 bs3 where s3: "writei dp False 0 (make_dirent inum name) off (of_nat sizeof_dirent) s2 = Inr (int sizeof_dirent, s3)"
    "in_op s3 bs3" "file_ok dp s3 K" "contents dp s3 K = put_bytes (sizeof_dirent * k) (make_dirent inum name) (contents dp s2 K)"
    "unat (i_size (the_inode dp s3)) = max (unat (i_size (the_inode dp s2))) (sizeof_dirent * k + sizeof_dirent)"
    "i_type (the_inode dp s3) = i_type (the_inode dp s2)"
    using writei_ok [OF O2(1) _ _ _ _ fit _ room, of dp "make_dirent inum name" 0] ok2 assms(3,4) O1(2) O2(2) D1(5) D2(5)
      make_dirent_fields(1) unfolding off n16 dir_ok_def by auto
  have "dirlink dp name inum s = Inr (0, s3)" using s1(2) s2(2) s3(1) by (simp add: dirlink_def off_def)
  moreover have "max (sizeof_dirent * n) (sizeof_dirent * k + sizeof_dirent) = sizeof_dirent * max n (Suc k)" by (simp add: max_def sizeof_dirent_def)
  then have "dir_ok dp s3 K (max n (Suc k))" using ok2 s3(3,5,6) assms(9) by (simp add: dir_ok_def)
  moreover have "contents dp s2 K = contents dp s K" using D1(3) D2(3) by simp
  ultimately show ?thesis using s3(2,4) by auto
qed

section \<open>Properties\<close>

text \<open>
  C7 \<^verbatim>\<open>dirlink\<close> adds the name to the map the directory stands for, and \<^verbatim>\<open>dirlookup\<close> finds it. Inside an operation
  with room for two more blocks in the log, for a name that is not in the directory and an inode number that is
  not 0 as 16 bits, \<^verbatim>\<open>dirlink\<close> returns 0; the directory then maps the name to the number and every other name as
  before; a following \<^verbatim>\<open>dirlookup\<close> takes the inode with that number and gives the place of the entry.
\<close>

theorem dirlink_then_dirlookup:
  assumes "in_op s bs" "dir_ok dp s K n" "file_sep dp s K" "dp < length (inodes s)" "length bs + 2 < LOGSIZE"
    "dir_map (contents dp s K) n (canon name) = None" "(ucast inum :: uint16) \<noteq> 0"
    "k = free_slot (contents dp s K) n" "sizeof_dirent * max n (Suc k) \<le> K * BSIZE"
  shows "\<exists>s' bs' s''. dirlink dp name inum s = Inr (0, s') \<and> in_op s' bs' \<and> dir_ok dp s' K (max n (Suc k)) \<and>
    dir_map (contents dp s' K) (max n (Suc k)) = (dir_map (contents dp s K) n)(canon name \<mapsto> ucast inum) \<and>
    view s'' = view s' \<and> inodes s'' = inodes s' \<and>
    dirlookup dp name s' = kbind (iget (i_dev (the_inode dp s')) (ucast (ucast inum :: uint16)) s'')
      (\<lambda>(ip, s). Inr (Some (ip, of_nat (sizeof_dirent * k)), s))"
proof -
  let ?c = "contents dp s K" and ?m = "max n (Suc k)" and ?e = "make_dirent inum name"
  obtain s' bs' where r: "dirlink dp name inum s = Inr (0, s')" "in_op s' bs'" "dir_ok dp s' K ?m"
    "contents dp s' K = put_bytes (sizeof_dirent * k) ?e ?c"
    using dirlink_ok [OF assms] by blast
  have len: "length ?c = K * BSIZE" by (rule length_contents [OF in_opD(1) [OF assms(1)]])
  have m: "dir_map (contents dp s' K) ?m = (dir_map ?c n)(canon name \<mapsto> ucast inum)"
    using dir_map_insert [OF assms(6,8), of ?e] assms(7,9) len make_dirent_fields unfolding r(4) by simp
  then have "dir_map (contents dp s' K) ?m (canon name) = Some (ucast inum)" by simp
  then obtain j where j: "dir_find (contents dp s' K) ?m (canon name) = Some j" "de_inum (dent (contents dp s' K) j) = ucast inum"
    by (auto simp: dir_map_def)
  have "names_at (contents dp s' K) (canon name) j" "j < ?m" using j(1) by (auto simp: dir_find_def dest: find_upt_Some [THEN iffD1])
  have "j = k"
  proof (rule ccontr)
    assume ne: "j \<noteq> k"
    have jn: "j < n" using \<open>j < ?m\<close> ne free_slot_le [of ?c n] assms(8) by auto
    have "sizeof_dirent * j + sizeof_dirent \<le> sizeof_dirent * ?m" "sizeof_dirent * k + sizeof_dirent \<le> sizeof_dirent * ?m"
      using \<open>j < ?m\<close> by (simp_all add: sizeof_dirent_def max_def split: if_splits)
    then have "dent (contents dp s' K) j = dent ?c j"
      using dent_put [of k ?c ?e j] make_dirent_fields(1) assms(9) len ne unfolding r(4) by simp
    then have "names_at ?c (canon name) j" using \<open>names_at (contents dp s' K) (canon name) j\<close> by (simp add: names_at_def)
    then show False using assms(6) jn by (simp add: dir_map_def dir_find_def find_upt_None)
  qed
  obtain s'' where "same_view (set bs') s' s''" "dirlookup dp name s' =
      kbind (iget (i_dev (the_inode dp s')) (ucast (ucast inum :: uint16)) s'') (\<lambda>(ip, s). Inr (Some (ip, of_nat (sizeof_dirent * k)), s))"
    using dirlookup_ok [OF in_opD(1,6) [OF r(2)] r(3), of name] j unfolding \<open>j = k\<close> by auto
  then show ?thesis using r(1-3) m same_viewD(5,6) [of "set bs'" s' s''] by auto
qed

text \<open>
  C21 \<^verbatim>\<open>dirlookup\<close> decides the map: it returns nothing for a name that is not in the directory, and otherwise the
  inode of the first entry in use with that name; blocks, inodes and log stay as they are.
\<close>

theorem dirlookup_decides_map:
  assumes "binv s P []" "card P < NBUF" "dir_ok dp s K n"
  shows "\<exists>s'. view s' = view s \<and> inodes s' = inodes s \<and>
    dirlookup dp name s = (case dir_map (contents dp s K) n (canon name) of
       None \<Rightarrow> Inr (None, s')
     | Some inum \<Rightarrow> kbind (iget (i_dev (the_inode dp s)) (ucast inum) s')
         (\<lambda>(ip, t). Inr (Some (ip, of_nat (sizeof_dirent * the (dir_find (contents dp s K) n (canon name)))), t)))"
proof -
  obtain s' where s': "same_view P s s'" "dirlookup dp name s =
    (case dir_find (contents dp s K) n (canon name) of
       None \<Rightarrow> Inr (None, s')
     | Some k \<Rightarrow> kbind (iget (i_dev (the_inode dp s)) (ucast (de_inum (dent (contents dp s K) k))) s')
         (\<lambda>(ip, s). Inr (Some (ip, of_nat (sizeof_dirent * k)), s)))"
    using dirlookup_ok [OF assms] by blast
  note v = same_viewD(5,6) [OF s'(1)]
  show ?thesis
  proof (cases "dir_find (contents dp s K) n (canon name)")
    case None
    then show ?thesis using s'(2) v by (intro exI [of _ s']) (simp add: dir_map_def)
  next
    case (Some k)
    then have e: "the (dir_find (contents dp s K) n (canon name)) = k" by simp
    show ?thesis by (subst e) (use s'(2) v Some in \<open>intro exI [of _ s'], simp add: dir_map_def\<close>)
  qed
qed


text \<open>
  A directory for the evaluation: the file of theory Filedata as a directory of 64 entries that all have the name
  of fourteen 7s. The new entry goes to the second block.
\<close>

lemma file_reinode:
  assumes "i < length (inodes s)" "i_dev (f (the_inode i s)) = i_dev (the_inode i s)" "i_inum (f (the_inode i s)) = i_inum (the_inode i s)"
    "i_addrs (f (the_inode i s)) = i_addrs (the_inode i s)"
  shows "the_inode i (upd_inode i f s) = f (the_inode i s)" "contents i (upd_inode i f s) K = contents i s K"
    "file_ok i (upd_inode i f s) K = file_ok i s K" "file_sep i (upd_inode i f s) K = file_sep i s K"
    "in_op (upd_inode i f s) bs = in_op s bs" "length (inodes (upd_inode i f s)) = length (inodes s)"
proof -
  show ti: "the_inode i (upd_inode i f s) = f (the_inode i s)" and "in_op (upd_inode i f s) bs = in_op s bs"
    and "length (inodes (upd_inode i f s)) = length (inodes s)"
    using assms(1) by (simp_all add: upd_inode_def the_inode_def in_op_inodes)
  have v: "view (upd_inode i f s) = view s" "sb (upd_inode i f s) = sb s" "log_start (upd_inode i f s) = log_start s"
    by (simp_all add: upd_inode_def in_op_inodes)
  have b: "fblock i (upd_inode i f s) = fblock i s" by (simp add: fblock_def fun_eq_iff ti v assms(4))
  show "contents i (upd_inode i f s) K = contents i s K" "file_ok i (upd_inode i f s) K = file_ok i s K"
    "file_sep i (upd_inode i f s) K = file_sep i s K"
    by (simp_all add: contents_def file_ok_def file_sep_def b ti v assms(2-4))
qed

definition dir_machine :: fs where
  "dir_machine = upd_inode 0 (\<lambda>ip. ip\<lparr>i_type := T_DIR, i_size := 1024\<rparr>) file_machine"

lemma dir_machine_facts:
  "in_op dir_machine [46]" "dir_ok 0 dir_machine 2 64" "file_sep 0 dir_machine 2" "0 < length (inodes dir_machine)"
  "contents 0 dir_machine 2 = replicate BSIZE 7 @ replicate BSIZE 0" "i_dev (the_inode 0 dir_machine) = ROOTDEV"
proof -
  have i: "0 < length (inodes file_machine)" by (simp add: file_machine_inode)
  note r = file_reinode [of 0 file_machine "\<lambda>ip. ip\<lparr>i_type := T_DIR, i_size := 1024\<rparr>", OF i, folded dir_machine_def, simplified]
  show "in_op dir_machine [46]" "file_sep 0 dir_machine 2" "contents 0 dir_machine 2 = replicate BSIZE 7 @ replicate BSIZE 0"
    using r(2,4,5) file_machine_in_op file_machine_file(2) file_machine_contents by (simp_all only:)
  show "0 < length (inodes dir_machine)" "i_dev (the_inode 0 dir_machine) = ROOTDEV"
    using r(1,6) i by (simp_all add: the_inode_def file_machine_inode)
  show "dir_ok 0 dir_machine 2 64" using r(1,3) file_machine_file(1) by (simp add: dir_ok_def sizeof_dirent_def BSIZE_def)
qed

lemma dir_machine_dent: "k < 64 \<Longrightarrow> dent (contents 0 dir_machine 2) k = replicate 16 7"
  unfolding dir_machine_facts(5) dent_def by (rule nth_equalityI) (simp_all add: sizeof_dirent_def BSIZE_def nth_append)

lemma dir_machine_names:
  "k < 64 \<Longrightarrow> de_inum (dent (contents 0 dir_machine 2) k) = 0x0707 \<and> canon (de_name (dent (contents 0 dir_machine 2) k)) = replicate 14 7"
proof -
  have "de_inum (replicate 16 7) = 0x0707 \<and> canon (de_name (replicate 16 7)) = replicate 14 7" by code_simp
  then show "k < 64 \<Longrightarrow> ?thesis" by (simp only: dir_machine_dent)
qed

lemma dir_machine_map: "dir_map (contents 0 dir_machine 2) 64 [5] = None" "free_slot (contents 0 dir_machine 2) 64 = 64"
proof -
  have ne: "replicate 14 (7 :: uint8) \<noteq> [5]" by (simp add: numeral_eq_Suc)
  have "\<not> names_at (contents 0 dir_machine 2) [5] k" if "k < 64" for k
    using dir_machine_names [OF that] ne unfolding names_at_def by metis
  then have "dir_find (contents 0 dir_machine 2) 64 [5] = None" unfolding dir_find_def find_upt_None by blast
  then show "dir_map (contents 0 dir_machine 2) 64 [5] = None" by (simp add: dir_map_def)
  have "find (\<lambda>k. de_inum (dent (contents 0 dir_machine 2) k) = 0) [0..<64] = None"
    unfolding find_upt_None using dir_machine_names by simp
  then show "free_slot (contents 0 dir_machine 2) 64 = 64" by (simp add: free_slot_def)
qed

theorem dirlink_then_dirlookup_witness:
  "\<exists>s' s''. dirlink 0 [5] 3 dir_machine = Inr (0, s') \<and> dir_map (contents 0 s' 2) 65 [5] = Some 3 \<and>
    dirlookup 0 [5] s' = kbind (iget (i_dev (the_inode 0 s')) 3 s'') (\<lambda>(ip, s). Inr (Some (ip, 1024), s))"
proof -
  have c: "canon [5] = [5]" by (simp add: canon_def DIRSIZ_def)
  show ?thesis
    using dirlink_then_dirlookup [OF dir_machine_facts(1-4), of "[5]" 3 64] dir_machine_map
    by (auto simp: c LOGSIZE_eq BSIZE_def sizeof_dirent_def)
qed

theorem dirlookup_decides_map_witness:
  "\<exists>s'. dirlookup 0 [5] dir_machine = Inr (None, s') \<and> view s' = view dir_machine"
proof -
  have c: "canon [5] = [5]" by (simp add: canon_def DIRSIZ_def)
  show ?thesis
    using dirlookup_decides_map [OF in_opD(1,6) [OF dir_machine_facts(1)] dir_machine_facts(2), of "[5]"] dir_machine_map(1)
    by (auto simp: c)
qed

end
