(* ===== verification/Umalloc.thy ===== *)
theory Umalloc
  imports Printf
begin

text \<open>
  The memory allocator of user programs (\<^verbatim>\<open>user/umalloc.c\<close>): a circular list of free blocks in the order of
  their addresses, entered at \<^verbatim>\<open>freep\<close>, with the static header \<^verbatim>\<open>base\<close> of size 0. Addresses are natural
  numbers (a process is far smaller than the 64-bit address space); \<^verbatim>\<open>uint\<close> sizes wrap where the code adds
  them. A header is at most read and written through its two fields, so memory is the pair of maps
  \<open>hptr\<close> and \<open>hsz\<close>. Loops that C does not bound are partial functions: \<open>None\<close> is a loop without end.
\<close>

section \<open>The allocator\<close>

record uheap =
  hptr :: "nat \<Rightarrow> nat"
  hsz :: "nat \<Rightarrow> nat"
  freep :: nat
  base :: nat
  brk :: nat

definition sizeof_Header :: nat where "sizeof_Header = 16"

definition set_ptr :: "nat \<Rightarrow> nat \<Rightarrow> uheap \<Rightarrow> uheap" where "set_ptr p v h = h\<lparr>hptr := (hptr h)(p := v)\<rparr>"
definition set_sz :: "nat \<Rightarrow> nat \<Rightarrow> uheap \<Rightarrow> uheap" where "set_sz p v h = h\<lparr>hsz := (hsz h)(p := v mod 2 ^ 32)\<rparr>"

text \<open>The address \<open>n\<close> headers behind \<open>p\<close>.\<close>

definition units :: "nat \<Rightarrow> nat \<Rightarrow> nat" where "units p n = p + n * sizeof_Header"

partial_function (option) free_find :: "uheap \<Rightarrow> nat \<Rightarrow> nat \<Rightarrow> nat option" where
  "free_find h bp p =
     (if bp > p \<and> bp < hptr h p then Some p
      else if p \<ge> hptr h p \<and> (bp > p \<or> bp < hptr h p) then Some p
      else free_find h bp (hptr h p))"

definition free_at :: "nat \<Rightarrow> nat \<Rightarrow> uheap \<Rightarrow> uheap" where
  "free_at bp p h =
     (let h = (if units bp (hsz h bp) = hptr h p
               then set_ptr bp (hptr h (hptr h p)) (set_sz bp (hsz h bp + hsz h (hptr h p)) h)
               else set_ptr bp (hptr h p) h);
          h = (if units p (hsz h p) = bp
               then set_ptr p (hptr h bp) (set_sz p (hsz h p + hsz h bp) h)
               else set_ptr p bp h)
      in h\<lparr>freep := p\<rparr>)"

definition ufree :: "nat \<Rightarrow> uheap \<Rightarrow> uheap option" where
  "ufree ap h = map_option (\<lambda>p. free_at (ap - sizeof_Header) p h) (free_find h (ap - sizeof_Header) (freep h))"

text \<open>
  \<^verbatim>\<open>sbrk(n)\<close> as the kernel does it (\<^verbatim>\<open>sys_sbrk\<close>, \<^verbatim>\<open>growproc\<close>): the old size of the process, after growing by \<open>n\<close>
  bytes when \<open>grant\<close>, the kernel, has the memory for it; a negative \<open>n\<close> shrinks the process, one that would leave
  less than nothing changes nothing.
\<close>

definition sbrk :: "(nat \<Rightarrow> nat \<Rightarrow> bool) \<Rightarrow> int \<Rightarrow> uheap \<Rightarrow> nat option \<times> uheap" where
  "sbrk grant n h =
     (if 0 < n then
        (if grant (brk h) (brk h + nat n) then (Some (brk h), h\<lparr>brk := brk h + nat n\<rparr>) else (None, h))
      else if nat (- n) \<le> brk h then (Some (brk h), h\<lparr>brk := brk h - nat (- n)\<rparr>)
      else (Some (brk h), h))"

text \<open>The conversion of the \<^verbatim>\<open>unsigned long\<close> product to the \<^verbatim>\<open>int\<close> parameter of \<^verbatim>\<open>sbrk\<close>.\<close>

definition to_int32 :: "nat \<Rightarrow> int" where "to_int32 n = sint (of_nat n :: 32 word)"

definition morecore :: "(nat \<Rightarrow> nat \<Rightarrow> bool) \<Rightarrow> nat \<Rightarrow> uheap \<Rightarrow> (nat \<times> uheap) option" where
  "morecore grant nu h =
     (let nu = (if nu < 4096 then 4096 else nu) in
      case sbrk grant (to_int32 (nu * sizeof_Header)) h of
        (None, h) \<Rightarrow> Some (0, h)
      | (Some hp, h) \<Rightarrow> map_option (\<lambda>h. (freep h, h)) (ufree (hp + sizeof_Header) (set_sz hp nu h)))"

definition take_block :: "nat \<Rightarrow> nat \<Rightarrow> nat \<Rightarrow> uheap \<Rightarrow> nat \<times> uheap" where
  "take_block nunits prevp p h =
     (let (p, h) = (if hsz h p = nunits then (p, set_ptr prevp (hptr h p) h)
                    else (let h = set_sz p (hsz h p - nunits) h; p = units p (hsz h p) in (p, set_sz p nunits h)))
      in (p + sizeof_Header, h\<lparr>freep := prevp\<rparr>))"

partial_function (option) malloc_loop :: "(nat \<Rightarrow> nat \<Rightarrow> bool) \<Rightarrow> nat \<Rightarrow> nat \<Rightarrow> nat \<Rightarrow> uheap \<Rightarrow> (nat \<times> uheap) option" where
  "malloc_loop grant nunits prevp p h =
     (if hsz h p \<ge> nunits then Some (take_block nunits prevp p h)
      else if p = freep h then
        Option.bind (morecore grant nunits h) (\<lambda>(p, h). if p = 0 then Some (0, h) else malloc_loop grant nunits p (hptr h p) h)
      else malloc_loop grant nunits p (hptr h p) h)"

definition nunits_of :: "nat \<Rightarrow> nat" where
  "nunits_of nbytes = (nbytes + sizeof_Header - 1) div sizeof_Header + 1"

definition uinit :: "uheap \<Rightarrow> uheap" where
  "uinit h = (if freep h = 0 then set_sz (base h) 0 (set_ptr (base h) (base h) (h\<lparr>freep := base h\<rparr>)) else h)"

definition malloc :: "(nat \<Rightarrow> nat \<Rightarrow> bool) \<Rightarrow> nat \<Rightarrow> uheap \<Rightarrow> (nat \<times> uheap) option" where
  "malloc grant nbytes h = (let h = uinit h in malloc_loop grant (nunits_of nbytes) (freep h) (hptr h (freep h)) h)"

lemmas upd_defs = set_ptr_def set_sz_def units_def sizeof_Header_def

section \<open>The invariant\<close>

text \<open>The list of the headers from \<open>p\<close> until \<open>q\<close>.\<close>

fun path :: "(nat \<Rightarrow> nat) \<Rightarrow> nat \<Rightarrow> nat list \<Rightarrow> nat \<Rightarrow> bool" where
  "path f p [] q \<longleftrightarrow> p = q"
| "path f p (x # xs) q \<longleftrightarrow> p = x \<and> path f (f p) xs q"

lemma path_append [simp]: "path f p (xs @ ys) q \<longleftrightarrow> (\<exists>r. path f p xs r \<and> path f r ys q)"
  by (induction xs arbitrary: p) auto

lemma path_upd [simp]: "x \<notin> set xs \<Longrightarrow> path (f(x := v)) p xs q = path f p xs q"
  by (induction xs arbitrary: p) auto

text \<open>
  The heap \<open>h\<close> with the allocated blocks \<open>A\<close> (addresses of headers) and the free blocks \<open>xs\<close>, all from \<open>lo\<close>
  on: the free blocks are the list behind \<^verbatim>\<open>base\<close>, in ascending order; no two blocks overlap; no two free
  blocks are adjacent.
\<close>

definition blocks_ok :: "nat \<Rightarrow> nat set \<Rightarrow> uheap \<Rightarrow> bool" where
  "blocks_ok lo B h \<longleftrightarrow>
     (\<forall>x\<in>B. lo \<le> x \<and> 0 < hsz h x \<and> units x (hsz h x) \<le> brk h) \<and>
     (\<forall>x\<in>B. \<forall>y\<in>B. x < y \<longrightarrow> units x (hsz h x) \<le> y)"

definition heap_inv :: "nat \<Rightarrow> nat set \<Rightarrow> nat list \<Rightarrow> uheap \<Rightarrow> bool" where
  "heap_inv lo A xs h \<longleftrightarrow>
     0 < base h \<and> units (base h) 1 \<le> lo \<and> brk h \<le> 2 ^ 36 \<and> hsz h (base h) = 0 \<and>
     path (hptr h) (base h) (base h # xs) (base h) \<and> freep h \<in> set (base h # xs) \<and>
     sorted_wrt (<) xs \<and> set xs \<inter> A = {} \<and> blocks_ok lo (set xs \<union> A) h \<and>
     (\<forall>x\<in>set xs. \<forall>y\<in>set xs. units x (hsz h x) \<noteq> y)"

lemma heap_invD:
  assumes "heap_inv lo A xs h"
  shows "0 < base h" "units (base h) 1 \<le> lo" "brk h \<le> 2 ^ 36" "hsz h (base h) = 0"
    "path (hptr h) (base h) (base h # xs) (base h)" "freep h \<in> set (base h # xs)"
    "sorted_wrt (<) xs" "set xs \<inter> A = {}" "blocks_ok lo (set xs \<union> A) h" "\<forall>x\<in>set xs. \<forall>y\<in>set xs. units x (hsz h x) \<noteq> y"
  using assms by (simp_all add: heap_inv_def)

lemma blocks_okD:
  assumes "blocks_ok lo B h"
  shows "x \<in> B \<Longrightarrow> lo \<le> x" "x \<in> B \<Longrightarrow> 0 < hsz h x" "x \<in> B \<Longrightarrow> units x (hsz h x) \<le> brk h"
    "x \<in> B \<Longrightarrow> y \<in> B \<Longrightarrow> x < y \<Longrightarrow> units x (hsz h x) \<le> y"
  using assms by (simp_all add: blocks_ok_def)

lemma above_base: "heap_inv lo A xs h \<Longrightarrow> x \<in> set xs \<union> A \<Longrightarrow> base h < x"
  using blocks_okD(1) [OF heap_invD(9)] heap_invD(2) by (fastforce simp: units_def sizeof_Header_def)

text \<open>The search of \<^verbatim>\<open>free\<close> finds the last free block (or \<^verbatim>\<open>base\<close>) before \<open>bp\<close>.\<close>

definition stops :: "uheap \<Rightarrow> nat \<Rightarrow> nat \<Rightarrow> bool" where
  "stops h bp p \<longleftrightarrow> bp > p \<and> bp < hptr h p \<or> p \<ge> hptr h p \<and> (bp > p \<or> bp < hptr h p)"

lemma free_find_step: "free_find h bp p = (if stops h bp p then Some p else free_find h bp (hptr h p))"
  by (subst free_find.simps) (auto simp: stops_def)

lemma free_find_path: "path (hptr h) p zs q \<Longrightarrow> \<forall>z\<in>set zs. \<not> stops h bp z \<Longrightarrow> free_find h bp p = free_find h bp q"
  by (induction zs arbitrary: p) (auto simp: free_find_step)

text \<open>The ring cut behind \<open>p\<close>.\<close>

lemma ring_split:
  assumes "path f b (as @ p # cs) b"
  shows "path f b as p" "path f (f p) cs b" "f p = hd (cs @ [b])"
  using assms by (cases cs; auto)+

lemma sorted_hd: "sorted_wrt (<) l \<Longrightarrow> c \<in> set l \<Longrightarrow> hd l \<le> (c :: nat)"
  by (cases l) auto

lemma split_at:
  assumes "sorted_wrt (<) (b # xs)" "b < (bp :: nat)" "bp \<notin> set xs"
  obtains as p cs where "b # xs = as @ p # cs" "p < bp" "\<forall>c\<in>set cs. bp < c" "\<forall>a\<in>set as. a < p"
proof -
  let ?as = "takeWhile (\<lambda>x. x < bp) (b # xs)" let ?cs = "dropWhile (\<lambda>x. x < bp) (b # xs)"
  have ne: "?as \<noteq> []" using assms(2) by simp
  have e: "b # xs = butlast ?as @ last ?as # ?cs" using ne by (metis append.assoc append_Cons append_Nil append_butlast_last_id takeWhile_dropWhile_id)
  have "bp < c" if c: "c \<in> set ?cs" for c
  proof -
    have h: "\<not> hd ?cs < bp" using c hd_dropWhile [of "\<lambda>x. x < bp" "b # xs"] by (cases ?cs) auto
    have "sorted_wrt (<) ?cs" using assms(1) by (metis sorted_wrt_append takeWhile_dropWhile_id)
    then have "hd ?cs \<le> c" using c by (rule sorted_hd)
    moreover have "c \<in> set (b # xs)" using c set_dropWhileD by metis
    ultimately have "bp \<le> c" "c \<noteq> bp" using h assms(2,3) by (linarith, auto)
    then show ?thesis by linarith
  qed
  moreover have "last ?as < bp" using ne last_in_set set_takeWhileD by metis
  moreover have "sorted_wrt (<) (butlast ?as @ last ?as # ?cs)" using assms(1) by (metis e)
  then have "\<forall>a\<in>set (butlast ?as). a < last ?as" unfolding sorted_wrt_append by (metis list.set_intros(1))
  ultimately show ?thesis using that [OF e] by metis
qed

lemma free_find_pred:
  assumes "path (hptr h) b ys b" "ys = as @ p # cs" "hd ys = b" "sorted_wrt (<) ys" "p < bp" "\<forall>c\<in>set cs. bp < c" "q \<in> set ys" "b < bp"
  shows "free_find h bp q = Some p"
proof -
  have path: "path (hptr h) b as p" "path (hptr h) (hptr h p) cs b" "hptr h p = hd (cs @ [b])"
    by (fact ring_split [OF assms(1) [unfolded assms(2)]])+
  have stop: "stops h bp p"
  proof (cases cs)
    case Nil
    have "p \<in> set ys" by (simp add: assms(2))
    then have "b \<le> p" using sorted_hd [OF assms(4)] unfolding assms(3) by blast
    then show ?thesis using path(3) assms(5) by (simp add: stops_def Nil)
  qed (use path(3) assms(5,6) in \<open>simp add: stops_def\<close>)
  have as_next: "\<not> stops h bp a" if "a \<in> set as" for a
  proof -
    obtain us vs where s: "as = us @ a # vs" using split_list [OF \<open>a \<in> set as\<close>] by blast
    have "path (hptr h) (hptr h a) vs p" using path(1) unfolding s by auto
    then have "hptr h a \<in> set (vs @ [p])" by (cases vs) auto
    moreover have "\<forall>v\<in>set (vs @ [p]). a < v \<and> v \<le> p" using assms(4) unfolding assms(2) s by (auto simp: sorted_wrt_append)
    ultimately have "a < hptr h a" "hptr h a \<le> p" by auto
    then show ?thesis using assms(5) by (auto simp: stops_def)
  qed
  have cs_next: "\<not> stops h bp c" if "c \<in> set cs" for c
  proof -
    obtain us vs where s: "cs = us @ c # vs" using split_list [OF \<open>c \<in> set cs\<close>] by blast
    have "path (hptr h) (hptr h c) vs b" using path(2) unfolding s by auto
    then consider "hptr h c \<in> set vs" | "hptr h c = b" by (cases vs) auto
    then show ?thesis
    proof cases
      case 1
      then have "c < hptr h c" using assms(4) unfolding assms(2) s by (auto simp: sorted_wrt_append)
      then show ?thesis using assms(6) that by (auto simp: stops_def)
    next
      case 2
      then show ?thesis using assms(6,8) that by (auto simp: stops_def)
    qed
  qed
  have b: "free_find h bp b = Some p"
    using free_find_path [OF path(1), of bp] as_next stop by (simp add: free_find_step [of h bp p])
  from assms(7) consider "q \<in> set as" | "q = p" | "q \<in> set cs" unfolding assms(2) by auto
  then show ?thesis
  proof cases
    case 1
    then obtain us vs where s: "as = us @ q # vs" using split_list by metis
    then have "path (hptr h) q (q # vs) p" using path(1) by auto
    from free_find_path [OF this, of bp] show ?thesis using as_next s stop by (simp add: free_find_step [of h bp p])
  next
    case 3
    then obtain us vs where s: "cs = us @ q # vs" by (metis split_list)
    then have "path (hptr h) q (q # vs) b" using path(2) by auto
    from free_find_path [OF this, of bp] show ?thesis using cs_next s b by simp
  qed (simp add: free_find_step [of h bp p] stop)
qed


section \<open>Free\<close>

text \<open>The invariant while \<^verbatim>\<open>free\<close> is at work: adjacent free blocks are allowed, and \<^verbatim>\<open>freep\<close> does not matter.\<close>

definition inv0 :: "nat \<Rightarrow> nat set \<Rightarrow> nat list \<Rightarrow> uheap \<Rightarrow> bool" where
  "inv0 lo A xs h \<longleftrightarrow>
     0 < base h \<and> units (base h) 1 \<le> lo \<and> brk h \<le> 2 ^ 36 \<and> hsz h (base h) = 0 \<and>
     path (hptr h) (base h) (base h # xs) (base h) \<and>
     sorted_wrt (<) xs \<and> set xs \<inter> A = {} \<and> blocks_ok lo (set xs \<union> A) h"

lemma heap_inv_iff:
  "heap_inv lo A xs h \<longleftrightarrow> inv0 lo A xs h \<and> freep h \<in> set (base h # xs) \<and> (\<forall>x\<in>set xs. \<forall>y\<in>set xs. units x (hsz h x) \<noteq> y)"
  by (auto simp: heap_inv_def inv0_def)

definition space :: "uheap \<Rightarrow> nat list \<Rightarrow> nat set" where
  "space h xs = (\<Union>x\<in>set xs. {x..<units x (hsz h x)})"

lemma freep_irrelevant [simp]:
  "inv0 lo A xs (h\<lparr>freep := p\<rparr>) = inv0 lo A xs h" "space (h\<lparr>freep := p\<rparr>) xs = space h xs"
  by (simp_all add: inv0_def blocks_ok_def space_def)

definition insert_block :: "nat \<Rightarrow> nat \<Rightarrow> uheap \<Rightarrow> uheap" where
  "insert_block bp p h = set_ptr p bp (set_ptr bp (hptr h p) h)"

definition merge :: "nat \<Rightarrow> uheap \<Rightarrow> uheap" where
  "merge x h = set_ptr x (hptr h (hptr h x)) (set_sz x (hsz h x + hsz h (hptr h x)) h)"

text \<open>\<open>free_at\<close> inserts the block and merges it with its neighbours.\<close>

definition merge_if :: "bool \<Rightarrow> nat \<Rightarrow> uheap \<Rightarrow> uheap" where
  "merge_if b x h = (if b then merge x h else h)"

lemma free_at_merges:
  assumes "bp \<noteq> p" "units bp (hsz h bp) = hptr h p \<Longrightarrow> p \<noteq> hptr h p" "bp \<noteq> hptr h p"
  shows "free_at bp p h =
    (merge_if (units p (hsz h p) = bp) p (merge_if (units bp (hsz h bp) = hptr h p) bp (insert_block bp p h)))\<lparr>freep := p\<rparr>"
  using assms by (auto simp: free_at_def merge_if_def merge_def insert_block_def set_ptr_def set_sz_def Let_def fun_upd_twist)

lemma inv0_base: "inv0 lo A xs h \<Longrightarrow> x \<in> set xs \<union> A \<Longrightarrow> base h < x"
  using blocks_okD(1) [of lo "set xs \<union> A" h x] by (fastforce simp: inv0_def units_def sizeof_Header_def)

lemma inv0_insert:
  assumes "inv0 lo A xs h" "bp \<in> A" "base h # xs = as @ p # cs" "p < bp" "\<forall>c\<in>set cs. bp < c" "\<forall>a\<in>set as. a < p"
  shows "inv0 lo (A - {bp}) (tl (as @ p # bp # cs)) (insert_block bp p h)"
proof -
  let ?b = "base h" let ?xs = "tl (as @ p # bp # cs)"
  have e: "?b # ?xs = as @ p # bp # cs" using assms(3) by (cases as) auto
  have i: "0 < ?b" "units ?b 1 \<le> lo" "brk h \<le> 2 ^ 36" "hsz h ?b = 0" "path (hptr h) ?b (as @ p # cs) ?b" "sorted_wrt (<) xs"
    "set xs \<inter> A = {}" "blocks_ok lo (set xs \<union> A) h" using assms(1) unfolding inv0_def assms(3) by simp_all
  have s: "sorted_wrt (<) (as @ p # cs)" unfolding assms(3) [symmetric] using i(6) inv0_base [OF assms(1)] by simp
  have path: "path (hptr h) ?b as p" "path (hptr h) (hptr h p) cs ?b" by (fact ring_split [OF i(5)])+
  have ni: "bp \<notin> set (?b # xs)" using i(7) assms(2) inv0_base [OF assms(1), of bp] by auto
  have d: "p \<notin> set as" "p \<notin> set cs" "bp \<notin> set as" "bp \<notin> set cs" "p \<noteq> bp"
    using assms(4-6) ni unfolding assms(3) by auto
  let ?f = "(hptr h)(bp := hptr h p, p := bp)"
  have "path ?f ?b as p" "path ?f (hptr h p) cs ?b" using path d by simp_all
  then have "path ?f ?b (as @ p # bp # cs) ?b" using d by auto
  moreover have "set ?xs = insert bp (set xs)"
  proof -
    have "insert ?b (set ?xs) = insert bp (insert ?b (set xs))" using arg_cong [OF e, of set] arg_cong [OF assms(3), of set] by auto
    moreover have "?b \<notin> set xs" using inv0_base [OF assms(1), of ?b] by auto
    moreover have "?b \<notin> set ?xs" "?b \<noteq> bp"
    proof -
      have "sorted_wrt (<) (as @ p # bp # cs)" using s assms(4-6) by (auto simp: sorted_wrt_append)
      then have "sorted_wrt (<) (?b # ?xs)" unfolding e .
      then show "?b \<notin> set ?xs" by auto
      show "?b \<noteq> bp" using ni by auto
    qed
    ultimately show ?thesis by (metis Diff_insert_absorb insert_Diff_if insertE insert_iff)
  qed
  moreover have "sorted_wrt (<) (as @ p # bp # cs)" using s assms(4-6) by (auto simp: sorted_wrt_append)
  then have "sorted_wrt (<) (?b # ?xs)" by (simp only: e)
  then have "sorted_wrt (<) ?xs" by simp
  moreover have "insert bp (set xs) \<union> (A - {bp}) = set xs \<union> A" using assms(2) by auto
  ultimately show ?thesis
    using i unfolding inv0_def insert_block_def set_ptr_def by (auto simp: e blocks_ok_def simp del: path.simps(2))
qed

lemma small_size:
  assumes "blocks_ok lo B h" "x \<in> B" "brk h \<le> 2 ^ 36" "0 < lo"
  shows "hsz h x < 2 ^ 32"
  using blocks_okD(1,3) [OF assms(1,2)] assms(3,4) by (simp add: units_def sizeof_Header_def)

lemma inv0_merge:
  assumes "inv0 lo A xs h" "xs = us @ x # y # cs" "units x (hsz h x) = y"
  shows "inv0 lo A (us @ x # cs) (merge x h)" "hsz (merge x h) = (hsz h)(x := hsz h x + hsz h y)"
    "base (merge x h) = base h" "brk (merge x h) = brk h" "space (merge x h) (us @ x # cs) = space h xs"
proof -
  let ?b = "base h"
  have i: "0 < ?b" "units ?b 1 \<le> lo" "brk h \<le> 2 ^ 36" "hsz h ?b = 0" "path (hptr h) ?b (?b # us @ x # y # cs) ?b" "sorted_wrt (<) xs"
    "set xs \<inter> A = {}" "blocks_ok lo (set xs \<union> A) h"
    using assms(1) unfolding inv0_def assms(2) by (simp_all del: path.simps path_append)
  have y: "hptr h x = y" using i(5) by auto
  have xb: "?b < x" using inv0_base [OF assms(1), of x] by (simp add: assms(2))
  have nx: "x \<notin> set us" "x \<notin> set cs" "x \<noteq> y" "y \<notin> set us" "y \<notin> set cs" "x < y" using i(6) unfolding assms(2) by (auto simp: sorted_wrt_append)
  have ends: "units x (hsz h x + hsz h y) = units y (hsz h y)" using assms(3) by (auto simp: units_def sizeof_Header_def)
  have "units y (hsz h y) \<le> brk h" "lo \<le> x" using blocks_okD(1,3) [OF i(8)] by (simp_all add: assms(2))
  then have "units x (hsz h x + hsz h y) \<le> brk h" "0 < lo" using ends i(1,2) by (simp_all add: units_def sizeof_Header_def)
  then have small: "hsz h x + hsz h y < 2 ^ 32" using i(3) \<open>lo \<le> x\<close> by (simp add: units_def sizeof_Header_def)
  show hz: "hsz (merge x h) = (hsz h)(x := hsz h x + hsz h y)" using small by (simp add: merge_def y set_ptr_def set_sz_def)
  show bb: "base (merge x h) = base h" "brk (merge x h) = brk h" by (simp_all add: merge_def set_ptr_def set_sz_def)
  have hp: "hptr (merge x h) = (hptr h)(x := hptr h y)" by (simp add: merge_def y set_ptr_def set_sz_def)
  have p: "path (hptr h) (hptr h ?b) us x" "path (hptr h) (hptr h y) cs ?b" using i(5) unfolding path.simps path_append by blast+
  have "path (hptr (merge x h)) ?b (?b # us @ x # cs) ?b" unfolding hp using p nx xb by auto
  moreover have "sorted_wrt (<) (us @ x # cs)" using i(6) unfolding assms(2) by (auto simp: sorted_wrt_append)
  moreover have "set (us @ x # cs) \<inter> A = {}" using i(7) by (auto simp: assms(2))
  moreover have "blocks_ok lo (set (us @ x # cs) \<union> A) (merge x h)"
    unfolding blocks_ok_def hz bb
  proof (intro conjI ballI impI)
    fix z assume z: "z \<in> set (us @ x # cs) \<union> A"
    then have zz: "z \<in> set xs \<union> A" by (auto simp: assms(2))
    show "lo \<le> z" "0 < ((hsz h)(x := hsz h x + hsz h y)) z" using blocks_okD(1,2) [OF i(8) zz] by auto
    show "units z (((hsz h)(x := hsz h x + hsz h y)) z) \<le> brk h"
      using blocks_okD(3) [OF i(8) zz] \<open>units x (hsz h x + hsz h y) \<le> brk h\<close> by auto
    fix w assume w: "w \<in> set (us @ x # cs) \<union> A" "z < w"
    then have ww: "w \<in> set xs \<union> A" by (auto simp: assms(2))
    show "units z (((hsz h)(x := hsz h x + hsz h y)) z) \<le> w"
    proof (cases "z = x")
      case True
      have "y \<le> w" using blocks_okD(4) [OF i(8) zz ww w(2)] assms(3) True by simp
      moreover have "y \<notin> A" using i(7) by (auto simp: assms(2))
      then have "w \<noteq> y" using w(1) nx by auto
      ultimately have "units y (hsz h y) \<le> w" using blocks_okD(4) [OF i(8) _ ww, of y] by (simp add: assms(2))
      then show ?thesis using ends True by simp
    next
      case False
      then show ?thesis using blocks_okD(4) [OF i(8) zz ww w(2)] by simp
    qed
  qed
  ultimately show "inv0 lo A (us @ x # cs) (merge x h)"
    using i(1-4) xb by (simp add: inv0_def hz bb del: path.simps)
  have "{x..<units x (hsz h x + hsz h y)} = {x..<units x (hsz h x)} \<union> {y..<units y (hsz h y)}"
    unfolding ends using assms(3) by (auto simp: units_def)
  moreover have "(\<Union>z\<in>set us \<union> set cs. {z..<units z (((hsz h)(x := hsz h x + hsz h y)) z)}) = (\<Union>z\<in>set us \<union> set cs. {z..<units z (hsz h z)})"
    using nx by (intro SUP_cong) auto
  ultimately show "space (merge x h) (us @ x # cs) = space h xs" unfolding space_def hz assms(2) by auto
qed


text \<open>Adjacent blocks are neighbours in the list.\<close>

definition apart :: "uheap \<Rightarrow> nat \<Rightarrow> nat \<Rightarrow> bool" where "apart h x y \<longleftrightarrow> units x (hsz h x) \<noteq> y"

lemma apart_all: "\<forall>x\<in>set xs. \<forall>y\<in>set xs. apart h x y \<Longrightarrow> successively (apart h) xs"
  by (induction xs rule: induct_list012) auto

lemma apart_neighbours:
  assumes "blocks_ok lo (set xs \<union> A) h" "sorted_wrt (<) xs" "successively (apart h) xs" "x \<in> set xs" "y \<in> set xs"
  shows "apart h x y"
  using assms
proof (induction xs)
  case (Cons z xs)
  have b: "blocks_ok lo (set xs \<union> A) h" using Cons.prems(1) by (simp add: blocks_ok_def)
  have pos: "u < units u (hsz h u)" if "u \<in> set (z # xs)" for u
    using blocks_okD(2) [OF Cons.prems(1), of u] that by (auto simp: units_def sizeof_Header_def)
  consider "x = z" "y = z" | "x = z" "y \<in> set xs" | "x \<in> set xs" "y = z" | "x \<in> set xs" "y \<in> set xs" using Cons.prems(4,5) by auto
  then show ?case
  proof cases
    case 2
    then obtain w ws where w: "xs = w # ws" by (cases xs) auto
    have "z < w" "w \<le> y" using Cons.prems(2) 2 by (auto simp: w)
    moreover have "units z (hsz h z) \<le> w" using blocks_okD(4) [OF Cons.prems(1), of z w] \<open>z < w\<close> by (simp add: w)
    ultimately show ?thesis using Cons.prems(3) 2(1) by (auto simp: w apart_def)
  next
    case 4
    then show ?thesis using Cons.IH [OF b] Cons.prems(2,3) by (auto simp: successively_Cons)
  qed (use pos [OF Cons.prems(4)] Cons.prems(2) in \<open>auto simp: apart_def\<close>)
qed simp

lemma successively_cong_sz:
  "(\<And>x. x \<in> set (butlast xs) \<Longrightarrow> hsz h' x = hsz h x) \<Longrightarrow> successively (apart h') xs = successively (apart h) xs"
  by (induction xs rule: induct_list012) (auto simp: apart_def)

text \<open>The free list cut open where the block \<open>bp\<close> belongs; is it adjacent to what follows, and to \<open>p\<close>?\<close>

definition cut :: "nat \<Rightarrow> nat set \<Rightarrow> nat list \<Rightarrow> uheap \<Rightarrow> nat \<Rightarrow> nat list \<Rightarrow> nat \<Rightarrow> nat list \<Rightarrow> bool" where
  "cut lo A xs h bp as p cs \<longleftrightarrow> heap_inv lo A xs h \<and> bp \<in> A \<and> base h # xs = as @ p # cs \<and> p < bp \<and>
     (\<forall>c\<in>set cs. bp < c) \<and> (\<forall>a\<in>set as. a < p)"

definition joins_right :: "uheap \<Rightarrow> nat \<Rightarrow> nat \<Rightarrow> bool" where "joins_right h bp p \<longleftrightarrow> units bp (hsz h bp) = hptr h p"
definition joins_left :: "uheap \<Rightarrow> nat \<Rightarrow> nat \<Rightarrow> bool" where "joins_left h bp p \<longleftrightarrow> units p (hsz h p) = bp"

lemma cutD:
  assumes "cut lo A xs h bp as p cs"
  shows "inv0 lo A xs h" "bp \<in> A" "base h # xs = as @ p # cs" "p < bp" "\<forall>c\<in>set cs. bp < c" "\<forall>a\<in>set as. a < p"
    "hptr h p = hd (cs @ [base h])" "base h < bp" "bp < units bp (hsz h bp)" "sorted_wrt (<) (base h # xs)"
proof -
  show i: "inv0 lo A xs h" and c: "bp \<in> A" "base h # xs = as @ p # cs" "p < bp" "\<forall>c\<in>set cs. bp < c" "\<forall>a\<in>set as. a < p"
    using assms by (simp_all add: cut_def heap_inv_iff)
  have "path (hptr h) (base h) (as @ p # cs) (base h)" using i unfolding inv0_def c(2) by blast
  then show "hptr h p = hd (cs @ [base h])" by (rule ring_split(3))
  show "base h < bp" using inv0_base [OF i] c(1) by blast
  show "bp < units bp (hsz h bp)" using blocks_okD(2) [of lo "set xs \<union> A" h bp] i c(1) by (simp add: inv0_def units_def sizeof_Header_def)
  show "sorted_wrt (<) (base h # xs)" using i inv0_base [OF i] by (simp add: inv0_def)
qed

lemma cut_joins:
  assumes "cut lo A xs h bp as p cs"
  shows "joins_right h bp p \<Longrightarrow> cs = hptr h p # tl cs" "joins_left h bp p \<Longrightarrow> as = base h # tl as"
    "joins_right h bp p \<Longrightarrow> p \<noteq> hptr h p" "bp \<noteq> hptr h p"
proof -
  note c = cutD [OF assms]
  show r: "cs = hptr h p # tl cs" if "joins_right h bp p"
    using that c(7-9) unfolding joins_right_def by (cases cs) auto
  show "p \<noteq> hptr h p" if "joins_right h bp p" using c(4,5) r [OF that] by (metis list.set_intros(1) less_asym)
  show "bp \<noteq> hptr h p" using c(5,7,8) by (cases cs) auto
  show "as = base h # tl as" if "joins_left h bp p"
  proof -
    have "as \<noteq> []" using that c(1,3,4) unfolding joins_left_def inv0_def by (auto simp: units_def)
    then show ?thesis using c(3) by (cases as) auto
  qed
qed

definition joined_size :: "uheap \<Rightarrow> nat \<Rightarrow> nat \<Rightarrow> nat" where
  "joined_size h bp p = (if joins_right h bp p then hsz h bp + hsz h (hptr h p) else hsz h bp)"

lemma insert_space:
  assumes "cut lo A xs h bp as p cs"
  shows "space (insert_block bp p h) (tl (as @ p # bp # cs)) = space h xs \<union> {bp..<units bp (hsz h bp)}"
proof -
  note c = cutD [OF assms]
  let ?xs = "tl (as @ p # bp # cs)"
  have e: "base h # ?xs = as @ p # bp # cs" using c(3) by (cases as) auto
  have "insert (base h) (set ?xs) = insert (base h) (insert bp (set xs))" using arg_cong [OF e, of set] arg_cong [OF c(3), of set] by auto
  moreover have "base h \<notin> set ?xs"
    using inv0_base [OF inv0_insert [OF c(1-6)], of "base h"] by (auto simp: insert_block_def set_ptr_def)
  moreover have "base h \<notin> insert bp (set xs)" using c(8,10) by auto
  ultimately have "set ?xs = insert bp (set xs)" by (metis insert_ident)
  then show ?thesis by (auto simp: space_def insert_block_def set_ptr_def)
qed

text \<open>What \<open>free_at\<close> makes of the heap: the list, the sizes and the free space.\<close>

lemma free_at_blocks:
  assumes "cut lo A xs h bp as p cs"
  defines "ys \<equiv> as @ p # (if joins_left h bp p then [] else [bp]) @ (if joins_right h bp p then tl cs else cs)"
  shows "inv0 lo (A - {bp}) (tl ys) (free_at bp p h) \<and> base h # tl ys = ys \<and>
    hsz (free_at bp p h) =
      (if joins_left h bp p then (hsz h)(bp := joined_size h bp p, p := hsz h p + joined_size h bp p) else (hsz h)(bp := joined_size h bp p)) \<and>
    base (free_at bp p h) = base h \<and> brk (free_at bp p h) = brk h \<and> freep (free_at bp p h) = p \<and>
    space (free_at bp p h) (tl ys) = space h xs \<union> {bp..<units bp (hsz h bp)}"
proof -
  note c = cutD [OF assms(1)] and j = cut_joins [OF assms(1)]
  let ?R = "joins_right h bp p" let ?L = "joins_left h bp p" let ?z = "joined_size h bp p"
  let ?h1 = "insert_block bp p h" let ?xs1 = "tl (as @ p # bp # cs)"
  have i1: "inv0 lo (A - {bp}) ?xs1 ?h1" by (rule inv0_insert [OF c(1-6)])
  have h1: "hsz ?h1 = hsz h" "base ?h1 = base h" "brk ?h1 = brk h" by (simp_all add: insert_block_def set_ptr_def)
  let ?cs = "if ?R then tl cs else cs" let ?xs2 = "tl (as @ p # bp # ?cs)" let ?h2 = "merge_if ?R bp ?h1"
  have h2: "inv0 lo (A - {bp}) ?xs2 ?h2 \<and> hsz ?h2 = (hsz h)(bp := ?z) \<and> base ?h2 = base h \<and> brk ?h2 = brk h \<and> space ?h2 ?xs2 = space ?h1 ?xs1"
  proof (cases ?R)
    case True
    have x: "?xs1 = tl (as @ [p]) @ bp # hptr h p # tl cs" by (subst j(1) [OF True]) (cases as; simp)
    have "units bp (hsz ?h1 bp) = hptr h p" using True by (simp add: joins_right_def h1)
    from inv0_merge [OF i1 x this] show ?thesis using True h1 by (cases as) (auto simp: merge_if_def joined_size_def)
  qed (use i1 h1 in \<open>auto simp: merge_if_def joined_size_def\<close>)
  have e: "base h # tl ys = ys" using c(3) unfolding ys_def by (cases as) auto
  let ?h3 = "merge_if ?L p ?h2"
  have h3: "inv0 lo (A - {bp}) (tl ys) ?h3 \<and> hsz ?h3 = (if ?L then (hsz h)(bp := ?z, p := hsz h p + ?z) else (hsz h)(bp := ?z)) \<and>
      base ?h3 = base h \<and> brk ?h3 = brk h \<and> space ?h3 (tl ys) = space ?h1 ?xs1"
  proof (cases ?L)
    case True
    have x: "?xs2 = tl as @ p # bp # ?cs" using j(2) [OF True] by (cases as) auto
    have "units p (hsz ?h2 p) = bp" using True c(4) h2 by (simp add: joins_left_def)
    from inv0_merge [OF conjunct1 [OF h2] x this] have m: "inv0 lo (A - {bp}) (tl as @ p # ?cs) (merge p ?h2)"
      "hsz (merge p ?h2) = (hsz ?h2)(p := hsz ?h2 p + hsz ?h2 bp)" "base (merge p ?h2) = base ?h2" "brk (merge p ?h2) = brk ?h2"
      "space (merge p ?h2) (tl as @ p # ?cs) = space ?h2 ?xs2" .
    have "tl ys = tl as @ p # ?cs" using j(2) [OF True] True unfolding ys_def by (cases as) auto
    then show ?thesis using m h2 True c(4) by (simp add: merge_if_def)
  qed (use h2 in \<open>simp add: merge_if_def ys_def\<close>)
  have "free_at bp p h = ?h3\<lparr>freep := p\<rparr>"
    using free_at_merges [of bp p h] c(4) j(3,4) by (simp add: joins_left_def joins_right_def)
  then show ?thesis using h3 e insert_space [OF assms(1)] by simp
qed

text \<open>No two free blocks stay adjacent.\<close>

lemma free_at_apart:
  assumes "cut lo A xs h bp as p cs"
    "sz = (if joins_left h bp p then (hsz h)(bp := joined_size h bp p, p := hsz h p + joined_size h bp p) else (hsz h)(bp := joined_size h bp p))"
    "hsz h' = sz"
  shows "successively (apart h') (as @ p # (if joins_left h bp p then [] else [bp]) @ (if joins_right h bp p then tl cs else cs))"
proof -
  note c = cutD [OF assms(1)] and j = cut_joins [OF assms(1)]
  let ?R = "joins_right h bp p" let ?L = "joins_left h bp p" let ?z = "joined_size h bp p" let ?cs = "if ?R then tl cs else cs"
  have "successively (apart h) xs" using assms(1) by (intro apart_all) (simp add: cut_def heap_inv_iff apart_def)
  then have "successively (apart h) (base h # xs)" using inv0_base [OF c(1)] c(1) by (cases xs) (auto simp: apart_def units_def inv0_def)
  then have old: "successively (apart h) as" "successively (apart h) cs" "as \<noteq> [] \<Longrightarrow> apart h (last as) p"
    unfolding c(3) by (auto simp: successively_append_iff successively_Cons)
  have sza: "hsz h' x = hsz h x" if "x \<in> set as \<union> set cs" for x
    using that c(4-6) unfolding assms(2,3) by auto
  have as': "successively (apart h') as" using old(1) sza by (subst successively_cong_sz [of as h' h]) (auto dest: in_set_butlastD)
  have cs': "successively (apart h') ?cs"
  proof -
    have "successively (apart h) ?cs" using old(2) by (cases cs) (auto simp: successively_Cons)
    moreover have "set (butlast ?cs) \<subseteq> set cs" by (cases cs) (auto dest: in_set_butlastD)
    ultimately show ?thesis using sza by (subst successively_cong_sz [of ?cs h' h]) blast+
  qed
  have pl: "as \<noteq> [] \<Longrightarrow> apart h' (last as) p" using old(3) sza [of "last as"] by (simp add: apart_def)
  have bl: "apart h' p bp" if "\<not> ?L" using that c(4) unfolding apart_def assms(2,3) joins_left_def by simp
  have en: "units p (hsz h' p) = units bp ?z" if ?L using that unfolding assms(2,3) by (auto simp: joins_left_def units_def sizeof_Header_def)
  have eb: "units bp (hsz h' bp) = units bp ?z" if "\<not> ?L" using that unfolding assms(2,3) by simp
  have jn: "?cs \<noteq> [] \<Longrightarrow> units bp ?z \<noteq> hd ?cs"
  proof (cases ?R)
    case True
    have "units bp ?z = units (hptr h p) (hsz h (hptr h p))" using True by (auto simp: joined_size_def joins_right_def units_def sizeof_Header_def)
    moreover assume "?cs \<noteq> []"
    then have "apart h (hptr h p) (hd (tl cs))" using old(2) True by (subst (asm) j(1) [OF True]) (auto simp: successively_Cons)
    ultimately show ?thesis using True by (simp add: apart_def)
  next
    case False
    assume "?cs \<noteq> []"
    then show ?thesis using False c(7) by (cases cs) (auto simp: joined_size_def joins_right_def)
  qed
  show ?thesis using as' cs' pl bl jn en eb by (auto simp: successively_append_iff successively_Cons apart_def)
qed

text \<open>
  C14. \<^verbatim>\<open>free\<close> returns and gives the block back. In a heap whose blocks are in order the search of \<^verbatim>\<open>free\<close> ends, the
  free space grows by exactly the block, the blocks in use stay as they are, and the heap is in order again: in
  particular no two free blocks are adjacent, everything that could be merged is merged.
\<close>

theorem ufree_frees:
  assumes "heap_inv lo A xs h" "bp \<in> A"
  shows "\<exists>h' xs'. ufree (units bp 1) h = Some h' \<and> heap_inv lo (A - {bp}) xs' h' \<and>
    space h' xs' = space h xs \<union> {bp..<units bp (hsz h bp)} \<and> (\<forall>y\<in>A - {bp}. hsz h' y = hsz h y) \<and>
    base h' = base h \<and> brk h' = brk h \<and> (\<exists>x\<in>set xs'. hsz h bp \<le> hsz h' x)"
proof -
  have i: "inv0 lo A xs h" and fp: "freep h \<in> set (base h # xs)" using assms(1) by (simp_all add: heap_inv_iff)
  have bbp: "base h < bp" using inv0_base [OF i] assms(2) by blast
  have srt: "sorted_wrt (<) (base h # xs)" using i inv0_base [OF i] by (simp add: inv0_def)
  have "bp \<notin> set xs" using i assms(2) by (auto simp: inv0_def)
  then obtain as p cs where s: "base h # xs = as @ p # cs" "p < bp" "\<forall>c\<in>set cs. bp < c" "\<forall>a\<in>set as. a < p"
    using split_at [OF srt bbp] by metis
  then have cut: "cut lo A xs h bp as p cs" using assms by (simp add: cut_def)
  have "path (hptr h) (base h) (base h # xs) (base h)" using i by (simp add: inv0_def del: path.simps)
  then have find: "free_find h bp (freep h) = Some p"
    by (rule free_find_pred [OF _ s(1) _ srt s(2,3) fp bbp]) simp
  let ?h = "free_at bp p h" let ?L = "joins_left h bp p"
  let ?ys = "as @ p # (if ?L then [] else [bp]) @ (if joins_right h bp p then tl cs else cs)"
  note b = free_at_blocks [OF cut]
  have sz: "hsz ?h = (if ?L then (hsz h)(bp := joined_size h bp p, p := hsz h p + joined_size h bp p) else (hsz h)(bp := joined_size h bp p))"
    using b by blast
  have "successively (apart ?h) ?ys" by (rule free_at_apart [OF cut refl sz])
  then have "successively (apart ?h) (tl ?ys)" by (cases ?ys) (auto simp: successively_Cons)
  moreover have "blocks_ok lo (set (tl ?ys) \<union> (A - {bp})) ?h" "sorted_wrt (<) (tl ?ys)" using conjunct1 [OF b] unfolding inv0_def by blast+
  ultimately have "\<forall>x\<in>set (tl ?ys). \<forall>y\<in>set (tl ?ys). units x (hsz ?h x) \<noteq> y"
    using apart_neighbours [of lo "tl ?ys" "A - {bp}" ?h] unfolding apart_def by blast
  moreover have "base h # tl ?ys = ?ys" using b by blast
  then have "p \<in> set (base h # tl ?ys)" by (simp only:) simp
  ultimately have inv: "heap_inv lo (A - {bp}) (tl ?ys) ?h" unfolding heap_inv_iff using b by simp
  have "p = base h \<or> p \<in> set xs" using arg_cong [OF s(1), of set] by auto
  then have "p \<notin> A" using i inv0_base [OF i, of p] by (auto simp: inv0_def)
  then have szA: "\<forall>y\<in>A - {bp}. hsz ?h y = hsz h y" unfolding sz by auto
  have le: "hsz h bp \<le> joined_size h bp p" by (simp add: joined_size_def)
  have big: "\<exists>x\<in>set (tl ?ys). hsz h bp \<le> hsz ?h x"
  proof (cases ?L)
    case True
    then have "p \<in> set (tl ?ys)" using cut_joins(2) [OF cut] by (cases as) auto
    then show ?thesis using True le unfolding sz by (intro bexI [of _ p]) simp_all
  next
    case False
    then have "bp \<in> set (tl ?ys)" by (cases as) simp_all
    then show ?thesis using False le unfolding sz by (intro bexI [of _ bp]) simp_all
  qed
  have "ufree (units bp 1) h = Some ?h" by (simp add: ufree_def units_def find)
  then show ?thesis using inv szA big b by (intro exI [of _ ?h] exI [of _ "tl ?ys"]) simp
qed

theorem ufree_frees_witness:
  "\<exists>h' xs'. ufree 48 \<lparr>hptr = (\<lambda>x. 16), hsz = (\<lambda>x. if x = 32 then 4 else 0), freep = 16, base = 16, brk = 96\<rparr> = Some h' \<and>
     heap_inv 32 {} xs' h' \<and> space h' xs' = {32..<96}"
proof -
  let ?h = "\<lparr>hptr = (\<lambda>x. 16), hsz = (\<lambda>x. if x = 32 then 4 else 0), freep = 16, base = 16, brk = 96\<rparr>"
  have "heap_inv 32 {32} [] ?h" by (simp add: heap_inv_def blocks_ok_def units_def sizeof_Header_def)
  from ufree_frees [OF this, of 32] obtain h' xs' where "ufree (units 32 1) ?h = Some h'" "heap_inv 32 ({32} - {32}) xs' h'"
    "space h' xs' = space ?h [] \<union> {32..<units 32 (hsz ?h 32)}" by auto
  then show ?thesis by (intro exI [of _ h'] exI [of _ xs']) (simp add: units_def sizeof_Header_def space_def)
qed

section \<open>Malloc\<close>

lemma path_last: "path f s zs q \<Longrightarrow> zs \<noteq> [] \<Longrightarrow> f (last zs) = q"
  by (induction zs arbitrary: s) (auto split: if_splits)

lemma path_redirect:
  "path f b (zs @ p # cs) r \<Longrightarrow> zs \<noteq> [] \<Longrightarrow> distinct zs \<Longrightarrow> last zs \<notin> set cs \<Longrightarrow> path (f(last zs := f p)) b (zs @ cs) r"
  by (cases zs rule: rev_cases) auto

lemma inv0_fresh:
  assumes "inv0 lo A xs h" "p \<in> set xs" "p < q" "q < units p (hsz h p)"
  shows "q \<notin> set xs \<union> A"
proof
  assume "q \<in> set xs \<union> A"
  then have "units p (hsz h p) \<le> q" using assms(1-3) by (intro blocks_okD(4) [of lo "set xs \<union> A"]) (auto simp: inv0_def)
  then show False using assms(4) by simp
qed

text \<open>Taking a block out of the list, and splitting its tail off.\<close>

lemma take_whole:
  assumes "heap_inv lo A xs h" "xs = us @ p # cs" "prevp = last (base h # us)"
  shows "heap_inv lo (insert p A) (us @ cs) ((set_ptr prevp (hptr h p) h)\<lparr>freep := prevp\<rparr>)"
proof -
  let ?b = "base h" let ?h = "(set_ptr prevp (hptr h p) h)\<lparr>freep := prevp\<rparr>"
  have i: "inv0 lo A xs h" and na: "\<forall>x\<in>set xs. \<forall>y\<in>set xs. units x (hsz h x) \<noteq> y" using assms(1) by (simp_all add: heap_inv_iff)
  have s: "sorted_wrt (<) (us @ p # cs)" and path: "path (hptr h) ?b (?b # us @ p # cs) ?b" and bok: "blocks_ok lo (set xs \<union> A) h"
    using i unfolding inv0_def assms(2) by (simp_all del: path.simps path_append)
  have bx: "?b < x" if "x \<in> set xs" for x using inv0_base [OF i] that by blast
  have d: "prevp \<notin> set cs" "prevp = ?b \<or> prevp \<in> set us" "p \<notin> set us \<union> set cs" "?b \<notin> set xs"
    using s bx unfolding assms(2,3) by (auto simp: sorted_wrt_append)
  have "distinct (?b # us)" using s d(4) by (auto simp: assms(2) sorted_wrt_append strict_sorted_iff)
  with path d(1) have "path (hptr ?h) ?b (?b # us @ cs) ?b"
    using path_redirect [of "hptr h" ?b "?b # us" p cs ?b] by (simp add: set_ptr_def assms(3) del: path.simps path_append last.simps)
  moreover have "set (us @ cs) \<union> insert p A = set xs \<union> A" "set (us @ cs) \<inter> insert p A = {}"
    using d(3) i by (auto simp: assms(2) inv0_def)
  moreover have "sorted_wrt (<) (us @ cs)" using s by (auto simp: sorted_wrt_append)
  moreover have "prevp \<in> set (?b # us @ cs)" using d(2) by auto
  ultimately show ?thesis
    using i bok na unfolding heap_inv_iff inv0_def by (auto simp: set_ptr_def blocks_ok_def assms(2) simp del: path.simps path_append)
qed

lemma take_tail:
  assumes "heap_inv lo A xs h" "p \<in> set xs" "0 < n" "n < hsz h p" "prevp \<in> set (base h # xs)" "q = units p (hsz h p - n)"
  shows "heap_inv lo (insert q A) xs ((set_sz q n (set_sz p (hsz h p - n) h))\<lparr>freep := prevp\<rparr>)"
    "q \<notin> set xs \<union> A" "hsz (set_sz q n (set_sz p (hsz h p - n) h)) = (hsz h)(p := hsz h p - n, q := n)"
proof -
  have i: "inv0 lo A xs h" and na: "\<forall>x\<in>set xs. \<forall>y\<in>set xs. units x (hsz h x) \<noteq> y" using assms(1) by (simp_all add: heap_inv_iff)
  have bok: "blocks_ok lo (set xs \<union> A) h" using i by (simp add: inv0_def)
  have q: "p < q" "q < units p (hsz h p)" "units q n = units p (hsz h p)" using assms(3,4,6) by (auto simp: units_def sizeof_Header_def algebra_simps)
  show f: "q \<notin> set xs \<union> A" by (rule inv0_fresh [OF i assms(2) q(1,2)])
  have "hsz h p < 2 ^ 32" using small_size [OF bok, of p] i assms(2) by (auto simp: inv0_def units_def sizeof_Header_def)
  then show hz: "hsz (set_sz q n (set_sz p (hsz h p - n) h)) = (hsz h)(p := hsz h p - n, q := n)"
    using assms(4) by (simp add: set_sz_def)
  let ?h = "set_sz q n (set_sz p (hsz h p - n) h)" let ?B = "set xs \<union> A"
  have bb: "base ?h = base h" "brk ?h = brk h" "hptr ?h = hptr h" by (simp_all add: set_sz_def)
  have p: "p \<in> ?B" using assms(2) by simp
  have sub: "units x (hsz ?h x) \<le> units x (hsz h x)" if "x \<in> ?B" for x
    using that f assms(4) by (auto simp: hz units_def)
  have ep: "units p (hsz ?h p) = q" unfolding hz using q(1) assms(6) by simp
  have eq: "units q (hsz ?h q) = units p (hsz h p)" unfolding hz using q(3) by simp
  have "blocks_ok lo (insert q ?B) ?h"
    unfolding blocks_ok_def bb
  proof (intro conjI ballI impI)
    fix x assume x: "x \<in> insert q ?B"
    show "lo \<le> x" using x q(1) blocks_okD(1) [OF bok, of x] blocks_okD(1) [OF bok p] by (cases "x = q") auto
    show "0 < hsz ?h x" using x f assms(3,4) blocks_okD(2) [OF bok, of x] by (auto simp: hz)
    show "units x (hsz ?h x) \<le> brk h"
    proof (cases "x = q")
      case True
      then show ?thesis using eq blocks_okD(3) [OF bok p] by simp
    next
      case False
      then show ?thesis using x sub [of x] blocks_okD(3) [OF bok, of x] by auto
    qed
    fix y assume y: "y \<in> insert q ?B" "x < y"
    show "units x (hsz ?h x) \<le> y"
    proof (cases "x = q")
      case True
      then have "units p (hsz h p) \<le> y" using blocks_okD(4) [OF bok p, of y] y q(1) by auto
      then show ?thesis using True eq by simp
    next
      case False
      then have xB: "x \<in> ?B" using x by simp
      show ?thesis
      proof (cases "y = q")
        case True
        show ?thesis
        proof (cases "x = p")
          case False
          have "x < p"
          proof (rule ccontr)
            assume "\<not> x < p"
            then have "units p (hsz h p) \<le> x" using blocks_okD(4) [OF bok p xB] False by linarith
            then show False using y(2) True q(2) by linarith
          qed
          then have "units x (hsz h x) \<le> p" using blocks_okD(4) [OF bok xB p] by simp
          then show ?thesis using sub [OF xB] True q(1) by linarith
        qed (use ep True in simp)
      next
        case False
        then have "units x (hsz h x) \<le> y" using blocks_okD(4) [OF bok xB _ y(2)] y(1) by simp
        then show ?thesis using sub [OF xB] by linarith
      qed
    qed
  qed
  moreover have "hsz ?h (base h) = 0"
    using i inv0_base [OF i, of p] assms(2) q(1) by (auto simp: hz inv0_def)
  moreover have "\<forall>x\<in>set xs. \<forall>y\<in>set xs. units x (hsz ?h x) \<noteq> y"
  proof (intro ballI)
    fix x y assume xy: "x \<in> set xs" "y \<in> set xs"
    show "units x (hsz ?h x) \<noteq> y"
    proof (cases "x = p")
      case True
      then show ?thesis using ep f xy(2) by auto
    next
      case False
      then have "hsz ?h x = hsz h x" using f xy(1) by (auto simp: hz)
      then show ?thesis using na xy by simp
    qed
  qed
  ultimately show "heap_inv lo (insert q A) xs (?h\<lparr>freep := prevp\<rparr>)"
    using i f assms(5) unfolding heap_inv_iff freep_irrelevant by (auto simp: inv0_def bb simp del: path.simps)
qed


lemma split_unique: "as @ x # bs = cs @ x # ds \<Longrightarrow> x \<notin> set as \<Longrightarrow> x \<notin> set cs \<Longrightarrow> as = cs"
proof (induction as arbitrary: cs)
  case (Cons a as)
  then show ?case by (cases cs) auto
qed (metis append_eq_Cons_conv in_set_conv_decomp self_append_conv2)

lemma take_block_ok:
  assumes "heap_inv lo A xs h" "p \<in> set xs" "0 < n" "n \<le> hsz h p" "hptr h prevp = p" "prevp \<in> set (base h # xs)"
  shows "\<exists>q h' xs'. take_block n prevp p h = (units q 1, h') \<and> heap_inv lo (insert q A) xs' h' \<and> q \<notin> A \<and> hsz h' q = n \<and>
    (\<forall>y\<in>A. hsz h' y = hsz h y) \<and> base h' = base h \<and> brk h' = brk h"
proof (cases "hsz h p = n")
  case True
  let ?b = "base h"
  have i: "inv0 lo A xs h" using assms(1) by (simp add: heap_inv_iff)
  obtain us cs where xs: "xs = us @ p # cs" using split_list [OF assms(2)] by blast
  have path: "path (hptr h) ?b (?b # xs) ?b" and srt: "sorted_wrt (<) xs" using i by (simp_all add: inv0_def del: path.simps)
  have bx: "?b < x" if "x \<in> set xs" for x using inv0_base [OF i] that by blast
  have prev: "prevp = last (?b # us)"
  proof -
    obtain as bs where s: "?b # xs = as @ prevp # bs" using split_list [OF assms(6)] by blast
    have "hptr h prevp = hd (bs @ [?b])" by (rule ring_split(3) [OF path [unfolded s]])
    then have "bs = p # tl bs" using assms(2,5) bx [of p] by (cases bs) auto
    then have s': "?b # us @ p # cs = (as @ [prevp]) @ p # tl bs" using s xs by simp
    have d: "distinct (?b # us @ p # cs)" using srt bx unfolding xs by (auto simp: sorted_wrt_append strict_sorted_iff)
    have "distinct ((as @ [prevp]) @ p # tl bs)" using d unfolding s' .
    then have "p \<notin> set (as @ [prevp])" "p \<notin> set (?b # us)" using d by auto
    moreover have "(?b # us) @ p # cs = (as @ [prevp]) @ p # tl bs" using s' by simp
    ultimately have "?b # us = as @ [prevp]" by (metis split_unique)
    then show ?thesis by simp
  qed
  have "take_block n prevp p h = (units p 1, (set_ptr prevp (hptr h p) h)\<lparr>freep := prevp\<rparr>)"
    using True by (simp add: take_block_def units_def)
  moreover have "p \<notin> A" using i assms(2) by (auto simp: inv0_def)
  ultimately show ?thesis using take_whole [OF assms(1) xs prev] True by (auto simp: set_ptr_def)
next
  case False
  then have lt: "n < hsz h p" using assms(4) by simp
  have "hsz h p < 2 ^ 32" using small_size [of lo "set xs \<union> A" h p] assms(1,2) by (auto simp: heap_inv_def units_def sizeof_Header_def)
  then have sp: "hsz (set_sz p (hsz h p - n) h) p = hsz h p - n" by (simp add: set_sz_def)
  define q where "q = units p (hsz h p - n)"
  define h' where "h' = (set_sz q n (set_sz p (hsz h p - n) h))\<lparr>freep := prevp\<rparr>"
  note t = take_tail [OF assms(1,2,3) lt assms(6) q_def]
  have tb: "take_block n prevp p h = (units q 1, h')"
    using False sp by (simp add: take_block_def Let_def units_def [of _ "Suc 0"] q_def h'_def)
  have inv: "heap_inv lo (insert q A) xs h'" unfolding h'_def by (rule t(1))
  have hz: "hsz h' = (hsz h)(p := hsz h p - n, q := n)" unfolding h'_def using t(3) by simp
  have "p \<notin> A" using heap_invD(8) [OF assms(1)] assms(2) by blast
  moreover have "q \<notin> A" using t(2) by blast
  ultimately have "\<forall>y\<in>A. hsz h' y = hsz h y" "hsz h' q = n" unfolding hz by auto
  moreover have "base h' = base h" "brk h' = brk h" by (simp_all add: h'_def set_sz_def)
  ultimately show ?thesis using tb inv \<open>q \<notin> A\<close> by blast
qed

lemma malloc_loop_step:
  "hsz h p < n \<Longrightarrow> p \<noteq> freep h \<Longrightarrow> malloc_loop g n prev p h = malloc_loop g n p (hptr h p) h"
  by (subst malloc_loop.simps) (simp add: linorder_not_le)

lemma malloc_loop_path:
  "path (hptr h) p zs q \<Longrightarrow> \<forall>z\<in>set zs. hsz h z < n \<and> z \<noteq> freep h \<Longrightarrow>
   malloc_loop g n prev p h = malloc_loop g n (last (prev # zs)) q h"
proof (induction zs arbitrary: prev p)
  case (Cons z zs)
  then have "p = z" "malloc_loop g n prev p h = malloc_loop g n z (hptr h z) h" using malloc_loop_step [of h z n g prev] by simp_all
  then show ?case using Cons.IH [of "hptr h z" z] Cons.prems by simp
qed simp

text \<open>The ring as the search sees it: from behind \<^verbatim>\<open>freep\<close> to \<^verbatim>\<open>freep\<close>.\<close>

lemma search_order:
  assumes "heap_inv lo A xs h"
  obtains ws where "path (hptr h) (hptr h (freep h)) (ws @ [freep h]) (hptr h (freep h))" "set (ws @ [freep h]) = set (base h # xs)" "freep h \<notin> set ws"
proof -
  let ?b = "base h"
  have path: "path (hptr h) ?b (?b # xs) ?b" and fp: "freep h \<in> set (?b # xs)" and srt: "sorted_wrt (<) xs" and i: "inv0 lo A xs h"
    using assms by (simp_all add: heap_inv_iff inv0_def del: path.simps)
  obtain as cs where s: "?b # xs = as @ freep h # cs" using split_list [OF fp] by blast
  have "distinct (?b # xs)" using srt inv0_base [OF i] by (auto simp: strict_sorted_iff)
  then have "freep h \<notin> set (cs @ as)" unfolding s by auto
  moreover have "path (hptr h) (hptr h (freep h)) ((cs @ as) @ [freep h]) (hptr h (freep h))"
    using ring_split [OF path [unfolded s]] by auto
  moreover have "set ((cs @ as) @ [freep h]) = set (?b # xs)" unfolding s by auto
  ultimately show ?thesis using that by blast
qed

lemma malloc_found:
  assumes "heap_inv lo A xs h" "0 < n" "x \<in> set xs" "n \<le> hsz h x"
  shows "\<exists>prevp p. malloc_loop g n (freep h) (hptr h (freep h)) h = Some (take_block n prevp p h) \<and> p \<in> set xs \<and> n \<le> hsz h p \<and>
    hptr h prevp = p \<and> prevp \<in> set (base h # xs)"
proof -
  obtain ws where ws: "path (hptr h) (hptr h (freep h)) (ws @ [freep h]) (hptr h (freep h))" "set (ws @ [freep h]) = set (base h # xs)" "freep h \<notin> set ws"
    by (rule search_order [OF assms(1)])
  have "\<exists>z\<in>set (ws @ [freep h]). \<not> hsz h z < n" using assms(3,4) ws(2) by (metis linorder_not_less list.set_intros(2))
  then obtain bs p cs where s: "ws @ [freep h] = bs @ p # cs" "\<not> hsz h p < n" "\<forall>z\<in>set bs. hsz h z < n"
    using split_list_first_prop [of "ws @ [freep h]" "\<lambda>z. \<not> hsz h z < n"] by blast
  have nb: "freep h \<notin> set bs"
  proof -
    have "bs = ws \<or> (\<exists>cs'. ws = bs @ p # cs')" using s(1) by (cases cs rule: rev_cases) auto
    then show ?thesis using ws(3) by auto
  qed
  have path: "path (hptr h) (hptr h (freep h)) bs p" using ws(1) unfolding s(1) by auto
  let ?prev = "last (freep h # bs)"
  have "malloc_loop g n (freep h) (hptr h (freep h)) h = malloc_loop g n ?prev p h"
    by (rule malloc_loop_path [OF path]) (use s(3) nb in blast)
  also have "\<dots> = Some (take_block n ?prev p h)" using s(2) by (subst malloc_loop.simps) simp
  finally have loop: "malloc_loop g n (freep h) (hptr h (freep h)) h = Some (take_block n ?prev p h)" .
  have "path (hptr h) (freep h) (freep h # bs) p" using path by simp
  then have "hptr h ?prev = p" using path_last by blast
  moreover have "p \<in> set xs"
  proof -
    have "p \<in> set (base h # xs)" using ws(2) unfolding s(1) by auto
    moreover have "p \<noteq> base h" using s(2) assms(1,2) by (auto simp: heap_inv_def)
    ultimately show ?thesis by simp
  qed
  moreover have "?prev \<in> set (base h # xs)"
  proof -
    have "set (freep h # bs) \<subseteq> set (base h # xs)" using ws(2) arg_cong [OF s(1), of set] by auto
    then show ?thesis using last_in_set by blast
  qed
  ultimately show ?thesis using loop s(2) by (metis linorder_not_less)
qed

lemma malloc_not_found:
  assumes "heap_inv lo A xs h" "0 < n" "\<forall>x\<in>set xs. hsz h x < n"
  shows "malloc_loop g n (freep h) (hptr h (freep h)) h =
    Option.bind (morecore g n h) (\<lambda>(p, h). if p = 0 then Some (0, h) else malloc_loop g n p (hptr h p) h)"
proof -
  obtain ws where ws: "path (hptr h) (hptr h (freep h)) (ws @ [freep h]) (hptr h (freep h))" "set (ws @ [freep h]) = set (base h # xs)" "freep h \<notin> set ws"
    by (rule search_order [OF assms(1)])
  have small: "hsz h z < n" if "z \<in> set (base h # xs)" for z using that assms by (auto simp: heap_inv_def)
  have "path (hptr h) (hptr h (freep h)) ws (freep h)" using ws(1) by auto
  then have "malloc_loop g n (freep h) (hptr h (freep h)) h = malloc_loop g n (last (freep h # ws)) (freep h) h"
    using malloc_loop_path [of h _ ws "freep h" n] small ws(2,3) by (metis UnCI set_append)
  moreover have "hsz h (freep h) < n" using small ws(2) by (metis in_set_conv_decomp)
  ultimately show ?thesis by (subst (asm) (2) malloc_loop.simps) simp
qed


lemma uinit_id: "heap_inv lo A xs h \<Longrightarrow> uinit h = h"
  using inv0_base [of lo A xs h "freep h"] by (auto simp: uinit_def heap_inv_iff inv0_def)

lemma uinit_inv:
  assumes "freep h = 0" "0 < base h" "units (base h) 1 \<le> lo" "brk h \<le> 2 ^ 36"
  shows "heap_inv lo {} [] (uinit h)"
  using assms by (simp add: heap_inv_def uinit_def set_sz_def set_ptr_def blocks_ok_def)

lemma to_int32_small: "n < 2 ^ 31 \<Longrightarrow> to_int32 n = int n"
  by (simp add: to_int32_def signed_of_nat signed_take_bit_int_eq_self)

text \<open>The kernel's new memory, as a block that is about to be freed.\<close>

lemma morecore_ok:
  assumes "heap_inv lo A xs h" "lo \<le> brk h" "nu * sizeof_Header < 2 ^ 31" "4096 \<le> nu" "g (brk h) (units (brk h) nu)" "units (brk h) nu \<le> 2 ^ 36"
    "n = nu \<or> n < 4096 \<and> nu = 4096"
  shows "\<exists>h' xs'. morecore g n h = Some (freep h', h') \<and> heap_inv lo A xs' h' \<and> (\<forall>y\<in>A. hsz h' y = hsz h y) \<and> base h' = base h \<and>
    brk h' = units (brk h) nu \<and> (\<exists>x\<in>set xs'. nu \<le> hsz h' x)"
proof -
  define hp where "hp = brk h"
  define h0 where "h0 = set_sz hp nu (h\<lparr>brk := units (brk h) nu\<rparr>)"
  have i: "inv0 lo A xs h" and fp: "freep h \<in> set (base h # xs)" and na: "\<forall>x\<in>set xs. \<forall>y\<in>set xs. units x (hsz h x) \<noteq> y"
    using assms(1) by (simp_all add: heap_inv_iff)
  have bok: "blocks_ok lo (set xs \<union> A) h" using i by (simp add: inv0_def)
  have below: "units x (hsz h x) \<le> hp" "x < hp" if "x \<in> set xs \<union> A" for x
    using blocks_okD(2,3) [OF bok that] unfolding hp_def by (simp_all add: units_def sizeof_Header_def)
  have below_xs: "x < brk h" if "x \<in> set xs" for x using below(2) that by (simp add: hp_def)
  have below_A: "x < brk h" if "x \<in> A" for x using below(2) that by (simp add: hp_def)
  have new: "hp \<notin> set xs \<union> A" using below by blast
  have nb: "hp \<noteq> base h" using i assms(2) by (auto simp: inv0_def hp_def units_def sizeof_Header_def)
  have sz: "hsz h0 = (hsz h)(hp := nu)" using assms(3) by (simp add: h0_def set_sz_def sizeof_Header_def)
  have other: "base h0 = base h" "brk h0 = units hp nu" "hptr h0 = hptr h" "freep h0 = freep h" by (simp_all add: h0_def set_sz_def hp_def)
  have "hp \<le> units hp nu" by (simp add: units_def)
  then have "blocks_ok lo (set xs \<union> insert hp A) h0"
    using bok below assms(2,4) new unfolding blocks_ok_def by (auto simp: sz other hp_def intro: order_trans dest: below_xs below_A)
  then have "heap_inv lo (insert hp A) xs h0"
    using i fp na new nb assms(6) unfolding heap_inv_iff by (auto simp: inv0_def sz other hp_def simp del: path.simps)
  from ufree_frees [OF this, of hp] obtain h' xs' where f: "ufree (units hp 1) h0 = Some h'"
    "heap_inv lo (insert hp A - {hp}) xs' h'" "\<forall>y\<in>insert hp A - {hp}. hsz h' y = hsz h0 y" "base h' = base h0" "brk h' = brk h0"
    "\<exists>x\<in>set xs'. hsz h0 hp \<le> hsz h' x" by auto
  have A: "insert hp A - {hp} = A" using new by simp
  have "to_int32 (nu * sizeof_Header) = int (nu * sizeof_Header)" using assms(3) by (rule to_int32_small)
  moreover have "(if n < 4096 then 4096 else n) = nu" using assms(4,7) by auto
  ultimately have "morecore g n h = Some (freep h', h')"
    using assms(4,5) f(1) nat_int [of "nu * sizeof_Header"] unfolding morecore_def Let_def sbrk_def units_def h0_def hp_def
    by (simp add: sizeof_Header_def del: of_nat_mult)
  moreover have "\<forall>y\<in>A. hsz h' y = hsz h y" using f(3) new unfolding A sz by auto
  ultimately show ?thesis using f(2,4-6) unfolding A other sz by (auto simp: hp_def)
qed

lemma nunits_of_fits: "n + sizeof_Header \<le> nunits_of n * sizeof_Header" "0 < nunits_of n"
  by (simp_all add: nunits_of_def sizeof_Header_def)

lemma nunits_of_small: "n \<le> 2 ^ 31 - 32 \<Longrightarrow> nunits_of n * sizeof_Header < 2 ^ 31"
  by (simp add: nunits_of_def sizeof_Header_def)

text \<open>The bytes the client of a block may use.\<close>

definition payload :: "uheap \<Rightarrow> nat \<Rightarrow> nat set" where
  "payload h q = {units q 1..<units q (hsz h q)}"

lemma payload_disjoint:
  assumes "blocks_ok lo B h" "x \<in> B" "y \<in> B" "x \<noteq> y"
  shows "payload h x \<inter> {y..<units y (hsz h y)} = {}"
proof (cases "x < y")
  case True
  then show ?thesis using blocks_okD(4) [OF assms(1-3)] by (auto simp: payload_def)
next
  case False
  then have "units y (hsz h y) \<le> x" using blocks_okD(4) [OF assms(1,3,2)] assms(4) by simp
  then show ?thesis by (auto simp: payload_def units_def)
qed

definition served :: "nat \<Rightarrow> nat set \<Rightarrow> nat \<Rightarrow> uheap \<Rightarrow> nat \<Rightarrow> uheap \<Rightarrow> bool" where
  "served lo A nbytes h ap h' \<longleftrightarrow>
     (\<exists>q xs'. ap = units q 1 \<and> q \<notin> A \<and> heap_inv lo (insert q A) xs' h' \<and> (\<forall>y\<in>A. hsz h' y = hsz h y) \<and> brk h \<le> brk h' \<and>
        {ap..<ap + nbytes} \<subseteq> payload h' q)"

lemma served_from:
  assumes "heap_inv lo A xs h1" "x \<in> set xs" "nunits_of nbytes \<le> hsz h1 x" "\<forall>y\<in>A. hsz h1 y = hsz h y" "brk h \<le> brk h1"
  shows "\<exists>ap h'. malloc_loop g (nunits_of nbytes) (freep h1) (hptr h1 (freep h1)) h1 = Some (ap, h') \<and> served lo A nbytes h ap h'"
proof -
  let ?n = "nunits_of nbytes"
  obtain prevp p where l: "malloc_loop g ?n (freep h1) (hptr h1 (freep h1)) h1 = Some (take_block ?n prevp p h1)" and p: "p \<in> set xs"
    "?n \<le> hsz h1 p" "hptr h1 prevp = p" "prevp \<in> set (base h1 # xs)"
    using malloc_found [OF assms(1) nunits_of_fits(2) assms(2,3)] by blast
  obtain q h' xs' where t: "take_block ?n prevp p h1 = (units q 1, h')" "heap_inv lo (insert q A) xs' h'" "q \<notin> A" "hsz h' q = ?n"
    "\<forall>y\<in>A. hsz h' y = hsz h1 y" "brk h' = brk h1"
    using take_block_ok [OF assms(1) p(1) nunits_of_fits(2) p(2-4)] by blast
  have "{units q 1..<units q 1 + nbytes} \<subseteq> payload h' q" using nunits_of_fits(1) [of nbytes] by (simp add: payload_def t(4) units_def)
  then have "served lo A nbytes h (units q 1) h'" using t assms(4,5) unfolding served_def by auto
  then show ?thesis using l t(1) by auto
qed

text \<open>
  C13. \<^verbatim>\<open>malloc\<close> returns and gives out memory safely. In a heap whose blocks are in order it ends with a block that is large
  enough for the request, overlaps no block that is in use, and leaves the others and the order of the heap
  intact, or, when no free block is large enough and the kernel refuses more memory, with a null pointer and the
  heap as it was. The requests covered are those whose size still fits the \<^verbatim>\<open>int\<close> parameter of \<^verbatim>\<open>sbrk\<close>.
\<close>

theorem malloc_allocates:
  assumes "heap_inv lo A xs h" "lo \<le> brk h" "nbytes \<le> 2 ^ 31 - 32" "\<forall>old new. g old new \<longrightarrow> new \<le> 2 ^ 36"
  shows "(\<exists>ap h'. malloc g nbytes h = Some (ap, h') \<and> served lo A nbytes h ap h') \<or>
    malloc g nbytes h = Some (0, h) \<and> (\<forall>x\<in>set xs. hsz h x < nunits_of nbytes) \<and> \<not> g (brk h) (units (brk h) (max 4096 (nunits_of nbytes)))"
proof -
  let ?n = "nunits_of nbytes" let ?nu = "max 4096 ?n"
  have m: "malloc g nbytes h = malloc_loop g ?n (freep h) (hptr h (freep h)) h" by (simp add: malloc_def uinit_id [OF assms(1)])
  have small: "?nu * sizeof_Header < 2 ^ 31" using nunits_of_small [OF assms(3)] by (auto simp: sizeof_Header_def max_def)
  show ?thesis
  proof (cases "\<exists>x\<in>set xs. ?n \<le> hsz h x")
    case True
    then show ?thesis using served_from [OF assms(1)] m by auto
  next
    case False
    then have sm: "\<forall>x\<in>set xs. hsz h x < ?n" by (simp add: linorder_not_le)
    note nf = malloc_not_found [OF assms(1) nunits_of_fits(2) sm, of g]
    show ?thesis
    proof (cases "g (brk h) (units (brk h) ?nu)")
      case True
      then obtain h1 xs1 where mc: "morecore g ?n h = Some (freep h1, h1)" "heap_inv lo A xs1 h1" "\<forall>y\<in>A. hsz h1 y = hsz h y"
        "brk h1 = units (brk h) ?nu" "\<exists>x\<in>set xs1. ?nu \<le> hsz h1 x"
        using morecore_ok [OF assms(1,2) small, of g ?n] assms(4) by (auto simp: max_def split: if_splits)
      have "freep h1 \<noteq> 0" using mc(2) inv0_base [of lo A xs1 h1 "freep h1"] by (auto simp: heap_inv_iff inv0_def)
      then have "malloc g nbytes h = malloc_loop g ?n (freep h1) (hptr h1 (freep h1)) h1" using m nf mc(1) by simp
      moreover obtain x where "x \<in> set xs1" "?n \<le> hsz h1 x" using mc(5) by auto
      moreover have "brk h \<le> brk h1" by (simp add: mc(4) units_def)
      ultimately show ?thesis using served_from [OF mc(2) _ _ mc(3)] by auto
    next
      case False
      have "to_int32 (?nu * sizeof_Header) = int (?nu * sizeof_Header)" using small by (rule to_int32_small)
      moreover have "(if ?n < 4096 then 4096 else ?n) = ?nu" by simp
      moreover have "nat (int (?nu * sizeof_Header)) = ?nu * sizeof_Header" by (rule nat_int)
      ultimately have "morecore g ?n h = Some (0, h)"
        using False unfolding morecore_def Let_def sbrk_def units_def by (simp add: sizeof_Header_def del: of_nat_mult)
      then show ?thesis using m nf sm False by simp
    qed
  qed
qed

theorem malloc_allocates_witness:
  "\<exists>ap h'. malloc (\<lambda>old new. new \<le> 2 ^ 20) 10 \<lparr>hptr = (\<lambda>x. 16), hsz = (\<lambda>x. 0), freep = 16, base = 16, brk = 32\<rparr> = Some (ap, h') \<and>
     served 32 {} 10 \<lparr>hptr = (\<lambda>x. 16), hsz = (\<lambda>x. 0), freep = 16, base = 16, brk = 32\<rparr> ap h'"
proof -
  let ?h = "\<lparr>hptr = (\<lambda>x. 16), hsz = (\<lambda>x. 0), freep = 16, base = 16, brk = 32\<rparr>" let ?g = "\<lambda>old new. new \<le> (2 :: nat) ^ 20"
  have h: "heap_inv 32 {} [] ?h" by (simp add: heap_inv_def blocks_ok_def units_def sizeof_Header_def)
  have l: "32 \<le> brk ?h" by simp
  have n: "(10 :: nat) \<le> 2 ^ 31 - 32" by simp
  have g: "\<forall>old new. ?g old new \<longrightarrow> new \<le> 2 ^ 36" by auto
  have "?g (brk ?h) (units (brk ?h) (max 4096 (nunits_of 10)))" by (simp add: nunits_of_def units_def sizeof_Header_def)
  then show ?thesis using malloc_allocates [OF h l n g] by blast
qed

text \<open>What a client writes into its blocks does not disturb the heap.\<close>

lemma heap_inv_write:
  assumes "heap_inv lo A xs h" "base h' = base h" "freep h' = freep h" "brk h' = brk h"
    "\<And>x. (\<forall>q\<in>A. x \<notin> payload h q) \<Longrightarrow> hptr h' x = hptr h x \<and> hsz h' x = hsz h x"
  shows "heap_inv lo A xs h'"
proof -
  note i = heap_invD [OF assms(1)]
  have hdr: "x \<notin> payload h q" if "x \<in> set xs \<union> A" "q \<in> A" for x q
  proof (cases "x = q")
    case False
    then have "payload h q \<inter> {x..<units x (hsz h x)} = {}" using payload_disjoint [OF i(9), of q x] that by auto
    then show ?thesis using blocks_okD(2) [OF i(9) that(1)] by (auto simp: units_def sizeof_Header_def)
  qed (simp add: payload_def units_def sizeof_Header_def)
  have b: "base h \<notin> payload h q" if "q \<in> A" for q
    using above_base [OF assms(1), of q] that by (auto simp: payload_def units_def)
  have same: "hptr h' x = hptr h x \<and> hsz h' x = hsz h x" if "x \<in> set (base h # xs) \<union> A" for x
    using assms(5) hdr b that by auto
  have path: "path (hptr h') p zs q = path (hptr h) p zs q" if "set zs \<subseteq> set (base h # xs)" for p zs q
    using that by (induction zs arbitrary: p) (use same in auto)
  have "blocks_ok lo (set xs \<union> A) h'" using i(9) same unfolding blocks_ok_def assms(4) by auto
  then show ?thesis
    using i same path [of "base h # xs" "base h" "base h"] unfolding heap_inv_def assms(2-4) by (auto simp del: path.simps)
qed

section \<open>Requests that do not fit an int\<close>

text \<open>
  C34. \<^verbatim>\<open>malloc(0xFFFFFFFF)\<close> hands out memory the process does not have. The size of the request for more memory,
  \<^verbatim>\<open>nu * sizeof(Header)\<close>, is cut to the \<^verbatim>\<open>int\<close> parameter of \<^verbatim>\<open>sbrk\<close>: the first such call of a program gets 16 bytes
  from the kernel, records them as a block of 4 GB and returns a pointer to just behind the end of the process.
\<close>

theorem malloc_cuts_request:
  assumes "freep h = 0" "0 < base h" "units (base h) 1 \<le> brk h" "g (brk h) (brk h + 16)"
  shows "\<exists>h'. malloc g (2 ^ 32 - 1) h = Some (brk h + 16, h') \<and> brk h' = brk h + 16"
proof -
  define N where "N = nunits_of (2 ^ 32 - 1)"
  let ?b = "base h" let ?hp = "brk h"
  have n: "N = 2 ^ 28 + 1" by (simp add: N_def nunits_of_def sizeof_Header_def)
  then have N: "0 < N" "\<not> N < 4096" "N mod 2 ^ 32 = N" by simp_all
  define h1 where "h1 = uinit h"
  have h1: "freep h1 = ?b" "hptr h1 ?b = ?b" "hsz h1 ?b = 0" "brk h1 = ?hp" "base h1 = ?b"
    using assms(1) by (simp_all add: h1_def uinit_def set_sz_def set_ptr_def)
  have nb: "?b < ?hp" using assms(3) by (simp add: units_def sizeof_Header_def)
  define h2 where "h2 = set_sz ?hp N (h1\<lparr>brk := ?hp + 16\<rparr>)"
  have h2: "freep h2 = ?b" "hptr h2 ?b = ?b" "hsz h2 ?b = 0" "hsz h2 ?hp = N" "brk h2 = ?hp + 16"
    using h1 nb N(3) by (simp_all add: h2_def set_sz_def)
  have i: "to_int32 (N * sizeof_Header) = 16" unfolding n sizeof_Header_def to_int32_def by simp
  have "sbrk g 16 h1 = (Some ?hp, h1\<lparr>brk := ?hp + 16\<rparr>)" using assms(4) by (simp add: sbrk_def h1(4))
  moreover have "ufree (?hp + sizeof_Header) h2 = Some (free_at ?hp ?b h2)"
    using nb h2 by (simp add: ufree_def free_find_step [of h2 ?hp ?b] stops_def)
  moreover define h3 where "h3 = free_at ?hp ?b h2"
  moreover have h3: "freep h3 = ?b" "hptr h3 ?b = ?hp" "hptr h3 ?hp = ?b" "hsz h3 ?hp = N" "brk h3 = ?hp + 16"
    using nb h2 by (simp_all add: h3_def free_at_def Let_def set_ptr_def units_def)
  ultimately have mc: "morecore g N h1 = Some (?b, h3)"
    using i N(2) unfolding morecore_def by (simp add: h2_def)
  have "malloc g (2 ^ 32 - 1) h = malloc_loop g N ?b ?b h1" unfolding malloc_def Let_def N_def h1_def [symmetric] h1 ..
  also have "\<dots> = malloc_loop g N ?b ?hp h3"
    using mc h1 h3 assms(2) N(1) by (subst malloc_loop.simps) simp
  also have "\<dots> = Some (take_block N ?b ?hp h3)" using h3 by (subst malloc_loop.simps) simp
  also have "take_block N ?b ?hp h3 = (?hp + 16, (set_ptr ?b ?b h3)\<lparr>freep := ?b\<rparr>)" using h3 by (simp add: take_block_def sizeof_Header_def)
  finally show ?thesis using h3 by (simp add: set_ptr_def)
qed

theorem malloc_cuts_request_witness:
  "\<exists>h'. malloc (\<lambda>old new. True) (2 ^ 32 - 1) \<lparr>hptr = (\<lambda>x. 0), hsz = (\<lambda>x. 0), freep = 0, base = 16, brk = 4096\<rparr> = Some (4112, h') \<and> brk h' = 4112"
  using malloc_cuts_request [of "\<lparr>hptr = (\<lambda>x. 0), hsz = (\<lambda>x. 0), freep = 0, base = 16, brk = 4096\<rparr>" "\<lambda>old new. True"]
  by (simp add: units_def sizeof_Header_def)

end
