(* ===== verification/Sh.thy ===== *)
theory Sh
  imports Printf
begin

text \<open>
  The shell (\<^verbatim>\<open>user/sh.c\<close>): tokens, the recursive descent parser, the termination of the words with
  NULs, and the execution of parsed commands. A \<^verbatim>\<open>char *\<close> into the command line is the rest of the
  line from there on; a word, the pair of pointers \<^verbatim>\<open>q\<close> and \<^verbatim>\<open>eq\<close>, is the pair of the distances
  of both from the end \<^verbatim>\<open>es\<close>. The mutually recursive parsing functions take fuel; theory Shparse
  shows that the fuel of \<^verbatim>\<open>parsecmd\<close> is enough for every line.
\<close>

section \<open>Commands\<close>

datatype 'w cmd =
    EXEC "'w list"
  | REDIR "'w cmd" 'w nat nat
  | PIPE "'w cmd" "'w cmd"
  | LIST "'w cmd" "'w cmd"
  | BACK "'w cmd"

type_synonym span_word = "nat \<times> nat"

text \<open>The shell's \<^verbatim>\<open>panic(msg)\<close>, the report of leftovers, and fuel that is used up.\<close>

datatype perr = Sh_panic string | Leftovers string | No_fuel

definition pbind :: "perr + 'a \<Rightarrow> ('a \<Rightarrow> perr + 'b) \<Rightarrow> perr + 'b" where
  "pbind m f = (case m of Inl e \<Rightarrow> Inl e | Inr x \<Rightarrow> f x)"

lemma pbind_simps [simp]: "pbind (Inl e) f = Inl e" "pbind (Inr x) f = f x"
  by (simp_all add: pbind_def)

lemma pbind_eq_Inr_iff: "pbind m f = Inr r \<longleftrightarrow> (\<exists>x. m = Inr x \<and> f x = Inr r)"
  by (cases m) simp_all

lemma pbind_eq_Inl_iff: "pbind m f = Inl e \<longleftrightarrow> m = Inl e \<or> (\<exists>x. m = Inr x \<and> f x = Inl e)"
  by (cases m) simp_all

lemma pbind_cong [fundef_cong]: "m = m' \<Longrightarrow> (\<And>x. m' = Inr x \<Longrightarrow> f x = f' x) \<Longrightarrow> pbind m f = pbind m' f'"
  by (cases m') simp_all

definition MAXARGS :: nat where "MAXARGS = 10"

text \<open>The modes of \<^verbatim>\<open>kernel/fcntl.h\<close> that redirections use.\<close>

definition mode_read :: nat where "mode_read = 0x000"
definition mode_write :: nat where "mode_write = 0x601"
definition mode_append :: nat where "mode_append = 0x201"

section \<open>Tokens\<close>

definition whitespace :: string where "whitespace = [CHR 0x20, CHR 0x09, CHR 0x0D, CHR 0x0A, CHR 0x0B]"
definition symbols :: string where "symbols = ''<|>&;()''"

definition nul :: char where "nul = CHR 0x00"

definition blank :: "char \<Rightarrow> bool" where "blank c \<longleftrightarrow> strchr whitespace c \<noteq> None"
definition plain :: "char \<Rightarrow> bool" where "plain c \<longleftrightarrow> \<not> blank c \<and> strchr symbols c = None"

definition skip_blanks :: "string \<Rightarrow> string" where "skip_blanks s = dropWhile blank s"

definition deref :: "string \<Rightarrow> char" where "deref s = (case s of [] \<Rightarrow> nul | c # _ \<Rightarrow> c)"

definition token_end :: "string \<Rightarrow> char \<times> string" where
  "token_end s =
     (if deref s = nul then (nul, s)
      else if deref s \<in> set ''|();&<'' then (deref s, tl s)
      else if deref s = CHR ''>'' then (if deref (tl s) = CHR ''>'' then (CHR ''+'', drop 2 s) else (CHR ''>'', tl s))
      else (CHR ''a'', dropWhile plain s))"

definition gettoken :: "string \<Rightarrow> char \<times> span_word \<times> string" where
  "gettoken s =
     (let s = skip_blanks s; q = length s; (ret, s) = token_end s; eq = length s in (ret, (q, eq), skip_blanks s))"

definition peek :: "string \<Rightarrow> string \<Rightarrow> bool \<times> string" where
  "peek s toks = (let s = skip_blanks s in (deref s \<noteq> nul \<and> strchr toks (deref s) \<noteq> None, s))"

lemma length_skip_blanks: "length (skip_blanks s) \<le> length s"
  by (simp add: skip_blanks_def length_dropWhile_le)

lemma peek_le: "peek s toks = (b, s') \<Longrightarrow> length s' \<le> length s"
  using length_skip_blanks [of s] by (auto simp: peek_def Let_def)

lemma token_end_le: "token_end s = (r, s') \<Longrightarrow> length s' \<le> length s"
  by (auto simp: token_end_def length_dropWhile_le split: if_splits)

lemma blank_iff: "blank c \<longleftrightarrow> c \<in> set whitespace"
  by (simp add: blank_def strchr_eq)

lemma plain_iff: "plain c \<longleftrightarrow> c \<notin> set whitespace \<and> c \<notin> set symbols"
  by (simp add: plain_def blank_iff strchr_eq)

lemma deref_skip_blanks: "skip_blanks s = [] \<or> \<not> blank (deref (skip_blanks s))"
  by (induction s) (auto simp: skip_blanks_def deref_def)

lemma token_end_less:
  assumes "token_end s = (r, s')" "r \<noteq> nul" "\<not> blank (deref s)"
  shows "length s' < length s"
proof -
  have "deref s \<noteq> nul" using assms by (auto simp: token_end_def)
  then obtain c cs where s: "s = c # cs" by (cases s) (simp_all add: deref_def)
  have "plain c" if "c \<notin> set ''|();&<''" "c \<noteq> CHR ''>''"
    using that assms(3) by (auto simp: plain_def symbols_def strchr_eq s deref_def)
  then show ?thesis
    using assms(1) \<open>deref s \<noteq> nul\<close> length_dropWhile_le [of plain cs] by (auto simp: token_end_def s deref_def split: if_splits)
qed

lemma gettoken_less:
  assumes "gettoken s = (r, w, s')" "r \<noteq> nul"
  shows "length s' < length s"
proof -
  obtain e where e: "token_end (skip_blanks s) = (r, e)" "s' = skip_blanks e"
    using assms(1) by (auto simp: gettoken_def Let_def split: prod.splits)
  have "skip_blanks s \<noteq> []" using e(1) assms(2) by (auto simp: token_end_def deref_def)
  then have "\<not> blank (deref (skip_blanks s))" using deref_skip_blanks [of s] by blast
  then have "length e < length (skip_blanks s)" by (rule token_end_less [OF e(1) assms(2)])
  then show ?thesis using length_skip_blanks [of s] length_skip_blanks [of e] unfolding e(2) by linarith
qed

lemma gettoken_le:
  assumes "gettoken s = (r, w, s')"
  shows "length s' \<le> length s"
proof -
  obtain e where e: "token_end (skip_blanks s) = (r, e)" "s' = skip_blanks e"
    using assms by (auto simp: gettoken_def Let_def split: prod.splits)
  show ?thesis
    using token_end_le [OF e(1)] length_skip_blanks [of s] length_skip_blanks [of e] unfolding e(2) by linarith
qed

text \<open>What \<^verbatim>\<open>peek\<close> has seen, \<^verbatim>\<open>gettoken\<close> consumes.\<close>

lemma peek_gettoken_less:
  assumes "peek s toks = (True, s1)" "gettoken s1 = (r, w, s2)" "set toks \<subseteq> set symbols"
  shows "length s2 < length s"
proof -
  have s1: "s1 = skip_blanks s" "deref s1 \<noteq> nul" "deref s1 \<in> set symbols"
    using assms(1,3) by (auto simp: peek_def Let_def strchr_eq split: if_splits)
  obtain c cs where c: "s1 = c # cs" using s1(2) by (cases s1) (simp_all add: deref_def)
  have "\<not> blank c" using s1(3) by (auto simp: c deref_def symbols_def blank_iff whitespace_def)
  then have "skip_blanks s1 = s1" by (simp add: skip_blanks_def c)
  then have "r \<noteq> nul" using assms(2) s1(3) by (auto simp: gettoken_def Let_def token_end_def c deref_def symbols_def nul_def split: if_splits)
  then show ?thesis using gettoken_less [OF assms(2)] length_skip_blanks [of s] s1(1) by simp
qed

section \<open>Parsing\<close>

text \<open>\<^verbatim>\<open>redircmd\<close> around a command, for the redirections read so far.\<close>

type_synonym redir = "span_word \<times> nat \<times> nat"

definition wrap :: "('w \<times> nat \<times> nat) list \<Rightarrow> 'w cmd \<Rightarrow> 'w cmd" where
  "wrap rs c = foldl (\<lambda>c (f, mode, fd). REDIR c f mode fd) c rs"

definition redir_of :: "char \<Rightarrow> span_word \<Rightarrow> redir list" where
  "redir_of tok w =
     (if tok = CHR ''<'' then [(w, mode_read, 0)]
      else if tok = CHR ''>'' then [(w, mode_write, 1)]
      else if tok = CHR ''+'' then [(w, mode_append, 1)]
      else [])"

function parseredirs :: "string \<Rightarrow> perr + redir list \<times> string" where
  "parseredirs s =
     (case peek s ''<>'' of (b, s1) \<Rightarrow>
        if \<not> b then Inr ([], s1)
        else case gettoken s1 of (tok, _, s2) \<Rightarrow>
          case gettoken s2 of (tok2, w, s3) \<Rightarrow>
            if tok2 \<noteq> CHR ''a'' then Inl (Sh_panic ''missing file for redirection'')
            else pbind (parseredirs s3) (\<lambda>(rs, s). Inr (redir_of tok w @ rs, s)))"
  by pat_completeness auto
termination
proof (relation "measure length", goal_cases)
  case (2 s b s1 tok y w1 s2 tok2 z w s3)
  then have "length s2 < length s" using peek_gettoken_less [of s "''<>''" s1 tok w1 s2] by (simp add: symbols_def)
  moreover have "length s3 \<le> length s2" using 2 gettoken_le [of s2 tok2 w s3] by simp
  ultimately show ?case by simp
qed simp

declare parseredirs.simps [simp del]

lemma parseredirs_le: "parseredirs s = Inr (rs, s') \<Longrightarrow> length s' \<le> length s"
proof (induction s arbitrary: rs rule: parseredirs.induct)
  case (1 s)
  obtain b s1 where p: "peek s ''<>'' = (b, s1)" by fastforce
  obtain tok w1 s2 where g: "gettoken s1 = (tok, w1, s2)" by (metis prod_cases3)
  obtain tok2 w s3 where h: "gettoken s2 = (tok2, w, s3)" by (metis prod_cases3)
  show ?case
  proof (cases "b \<and> tok2 = CHR ''a''")
    case True
    then obtain rs' where "parseredirs s3 = Inr (rs', s')"
      using 1(2) by (subst (asm) parseredirs.simps) (auto simp: p g h pbind_eq_Inr_iff)
    then have "length s' \<le> length s3" using 1(1) [OF p [symmetric] _ g [symmetric] refl h [symmetric] refl] True by simp
    then show ?thesis using gettoken_le [OF g] gettoken_le [OF h] peek_le [OF p] by linarith
  next
    case False
    then show ?thesis using 1(2) peek_le [OF p] by (subst (asm) parseredirs.simps) (auto simp: p g h split: if_splits)
  qed
qed

text \<open>The loop of \<^verbatim>\<open>parseexec\<close> over the arguments; \<open>args\<close> and \<open>rs\<close> are what it has collected.\<close>

function parseargs :: "span_word list \<Rightarrow> redir list \<Rightarrow> string \<Rightarrow> perr + (span_word list \<times> redir list) \<times> string" where
  "parseargs args rs s =
     (case peek s ''|)&;'' of (b, s1) \<Rightarrow>
        if b then Inr ((args, rs), s1)
        else case gettoken s1 of (tok, w, s2) \<Rightarrow>
          if tok = nul then Inr ((args, rs), s2)
          else if tok \<noteq> CHR ''a'' then Inl (Sh_panic ''syntax'')
          else if MAXARGS \<le> length (args @ [w]) then Inl (Sh_panic ''too many args'')
          else pbind (parseredirs s2) (\<lambda>(rs', s3). parseargs (args @ [w]) (rs @ rs') s3))"
  by pat_completeness auto
termination
proof (relation "measure (\<lambda>(args, rs, s). length s)", goal_cases)
  case (2 args rs s b s1 tok y w s2 v rs' s3)
  then have "length s2 < length s1" using gettoken_less [of s1 tok w s2] by simp
  moreover have "length s1 \<le> length s" using 2 peek_le [of s "''|)&;''" b s1] by simp
  moreover have "length s3 \<le> length s2" using 2 parseredirs_le [of s2 rs' s3] by simp
  ultimately show ?case by simp
qed simp

declare parseargs.simps [simp del]

text \<open>The loop of \<^verbatim>\<open>parseline\<close> over \<^verbatim>\<open>&\<close>.\<close>

function parsebacks :: "'w cmd \<Rightarrow> string \<Rightarrow> 'w cmd \<times> string" where
  "parsebacks c s =
     (case peek s ''&'' of (b, s1) \<Rightarrow>
        if b then (case gettoken s1 of (_, _, s2) \<Rightarrow> parsebacks (BACK c) s2) else (c, s1))"
  by pat_completeness auto
termination
proof (relation "measure (\<lambda>(c, s). length s)", goal_cases)
  case (2 c s b s1 tok y w s2)
  then show ?case using peek_gettoken_less [of s "''&''" s1 tok w s2] by (auto simp: symbols_def)
qed simp

declare parsebacks.simps [simp del]

fun parseline :: "nat \<Rightarrow> string \<Rightarrow> perr + span_word cmd \<times> string"
  and parsepipe :: "nat \<Rightarrow> string \<Rightarrow> perr + span_word cmd \<times> string"
  and parseexec :: "nat \<Rightarrow> string \<Rightarrow> perr + span_word cmd \<times> string"
  and parseblock :: "nat \<Rightarrow> string \<Rightarrow> perr + span_word cmd \<times> string" where
  "parseline 0 s = Inl No_fuel"
| "parseline (Suc n) s =
     pbind (parsepipe n s) (\<lambda>(c, s).
     case parsebacks c s of (c, s) \<Rightarrow>
     case peek s '';'' of (b, s) \<Rightarrow>
       if b then (case gettoken s of (_, _, s) \<Rightarrow> pbind (parseline n s) (\<lambda>(d, s). Inr (LIST c d, s)))
       else Inr (c, s))"
| "parsepipe 0 s = Inl No_fuel"
| "parsepipe (Suc n) s =
     pbind (parseexec n s) (\<lambda>(c, s).
     case peek s ''|'' of (b, s) \<Rightarrow>
       if b then (case gettoken s of (_, _, s) \<Rightarrow> pbind (parsepipe n s) (\<lambda>(d, s). Inr (PIPE c d, s)))
       else Inr (c, s))"
| "parseexec 0 s = Inl No_fuel"
| "parseexec (Suc n) s =
     (case peek s ''('' of (b, s) \<Rightarrow>
        if b then parseblock n s
        else pbind (parseredirs s) (\<lambda>(rs, s).
          pbind (parseargs [] rs s) (\<lambda>((args, rs), s). Inr (wrap rs (EXEC args), s))))"
| "parseblock 0 s = Inl No_fuel"
| "parseblock (Suc n) s =
     (case peek s ''('' of (b, s) \<Rightarrow>
        if \<not> b then Inl (Sh_panic ''parseblock'')
        else case gettoken s of (_, _, s) \<Rightarrow>
          pbind (parseline n s) (\<lambda>(c, s).
          case peek s '')'' of (b, s) \<Rightarrow>
            if \<not> b then Inl (Sh_panic ''syntax - missing )'')
            else case gettoken s of (_, _, s) \<Rightarrow>
              pbind (parseredirs s) (\<lambda>(rs, s). Inr (wrap rs c, s))))"

text \<open>
  \<^verbatim>\<open>nulterminate\<close> stores a NUL behind every word; \<open>buf\<close> is the line with its closing NUL, whose
  place is \<open>es\<close>.
\<close>

fun nulterminate :: "nat \<Rightarrow> span_word cmd \<Rightarrow> string \<Rightarrow> string" where
  "nulterminate es (EXEC args) buf = fold (\<lambda>(q, eq) buf. buf[es - eq := nul]) args buf"
| "nulterminate es (REDIR c (q, eq) mode fd) buf = (nulterminate es c buf)[es - eq := nul]"
| "nulterminate es (PIPE l r) buf = nulterminate es r (nulterminate es l buf)"
| "nulterminate es (LIST l r) buf = nulterminate es r (nulterminate es l buf)"
| "nulterminate es (BACK c) buf = nulterminate es c buf"

definition parse_fuel :: "string \<Rightarrow> nat" where
  "parse_fuel s = 4 * length s + 4"

definition parsecmd :: "string \<Rightarrow> perr + span_word cmd \<times> string" where
  "parsecmd s =
     pbind (parseline (parse_fuel s) s) (\<lambda>(c, s').
     case peek s' [] of (_, s') \<Rightarrow>
       if s' \<noteq> [] then Inl (Leftovers s') else Inr (c, nulterminate (length s) c (s @ [nul])))"

text \<open>The C string a word of the command denotes in the terminated line.\<close>

definition word_at :: "string \<Rightarrow> nat \<Rightarrow> span_word \<Rightarrow> string" where
  "word_at buf es w = takeWhile (\<lambda>c. c \<noteq> nul) (drop (es - fst w) buf)"

end
