(* ===== verification/Shparse.thy ===== *)
theory Shparse
  imports Sh "HOL-Library.Sublist"
begin

text \<open>
  Properties of the shell's parser: it always returns, every word it finds is a proper piece of
  the line that \<^verbatim>\<open>nulterminate\<close> turns into a C string, and every command can be written so that
  the parser reads it back.
\<close>

section \<open>Lookahead\<close>

lemma skip_idem [simp]: "skip_blanks (skip_blanks s) = skip_blanks s"
  by (simp add: skip_blanks_def dropWhile_idem)

lemma peek_skip [simp]: "peek (skip_blanks s) toks = peek s toks"
  by (simp add: peek_def)

lemma gettoken_skip [simp]: "gettoken (skip_blanks s) = gettoken s"
  by (simp add: gettoken_def)

lemma parse_skip [simp]:
  "parseredirs (skip_blanks s) = parseredirs s" "parseargs args rs (skip_blanks s) = parseargs args rs s"
  "parsebacks c (skip_blanks s) = parsebacks c s"
  by (simp_all add: parseredirs.simps [of "skip_blanks s"] parseredirs.simps [of s] parseargs.simps [of _ _ "skip_blanks s"]
      parseargs.simps [of _ _ s] parsebacks.simps [of _ "skip_blanks s"] parsebacks.simps [of _ s])

lemma parse_rec_skip [simp]:
  "parseexec n (skip_blanks s) = parseexec n s" "parseblock n (skip_blanks s) = parseblock n s"
  "parsepipe n (skip_blanks s) = parsepipe n s" "parseline n (skip_blanks s) = parseline n s"
proof -
  show e: "parseexec n (skip_blanks s) = parseexec n s" for n by (cases n) simp_all
  show "parseblock n (skip_blanks s) = parseblock n s" by (cases n) simp_all
  show p: "parsepipe n (skip_blanks s) = parsepipe n s" for n by (cases n) (simp_all add: e)
  show "parseline n (skip_blanks s) = parseline n s" by (cases n) (simp_all add: p)
qed

lemma peek_eq: "peek s toks = (deref (skip_blanks s) \<in> set toks \<and> deref (skip_blanks s) \<noteq> nul, skip_blanks s)"
  by (auto simp: peek_def Let_def strchr_eq)

section \<open>The parser returns\<close>

lemma parseargs_le: "parseargs args rs s = Inr (r, s') \<Longrightarrow> length s' \<le> length s"
proof (induction args rs s rule: parseargs.induct)
  case (1 args rs s)
  obtain tok w s2 where g: "gettoken s = (tok, w, s2)" by (metis prod_cases3)
  let ?p = "peek s ''|)&;''"
  have sl: "length (skip_blanks s) \<le> length s" by (rule length_skip_blanks)
  show ?case
  proof (cases "fst ?p \<or> tok = nul")
    case True
    then show ?thesis using 1(2) sl gettoken_le [OF g] by (subst (asm) parseargs.simps) (auto simp: peek_eq g split: if_splits)
  next
    case False
    then obtain rs' s3 where r: "tok = CHR ''a''" "\<not> MAXARGS \<le> length (args @ [w])" "parseredirs s2 = Inr (rs', s3)"
      "parseargs (args @ [w]) (rs @ rs') s3 = Inr (r, s')"
      using 1(2) by (subst (asm) parseargs.simps) (auto simp: peek_eq g pbind_eq_Inr_iff split: if_splits)
    have "length s' \<le> length s3"
      using 1(1) [of "fst ?p" "skip_blanks s" tok "(w, s2)" w s2 "(rs', s3)" rs' s3] False r g by (simp add: peek_eq)
    then show ?thesis using parseredirs_le [OF r(3)] gettoken_le [OF g] by simp
  qed
qed

lemma parseredirs_fuel: "parseredirs s \<noteq> Inl No_fuel"
proof (induction s rule: parseredirs.induct)
  case (1 s)
  show ?case by (subst parseredirs.simps) (use 1 in \<open>auto simp: pbind_eq_Inl_iff split: prod.splits\<close>)
qed

lemma parseargs_fuel: "parseargs args rs s \<noteq> Inl No_fuel"
proof (induction args rs s rule: parseargs.induct)
  case (1 args rs s)
  show ?case by (subst parseargs.simps) (use 1 parseredirs_fuel in \<open>auto simp: pbind_eq_Inl_iff split: prod.splits\<close>)
qed

lemma parsebacks_le: "parsebacks c s = (d, s') \<Longrightarrow> length s' \<le> length s"
proof (induction c s rule: parsebacks.induct)
  case (1 c s)
  show ?case
  proof (cases "fst (peek s ''&'')")
    case True
    obtain tok w s2 where g: "gettoken s = (tok, w, s2)" by (metis prod_cases3)
    have "parsebacks (BACK c) s2 = (d, s')" using 1(2) True by (subst (asm) parsebacks.simps) (simp add: peek_eq g nul_def)
    then have "length s' \<le> length s2"
      using 1(1) [of True "skip_blanks s" tok "(w, s2)" w s2] True g by (simp add: peek_eq nul_def)
    then show ?thesis using gettoken_le [OF g] by simp
  next
    case False
    then show ?thesis using 1(2) length_skip_blanks [of s] by (subst (asm) parsebacks.simps) (auto simp: peek_eq)
  qed
qed

text \<open>What a symbol that was peeked at leaves.\<close>

lemma after_symbol:
  assumes "fst (peek s toks)" "gettoken s = (r, w, s2)" "set toks \<subseteq> set symbols"
  shows "length s2 < length s"
  using peek_gettoken_less [of s toks "skip_blanks s" r w s2] assms by (simp add: peek_eq)

definition returns :: "bool \<Rightarrow> string \<Rightarrow> perr + 'a \<times> string \<Rightarrow> bool" where
  "returns fuel s r \<longleftrightarrow> (fuel \<longrightarrow> r \<noteq> Inl No_fuel) \<and> (\<forall>c s'. r = Inr (c, s') \<longrightarrow> length s' \<le> length s)"

lemma returns_bind:
  assumes "returns f s m" "fuel \<Longrightarrow> f" "\<And>c s'. m = Inr (c, s') \<Longrightarrow> length s' \<le> length s \<Longrightarrow> returns fuel s (g (c, s'))"
  shows "returns fuel s (pbind m g)"
  using assms by (cases m) (auto simp: returns_def)

lemma returns_mono: "returns f s' r \<Longrightarrow> length s' \<le> length s \<Longrightarrow> (fuel \<Longrightarrow> f) \<Longrightarrow> returns fuel s r"
  by (auto simp: returns_def)

lemma parse_total:
  "returns (4 * length s + 4 \<le> n) s (parseline n s) \<and> returns (4 * length s + 3 \<le> n) s (parsepipe n s) \<and>
   returns (4 * length s + 2 \<le> n) s (parseexec n s) \<and> returns (4 * length s + 1 \<le> n) s (parseblock n s)"
proof (induction n arbitrary: s)
  case (Suc n)
  have line: "returns (4 * length s + 4 \<le> n) s (parseline n s)" and pipe: "returns (4 * length s + 3 \<le> n) s (parsepipe n s)"
    and exec: "returns (4 * length s + 2 \<le> n) s (parseexec n s)" and block: "returns (4 * length s + 1 \<le> n) s (parseblock n s)" for s
    using Suc.IH [of s] by blast+
  have sl: "length (skip_blanks s) \<le> length s" for s by (rule length_skip_blanks)
  have redirs: "returns True s (parseredirs s)" for s using parseredirs_le parseredirs_fuel by (auto simp: returns_def)
  have args: "returns True s (parseargs as rs s)" for as rs s using parseargs_le parseargs_fuel by (auto simp: returns_def)
  have "returns (4 * length s + 4 \<le> Suc n) s (parseline (Suc n) s)"
    unfolding parseline.simps
  proof (rule returns_bind [OF pipe])
    fix c :: "span_word cmd" and s1 :: string assume s1: "length s1 \<le> length s"
    obtain d s2 where b: "parsebacks c s1 = (d, s2)" by fastforce
    have s2: "length s2 \<le> length s" using parsebacks_le [OF b] s1 by simp
    obtain r w s3 where g: "gettoken s2 = (r, w, s3)" by (metis prod_cases3)
    have "returns (4 * length s + 4 \<le> Suc n) s (pbind (parseline n s3) (\<lambda>(d', s). Inr (LIST d d', s)))" if "fst (peek s2 '';'')"
    proof -
      have s3: "length s3 < length s" using after_symbol [OF that g] s2 by (simp add: symbols_def)
      show ?thesis by (rule returns_bind [OF returns_mono [OF line, of s3 s "4 * length s + 4 \<le> Suc n"]]) (use s3 in \<open>auto simp: returns_def\<close>)
    qed
    then show "returns (4 * length s + 4 \<le> Suc n) s (case (c, s1) of (c, s) \<Rightarrow> case parsebacks c s of (c, s) \<Rightarrow> case peek s '';'' of (b, s) \<Rightarrow>
        if b then (case gettoken s of (_, _, s) \<Rightarrow> pbind (parseline n s) (\<lambda>(d, s). Inr (LIST c d, s))) else Inr (c, s))"
      using sl [of s2] s2 by (auto simp: b peek_eq g returns_def)
  qed simp
  moreover have "returns (4 * length s + 3 \<le> Suc n) s (parsepipe (Suc n) s)"
    unfolding parsepipe.simps
  proof (rule returns_bind [OF exec])
    fix c :: "span_word cmd" and s1 :: string assume s1: "length s1 \<le> length s"
    obtain r w s3 where g: "gettoken s1 = (r, w, s3)" by (metis prod_cases3)
    have "returns (4 * length s + 3 \<le> Suc n) s (pbind (parsepipe n s3) (\<lambda>(d', s). Inr (PIPE c d', s)))" if "fst (peek s1 ''|'')"
    proof -
      have s3: "length s3 < length s" using after_symbol [OF that g] s1 by (simp add: symbols_def)
      show ?thesis by (rule returns_bind [OF returns_mono [OF pipe, of s3 s "4 * length s + 3 \<le> Suc n"]]) (use s3 in \<open>auto simp: returns_def\<close>)
    qed
    then show "returns (4 * length s + 3 \<le> Suc n) s (case (c, s1) of (c, s) \<Rightarrow> case peek s ''|'' of (b, s) \<Rightarrow>
        if b then (case gettoken s of (_, _, s) \<Rightarrow> pbind (parsepipe n s) (\<lambda>(d, s). Inr (PIPE c d, s))) else Inr (c, s))"
      using sl [of s1] s1 by (auto simp: peek_eq g returns_def)
  qed simp
  moreover have "returns (4 * length s + 2 \<le> Suc n) s (parseexec (Suc n) s)"
  proof -
    have "returns (4 * length s + 2 \<le> Suc n) s (pbind (parseredirs s) (\<lambda>(rs, s).
        pbind (parseargs [] rs s) (\<lambda>((args, rs), s). Inr (wrap rs (EXEC args), s))))"
    proof (rule returns_bind [OF redirs])
      fix rs and s1 :: string assume "length s1 \<le> length s"
      then show "returns (4 * length s + 2 \<le> Suc n) s (case (rs, s1) of (rs, s) \<Rightarrow>
          pbind (parseargs [] rs s) (\<lambda>((args, rs), s). Inr (wrap rs (EXEC args), s)))"
        by (simp, intro returns_bind [OF returns_mono [OF args, of s1 s True]]) (auto simp: returns_def)
    qed simp
    moreover have "returns (4 * length s + 2 \<le> Suc n) s (parseblock n s)" by (rule returns_mono [OF block]) simp_all
    ultimately show ?thesis by (simp add: peek_eq)
  qed
  moreover have "returns (4 * length s + 1 \<le> Suc n) s (parseblock (Suc n) s)"
  proof -
    obtain r w s1 where g: "gettoken s = (r, w, s1)" by (metis prod_cases3)
    let ?R = "\<lambda>c s2. if \<not> fst (peek s2 '')'') then Inl (Sh_panic ''syntax - missing )'')
      else case gettoken s2 of (_, _, s) \<Rightarrow> pbind (parseredirs s) (\<lambda>(rs, s). Inr (wrap rs c, s))"
    have tail: "returns (4 * length s + 1 \<le> Suc n) s (?R c s2)" if "length s2 \<le> length s" for c s2
    proof -
      obtain r w s3 where g3: "gettoken s2 = (r, w, s3)" by (metis prod_cases3)
      have "returns (4 * length s + 1 \<le> Suc n) s (pbind (parseredirs s3) (\<lambda>(rs, s). Inr (wrap rs c, s)))"
        by (rule returns_bind [OF returns_mono [OF redirs, of s3 s True]]) (use gettoken_le [OF g3] that in \<open>auto simp: returns_def\<close>)
      then show ?thesis by (simp add: g3 returns_def)
    qed
    have "returns (4 * length s + 1 \<le> Suc n) s (pbind (parseline n s1) (\<lambda>(c, s). ?R c s))" if "fst (peek s ''('')"
    proof -
      have s1: "length s1 < length s" using after_symbol [OF that g] by (simp add: symbols_def)
      show ?thesis
      proof (rule returns_bind [OF returns_mono [OF line, of s1 s "4 * length s + 1 \<le> Suc n"]])
        fix c :: "span_word cmd" and s2 :: string assume "length s2 \<le> length s"
        then show "returns (4 * length s + 1 \<le> Suc n) s (case (c, s2) of (c, s) \<Rightarrow> ?R c s)" using tail by simp
      qed (use s1 in auto)
    qed
    then show ?thesis by (auto simp: peek_eq g returns_def nul_def cong: if_cong)
  qed
  ultimately show ?case by blast
qed (simp add: returns_def)

section \<open>Words\<close>

text \<open>The text of a word in the line, and what makes a word a proper piece of the line.\<close>

definition word_text :: "string \<Rightarrow> span_word \<Rightarrow> string" where
  "word_text line w = take (fst w - snd w) (drop (length line - fst w) line)"

definition proper :: "string \<Rightarrow> span_word \<Rightarrow> bool" where
  "proper line w \<longleftrightarrow> snd w < fst w \<and> fst w \<le> length line \<and> (\<forall>c\<in>set (word_text line w). plain c \<and> c \<noteq> nul) \<and>
     (snd w = 0 \<or> \<not> plain (line ! (length line - snd w)))"

lemma suffix_dropWhile': "suffix s line \<Longrightarrow> suffix (dropWhile P s) line"
  using suffix_dropWhile suffix_order.order_trans by blast

lemma suffix_drop': "suffix s line \<Longrightarrow> suffix (drop k s) line"
  using suffix_drop suffix_order.order_trans by blast

lemma suffix_skip: "suffix s line \<Longrightarrow> suffix (skip_blanks s) line"
  by (simp add: skip_blanks_def suffix_dropWhile')

lemma deref_nul: "nul \<notin> set line \<Longrightarrow> suffix s line \<Longrightarrow> deref s = nul \<longleftrightarrow> s = []"
  by (auto simp: deref_def suffix_def split: list.splits)

lemma token_end_suffix: "token_end s = (r, s') \<Longrightarrow> suffix s line \<Longrightarrow> suffix s' line"
  using suffix_drop' [of s line 1] suffix_drop' [of s line 2] suffix_dropWhile' [of s line plain]
  by (auto simp: token_end_def drop_Suc split: if_splits)

lemma gettoken_suffix: "gettoken s = (r, w, s') \<Longrightarrow> suffix s line \<Longrightarrow> suffix s' line"
  by (auto simp: gettoken_def Let_def split: prod.splits intro: suffix_skip token_end_suffix)

lemma word_of_suffix:
  assumes "suffix s line"
  shows "word_text line (length s, length s') = take (length s - length s') s"
  using assms by (auto simp: word_text_def suffix_def)

lemma gettoken_proper:
  assumes "gettoken s = (CHR ''a'', w, s')" "suffix s line" "nul \<notin> set line"
  shows "proper line w" "word_text line w = takeWhile plain (skip_blanks s)"
proof -
  let ?s = "skip_blanks s" let ?e = "dropWhile plain ?s"
  have sx: "suffix ?s line" by (rule suffix_skip [OF assms(2)])
  have w: "w = (length ?s, length ?e)" "deref ?s \<noteq> nul" "deref ?s \<notin> set ''|();&<>''"
    using assms(1) by (auto simp: gettoken_def Let_def token_end_def nul_def split: if_splits)
  then obtain c cs where c: "?s = c # cs" by (cases ?s) (auto simp: deref_def)
  have "\<not> blank c" using deref_skip_blanks [of s] by (simp add: c deref_def)
  then have pc: "plain c" using w(3) by (auto simp: c deref_def plain_def symbols_def strchr_eq)
  have l: "length ?s = length (takeWhile plain ?s) + length ?e" by (metis length_append takeWhile_dropWhile_id)
  have "take (length ?s - length ?e) ?s = takeWhile plain ?s"
    using l takeWhile_eq_take [of plain ?s] by simp
  then show wt: "word_text line w = takeWhile plain ?s" using word_of_suffix [OF sx, of ?e] by (simp add: w(1))
  have "length ?e < length ?s" using pc length_dropWhile_le [of plain cs] by (simp add: c)
  moreover have "length ?s \<le> length line" using sx by (rule suffix_length_le)
  moreover have "\<forall>c\<in>set (takeWhile plain ?s). plain c \<and> c \<noteq> nul"
    using sx assms(3) by (auto dest!: set_takeWhileD simp: suffix_def)
  moreover have "\<not> plain (line ! (length line - length ?e))" if e: "?e \<noteq> []"
  proof -
    obtain pre where pre: "line = pre @ ?e" using suffix_dropWhile' [OF sx, of plain] unfolding suffix_def by blast
    then have len: "length line = length pre + length ?e" by (metis length_append)
    obtain x xs where x: "?e = x # xs" using e by (cases ?e) simp_all
    have "line = pre @ x # xs" by (rule trans [OF pre]) (simp only: x)
    then have "line ! length pre = x" by (metis nth_append_length)
    then show ?thesis using hd_dropWhile [OF e] len by (simp add: x)
  qed
  ultimately show "proper line w" using wt by (auto simp: proper_def w(1))
qed

text \<open>
  The shape of the parser's commands: room for the closing null pointer of \<^verbatim>\<open>argv\<close>, and the three kinds
  of redirection. Every result is a rest of the line with a good command: of this shape and with proper words.
\<close>

definition valid_mode :: "nat \<Rightarrow> nat \<Rightarrow> bool" where
  "valid_mode mode fd \<longleftrightarrow> mode = mode_read \<and> fd = 0 \<or> mode = mode_write \<and> fd = 1 \<or> mode = mode_append \<and> fd = 1"

fun shape :: "'w cmd \<Rightarrow> bool" where
  "shape (EXEC args) \<longleftrightarrow> length args < MAXARGS"
| "shape (REDIR c f mode fd) \<longleftrightarrow> shape c \<and> valid_mode mode fd"
| "shape (PIPE l r) \<longleftrightarrow> shape l \<and> shape r"
| "shape (LIST l r) \<longleftrightarrow> shape l \<and> shape r"
| "shape (BACK c) \<longleftrightarrow> shape c"

definition good_cmd :: "string \<Rightarrow> span_word cmd \<Rightarrow> bool" where
  "good_cmd line c \<longleftrightarrow> shape c \<and> (\<forall>w\<in>set_cmd c. proper line w)"

definition good_redirs :: "string \<Rightarrow> redir list \<Rightarrow> bool" where
  "good_redirs line rs \<longleftrightarrow> (\<forall>(w, mode, fd)\<in>set rs. proper line w \<and> valid_mode mode fd)"

definition good_args :: "string \<Rightarrow> span_word list \<times> redir list \<Rightarrow> bool" where
  "good_args line = (\<lambda>(args, rs). (\<forall>w\<in>set args. proper line w) \<and> length args < MAXARGS \<and> good_redirs line rs)"

definition yields :: "string \<Rightarrow> ('a \<Rightarrow> bool) \<Rightarrow> perr + 'a \<times> string \<Rightarrow> bool" where
  "yields line P r \<longleftrightarrow> (\<forall>x s'. r = Inr (x, s') \<longrightarrow> suffix s' line \<and> P x)"

lemma yields_bind:
  assumes "yields line P m" "\<And>x s'. suffix s' line \<Longrightarrow> P x \<Longrightarrow> yields line Q (g (x, s'))"
  shows "yields line Q (pbind m g)"
proof (cases m)
  case (Inr y)
  obtain x s' where y: "y = (x, s')" by fastforce
  then have "suffix s' line" "P x" using assms(1) Inr by (simp_all add: yields_def)
  then show ?thesis using assms(2) Inr y by simp
qed (simp add: yields_def)

lemma yields_simps [simp]:
  "yields line P (Inl e)" "yields line P (Inr (x, s')) \<longleftrightarrow> suffix s' line \<and> P x"
  by (simp_all add: yields_def)

lemma good_wrap [simp]: "good_cmd line (wrap rs c) \<longleftrightarrow> good_cmd line c \<and> good_redirs line rs"
  by (induction rs arbitrary: c) (auto simp: wrap_def good_cmd_def good_redirs_def)

lemma good_cmd_simps [simp]:
  "good_cmd line (EXEC args) \<longleftrightarrow> (\<forall>w\<in>set args. proper line w) \<and> length args < MAXARGS"
  "good_cmd line (PIPE l r) \<longleftrightarrow> good_cmd line l \<and> good_cmd line r"
  "good_cmd line (LIST l r) \<longleftrightarrow> good_cmd line l \<and> good_cmd line r"
  "good_cmd line (BACK c) \<longleftrightarrow> good_cmd line c"
  by (auto simp: good_cmd_def)

lemma good_redirs_simps [simp]:
  "good_redirs line []" "good_redirs line (rs @ rs') \<longleftrightarrow> good_redirs line rs \<and> good_redirs line rs'"
  "proper line w \<Longrightarrow> good_redirs line (redir_of tok w)"
  by (simp_all add: good_redirs_def ball_Un) (simp add: redir_of_def valid_mode_def)

lemma redirs_yields:
  assumes "nul \<notin> set line"
  shows "suffix s line \<Longrightarrow> yields line (good_redirs line) (parseredirs s)"
proof (induction s rule: parseredirs.induct)
  case (1 s)
  obtain tok w1 s2 where g: "gettoken s = (tok, w1, s2)" by (metis prod_cases3)
  obtain tok2 w s3 where h: "gettoken s2 = (tok2, w, s3)" by (metis prod_cases3)
  have s2: "suffix s2 line" by (rule gettoken_suffix [OF g 1(2)])
  have "yields line (good_redirs line) (pbind (parseredirs s3) (\<lambda>(rs, s). Inr (redir_of tok w @ rs, s)))"
    if b: "fst (peek s ''<>'')" "tok2 = CHR ''a''"
  proof (rule yields_bind)
    show "yields line (good_redirs line) (parseredirs s3)"
      using 1(1) [of True "skip_blanks s" tok "(w1, s2)" w1 s2 tok2 "(w, s3)" w s3] b g h gettoken_suffix [OF h s2] by (simp add: peek_eq)
    have "proper line w" using gettoken_proper(1) [OF _ s2 assms] h b(2) by blast
    then show "yields line (good_redirs line) (case (rs, s') of (rs, s) \<Rightarrow> Inr (redir_of tok w @ rs, s))"
      if "suffix s' line" "good_redirs line rs" for rs s'
      using that by simp
  qed
  then show ?case using suffix_skip [OF 1(2)] by (subst parseredirs.simps) (auto simp: peek_eq g h)
qed

lemma args_yields:
  assumes "nul \<notin> set line"
  shows "suffix s line \<Longrightarrow> good_args line (args, rs) \<Longrightarrow>
    yields line (good_args line) (parseargs args rs s)"
proof (induction args rs s rule: parseargs.induct)
  case (1 args rs s)
  obtain tok w s2 where g: "gettoken s = (tok, w, s2)" by (metis prod_cases3)
  have s2: "suffix s2 line" by (rule gettoken_suffix [OF g 1(2)])
  have step: "yields line (good_args line) (pbind (parseredirs s2) (\<lambda>(rs', s3). parseargs (args @ [w]) (rs @ rs') s3))"
    if t: "\<not> fst (peek s ''|)&;'')" "tok \<noteq> nul" "tok = CHR ''a''" "\<not> MAXARGS \<le> length (args @ [w])"
  proof (cases "parseredirs s2")
    case (Inr y)
    obtain rs' s3 where y: "y = (rs', s3)" by fastforce
    have r: "suffix s3 line" "good_redirs line rs'"
      using redirs_yields [OF assms s2] Inr by (simp_all add: y)
    have "proper line w" using gettoken_proper(1) [OF _ 1(2) assms] g t(3) by blast
    then have ws: "good_args line (args @ [w], rs @ rs')"
      using 1(3) r(2) t(4) by (simp add: good_args_def)
    have p: "(False, skip_blanks s) = peek s ''|)&;''" using t(1) by (simp add: peek_eq)
    have "yields line (good_args line) (parseargs (args @ [w]) (rs @ rs') s3)"
      using 1(1) [OF p _ _ _ t(2) _ t(4) _ _ r(1) ws] g Inr y t(3) by simp
    then show ?thesis by (simp add: Inr y)
  qed simp
  obtain b where b: "peek s ''|)&;'' = (b, skip_blanks s)" by (simp add: peek_eq)
  show ?case
    unfolding parseargs.simps [of args rs s] b
    using step suffix_skip [OF 1(2)] 1(3) s2 by (simp add: g b del: yields_simps(2) length_append) (simp add: b)
qed

lemma backs_yields:
  "suffix s line \<Longrightarrow> parsebacks c s = (d, s') \<Longrightarrow> suffix s' line \<and> (good_cmd line d \<longleftrightarrow> good_cmd line c)"
proof (induction c s arbitrary: d rule: parsebacks.induct)
  case (1 c s)
  obtain tok w s2 where g: "gettoken s = (tok, w, s2)" by (metis prod_cases3)
  have s2: "suffix s2 line" by (rule gettoken_suffix [OF g 1(2)])
  show ?case
  proof (cases "fst (peek s ''&'')")
    case True
    then have "parsebacks (BACK c) s2 = (d, s')" using 1(3) by (subst (asm) parsebacks.simps) (simp add: peek_eq g nul_def)
    then show ?thesis using 1(1) [of True "skip_blanks s" tok "(w, s2)" w s2] True g s2 by (simp add: peek_eq nul_def)
  next
    case False
    then show ?thesis using 1(3) suffix_skip [OF 1(2)] by (subst (asm) parsebacks.simps) (auto simp: peek_eq)
  qed
qed

lemma parse_yields:
  assumes "nul \<notin> set line"
  shows "suffix s line \<Longrightarrow> yields line (good_cmd line) (parseline n s) \<and> yields line (good_cmd line) (parsepipe n s) \<and>
    yields line (good_cmd line) (parseexec n s) \<and> yields line (good_cmd line) (parseblock n s)"
proof (induction n arbitrary: s)
  case (Suc n)
  have line: "yields line (good_cmd line) (parseline n s)" and pipe: "yields line (good_cmd line) (parsepipe n s)"
    and exec: "yields line (good_cmd line) (parseexec n s)" and block: "yields line (good_cmd line) (parseblock n s)" if "suffix s line" for s
    using Suc.IH [OF that] by blast+
  have "yields line (good_cmd line) (parseline (Suc n) s)"
    unfolding parseline.simps
  proof (rule yields_bind [OF pipe [OF Suc.prems]])
    fix c :: "span_word cmd" and s1 assume s1: "suffix s1 line" "good_cmd line c"
    obtain d s2 where b: "parsebacks c s1 = (d, s2)" by fastforce
    note s2 = backs_yields [OF s1(1) b]
    obtain r w s3 where g: "gettoken s2 = (r, w, s3)" by (metis prod_cases3)
    have s3: "suffix s3 line" by (rule gettoken_suffix [OF g]) (use s2 in blast)
    have "yields line (good_cmd line) (pbind (parseline n s3) (\<lambda>(d', s). Inr (LIST d d', s)))"
      by (rule yields_bind [OF line [OF s3]]) (use s1(2) s2 in auto)
    then show "yields line (good_cmd line) (case (c, s1) of (c, s) \<Rightarrow> case parsebacks c s of (c, s) \<Rightarrow> case peek s '';'' of (b, s) \<Rightarrow>
        if b then (case gettoken s of (_, _, s) \<Rightarrow> pbind (parseline n s) (\<lambda>(d, s). Inr (LIST c d, s))) else Inr (c, s))"
      using suffix_skip [of s2 line] s2 s1(2) by (simp add: b peek_eq g)
  qed
  moreover have "yields line (good_cmd line) (parsepipe (Suc n) s)"
    unfolding parsepipe.simps
  proof (rule yields_bind [OF exec [OF Suc.prems]])
    fix c :: "span_word cmd" and s1 assume s1: "suffix s1 line" "good_cmd line c"
    obtain r w s3 where g: "gettoken s1 = (r, w, s3)" by (metis prod_cases3)
    have "yields line (good_cmd line) (pbind (parsepipe n s3) (\<lambda>(d', s). Inr (PIPE c d', s)))"
      by (rule yields_bind [OF pipe [OF gettoken_suffix [OF g s1(1)]]]) (use s1(2) in auto)
    then show "yields line (good_cmd line) (case (c, s1) of (c, s) \<Rightarrow> case peek s ''|'' of (b, s) \<Rightarrow>
        if b then (case gettoken s of (_, _, s) \<Rightarrow> pbind (parsepipe n s) (\<lambda>(d, s). Inr (PIPE c d, s))) else Inr (c, s))"
      using suffix_skip [OF s1(1)] s1(2) by (simp add: peek_eq g)
  qed
  moreover have "yields line (good_cmd line) (parseexec (Suc n) s)"
  proof -
    have "yields line (good_cmd line) (pbind (parseredirs s) (\<lambda>(rs, s).
        pbind (parseargs [] rs s) (\<lambda>((args, rs), s). Inr (wrap rs (EXEC args), s))))"
    proof (rule yields_bind [OF redirs_yields [OF assms Suc.prems]])
      fix rs :: "redir list" and s1 assume s1: "suffix s1 line" "good_redirs line rs"
      have "yields line (good_args line) (parseargs [] rs s1)"
        using args_yields [OF assms s1(1), of "[]" rs] s1(2) by (simp add: good_args_def MAXARGS_def)
      from yields_bind [OF this, of "good_cmd line" "\<lambda>((args, rs), s). Inr (wrap rs (EXEC args), s)"]
      show "yields line (good_cmd line) (case (rs, s1) of (rs, s) \<Rightarrow>
          pbind (parseargs [] rs s) (\<lambda>((args, rs), s). Inr (wrap rs (EXEC args), s)))" by (auto simp: good_args_def)
    qed
    then show ?thesis using block [OF Suc.prems] by (simp add: peek_eq)
  qed
  moreover have "yields line (good_cmd line) (parseblock (Suc n) s)"
  proof -
    obtain r w s1 where g: "gettoken s = (r, w, s1)" by (metis prod_cases3)
    let ?R = "\<lambda>c s2. if \<not> fst (peek s2 '')'') then Inl (Sh_panic ''syntax - missing )'')
      else case gettoken s2 of (_, _, s) \<Rightarrow> pbind (parseredirs s) (\<lambda>(rs, s). Inr (wrap rs c, s))"
    have tail: "yields line (good_cmd line) (?R c s2)" if "suffix s2 line" "good_cmd line c" for c s2
    proof -
      obtain r w s3 where g3: "gettoken s2 = (r, w, s3)" by (metis prod_cases3)
      have "yields line (good_cmd line) (pbind (parseredirs s3) (\<lambda>(rs, s). Inr (wrap rs c, s)))"
        by (rule yields_bind [OF redirs_yields [OF assms gettoken_suffix [OF g3 that(1)]]]) (use that in auto)
      then show ?thesis by (simp add: g3)
    qed
    have "yields line (good_cmd line) (pbind (parseline n s1) (\<lambda>(c, s). ?R c s))"
    proof (rule yields_bind [OF line [OF gettoken_suffix [OF g Suc.prems]]])
      fix c :: "span_word cmd" and s2 assume "suffix s2 line" "good_cmd line c"
      then show "yields line (good_cmd line) (case (c, s2) of (c, s) \<Rightarrow> ?R c s)" using tail by simp
    qed
    then show ?thesis by (simp add: peek_eq g cong: if_cong)
  qed
  ultimately show ?case by blast
qed simp

section \<open>NUL termination\<close>

lemma length_nulterminate [simp]: "length (nulterminate es c buf) = length buf"
proof (induction es c buf rule: nulterminate.induct)
  case (1 es args buf)
  show ?case by (induction args arbitrary: buf) auto
qed auto

lemma nth_fold_nul:
  "k < length buf \<Longrightarrow> fold (\<lambda>(q, eq) buf. buf[es - eq := nul]) args buf ! k = (if \<exists>w\<in>set args. k = es - snd w then nul else buf ! k)"
proof (induction args arbitrary: buf)
  case (Cons a args)
  obtain q eq where a: "a = (q, eq)" by fastforce
  show ?case using Cons.IH [of "buf[es - eq := nul]"] Cons.prems by (simp add: a nth_list_update)
qed simp

lemma nth_nulterminate:
  "k < length buf \<Longrightarrow> nulterminate es c buf ! k = (if \<exists>w\<in>set_cmd c. k = es - snd w then nul else buf ! k)"
proof (induction es c buf rule: nulterminate.induct)
  case (2 es c q eq mode fd buf)
  then show ?case by (cases "k = es - eq") simp_all
qed (simp_all add: nth_fold_nul bex_Un)

lemma word_at_nulterminate:
  assumes "nul \<notin> set line" "\<forall>w\<in>set_cmd c. proper line w" "w \<in> set_cmd c"
  shows "word_at (nulterminate (length line) c (line @ [nul])) (length line) w = word_text line w"
proof -
  let ?L = "length line" let ?buf = "nulterminate ?L c (line @ [nul])"
  let ?q = "?L - fst w" and ?n = "fst w - snd w"
  have p: "snd w < fst w" "fst w \<le> ?L" "\<forall>x\<in>set (word_text line w). plain x \<and> x \<noteq> nul" using assms(2,3) by (auto simp: proper_def)
  have eq: "?q + ?n = ?L - snd w" using p by simp
  have end': "?buf ! (?q + ?n) = nul" using nth_nulterminate [of "?q + ?n" "line @ [nul]" ?L c] assms(3) eq by auto
  have mid: "?buf ! (?q + j) = word_text line w ! j \<and> ?buf ! (?q + j) \<noteq> nul" if "j < ?n" for j
  proof -
    have lt: "?q + j < ?L" using that p by linarith
    have wt: "word_text line w ! j = line ! (?q + j)" "j < length (word_text line w)" using that p by (simp_all add: word_text_def)
    then have pl: "plain (line ! (?q + j))" "line ! (?q + j) \<noteq> nul" using p(3) nth_mem by metis+
    have "?q + j \<noteq> ?L - snd v" if v: "v \<in> set_cmd c" for v
    proof
      assume e: "?q + j = ?L - snd v"
      have "snd v = 0 \<or> \<not> plain (line ! (?L - snd v))" using assms(2) v by (simp add: proper_def)
      then show False using pl(1) lt e by auto
    qed
    then show ?thesis using nth_nulterminate [of "?q + j" "line @ [nul]" ?L c] lt pl wt(1) by (auto simp: nth_append)
  qed
  have lw: "length (word_text line w) = ?n" using p by (simp add: word_text_def)
  have "take ?n (drop ?q ?buf) = word_text line w"
    by (rule nth_equalityI) (use lw mid p in simp_all)
  then have "drop ?q ?buf = word_text line w @ drop (?q + ?n) ?buf"
    by (metis add.commute append_take_drop_id drop_drop)
  moreover have "drop (?q + ?n) ?buf = nul # drop (Suc (?q + ?n)) ?buf"
    using end' p by (subst Cons_nth_drop_Suc [symmetric]) simp_all
  ultimately have "drop ?q ?buf = word_text line w @ nul # drop (Suc (?q + ?n)) ?buf" by simp
  moreover have "takeWhile (\<lambda>x. x \<noteq> nul) (word_text line w @ nul # r) = word_text line w" for r
    using p(3) by (subst takeWhile_append2) simp_all
  ultimately show ?thesis by (simp add: word_at_def)
qed


text \<open>C19. \<^verbatim>\<open>parsecmd\<close> returns on every line: with a command, or with one of the shell's errors, never by
  running out of the fuel the model gives it.\<close>

theorem parsecmd_returns: "parsecmd s \<noteq> Inl No_fuel"
  using parse_total [of s "parse_fuel s"] by (auto simp: parsecmd_def parse_fuel_def returns_def pbind_eq_Inl_iff peek_eq split: if_splits)

end
