(* ===== verification/Shround.thy ===== *)
theory Shround
  imports Shparse
begin

text \<open>
  The grammar of the shell's parser, as a round trip: a printer for commands, with parentheses where the
  grammar needs them, and the theorem that \<^verbatim>\<open>parsecmd\<close> reads every printed command back.
\<close>

section \<open>Printing commands\<close>

definition show_word :: "string \<Rightarrow> string" where "show_word w = w @ '' ''"

definition show_redir :: "string \<times> nat \<times> nat \<Rightarrow> string" where
  "show_redir r = (case r of (f, mode, fd) \<Rightarrow>
     (if mode = mode_read then ''< '' else if mode = mode_write then ''> '' else ''>> '') @ show_word f)"

definition show_redirs :: "(string \<times> nat \<times> nat) list \<Rightarrow> string" where
  "show_redirs rs = concat (map show_redir rs)"

fun level :: "'w cmd \<Rightarrow> nat" where
  "level (EXEC args) = 0"
| "level (REDIR c f mode fd) = 0"
| "level (PIPE l r) = 1"
| "level (BACK c) = 2"
| "level (LIST l r) = 3"

definition paren :: "bool \<Rightarrow> string \<Rightarrow> string" where
  "paren b s = (if b then ''( '' @ s @ '') '' else s)"

fun show_cmd :: "string cmd \<Rightarrow> string" where
  "show_cmd (EXEC args) = concat (map show_word args)"
| "show_cmd (REDIR c f mode fd) = paren (0 < level c) (show_cmd c) @ show_redir (f, mode, fd)"
| "show_cmd (PIPE l r) = paren (0 < level l) (show_cmd l) @ ''| '' @ paren (1 < level r) (show_cmd r)"
| "show_cmd (BACK c) = paren (2 < level c) (show_cmd c) @ ''& ''"
| "show_cmd (LIST l r) = paren (2 < level l) (show_cmd l) @ ''; '' @ show_cmd r"

definition show_at :: "nat \<Rightarrow> string cmd \<Rightarrow> string" where
  "show_at k c = paren (k < level c) (show_cmd c)"

text \<open>The commands the shell can be told: words without blanks, symbols and NUL, fewer than
  \<^verbatim>\<open>MAXARGS\<close> of them, and the three kinds of redirection.\<close>

definition valid_word :: "string \<Rightarrow> bool" where
  "valid_word w \<longleftrightarrow> w \<noteq> [] \<and> list_all (\<lambda>c. plain c \<and> c \<noteq> nul) w"

fun valid_cmd :: "string cmd \<Rightarrow> bool" where
  "valid_cmd (EXEC args) \<longleftrightarrow> list_all valid_word args \<and> length args < MAXARGS"
| "valid_cmd (REDIR c f mode fd) \<longleftrightarrow> valid_cmd c \<and> valid_word f \<and> valid_mode mode fd"
| "valid_cmd (PIPE l r) \<longleftrightarrow> valid_cmd l \<and> valid_cmd r"
| "valid_cmd (BACK c) \<longleftrightarrow> valid_cmd c"
| "valid_cmd (LIST l r) \<longleftrightarrow> valid_cmd l \<and> valid_cmd r"

definition valid_redirs :: "(string \<times> nat \<times> nat) list \<Rightarrow> bool" where
  "valid_redirs rs \<longleftrightarrow> list_all (\<lambda>(f, mode, fd). valid_word f \<and> valid_mode mode fd) rs"

section \<open>Tokens\<close>

definition first :: "string \<Rightarrow> char" where "first s = deref (skip_blanks s)"

lemma peek_first: "peek s toks = (first s \<in> set toks \<and> first s \<noteq> nul, skip_blanks s)"
  by (simp add: peek_eq first_def)

lemma first_skip [simp]: "first (skip_blanks s) = first s"
  by (simp add: first_def)

lemma skip_space [simp]: "skip_blanks (CHR 0x20 # s) = skip_blanks s"
  by (simp add: skip_blanks_def blank_iff whitespace_def)

lemma skip_nonblank: "\<not> blank c \<Longrightarrow> skip_blanks (c # s) = c # s"
  by (simp add: skip_blanks_def)

lemma blank_symbol: "c \<in> set symbols \<Longrightarrow> \<not> blank c"
  by (auto simp: blank_iff symbols_def whitespace_def)

lemma first_symbol [simp]: "c \<in> set symbols \<Longrightarrow> first (c # s) = c"
  by (simp add: first_def skip_nonblank blank_symbol deref_def)

lemma valid_word_cases:
  assumes "valid_word w" obtains c cs where "w = c # cs" "plain c" "c \<noteq> nul" "\<not> blank c" "c \<notin> set symbols"
  using assms by (cases w) (auto simp: valid_word_def plain_iff blank_iff)

lemma first_word: "valid_word w \<Longrightarrow> first (show_word w @ s) \<notin> set symbols \<and> first (show_word w @ s) \<noteq> nul"
  by (elim valid_word_cases) (auto simp: show_word_def first_def skip_nonblank deref_def)

lemma gettoken_symbol:
  assumes "c \<in> set ''|();&<''"
  shows "\<exists>w. gettoken (c # s) = (c, w, skip_blanks s)"
proof -
  have "\<not> blank c" using assms by (intro blank_symbol) (auto simp: symbols_def)
  then show ?thesis using assms by (auto simp: gettoken_def skip_nonblank token_end_def deref_def nul_def Let_def)
qed

lemma gettoken_word:
  assumes "valid_word w" "suffix (show_word w @ s) line"
  shows "\<exists>v. gettoken (show_word w @ s) = (CHR ''a'', v, skip_blanks s) \<and> word_text line v = w"
proof -
  let ?s = "show_word w @ s"
  obtain c cs where c: "w = c # cs" "plain c" "c \<noteq> nul" "\<not> blank c" "c \<notin> set symbols" by (rule valid_word_cases [OF assms(1)])
  have sk: "skip_blanks ?s = ?s" by (simp add: show_word_def c(1) skip_nonblank c(4))
  have d: "deref ?s = c" by (simp add: show_word_def c(1) deref_def)
  have sp: "\<not> plain (CHR 0x20)" "blank (CHR 0x20)" by (simp_all add: plain_iff blank_iff whitespace_def)
  have w: "\<forall>x\<in>set w. plain x" using assms(1) by (simp add: valid_word_def list_all_iff)
  have "dropWhile plain ?s = '' '' @ s" "takeWhile plain ?s = w"
    using w sp by (simp_all add: show_word_def dropWhile_append2 takeWhile_append2)
  moreover have "c \<notin> set ''|();&<''" "c \<noteq> CHR ''>''" using c(5) by (auto simp: symbols_def)
  ultimately have e: "token_end ?s = (CHR ''a'', '' '' @ s)" using c(3) by (simp add: token_end_def d)
  have g: "gettoken ?s = (CHR ''a'', (length ?s, length ('' '' @ s)), skip_blanks s)"
    by (simp add: gettoken_def sk e Let_def)
  have "word_text line (length ?s, length ('' '' @ s)) = w"
    using word_of_suffix [OF assms(2), of "'' '' @ s"] by (simp add: show_word_def)
  with g show ?thesis by blast
qed

section \<open>Redirections and arguments\<close>

text \<open>The text of the words a redirection list has found.\<close>

definition redir_texts :: "string \<Rightarrow> redir list \<Rightarrow> (string \<times> nat \<times> nat) list" where
  "redir_texts line = map (map_prod (word_text line) id)"

lemma map_wrap: "map_cmd f (wrap rs c) = wrap (map (map_prod f id) rs) (map_cmd f c)"
  by (induction rs arbitrary: c) (auto simp: wrap_def map_prod_def split_beta)

lemma suffix_append_right: "suffix (a @ b) s \<Longrightarrow> suffix b s"
  using suffix_appendD by blast

lemma no_redir: "first s \<notin> set ''<>'' \<Longrightarrow> parseredirs s = Inr ([], skip_blanks s)"
  by (subst parseredirs.simps) (simp add: peek_first)

lemma parseredirs_show:
  assumes "valid_redirs rs" "suffix (show_redirs rs @ s) line" "first s \<notin> set ''<>''"
  shows "\<exists>rs'. parseredirs (show_redirs rs @ s) = Inr (rs', skip_blanks s) \<and> redir_texts line rs' = rs"
  using assms(1,2)
proof (induction rs)
  case Nil
  then show ?case using no_redir [OF assms(3)] by (simp add: show_redirs_def redir_texts_def)
next
  case (Cons r rs)
  obtain f mode fd where r: "r = (f, mode, fd)" by (cases r)
  let ?t = "show_redirs rs @ s" let ?u = "show_word f @ ?t"
  have val: "valid_word f" "valid_mode mode fd" "valid_redirs rs" using Cons.prems(1) by (auto simp: valid_redirs_def r)
  obtain p where p: "show_redirs (r # rs) @ s = p @ '' '' @ ?u"
    "p = (if mode = mode_read then ''<'' else if mode = mode_write then ''>'' else ''>>'')"
    by (auto simp: show_redirs_def show_redir_def r)
  obtain tok where tok: "\<exists>w. gettoken (p @ '' '' @ ?u) = (tok, w, skip_blanks ?u)" "\<And>w. redir_of tok w = [(w, mode, fd)]"
    using val(2) p(2)
    by (auto simp: valid_mode_def mode_read_def mode_write_def mode_append_def gettoken_def skip_nonblank blank_iff whitespace_def
        token_end_def deref_def nul_def redir_of_def Let_def)
  have su: "suffix ?u line" using Cons.prems(2) unfolding p(1) by (metis suffix_append_right)
  then have st: "suffix ?t line" by (rule suffix_append_right)
  obtain v where v: "gettoken ?u = (CHR ''a'', v, skip_blanks ?t)" "word_text line v = f" using gettoken_word [OF val(1) su] by blast
  obtain rs' where rs': "parseredirs ?t = Inr (rs', skip_blanks s)" "redir_texts line rs' = rs" using Cons.IH [OF val(3) st] by blast
  have "first (p @ '' '' @ ?u) \<in> set ''<>''" using p(2) by (auto simp: symbols_def)
  then have "parseredirs (p @ '' '' @ ?u) = Inr ((v, mode, fd) # rs', skip_blanks s)"
    using tok(1) tok(2) [of v] v(1) rs'(1) by (subst parseredirs.simps) (auto simp: peek_first nul_def)
  then show ?case using rs'(2) v(2) unfolding p(1) by (auto simp: redir_texts_def r)
qed

text \<open>What ends the arguments of a command.\<close>

definition follow_exec :: "char \<Rightarrow> bool" where "follow_exec c \<longleftrightarrow> c = nul \<or> c \<in> set ''|)&;''"

lemma parseargs_end:
  assumes "follow_exec (first s)"
  shows "parseargs as rs s = Inr ((as, rs), skip_blanks s)"
  using assms by (subst parseargs.simps)
    (auto simp: peek_first follow_exec_def gettoken_def token_end_def first_def nul_def Let_def)

lemma first_redirs: "rs \<noteq> [] \<Longrightarrow> first (show_redirs rs @ s) \<in> set ''<>''"
proof (induction rs)
  case (Cons r rs)
  obtain f mode fd where "r = (f, mode, fd)" by (cases r)
  then show ?case by (cases "mode = mode_read"; cases "mode = mode_write") (simp_all add: show_redirs_def show_redir_def symbols_def)
qed simp

lemma parseargs_redirs_show:
  assumes "valid_redirs rs" "follow_exec (first s)"
  shows "list_all valid_word ws \<Longrightarrow> length as + length ws < MAXARGS \<Longrightarrow>
    suffix (concat (map show_word ws) @ show_redirs rs @ s) line \<Longrightarrow>
    \<exists>as' rs'. pbind (parseredirs (concat (map show_word ws) @ show_redirs rs @ s)) (\<lambda>(rs', s). parseargs as (rs1 @ rs') s) =
      Inr ((as @ as', rs1 @ rs'), skip_blanks s) \<and> map (word_text line) as' = ws \<and> redir_texts line rs' = rs"
proof (induction ws arbitrary: as rs1)
  case Nil
  have "first s \<notin> set ''<>''" using assms(2) by (auto simp: follow_exec_def nul_def)
  then obtain rs' where "parseredirs (show_redirs rs @ s) = Inr (rs', skip_blanks s)" "redir_texts line rs' = rs"
    using parseredirs_show [OF assms(1), of s line] Nil.prems by auto
  then show ?case by (auto simp: parseargs_end [OF assms(2)])
next
  case (Cons w ws)
  let ?r = "concat (map show_word ws) @ show_redirs rs @ s"
  have w: "valid_word w" using Cons.prems by simp
  have s0: "suffix (show_word w @ ?r) line" using Cons.prems by simp
  have f: "first (show_word w @ ?r) \<notin> set symbols" using first_word [OF w] by blast
  then have nr: "parseredirs (show_word w @ ?r) = Inr ([], skip_blanks (show_word w @ ?r))" by (intro no_redir) (auto simp: symbols_def)
  obtain v where v: "gettoken (show_word w @ ?r) = (CHR ''a'', v, skip_blanks ?r)" "word_text line v = w" using gettoken_word [OF w s0] by blast
  obtain as' rs' where ih: "pbind (parseredirs ?r) (\<lambda>(rs', s). parseargs (as @ [v]) (rs1 @ rs') s) = Inr (((as @ [v]) @ as', rs1 @ rs'), skip_blanks s)"
    "map (word_text line) as' = ws" "redir_texts line rs' = rs"
    using Cons.IH [of "as @ [v]" rs1] Cons.prems suffix_append_right [OF s0] by auto
  have "parseargs as rs1 (show_word w @ ?r) = pbind (parseredirs ?r) (\<lambda>(rs', s). parseargs (as @ [v]) (rs1 @ rs') s)"
    using f v(1) Cons.prems(2) by (subst parseargs.simps) (auto simp: peek_first symbols_def nul_def)
  then have "pbind (parseredirs (show_word w @ ?r)) (\<lambda>(rs', s). parseargs as (rs1 @ rs') s) = Inr ((as @ v # as', rs1 @ rs'), skip_blanks s)"
    using ih(1) by (simp add: nr)
  moreover have "map (word_text line) (v # as') = w # ws" using ih(2) v(2) by simp
  ultimately show ?case using ih(3) by (intro exI [of _ "v # as'"] exI [of _ rs']) simp
qed

section \<open>The round trip\<close>

text \<open>A parser reads a command back and stops before the blanks of the rest.\<close>

definition reads :: "string \<Rightarrow> string cmd \<Rightarrow> string \<Rightarrow> perr + span_word cmd \<times> string \<Rightarrow> bool" where
  "reads line c rest r \<longleftrightarrow> (\<exists>c'. r = Inr (c', skip_blanks rest) \<and> map_cmd (word_text line) c' = c)"

lemma readsE:
  assumes "reads line c rest r" obtains c' where "r = Inr (c', skip_blanks rest)" "map_cmd (word_text line) c' = c"
  using assms by (auto simp: reads_def)

definition reads_exec :: "string \<Rightarrow> string cmd \<Rightarrow> bool" where
  "reads_exec line c \<longleftrightarrow> (\<forall>rs rest n. valid_redirs rs \<longrightarrow> follow_exec (first rest) \<longrightarrow>
     (let s = show_at 0 c @ show_redirs rs @ rest in suffix s line \<longrightarrow> 4 * length s + 2 \<le> n \<longrightarrow> reads line (wrap rs c) rest (parseexec n s)))"

definition reads_pipe :: "string \<Rightarrow> string cmd \<Rightarrow> bool" where
  "reads_pipe line c \<longleftrightarrow> (\<forall>rest n. follow_exec (first rest) \<longrightarrow> first rest \<noteq> CHR ''|'' \<longrightarrow>
     (let s = show_at 1 c @ rest in suffix s line \<longrightarrow> 4 * length s + 3 \<le> n \<longrightarrow> reads line c rest (parsepipe n s)))"

definition backs :: "nat \<Rightarrow> 'w cmd \<Rightarrow> 'w cmd" where "backs k c = (BACK ^^ k) c"

definition show_backs :: "nat \<Rightarrow> string" where "show_backs k = concat (replicate k ''& '')"

definition parseback :: "nat \<Rightarrow> string \<Rightarrow> perr + span_word cmd \<times> string" where
  "parseback n s = pbind (parsepipe n s) (\<lambda>(c, s). Inr (parsebacks c s))"

definition reads_back :: "string \<Rightarrow> string cmd \<Rightarrow> bool" where
  "reads_back line c \<longleftrightarrow> (\<forall>k rest n. first rest \<in> {nul, CHR '')'', CHR '';''} \<longrightarrow>
     (let s = show_at 2 c @ show_backs k @ rest in suffix s line \<longrightarrow> 4 * length s + 3 \<le> n \<longrightarrow> reads line (backs k c) rest (parseback n s)))"

definition reads_line :: "string \<Rightarrow> string cmd \<Rightarrow> bool" where
  "reads_line line c \<longleftrightarrow> (\<forall>rest n. first rest \<in> {nul, CHR '')''} \<longrightarrow>
     (let s = show_cmd c @ rest in suffix s line \<longrightarrow> 4 * length s + 4 \<le> n \<longrightarrow> reads line c rest (parseline n s)))"

text \<open>The line level through the background level, that through the pipe level, that through the
  command level, and the command level through parentheses.\<close>

lemma parseline_back:
  "parseline (Suc n) s = pbind (parseback n s) (\<lambda>(c, s). case peek s '';'' of (b, s) \<Rightarrow>
       if b then (case gettoken s of (_, _, s) \<Rightarrow> pbind (parseline n s) (\<lambda>(d, s). Inr (LIST c d, s))) else Inr (c, s))"
  by (cases "parsepipe n s") (auto simp: parseback_def split: prod.splits)

lemma line_of_back:
  assumes "reads_back line c" "level c \<le> 2"
  shows "reads_line line c"
  unfolding reads_line_def Let_def
proof (intro allI impI)
  fix rest n assume r: "first rest \<in> {nul, CHR '')''}" "suffix (show_cmd c @ rest) line" "4 * length (show_cmd c @ rest) + 4 \<le> n"
  obtain m where m: "n = Suc m" using r(3) by (cases n) simp_all
  have "reads line (backs 0 c) rest (parseback m (show_at 2 c @ show_backs 0 @ rest))"
    using assms(1) [unfolded reads_back_def Let_def, rule_format, of rest 0 m] r assms(2)
    by (auto simp: m show_at_def paren_def show_backs_def)
  then obtain c' where "parseback m (show_cmd c @ rest) = Inr (c', skip_blanks rest)" "map_cmd (word_text line) c' = c"
    using assms(2) by (auto simp: reads_def show_at_def paren_def show_backs_def backs_def)
  then show "reads line c rest (parseline n (show_cmd c @ rest))"
    using r(1) unfolding m parseline_back by (auto simp: reads_def peek_first nul_def)
qed

lemma parsebacks_show:
  assumes "first rest \<noteq> CHR ''&''"
  shows "parsebacks c (show_backs k @ rest) = (backs k c, skip_blanks rest)"
proof (induction k arbitrary: c)
  case 0
  then show ?case using assms by (subst parsebacks.simps) (simp add: show_backs_def backs_def peek_first)
next
  case (Suc k)
  have e: "show_backs (Suc k) @ rest = CHR ''&'' # CHR 0x20 # show_backs k @ rest" by (simp add: show_backs_def)
  have "parsebacks c (show_backs (Suc k) @ rest) = parsebacks (BACK c) (show_backs k @ rest)"
    using gettoken_symbol [of "CHR ''&''" "CHR 0x20 # show_backs k @ rest"]
    unfolding e by (subst parsebacks.simps) (auto simp: peek_first symbols_def nul_def)
  then show ?case by (simp add: Suc.IH backs_def funpow_swap1)
qed

lemma first_backs: "first (show_backs k @ rest) = (if k = 0 then first rest else CHR ''&'')"
  by (cases k) (simp_all add: show_backs_def symbols_def)

lemma back_of_pipe:
  assumes "reads_pipe line c" "show_at 2 c = show_at 1 c"
  shows "reads_back line c"
  unfolding reads_back_def Let_def assms(2)
proof (intro allI impI)
  fix k rest n
  let ?s = "show_at 1 c @ show_backs k @ rest"
  assume r: "first rest \<in> {nul, CHR '')'', CHR '';''}" "suffix ?s line" "4 * length ?s + 3 \<le> n"
  have f: "follow_exec (first (show_backs k @ rest))" "first (show_backs k @ rest) \<noteq> CHR ''|''" "first rest \<noteq> CHR ''&''"
    using r(1) by (auto simp: first_backs follow_exec_def nul_def)
  have "reads line c (show_backs k @ rest) (parsepipe n ?s)"
    using assms(1) [unfolded reads_pipe_def Let_def, rule_format, OF f(1,2) r(2,3)] .
  then obtain c' where c': "parsepipe n ?s = Inr (c', skip_blanks (show_backs k @ rest))" "map_cmd (word_text line) c' = c" by (rule readsE)
  have "map_cmd (word_text line) (backs k c') = backs k c" using c'(2) by (induction k) (simp_all add: backs_def)
  then show "reads line (backs k c) rest (parseback n ?s)" using c'(1) by (simp add: parseback_def parsebacks_show [OF f(3)] reads_def)
qed

lemma pipe_of_exec:
  assumes "reads_exec line c" "show_at 1 c = show_at 0 c"
  shows "reads_pipe line c"
  unfolding reads_pipe_def Let_def assms(2)
proof (intro allI impI)
  fix rest n
  let ?s = "show_at 0 c @ rest"
  assume r: "follow_exec (first rest)" "first rest \<noteq> CHR ''|''" "suffix ?s line" "4 * length ?s + 3 \<le> n"
  obtain m where m: "n = Suc m" using r(4) by (cases n) simp_all
  have "reads line (wrap [] c) rest (parseexec m (show_at 0 c @ show_redirs [] @ rest))"
    using assms(1) [unfolded reads_exec_def Let_def, rule_format, of "[]" rest m] r
    by (simp add: m valid_redirs_def show_redirs_def)
  then obtain c' where "parseexec m ?s = Inr (c', skip_blanks rest)" "map_cmd (word_text line) c' = c"
    by (auto simp: reads_def show_redirs_def wrap_def)
  then show "reads line c rest (parsepipe n ?s)" using r(2) by (simp add: m reads_def peek_first)
qed

lemma exec_of_line:
  assumes "reads_line line c" "0 < level c"
  shows "reads_exec line c"
  unfolding reads_exec_def Let_def
proof (intro allI impI)
  fix rs rest n
  let ?s = "show_at 0 c @ show_redirs rs @ rest" let ?r = "CHR '')'' # CHR 0x20 # show_redirs rs @ rest"
  let ?t = "CHR 0x20 # show_cmd c @ ?r"
  assume r: "valid_redirs rs" "follow_exec (first rest)" "suffix ?s line" "4 * length ?s + 2 \<le> n"
  have s: "?s = CHR ''('' # ?t" using assms(2) by (simp add: show_at_def paren_def)
  obtain m where m: "n = Suc (Suc m)" using r(4) by (cases n; cases "n - 1") simp_all
  have su: "suffix (show_cmd c @ ?r) line" "suffix (show_redirs rs @ rest) line"
    using r(3) suffix_append_right [of "''( ''" "show_cmd c @ ?r" line] suffix_append_right [of "''( '' @ show_cmd c @ '') ''" "show_redirs rs @ rest" line]
    unfolding s by auto
  have le: "4 * length (show_cmd c @ ?r) + 4 \<le> m" using r(4) by (simp add: s m)
  have "reads line c ?r (parseline m (show_cmd c @ ?r))"
    using assms(1) [unfolded reads_line_def Let_def, rule_format, OF _ su(1) le] by (simp add: symbols_def)
  then obtain c' where c': "parseline m (show_cmd c @ ?r) = Inr (c', skip_blanks ?r)" "map_cmd (word_text line) c' = c" by (rule readsE)
  have "first rest \<notin> set ''<>''" using r(2) by (auto simp: follow_exec_def nul_def)
  from parseredirs_show [OF r(1) su(2) this] obtain rs' where
    rs': "parseredirs (show_redirs rs @ rest) = Inr (rs', skip_blanks rest)" "redir_texts line rs' = rs" by blast
  have sk: "skip_blanks (CHR ''('' # ?t) = CHR ''('' # ?t" "skip_blanks ?r = ?r" by (simp_all add: skip_nonblank blank_symbol symbols_def)
  obtain w v where g: "gettoken (CHR ''('' # ?t) = (CHR ''('', w, skip_blanks ?t)"
    "gettoken ?r = (CHR '')'', v, skip_blanks (show_redirs rs @ rest))"
    using gettoken_symbol [of "CHR ''(''" ?t] gettoken_symbol [of "CHR '')''" "CHR 0x20 # show_redirs rs @ rest"] by auto
  have "parseexec n (CHR ''('' # ?t) = Inr (wrap rs' c', skip_blanks rest)"
    unfolding m using c'(1) rs'(1) g by (simp add: peek_first sk symbols_def nul_def)
  moreover have "map_cmd (word_text line) (wrap rs' c') = wrap rs c" using c'(2) rs'(2) by (simp add: map_wrap redir_texts_def)
  ultimately show "reads line (wrap rs c) rest (parseexec n ?s)" unfolding s reads_def by blast
qed

lemma exec_EXEC:
  assumes "valid_cmd (EXEC ws)"
  shows "reads_exec line (EXEC ws)"
  unfolding reads_exec_def Let_def
proof (intro allI impI)
  fix rs rest n
  let ?s = "concat (map show_word ws) @ show_redirs rs @ rest"
  assume r: "valid_redirs rs" "follow_exec (first rest)" "suffix (show_at 0 (EXEC ws) @ show_redirs rs @ rest) line"
    "4 * length (show_at 0 (EXEC ws) @ show_redirs rs @ rest) + 2 \<le> n"
  have s: "show_at 0 (EXEC ws) @ show_redirs rs @ rest = ?s" by (simp add: show_at_def paren_def)
  obtain m where m: "n = Suc m" using r(4) by (cases n) simp_all
  obtain as rs' where p: "pbind (parseredirs ?s) (\<lambda>(rs', s). parseargs [] ([] @ rs') s) = Inr (([] @ as, [] @ rs'), skip_blanks rest)"
    "map (word_text line) as = ws" "redir_texts line rs' = rs"
    using parseargs_redirs_show [OF r(1,2), of ws "[]" line "[]"] assms r(3) unfolding s by auto
  have "first ?s \<noteq> CHR ''(''"
  proof (cases ws)
    case Nil
    then show ?thesis using r(2) first_redirs [of rs rest] by (cases "rs = []") (auto simp: follow_exec_def nul_def show_redirs_def)
  next
    case (Cons w vs)
    then have "valid_word w" using assms by simp
    then show ?thesis using first_word [of w "concat (map show_word vs) @ show_redirs rs @ rest"] Cons by (auto simp: symbols_def)
  qed
  then have "parseexec n ?s = Inr (wrap rs' (EXEC as), skip_blanks rest)"
    using p(1) unfolding m by (cases "parseredirs ?s") (auto simp: peek_first)
  moreover have "map_cmd (word_text line) (wrap rs' (EXEC as)) = wrap rs (EXEC ws)" using p(2,3) by (simp add: map_wrap redir_texts_def)
  ultimately show "reads line (wrap rs (EXEC ws)) rest (parseexec n (show_at 0 (EXEC ws) @ show_redirs rs @ rest))"
    unfolding s reads_def by blast
qed

lemma exec_REDIR:
  assumes "reads_exec line c" "valid_cmd (REDIR c f mode fd)"
  shows "reads_exec line (REDIR c f mode fd)"
  unfolding reads_exec_def Let_def
proof (intro allI impI)
  fix rs rest n
  assume r: "valid_redirs rs" "follow_exec (first rest)" "suffix (show_at 0 (REDIR c f mode fd) @ show_redirs rs @ rest) line"
    "4 * length (show_at 0 (REDIR c f mode fd) @ show_redirs rs @ rest) + 2 \<le> n"
  let ?rs = "(f, mode, fd) # rs"
  have s: "show_at 0 (REDIR c f mode fd) @ show_redirs rs @ rest = show_at 0 c @ show_redirs ?rs @ rest"
    by (simp add: show_at_def paren_def show_redirs_def)
  have "valid_redirs ?rs" using r(1) assms(2) by (simp add: valid_redirs_def)
  then have "reads line (wrap ?rs c) rest (parseexec n (show_at 0 c @ show_redirs ?rs @ rest))"
    using assms(1) [unfolded reads_exec_def Let_def, rule_format, of ?rs rest n] r unfolding s by blast
  then show "reads line (wrap rs (REDIR c f mode fd)) rest (parseexec n (show_at 0 (REDIR c f mode fd) @ show_redirs rs @ rest))"
    unfolding s by (simp add: wrap_def)
qed

text \<open>The two separators.\<close>

lemma pipe_PIPE:
  assumes "reads_exec line l" "reads_pipe line r"
  shows "reads_pipe line (PIPE l r)"
  unfolding reads_pipe_def Let_def
proof (intro allI impI)
  fix rest n
  let ?t = "show_at 1 r @ rest" let ?u = "CHR ''|'' # CHR 0x20 # ?t"
  assume f: "follow_exec (first rest)" "first rest \<noteq> CHR ''|''" "suffix (show_at 1 (PIPE l r) @ rest) line"
    "4 * length (show_at 1 (PIPE l r) @ rest) + 3 \<le> n"
  have s: "show_at 1 (PIPE l r) @ rest = show_at 0 l @ ?u" by (simp add: show_at_def paren_def)
  obtain m where m: "n = Suc m" using f(4) by (cases n) simp_all
  have su: "suffix (show_at 0 l @ ?u) line" "suffix ?t line"
    using f(3) suffix_append_right [of "show_at 0 l @ ''| ''" ?t line] unfolding s by simp_all
  have le: "4 * length (show_at 0 l @ ?u) + 2 \<le> m" "4 * length ?t + 3 \<le> m" using f(4) unfolding s m by simp_all
  have "reads line (wrap [] l) ?u (parseexec m (show_at 0 l @ show_redirs [] @ ?u))"
    using assms(1) [unfolded reads_exec_def Let_def, rule_format, of "[]" ?u m] su(1) le(1)
    by (simp add: valid_redirs_def show_redirs_def follow_exec_def symbols_def)
  then obtain l' where l': "parseexec m (show_at 0 l @ ?u) = Inr (l', skip_blanks ?u)" "map_cmd (word_text line) l' = l"
    by (auto simp: reads_def show_redirs_def wrap_def)
  obtain r' where r': "parsepipe m ?t = Inr (r', skip_blanks rest)" "map_cmd (word_text line) r' = r"
    using assms(2) [unfolded reads_pipe_def Let_def, rule_format, OF f(1,2) su(2) le(2)] by (rule readsE)
  obtain w where g: "gettoken ?u = (CHR ''|'', w, skip_blanks ?t)" using gettoken_symbol [of "CHR ''|''" "CHR 0x20 # ?t"] by auto
  have "parsepipe n (show_at 0 l @ ?u) = Inr (PIPE l' r', skip_blanks rest)"
    unfolding m using l'(1) r'(1) g by (simp add: peek_first symbols_def nul_def)
  then show "reads line (PIPE l r) rest (parsepipe n (show_at 1 (PIPE l r) @ rest))" using l'(2) r'(2) unfolding s by (simp add: reads_def)
qed

lemma line_LIST:
  assumes "reads_back line l" "reads_line line r"
  shows "reads_line line (LIST l r)"
  unfolding reads_line_def Let_def
proof (intro allI impI)
  fix rest n
  let ?t = "show_cmd r @ rest" let ?u = "CHR '';'' # CHR 0x20 # ?t"
  assume f: "first rest \<in> {nul, CHR '')''}" "suffix (show_cmd (LIST l r) @ rest) line" "4 * length (show_cmd (LIST l r) @ rest) + 4 \<le> n"
  have s: "show_cmd (LIST l r) @ rest = show_at 2 l @ ?u" by (simp add: show_at_def)
  obtain m where m: "n = Suc m" using f(3) by (cases n) simp_all
  have su: "suffix (show_at 2 l @ ?u) line" "suffix ?t line"
    using f(2) suffix_append_right [of "show_at 2 l @ ''; ''" ?t line] unfolding s by simp_all
  have le: "4 * length (show_at 2 l @ ?u) + 3 \<le> m" "4 * length ?t + 4 \<le> m" using f(3) unfolding s m by simp_all
  have "reads line (backs 0 l) ?u (parseback m (show_at 2 l @ show_backs 0 @ ?u))"
    using assms(1) [unfolded reads_back_def Let_def, rule_format, of ?u 0 m] su(1) le(1)
    by (simp add: show_backs_def symbols_def)
  then obtain l' where l': "parseback m (show_at 2 l @ ?u) = Inr (l', skip_blanks ?u)" "map_cmd (word_text line) l' = l"
    by (auto simp: reads_def show_backs_def backs_def)
  obtain r' where r': "parseline m ?t = Inr (r', skip_blanks rest)" "map_cmd (word_text line) r' = r"
    using assms(2) [unfolded reads_line_def Let_def, rule_format, OF f(1) su(2) le(2)] by (rule readsE)
  obtain w where g: "gettoken ?u = (CHR '';'', w, skip_blanks ?t)" using gettoken_symbol [of "CHR '';''" "CHR 0x20 # ?t"] by auto
  have "parseline n (show_at 2 l @ ?u) = Inr (LIST l' r', skip_blanks rest)"
    unfolding m parseline_back using l'(1) r'(1) g by (simp add: peek_first symbols_def nul_def)
  then show "reads line (LIST l r) rest (parseline n (show_cmd (LIST l r) @ rest))" using l'(2) r'(2) unfolding s by (simp add: reads_def)
qed

lemma back_BACK:
  assumes "reads_back line c"
  shows "reads_back line (BACK c)"
  unfolding reads_back_def Let_def
proof (intro allI impI)
  fix k rest n
  let ?s = "show_at 2 (BACK c) @ show_backs k @ rest"
  assume r: "first rest \<in> {nul, CHR '')'', CHR '';''}" "suffix ?s line" "4 * length ?s + 3 \<le> n"
  have s: "?s = show_at 2 c @ show_backs (Suc k) @ rest" by (simp add: show_at_def paren_def show_backs_def)
  have "reads line (backs (Suc k) c) rest (parseback n (show_at 2 c @ show_backs (Suc k) @ rest))"
    using assms [unfolded reads_back_def Let_def, rule_format, of rest "Suc k" n] r unfolding s by blast
  then show "reads line (backs k (BACK c)) rest (parseback n ?s)" unfolding s by (simp add: backs_def funpow_swap1)
qed

lemma all_levels:
  assumes "valid_cmd c"
  shows "reads_exec line c \<and> reads_pipe line c \<and> reads_back line c \<and> reads_line line c"
  using assms
proof (induction c)
  case (EXEC ws)
  then have "reads_exec line (EXEC ws)" by (rule exec_EXEC)
  then show ?case by (simp add: line_of_back back_of_pipe pipe_of_exec show_at_def paren_def)
next
  case (REDIR c f mode fd)
  then have "reads_exec line (REDIR c f mode fd)" by (intro exec_REDIR) simp_all
  then show ?case by (simp add: line_of_back back_of_pipe pipe_of_exec show_at_def paren_def)
next
  case (PIPE l r)
  then have "reads_pipe line (PIPE l r)" by (intro pipe_PIPE) simp_all
  then show ?case by (simp add: line_of_back back_of_pipe exec_of_line show_at_def paren_def)
next
  case (LIST l r)
  then have "reads_line line (LIST l r)" by (intro line_LIST) simp_all
  then show ?case by (simp add: back_of_pipe pipe_of_exec exec_of_line show_at_def paren_def)
next
  case (BACK c)
  then have "reads_back line (BACK c)" by (intro back_BACK) simp_all
  then show ?case by (simp add: line_of_back pipe_of_exec exec_of_line show_at_def paren_def)
qed

lemma show_word_chars: "valid_word w \<Longrightarrow> nul \<notin> set (show_word w)"
  by (auto simp: valid_word_def show_word_def list_all_iff nul_def)

lemma show_no_nul: "valid_cmd c \<Longrightarrow> nul \<notin> set (show_cmd c)"
proof (induction c)
  case (EXEC ws)
  then show ?case using show_word_chars by (auto simp: list_all_iff)
qed (auto simp: paren_def show_redir_def nul_def dest: show_word_chars [unfolded nul_def])

text \<open>C11. The shell's parser is the inverse of a printer: every command of its grammar, however nested, written
  with the parentheses the grammar needs and followed by blanks, is what \<^verbatim>\<open>parsecmd\<close> reads back, the pieces of
  the tree in place and every word the NUL-terminated string of the printed line.\<close>

theorem parsecmd_show:
  assumes "valid_cmd c" "list_all blank bl"
  shows "\<exists>c' buf. parsecmd (show_cmd c @ bl) = Inr (c', buf) \<and> map_cmd (word_at buf (length (show_cmd c @ bl))) c' = c"
proof -
  let ?s = "show_cmd c @ bl"
  have bl: "skip_blanks bl = []" using assms(2) by (simp add: skip_blanks_def list_all_iff)
  have "\<not> blank nul" by (simp add: blank_iff whitespace_def nul_def)
  then have "nul \<notin> set bl" using assms(2) unfolding list_all_iff by metis
  then have nn: "nul \<notin> set ?s" using show_no_nul [OF assms(1)] by simp
  have f: "first bl \<in> {nul, CHR '')''}" by (simp add: first_def bl deref_def)
  have "reads ?s c bl (parseline (parse_fuel ?s) ?s)"
    using all_levels [OF assms(1), of ?s] f unfolding reads_line_def Let_def parse_fuel_def by blast
  then obtain c' where c': "parseline (parse_fuel ?s) ?s = Inr (c', [])" "map_cmd (word_text ?s) c' = c"
    by (auto simp: reads_def bl)
  let ?buf = "nulterminate (length ?s) c' (?s @ [nul])"
  have p: "parsecmd ?s = Inr (c', ?buf)" using c'(1) by (simp add: parsecmd_def peek_first skip_blanks_def)
  have "\<forall>w\<in>set_cmd c'. proper ?s w" using parse_yields [OF nn, of ?s "parse_fuel ?s"] c'(1) by (simp add: good_cmd_def)
  then have "map_cmd (word_at ?buf (length ?s)) c' = map_cmd (word_text ?s) c'"
    by (intro cmd.map_cong refl word_at_nulterminate [OF nn]) auto
  then show ?thesis using p c'(2) by auto
qed

theorem parsecmd_show_witness:
  "\<exists>c' buf. parsecmd ''( ls | wc ) > f & ; x '' = Inr (c', buf) \<and>
     map_cmd (word_at buf (length ''( ls | wc ) > f & ; x '')) c' =
       LIST (BACK (REDIR (PIPE (EXEC [''ls'']) (EXEC [''wc''])) ''f'' mode_write 1)) (EXEC [''x''])"
proof -
  let ?c = "LIST (BACK (REDIR (PIPE (EXEC [''ls'']) (EXEC [''wc''])) ''f'' mode_write 1)) (EXEC [''x''])"
  have v: "valid_cmd ?c" and e: "show_cmd ?c @ [] = ''( ls | wc ) > f & ; x ''" by code_simp+
  have "list_all blank []" by simp
  from parsecmd_show [OF v this] show ?thesis unfolding e .
qed

section \<open>The image of the parser\<close>

lemma valid_cmd_iff: "valid_cmd c \<longleftrightarrow> shape c \<and> (\<forall>w\<in>set_cmd c. valid_word w)"
  by (induction c) (auto simp: list_all_iff)

lemma shape_map [simp]: "shape (map_cmd f c) \<longleftrightarrow> shape c"
  by (induction c) simp_all

lemma proper_valid: "proper line w \<Longrightarrow> valid_word (word_text line w)"
  by (auto simp: proper_def valid_word_def list_all_iff word_text_def)

text \<open>C17. What \<^verbatim>\<open>parsecmd\<close> returns is a command in good shape: every argument list leaves room in
  \<^verbatim>\<open>argv[MAXARGS]\<close> for the closing null pointer, every redirection is one of the three the shell knows, and
  every word, read as a C string in the line that \<^verbatim>\<open>nulterminate\<close> has cut, is the piece of the line it was
  found at, not empty, without blanks and symbols, and not cut short by the NUL of another word.\<close>

theorem parsecmd_valid:
  assumes "parsecmd s = Inr (c, buf)" "nul \<notin> set s"
  shows "map_cmd (word_at buf (length s)) c = map_cmd (word_text s) c \<and> valid_cmd (map_cmd (word_at buf (length s)) c)"
proof -
  obtain s' where p: "parseline (parse_fuel s) s = Inr (c, s')" and buf: "buf = nulterminate (length s) c (s @ [nul])"
    using assms(1) by (auto simp: parsecmd_def pbind_eq_Inr_iff peek_eq split: if_splits)
  have "yields s (good_cmd s) (parseline (parse_fuel s) s)" using parse_yields [OF assms(2)] by simp
  then have g: "shape c" "\<forall>w\<in>set_cmd c. proper s w" by (simp_all add: p good_cmd_def)
  have e: "map_cmd (word_at buf (length s)) c = map_cmd (word_text s) c"
    by (rule cmd.map_cong0) (simp add: buf word_at_nulterminate [OF assms(2) g(2)])
  then show ?thesis using g proper_valid by (auto simp: valid_cmd_iff cmd.set_map)
qed

theorem parsecmd_valid_witness:
  "map_cmd (word_at [CHR ''l'', CHR ''s'', nul, CHR ''>'', CHR ''f'', nul] 5) (REDIR (EXEC [(5, 3)]) (1, 0) 0x601 1) =
     map_cmd (word_text ''ls >f'') (REDIR (EXEC [(5, 3)]) (1, 0) 0x601 1)"
proof -
  have p: "parsecmd ''ls >f'' = Inr (REDIR (EXEC [(5, 3)]) (1, 0) 0x601 1, [CHR ''l'', CHR ''s'', nul, CHR ''>'', CHR ''f'', nul])"
    by code_simp
  have n: "nul \<notin> set ''ls >f''" "length ''ls >f'' = 5" by code_simp+
  from parsecmd_valid [OF p n(1)] show ?thesis unfolding n(2) by (rule conjunct1)
qed

end
