(* ===== verification/Shrun.thy ===== *)
theory Shrun
  imports Shround
begin

text \<open>
  The execution side of the shell (\<^verbatim>\<open>user/sh.c\<close>): \<^verbatim>\<open>runcmd\<close>, \<^verbatim>\<open>fork1\<close>, \<^verbatim>\<open>panic\<close>, the input loop and
  \<^verbatim>\<open>main\<close>. A program that makes system calls is a tree: each node is a call, with the continuations the
  call can have, so that failing calls are part of the model. The descriptor table of the process
  is explicit; descriptors are allocated lowest first, as the kernel does.
\<close>

section \<open>Descriptors\<close>

text \<open>
  What a descriptor refers to: what the shell was started with, a file that was opened, and the ends of a pipe,
  named by the place of the pipe command in the tree of commands.
\<close>

datatype desc = Start nat | Opened string nat | Read_end "nat list" | Write_end "nat list"

type_synonym fdtable = "desc option list"

definition fd_alloc :: "desc \<Rightarrow> fdtable \<Rightarrow> (nat \<times> fdtable) option" where
  "fd_alloc d t = (case find (\<lambda>i. t ! i = None) [0..<length t] of None \<Rightarrow> None | Some i \<Rightarrow> Some (i, t[i := Some d]))"

definition fd_close :: "nat \<Rightarrow> fdtable \<Rightarrow> fdtable" where
  "fd_close i t = t[i := None]"

definition fd_dup :: "nat \<Rightarrow> fdtable \<Rightarrow> fdtable" where
  "fd_dup i t = (case t ! i of None \<Rightarrow> t | Some d \<Rightarrow> (case fd_alloc d t of None \<Rightarrow> t | Some (_, t') \<Rightarrow> t'))"

definition fd_pipe :: "nat list \<Rightarrow> fdtable \<Rightarrow> (nat \<times> nat \<times> fdtable) option" where
  "fd_pipe pa t =
     (case fd_alloc (Read_end pa) t of
        None \<Rightarrow> None
      | Some (p0, t) \<Rightarrow> (case fd_alloc (Write_end pa) t of None \<Rightarrow> None | Some (p1, t) \<Rightarrow> Some (p0, p1, t)))"

section \<open>Processes\<close>

text \<open>
  \<open>Exec argv t k\<close> is \<^verbatim>\<open>exec\<close> with table \<open>t\<close> and what follows if it fails; \<open>Open\<close>, \<open>Mkpipe\<close> and \<open>Fork\<close>
  have their success first (for \<open>Fork\<close> the child and the parent) and their failure last.
\<close>

datatype process =
    Exit nat
  | Exec "string list" fdtable process
  | Open string nat process process
  | Mkpipe process process
  | Fork process process process
  | Wait fdtable process
  | Say string fdtable process

definition sh_panic :: "string \<Rightarrow> fdtable \<Rightarrow> process" where
  "sh_panic msg t = Say (msg @ [CHR 0x0A]) t (Exit 1)"

definition fork1 :: "process \<Rightarrow> process \<Rightarrow> fdtable \<Rightarrow> process" where
  "fork1 child parent t = Fork child parent (sh_panic ''fork'' t)"

definition sh_open :: "string \<Rightarrow> nat \<Rightarrow> fdtable \<Rightarrow> (fdtable \<Rightarrow> process) \<Rightarrow> process \<Rightarrow> process" where
  "sh_open f mode t k fail = Open f mode (case fd_alloc (Opened f mode) t of None \<Rightarrow> fail | Some (_, t') \<Rightarrow> k t') fail"

definition sh_pipe :: "nat list \<Rightarrow> fdtable \<Rightarrow> (nat \<Rightarrow> nat \<Rightarrow> fdtable \<Rightarrow> process) \<Rightarrow> process \<Rightarrow> process" where
  "sh_pipe pa t k fail = Mkpipe (case fd_pipe pa t of None \<Rightarrow> fail | Some (p0, p1, t') \<Rightarrow> k p0 p1 t') fail"

text \<open>
  \<^verbatim>\<open>close(fd)\<close> of one of the standard descriptors, \<^verbatim>\<open>dup(p)\<close>, and \<^verbatim>\<open>close\<close> of both pipe ends.
\<close>

definition plumb :: "nat \<Rightarrow> nat \<Rightarrow> nat \<Rightarrow> nat \<Rightarrow> fdtable \<Rightarrow> fdtable" where
  "plumb fd p p0 p1 t = fd_close p1 (fd_close p0 (fd_dup p (fd_close fd t)))"

fun runcmd :: "nat list \<Rightarrow> string cmd \<Rightarrow> fdtable \<Rightarrow> process" where
  "runcmd pa (EXEC args) t =
     (if args = [] then Exit 1 else Exec args t (Say (''exec '' @ hd args @ '' failed'' @ [CHR 0x0A]) t (Exit 0)))"
| "runcmd pa (REDIR c f mode fd) t =
     sh_open f mode (fd_close fd t) (runcmd (0 # pa) c)
       (Say (''open '' @ f @ '' failed'' @ [CHR 0x0A]) (fd_close fd t) (Exit 1))"
| "runcmd pa (LIST l r) t = fork1 (runcmd (0 # pa) l t) (Wait t (runcmd (1 # pa) r t)) t"
| "runcmd pa (PIPE l r) t =
     sh_pipe pa t (\<lambda>p0 p1 t.
       fork1 (runcmd (0 # pa) l (plumb 1 p1 p0 p1 t))
         (fork1 (runcmd (1 # pa) r (plumb 0 p0 p0 p1 t))
            (let t = fd_close p1 (fd_close p0 t) in Wait t (Wait t (Exit 0))) t) t)
       (sh_panic ''pipe'' t)"
| "runcmd pa (BACK c) t = fork1 (runcmd (0 # pa) c t) (Exit 0) t"

section \<open>What is run, and how it is connected\<close>

text \<open>
  The programs a process and its children start, each with its descriptor table, when pipes and forks
  succeed and \<open>ok\<close> tells which files can be opened.
\<close>

fun starts :: "(string \<Rightarrow> nat \<Rightarrow> bool) \<Rightarrow> process \<Rightarrow> (string list \<times> fdtable) list" where
  "starts ok (Exit n) = []"
| "starts ok (Exec args t k) = [(args, t)]"
| "starts ok (Open f mode k fail) = (if ok f mode then starts ok k else starts ok fail)"
| "starts ok (Mkpipe k fail) = starts ok k"
| "starts ok (Fork child parent fail) = starts ok child @ starts ok parent"
| "starts ok (Wait t k) = starts ok k"
| "starts ok (Say msg t k) = starts ok k"

text \<open>The meaning of a command: the programs with their standard input and output.\<close>

fun programs :: "(string \<Rightarrow> nat \<Rightarrow> bool) \<Rightarrow> nat list \<Rightarrow> string cmd \<Rightarrow> desc \<Rightarrow> desc \<Rightarrow> (string list \<times> desc \<times> desc) list" where
  "programs ok pa (EXEC args) i out = (if args = [] then [] else [(args, i, out)])"
| "programs ok pa (REDIR c f mode fd) i out =
     (if \<not> ok f mode then []
      else if fd = 0 then programs ok (0 # pa) c (Opened f mode) out
      else programs ok (0 # pa) c i (Opened f mode))"
| "programs ok pa (LIST l r) i out = programs ok (0 # pa) l i out @ programs ok (1 # pa) r i out"
| "programs ok pa (PIPE l r) i out = programs ok (0 # pa) l i (Write_end pa) @ programs ok (1 # pa) r (Read_end pa) out"
| "programs ok pa (BACK c) i out = programs ok (0 # pa) c i out"

definition free_fds :: "fdtable \<Rightarrow> nat" where
  "free_fds t = length (filter (\<lambda>d. d = None) t)"

text \<open>A table with all of 0, 1 and 2 open.\<close>

definition standard :: "fdtable \<Rightarrow> bool" where
  "standard t \<longleftrightarrow> 2 < length t \<and> (\<forall>i<3. t ! i \<noteq> None)"

lemma find_upt:
  assumes "P i" "i < n" "\<forall>j<i. \<not> P j"
  shows "find P [0..<n] = Some i"
  using assms by (auto simp: find_Some_iff intro!: exI [of _ i])

lemma fd_alloc_free:
  assumes "i < length t" "t ! i = None" "\<forall>j<i. t ! j \<noteq> None"
  shows "fd_alloc d t = Some (i, t[i := Some d])"
  using find_upt [of "\<lambda>i. t ! i = None" i "length t"] assms by (simp add: fd_alloc_def)

lemma lowest_free:
  assumes "\<exists>i<length t. t ! i = None"
  obtains i where "i < length t" "t ! i = None" "\<forall>j<i. t ! j \<noteq> None"
  using assms by (metis less_trans exists_least_iff [of "\<lambda>i. i < length t \<and> t ! i = None"])

lemma free_fds_update:
  "i < length t \<Longrightarrow> t ! i = None \<Longrightarrow> Suc (free_fds (t[i := Some d])) = free_fds t"
proof (induction t arbitrary: i)
  case (Cons a t)
  then show ?case by (cases i) (auto simp: free_fds_def)
qed simp

lemma free_fds_pos: "0 < free_fds t \<longleftrightarrow> (\<exists>i<length t. t ! i = None)"
  by (auto simp: free_fds_def filter_empty_conv in_set_conv_nth)

text \<open>A pipe gets two descriptors that were free, above the standard ones.\<close>

lemma fd_pipe_free:
  assumes "standard t" "2 \<le> free_fds t"
  obtains p0 p1 where "fd_pipe pa t = Some (p0, p1, t[p0 := Some (Read_end pa), p1 := Some (Write_end pa)])"
    "2 < p0" "2 < p1" "p0 \<noteq> p1" "p0 < length t" "p1 < length t" "t ! p0 = None" "t ! p1 = None"
proof -
  obtain p0 where p0: "p0 < length t" "t ! p0 = None" "\<forall>j<p0. t ! j \<noteq> None"
    using assms(2) by (metis free_fds_pos lowest_free less_le_trans zero_less_numeral)
  let ?t = "t[p0 := Some (Read_end pa)]"
  have "0 < free_fds ?t" using free_fds_update [OF p0(1,2), of "Read_end pa"] assms(2) by linarith
  then obtain p1 where p1: "p1 < length ?t" "?t ! p1 = None" "\<forall>j<p1. ?t ! j \<noteq> None"
    by (metis free_fds_pos lowest_free)
  have "2 < p0" using assms(1) p0(2) unfolding standard_def by (metis less_numeral_extra(3) not_less numeral_3_eq_3 numeral_2_eq_2 less_Suc_eq_le)
  moreover have ne: "p0 \<noteq> p1" using p0(1) p1(2) by auto
  moreover have n1: "t ! p1 = None" using p1(2) ne by simp
  moreover have "2 < p1" using assms(1) n1 unfolding standard_def by (metis less_numeral_extra(3) not_less numeral_3_eq_3 numeral_2_eq_2 less_Suc_eq_le)
  moreover have "fd_pipe pa t = Some (p0, p1, t[p0 := Some (Read_end pa), p1 := Some (Write_end pa)])"
    by (simp add: fd_pipe_def fd_alloc_free [OF p0] fd_alloc_free [OF p1])
  ultimately show ?thesis using that p0 p1 by simp
qed

text \<open>The children's tables are the parent's, with one of the standard descriptors replaced.\<close>

lemma plumb_eq:
  assumes "standard t" "fd < 2" "2 < p0" "2 < p1" "p0 \<noteq> p1" "p0 < length t" "p1 < length t" "t ! p0 = None" "t ! p1 = None"
    "p = p0 \<and> d = d0 \<or> p = p1 \<and> d = d1"
  shows "plumb fd p p0 p1 (t[p0 := Some d0, p1 := Some d1]) = t[fd := Some d]"
proof -
  let ?t = "t[p0 := Some d0, p1 := Some d1]"
  have len: "2 < length t" and open3: "t ! 0 \<noteq> None" "t ! 1 \<noteq> None" using assms(1) by (auto simp: standard_def)
  have "\<forall>j<fd. fd_close fd ?t ! j \<noteq> None" using assms(2-4) open3 by (auto simp: fd_close_def less_2_cases_iff)
  then have "fd_alloc d (fd_close fd ?t) = Some (fd, (fd_close fd ?t)[fd := Some d])"
    using assms(2) len by (intro fd_alloc_free) (auto simp: fd_close_def)
  moreover have "fd_close fd ?t ! p = Some d" using assms(2-7,10) by (auto simp: fd_close_def)
  ultimately have "fd_dup p (fd_close fd ?t) = ?t[fd := Some d]" by (simp add: fd_dup_def fd_close_def)
  moreover have "(?t[fd := Some d])[p0 := None, p1 := None] = t[fd := Some d]"
    using assms(2-9) by (intro nth_equalityI) (auto simp: nth_list_update)
  ultimately show ?thesis by (simp add: plumb_def fd_close_def)
qed


lemma standard_update [simp]: "standard t \<Longrightarrow> standard (t[i := Some d])"
  unfolding standard_def by (metis length_list_update nth_list_update_eq nth_list_update_neq option.discI less_trans linorder_not_less
      list_update_beyond)

lemma filter_update: "j < length xs \<Longrightarrow> \<not> P (xs ! j) \<Longrightarrow> \<not> P x \<Longrightarrow> filter P (xs[j := x]) = filter P xs"
  by (induction xs arbitrary: j) (auto split: nat.splits)

lemma free_fds_standard: "standard t \<Longrightarrow> i < 3 \<Longrightarrow> free_fds (t[i := Some d]) = free_fds t"
  unfolding free_fds_def standard_def by (subst filter_update) auto

lemma open_standard:
  assumes "standard t" "fd < 2"
  shows "fd_alloc d (fd_close fd t) = Some (fd, t[fd := Some d])"
proof -
  have "t ! 0 \<noteq> None" "t ! 1 \<noteq> None" "2 < length t" using assms(1) by (auto simp: standard_def)
  then have l: "fd < length (fd_close fd t)" "fd < length t" and z: "\<forall>j<fd. t ! j \<noteq> None"
    using assms(2) by (auto simp: fd_close_def less_2_cases_iff)
  from l(2) z have "fd_close fd t ! fd = None" "\<forall>j<fd. fd_close fd t ! j \<noteq> None" by (simp_all add: fd_close_def)
  note this l(1)
  then show ?thesis using fd_alloc_free [of fd "fd_close fd t" d] by (simp add: fd_close_def)
qed

lemma close_pipe:
  assumes "p0 < length t" "p1 < length t" "t ! p0 = None" "t ! p1 = None" "p0 \<noteq> p1"
  shows "fd_close p1 (fd_close p0 (t[p0 := x, p1 := y])) = t"
  using assms by (intro nth_equalityI) (auto simp: fd_close_def nth_list_update)

text \<open>A program's table: the one the shell was given, with standard input and output replaced.\<close>

definition with_io :: "fdtable \<Rightarrow> desc \<Rightarrow> desc \<Rightarrow> fdtable" where
  "with_io t i out = t[0 := Some i, 1 := Some out]"

lemma with_io_standard: "standard t \<Longrightarrow> standard (with_io t i out)"
  by (simp add: with_io_def)

lemma with_io_update:
  "standard t \<Longrightarrow> (with_io t i out)[0 := Some d] = with_io t d out"
  "standard t \<Longrightarrow> (with_io t i out)[Suc 0 := Some d] = with_io t i d"
  by (auto simp: with_io_def list_update_swap)

lemma free_fds_with_io: "standard t \<Longrightarrow> free_fds (with_io t i out) = free_fds t"
  by (simp add: with_io_def free_fds_standard)

lemma starts_with_io:
  assumes "standard t" "2 \<le> free_fds t"
  shows "shape c \<Longrightarrow> starts ok (runcmd pa c (with_io t i out)) = map (\<lambda>(args, i, out). (args, with_io t i out)) (programs ok pa c i out)"
proof (induction c arbitrary: pa i out)
  case (REDIR c f mode fd)
  have fd: "fd = 0 \<or> fd = 1" using REDIR.prems by (auto simp: valid_mode_def)
  then have "fd_alloc (Opened f mode) (fd_close fd (with_io t i out)) = Some (fd, (with_io t i out)[fd := Some (Opened f mode)])"
    using open_standard [OF with_io_standard [OF assms(1)]] by auto
  then show ?case using REDIR fd by (auto simp: sh_open_def with_io_update [OF assms(1)])
next
  case (PIPE l r)
  let ?t = "with_io t i out"
  have st: "standard ?t" "2 \<le> free_fds ?t" using assms by (simp_all add: with_io_standard free_fds_with_io)
  obtain p0 p1 where p: "fd_pipe pa ?t = Some (p0, p1, ?t[p0 := Some (Read_end pa), p1 := Some (Write_end pa)])"
    "2 < p0" "2 < p1" "p0 \<noteq> p1" "p0 < length ?t" "p1 < length ?t" "?t ! p0 = None" "?t ! p1 = None"
    using fd_pipe_free [OF st] by blast
  have "plumb 1 p1 p0 p1 (?t[p0 := Some (Read_end pa), p1 := Some (Write_end pa)]) = with_io t i (Write_end pa)"
    "plumb 0 p0 p0 p1 (?t[p0 := Some (Read_end pa), p1 := Some (Write_end pa)]) = with_io t (Read_end pa) out"
    using plumb_eq [OF st(1) _ p(2-8), of 1 p1 "Write_end pa" "Read_end pa" "Write_end pa"]
      plumb_eq [OF st(1) _ p(2-8), of 0 p0 "Read_end pa" "Read_end pa" "Write_end pa"] by (simp_all add: with_io_update [OF assms(1)])
  then show ?case using PIPE by (simp add: sh_pipe_def p(1) fork1_def Let_def)
qed (auto simp: fork1_def)

lemma runcmd_starts:
  assumes "standard t" "2 \<le> free_fds t" "t ! 0 = Some i" "t ! 1 = Some out" "valid_cmd c"
  shows "starts ok (runcmd pa c t) = map (\<lambda>(args, i, out). (args, t[0 := Some i, 1 := Some out])) (programs ok pa c i out)"
proof -
  have t: "with_io t i out = t" using assms(3,4) by (simp add: with_io_def) (metis list_update_id)
  have "shape c" using assms(5) by (simp add: valid_cmd_iff)
  then show ?thesis using starts_with_io [OF assms(1,2), of c ok pa i out] unfolding t by (simp add: with_io_def)
qed

section \<open>No leaks, whatever fails\<close>

text \<open>The tables of every program start and every wait of a process and its children, on all branches.\<close>

fun held :: "process \<Rightarrow> fdtable list" where
  "held (Exit n) = []"
| "held (Exec args t k) = t # held k"
| "held (Open f mode k fail) = held k @ held fail"
| "held (Mkpipe k fail) = held k @ held fail"
| "held (Fork child parent fail) = held child @ held parent @ held fail"
| "held (Wait t k) = t # held k"
| "held (Say msg t k) = held k"

definition same_rest :: "fdtable \<Rightarrow> fdtable \<Rightarrow> bool" where
  "same_rest t u \<longleftrightarrow> length u = length t \<and> (\<forall>i\<ge>2. i < length t \<longrightarrow> u ! i = t ! i)"

lemma same_rest_update: "same_rest t u \<Longrightarrow> fd < 2 \<Longrightarrow> same_rest t (u[fd := d])"
  by (auto simp: same_rest_def nth_list_update)

lemma fd_pipe_cases:
  assumes "standard t"
  obtains "fd_pipe pa t = None"
  | p0 p1 where "fd_pipe pa t = Some (p0, p1, t[p0 := Some (Read_end pa), p1 := Some (Write_end pa)])"
    "2 < p0" "2 < p1" "p0 \<noteq> p1" "p0 < length t" "p1 < length t" "t ! p0 = None" "t ! p1 = None"
proof (cases "2 \<le> free_fds t")
  case True
  then show ?thesis using fd_pipe_free [OF assms] that(2) by blast
next
  case False
  have none: "fd_alloc d u = None" if "free_fds u = 0" for d u
    using that free_fds_pos [of u] by (auto simp: fd_alloc_def find_None_iff split: option.split simp flip: not_None_eq)
  have "fd_pipe pa t = None"
  proof (cases "free_fds t")
    case (Suc k)
    then obtain p0 where p0: "p0 < length t" "t ! p0 = None" "\<forall>j<p0. t ! j \<noteq> None"
      by (metis free_fds_pos lowest_free zero_less_Suc)
    then have "free_fds (t[p0 := Some (Read_end pa)]) = 0" using free_fds_update [OF p0(1,2), of "Read_end pa"] False Suc by linarith
    then show ?thesis by (simp add: fd_pipe_def fd_alloc_free [OF p0] none)
  qed (simp add: fd_pipe_def none)
  then show ?thesis by (rule that(1))
qed

lemma held_same_rest:
  "standard t \<Longrightarrow> same_rest t0 t \<Longrightarrow> shape c \<Longrightarrow> u \<in> set (held (runcmd pa c t)) \<Longrightarrow> same_rest t0 u"
proof (induction c arbitrary: pa t)
  case (REDIR c f mode fd)
  have fd: "fd < 2" using REDIR.prems(3) by (auto simp: valid_mode_def)
  show ?case
    using REDIR.IH [of "t[fd := Some (Opened f mode)]" "0 # pa"] REDIR.prems open_standard [OF REDIR.prems(1) fd] same_rest_update [OF _ fd]
    by (auto simp: sh_open_def)
next
  case (PIPE l r)
  show ?case
  proof (cases rule: fd_pipe_cases [OF PIPE.prems(1), of pa])
    case (2 p0 p1)
    let ?t = "t[p0 := Some (Read_end pa), p1 := Some (Write_end pa)]"
    have pl: "plumb (Suc 0) p1 p0 p1 ?t = t[1 := Some (Write_end pa)]" "plumb 0 p0 p0 p1 ?t = t[0 := Some (Read_end pa)]"
      using plumb_eq [OF PIPE.prems(1) _ 2(2-8), of 1 p1 "Write_end pa" "Read_end pa" "Write_end pa"]
        plumb_eq [OF PIPE.prems(1) _ 2(2-8), of 0 p0 "Read_end pa" "Read_end pa" "Write_end pa"] by simp_all
    have cl: "fd_close p1 (fd_close p0 ?t) = t" by (rule close_pipe [OF 2(5-8,4)])
    have "same_rest t0 (t[1 := Some (Write_end pa)])" "same_rest t0 (t[0 := Some (Read_end pa)])"
      using PIPE.prems(2) by (simp_all add: same_rest_update)
    then show ?thesis using PIPE.IH(1) [of "t[1 := Some (Write_end pa)]" "0 # pa"] PIPE.IH(2) [of "t[0 := Some (Read_end pa)]" "1 # pa"] PIPE.prems
      by (auto simp: sh_pipe_def 2(1) fork1_def sh_panic_def Let_def pl cl)
  qed (use PIPE.prems in \<open>simp add: sh_pipe_def sh_panic_def\<close>)
qed (auto simp: fork1_def sh_panic_def split: if_splits)

text \<open>
  C12. No pipe end is ever left behind, whichever calls fail: in every program that is started, and in every
  process of the shell that waits for its children, all descriptors from 2 on are those the shell had, so the reader
  of a pipe sees its end as soon as the writers are gone.
\<close>

theorem runcmd_leaks_nothing:
  assumes "standard t" "valid_cmd c" "u \<in> set (held (runcmd pa c t))"
  shows "length u = length t \<and> (\<forall>i\<ge>2. i < length t \<longrightarrow> u ! i = t ! i)"
proof -
  have "same_rest t t" by (simp add: same_rest_def)
  then show ?thesis using held_same_rest [OF assms(1) _ _ assms(3)] assms(2) by (simp add: valid_cmd_iff same_rest_def)
qed

theorem runcmd_leaks_nothing_witness:
  "list_all (\<lambda>u. u ! 4 = None) (held (runcmd [] (PIPE (EXEC [''a'']) (EXEC [''b''])) [Some (Start 0), Some (Start 1), Some (Start 2), None, None]))"
  unfolding list_all_iff
proof
  fix u assume u: "u \<in> set (held (runcmd [] (PIPE (EXEC [''a'']) (EXEC [''b''])) [Some (Start 0), Some (Start 1), Some (Start 2), None, None]))"
  have "standard [Some (Start 0), Some (Start 1), Some (Start 2), None, None]" "valid_cmd (PIPE (EXEC [''a'']) (EXEC [''b'']))" by code_simp+
  from runcmd_leaks_nothing [OF this u] show "u ! 4 = None" by auto
qed

end
