(* ===== verification/Shell.thy ===== *)
theory Shell
  imports Shrun Filters
begin

text \<open>
  The shell as a whole (\<^verbatim>\<open>user/sh.c\<close>): the line buffer, \<^verbatim>\<open>getcmd\<close>, \<^verbatim>\<open>parse_buffer\<close>, the interactive loop
  and the script loop of \<^verbatim>\<open>main\<close>. The line buffer is a list of \<^verbatim>\<open>sizeof(buf)\<close> = 120 characters;
  a buffer without NUL runs into the memory behind it, which the environment gives.
\<close>

section \<open>Reading lines\<close>

definition sizeof_buf :: nat where "sizeof_buf = 120"

text \<open>The loop of \<^verbatim>\<open>gets\<close> of \<^verbatim>\<open>ulib.c\<close>: the characters stored, \<open>acc\<close> being those so far.\<close>

function gets_loop :: "nat \<Rightarrow> string \<Rightarrow> input \<Rightarrow> string \<times> input" where
  "gets_loop mx acc inp =
     (if \<not> length acc + 1 < mx then (acc, inp)
      else case read_in 1 inp of (cc, bs, inp') \<Rightarrow>
        if cc < 1 then (acc, inp')
        else if hd bs = CHR 0x0A \<or> hd bs = CHR 0x0D then (acc @ [hd bs], inp')
        else gets_loop mx (acc @ [hd bs]) inp')"
  by pat_completeness auto
termination
  by (relation "measure (\<lambda>(mx, acc, inp). left inp)") (auto dest: read_in_left [OF sym])

declare gets_loop.simps [simp del]

definition gets :: "string \<Rightarrow> nat \<Rightarrow> input \<Rightarrow> string \<times> input" where
  "gets buf mx inp = (case gets_loop mx [] inp of (s, inp') \<Rightarrow> (s @ [nul] @ drop (length s + 1) buf, inp'))"

text \<open>\<^verbatim>\<open>getcmd\<close>, its result being whether there is a line.\<close>

definition getcmd :: "input \<Rightarrow> bool \<times> string \<times> input" where
  "getcmd inp = (case gets (replicate sizeof_buf nul) sizeof_buf inp of (buf, inp') \<Rightarrow> (buf ! 0 \<noteq> nul, buf, inp'))"

section \<open>Lines\<close>

definition c_str :: "string \<Rightarrow> string" where "c_str mem = takeWhile (\<lambda>c. c \<noteq> nul) mem"

text \<open>The child the shell forks for a line.\<close>

definition child :: "string \<Rightarrow> fdtable \<Rightarrow> process" where
  "child line t =
     (case parsecmd line of
        Inl (Sh_panic msg) \<Rightarrow> sh_panic msg t
      | Inl (Leftovers s) \<Rightarrow> Say (''leftovers: '' @ s @ [CHR 0x0A]) t (sh_panic ''syntax'' t)
      | Inl No_fuel \<Rightarrow> Exit 1
      | Inr (c, buf) \<Rightarrow> runcmd [] (map_cmd (word_at buf (length line)) c) t)"

text \<open>What the shell process does: prompt, change directory, complain, fork a child for a line and wait for it, exit.\<close>

datatype action = Prompt | Chdir string | Complain string | Print string | Run string | Bye

text \<open>
  The environment: which directories can be entered, for which lines \<^verbatim>\<open>fork\<close> finds a process, and the memory
  behind the buffer. The result of \<open>parse_buffer\<close> is whether the shell goes on, with its buffer.
\<close>

record shell_env =
  enter :: "string \<Rightarrow> bool"
  forks :: "string \<Rightarrow> bool"
  behind :: string

definition parse_buffer :: "shell_env \<Rightarrow> string \<Rightarrow> action list \<times> string option" where
  "parse_buffer env buf =
     (if buf ! 0 = CHR ''c'' \<and> buf ! 1 = CHR ''d'' \<and> buf ! 2 = CHR '' ''
      then let mem = (buf @ behind env)[length (c_str (buf @ behind env)) - 1 := nul]; dir = c_str (drop 3 mem)
        in (Chdir dir # (if enter env dir then [] else [Complain (''cannot cd '' @ dir @ [CHR 0x0A])]), Some (take (length buf) mem))
      else if buf ! 0 = CHR ''e'' \<and> buf ! 1 = CHR ''x'' \<and> buf ! 2 = CHR ''i'' \<and> buf ! 3 = CHR ''t'' then ([Bye], None)
      else if \<not> forks env (c_str (buf @ behind env)) then ([Complain (''fork'' @ [CHR 0x0A]), Bye], None)
      else ([Run (c_str (buf @ behind env))], Some buf))"

lemma gets_loop_left: "gets_loop mx acc inp = (s, inp') \<Longrightarrow> left inp' \<le> left inp \<and> (s = acc \<or> left inp' < left inp)"
proof (induction mx acc inp rule: gets_loop.induct)
  case (1 mx acc inp)
  obtain cc bs inp1 where r: "read_in 1 inp = (cc, bs, inp1)" by (metis prod_cases3)
  have d: "0 < cc \<Longrightarrow> left inp1 < left inp" by (rule read_in_left [OF r])
  have le: "left inp1 \<le> left inp" using read_in_data [OF r] by (simp add: left_def)
  show ?case
  proof (cases "length acc + 1 < mx \<and> \<not> cc < 1")
    case True
    then have lt: "left inp1 < left inp" using d by simp
    show ?thesis
    proof (cases "hd bs = CHR 0x0A \<or> hd bs = CHR 0x0D")
      case False
      then have "gets_loop mx (acc @ [hd bs]) inp1 = (s, inp')" using 1(2) True by (subst (asm) gets_loop.simps) (simp add: r del: One_nat_def)
      then have "left inp' \<le> left inp1" using 1(1) [OF _ r [symmetric] refl] True False by simp
      then show ?thesis using lt by simp
    qed (use 1(2) True lt in \<open>subst (asm) gets_loop.simps, auto simp: r simp del: One_nat_def\<close>)
  qed (use 1(2) le in \<open>subst (asm) gets_loop.simps, auto simp: r simp del: One_nat_def split: if_splits\<close>)
qed

function interactive :: "shell_env \<Rightarrow> input \<Rightarrow> action list" where
  "interactive env inp =
     (case getcmd inp of (got, buf, inp') \<Rightarrow>
        Prompt # (if \<not> got then [Bye]
          else case parse_buffer env buf of
            (as, None) \<Rightarrow> as
          | (as, Some _) \<Rightarrow> as @ interactive env inp'))"
  by pat_completeness auto
termination
proof (relation "measure (\<lambda>(env, inp). left inp)", goal_cases)
  case (2 env inp got x buf inp')
  then obtain s where g: "gets_loop sizeof_buf [] inp = (s, inp')" "buf = s @ [nul] @ drop (length s + 1) (replicate sizeof_buf nul)"
    by (auto simp: getcmd_def gets_def split: prod.splits)
  have "s \<noteq> []" using 2 g by (auto simp: getcmd_def gets_def)
  then show ?case using gets_loop_left [OF g(1)] by simp
qed simp

declare interactive.simps [simp del]

text \<open>The loop over a script file: \<open>inp\<close> is the file behind the descriptor.\<close>

function script :: "shell_env \<Rightarrow> string \<Rightarrow> input \<Rightarrow> action list" where
  "script env buf inp =
     (case parse_buffer env buf of
        (as, None) \<Rightarrow> as
      | (as, Some buf) \<Rightarrow>
          (case read_in sizeof_buf inp of (n, bs, inp') \<Rightarrow>
             as @ (if n = int sizeof_buf then script env (bs @ drop (length bs) buf) inp' else [Bye])))"
  by pat_completeness auto
termination
  by (relation "measure (\<lambda>(env, buf, inp). left inp)") (auto simp: sizeof_buf_def dest: read_in_left [OF sym])

declare script.simps [simp del]

text \<open>
  The first loop of \<^verbatim>\<open>main\<close>: the console is opened until a descriptor from 3 on comes out, which is closed again.
  \<open>console\<close> tells whether the console can be opened.
\<close>

definition con :: desc where "con = Opened ''console'' 2"

function ensure_open :: "bool \<Rightarrow> fdtable \<Rightarrow> fdtable" where
  "ensure_open console t =
     (if \<not> console then t
      else case fd_alloc con t of
        None \<Rightarrow> t
      | Some (fd, t') \<Rightarrow> if 3 \<le> fd then fd_close fd t' else ensure_open console t')"
  by pat_completeness auto
termination
proof (relation "measure (\<lambda>(console, t). free_fds t)", goal_cases)
  case (2 console t x fd t')
  then have "fd < length t" "t ! fd = None" "t' = t[fd := Some con]" by (auto simp: fd_alloc_def find_Some_iff split: option.splits)
  then show ?case using free_fds_update [of fd t con] by simp
qed simp

declare ensure_open.simps [simp del]

text \<open>
  \<^verbatim>\<open>main\<close>: with one argument the script, otherwise the standard input; the static buffer starts as zeros. The
  result is the table the children get, and what the shell does.
\<close>

definition shell_main :: "shell_env \<Rightarrow> bool \<Rightarrow> fdtable \<Rightarrow> (string \<Rightarrow> input option) \<Rightarrow> input \<Rightarrow> string list \<Rightarrow> fdtable \<times> action list" where
  "shell_main env console t files stdin argv =
     (let t = ensure_open console t in
      if length argv = 2 then
        (case (files (argv ! 1), fd_alloc (Opened (argv ! 1) 2) t) of
           (Some inp, Some (_, t)) \<Rightarrow>
             (case read_in sizeof_buf inp of (n, bs, inp') \<Rightarrow> (t, script env (bs @ replicate (sizeof_buf - length bs) nul) inp'))
         | _ \<Rightarrow> (t, [Print (''Failed to open '' @ argv ! 1 @ [CHR 0x0A]), Bye]))
      else (t, interactive env stdin))"

section \<open>What a line does\<close>

text \<open>
  C10. A command typed into the shell starts exactly its programs, connected as the command says. For every command of
  the grammar, printed and followed by blanks, and a table with 0, 1 and 2 open and two descriptors to spare, the child
  that parses and runs the line, with its own children, starts the programs of the command; each has the shell's table with
  only standard input and output replaced, by the ends of its pipes and by its files.
\<close>

theorem child_starts:
  assumes "standard t" "2 \<le> free_fds t" "t ! 0 = Some i" "t ! 1 = Some out" "valid_cmd c" "list_all blank bl"
  shows "starts ok (child (show_cmd c @ bl) t) =
    map (\<lambda>(args, i, out). (args, t[0 := Some i, 1 := Some out])) (programs ok [] c i out)"
proof -
  obtain c' buf where "parsecmd (show_cmd c @ bl) = Inr (c', buf)" "map_cmd (word_at buf (length (show_cmd c @ bl))) c' = c"
    using parsecmd_show [OF assms(5,6)] by blast
  then have "child (show_cmd c @ bl) t = runcmd [] c t" by (simp add: child_def)
  then show ?thesis using runcmd_starts [OF assms(1-5)] by simp
qed

theorem child_starts_witness:
  "starts (\<lambda>f mode. True) (child (''ls | wc > f '' @ [CHR 0x0A]) [Some (Start 0), Some (Start 1), Some (Start 2), None, None]) =
    [([''ls''], [Some (Start 0), Some (Write_end []), Some (Start 2), None, None]),
     ([''wc''], [Some (Read_end []), Some (Opened ''f'' mode_write), Some (Start 2), None, None])]"
proof -
  let ?t = "[Some (Start 0), Some (Start 1), Some (Start 2), None, None]"
  let ?c = "PIPE (EXEC [''ls'']) (REDIR (EXEC [''wc'']) ''f'' mode_write 1)"
  have s: "standard ?t" "2 \<le> free_fds ?t" "valid_cmd ?c" "list_all blank [CHR 0x0A]" by code_simp+
  have e: "show_cmd ?c = ''ls | wc > f ''" by code_simp
  have "?t ! 0 = Some (Start 0)" "?t ! 1 = Some (Start 1)" by simp_all
  from child_starts [OF s(1,2) this s(3,4), of "\<lambda>f mode. True"] show ?thesis unfolding e by simp
qed

text \<open>The first loop of \<^verbatim>\<open>main\<close> provides such a table.\<close>

lemma ensure_open_length: "length (ensure_open console t) = length t"
proof (induction console t rule: ensure_open.induct)
  case (1 console t)
  then show ?case by (subst ensure_open.simps) (auto simp: fd_alloc_def fd_close_def split: option.splits)
qed

lemma ensure_open_standard:
  assumes "2 < length t"
  shows "standard (ensure_open True t) \<and> (\<forall>i<length t. t ! i \<noteq> None \<or> 2 < i \<longrightarrow> ensure_open True t ! i = t ! i)"
  using assms
proof (induction "True" t rule: ensure_open.induct)
  case (1 t)
  show ?case
  proof (cases "fd_alloc con t")
    case None
    then have "t ! i \<noteq> None" if "i < length t" for i using that by (auto simp: fd_alloc_def find_None_iff split: option.splits)
    then show ?thesis using None 1(2) by (subst (1 2) ensure_open.simps) (auto simp: standard_def)
  next
    case (Some y)
    obtain fd t' where y: "y = (fd, t')" by fastforce
    have fd: "fd < length t" "t ! fd = None" "\<forall>j<fd. t ! j \<noteq> None" "t' = t[fd := Some con]"
      using Some y by (auto simp: fd_alloc_def find_Some_iff split: option.splits)
    show ?thesis
    proof (cases "3 \<le> fd")
      case True
      have "fd_close fd t' = t" using fd by (simp add: fd_close_def) (metis list_update_id)
      then have "ensure_open True t = t" using True Some y by (subst ensure_open.simps) simp
      then show ?thesis using True fd(3) 1(2) by (auto simp: standard_def)
    next
      case False
      then have "ensure_open True t = ensure_open True t'" using Some y by (subst ensure_open.simps) simp
      then show ?thesis using 1(1) [OF _ Some y [symmetric]] False fd 1(2) by (auto simp: nth_list_update)
    qed
  qed
qed

section \<open>The interactive loop\<close>

text \<open>A line the shell reads whole and gives to a child: short enough for the buffer, and neither \<^verbatim>\<open>cd\<close> nor \<^verbatim>\<open>exit\<close>.\<close>

definition typed :: "string \<Rightarrow> bool" where
  "typed l \<longleftrightarrow> length l + 1 < sizeof_buf \<and> list_all (\<lambda>c. c \<noteq> nul \<and> c \<noteq> CHR 0x0A \<and> c \<noteq> CHR 0x0D) l \<and>
     take 3 l \<noteq> ''cd '' \<and> take 4 l \<noteq> ''exit''"

lemma read_in_1:
  assumes "[] \<notin> set cs" "concat cs = b # rest"
  obtains cs' where "read_in 1 (cs, e) = (1, [b], (cs', e))" "[] \<notin> set cs'" "concat cs' = rest"
proof -
  obtain bs cs1 where cs: "cs = (b # bs) # cs1" using assms by (cases cs; cases "hd cs") auto
  then show ?thesis using that [of "if bs = [] then cs1 else bs # cs1"] assms by (cases bs) auto
qed

lemma gets_loop_line:
  "length acc + length l + 1 < mx \<Longrightarrow> [] \<notin> set cs \<Longrightarrow> list_all (\<lambda>c. c \<noteq> nul \<and> c \<noteq> CHR 0x0A \<and> c \<noteq> CHR 0x0D) l \<Longrightarrow>
   concat cs = l @ [CHR 0x0A] @ rest \<Longrightarrow>
   \<exists>cs'. gets_loop mx acc (cs, e) = (acc @ l @ [CHR 0x0A], (cs', e)) \<and> [] \<notin> set cs' \<and> concat cs' = rest"
proof (induction l arbitrary: acc cs)
  case Nil
  obtain cs' where c: "read_in 1 (cs, e) = (1, [CHR 0x0A], (cs', e))" "[] \<notin> set cs'" "concat cs' = rest"
    using read_in_1 [OF Nil.prems(2), of "CHR 0x0A" rest e] Nil.prems(4) by auto
  then show ?case using Nil.prems(1) by (subst gets_loop.simps) (simp del: One_nat_def)
next
  case (Cons b l)
  obtain cs' where c: "read_in 1 (cs, e) = (1, [b], (cs', e))" "[] \<notin> set cs'" "concat cs' = l @ [CHR 0x0A] @ rest"
    using read_in_1 [OF Cons.prems(2), of b "l @ [CHR 0x0A] @ rest" e] Cons.prems(4) by auto
  have "gets_loop mx acc (cs, e) = gets_loop mx (acc @ [b]) (cs', e)"
    using Cons.prems(1,3) c(1) by (subst gets_loop.simps) (simp del: One_nat_def)
  then show ?case using Cons.IH [of "acc @ [b]" cs'] Cons.prems(1,3) c(2,3) by simp
qed

lemma gets_loop_eof: "gets_loop mx [] ([], e) = ([], ([], e))"
  by (subst gets_loop.simps) simp

lemma buffer_text:
  assumes "list_all (\<lambda>c. c \<noteq> nul) s"
  shows "c_str ((s @ nul # r) @ after) = s"
  using assms by (simp add: c_str_def takeWhile_append2 list_all_iff)

lemma prefix_chars:
  "(l @ CHR 0x0A # r) ! 0 = CHR ''c'' \<and> (l @ CHR 0x0A # r) ! 1 = CHR ''d'' \<and> (l @ CHR 0x0A # r) ! 2 = CHR '' '' \<longleftrightarrow> take 3 l = ''cd ''"
  "(l @ CHR 0x0A # r) ! 0 = CHR ''e'' \<and> (l @ CHR 0x0A # r) ! 1 = CHR ''x'' \<and> (l @ CHR 0x0A # r) ! 2 = CHR ''i'' \<and>
     (l @ CHR 0x0A # r) ! 3 = CHR ''t'' \<longleftrightarrow> take 4 l = ''exit''"
  by (cases l; cases "tl l"; cases "tl (tl l)"; cases "tl (tl (tl l))"; auto simp: numeral_2_eq_2 numeral_3_eq_3)+

lemma parse_typed:
  assumes "typed l" "forks env (l @ [CHR 0x0A])"
  shows "parse_buffer env (l @ CHR 0x0A # nul # r) = ([Run (l @ [CHR 0x0A])], Some (l @ CHR 0x0A # nul # r))"
proof -
  have "list_all (\<lambda>c. c \<noteq> nul) (l @ [CHR 0x0A])" using assms(1) by (auto simp: typed_def list_all_iff nul_def)
  from buffer_text [OF this, of r "behind env"] have "c_str ((l @ CHR 0x0A # nul # r) @ behind env) = l @ [CHR 0x0A]" by simp
  then show ?thesis using assms unfolding parse_buffer_def prefix_chars by (simp add: typed_def)
qed

lemma getcmd_typed:
  assumes "typed l" "[] \<notin> set cs" "concat cs = l @ [CHR 0x0A] @ rest"
  obtains r cs' where "getcmd (cs, e) = (True, l @ CHR 0x0A # nul # r, (cs', e))" "[] \<notin> set cs'" "concat cs' = rest"
proof -
  have "length [] + length l + 1 < sizeof_buf" "list_all (\<lambda>c. c \<noteq> nul \<and> c \<noteq> CHR 0x0A \<and> c \<noteq> CHR 0x0D) l"
    using assms(1) by (simp_all add: typed_def)
  from gets_loop_line [OF this(1) assms(2) this(2) assms(3), of e] obtain cs' where
    g: "gets_loop sizeof_buf [] (cs, e) = (l @ [CHR 0x0A], (cs', e))" "[] \<notin> set cs'" "concat cs' = rest" by auto
  have "(l @ CHR 0x0A # r) ! 0 \<noteq> nul" for r using assms(1) by (cases l) (auto simp: typed_def nul_def)
  then show ?thesis using that g by (simp add: getcmd_def gets_def)
qed

lemma interactive_lines:
  assumes "[] \<notin> set cs" "concat cs = concat (map (\<lambda>l. l @ [CHR 0x0A]) ls)" "list_all (\<lambda>l. typed l \<and> forks env (l @ [CHR 0x0A])) ls"
  shows "interactive env (cs, e) = concat (map (\<lambda>l. [Prompt, Run (l @ [CHR 0x0A])]) ls) @ [Prompt, Bye]"
  using assms
proof (induction ls arbitrary: cs)
  case Nil
  then have "cs = []" by (cases cs) auto
  then show ?case by (subst interactive.simps) (simp add: getcmd_def gets_def gets_loop_eof)
next
  case (Cons l ls)
  obtain r cs' where g: "getcmd (cs, e) = (True, l @ CHR 0x0A # nul # r, (cs', e))" "[] \<notin> set cs'"
    "concat cs' = concat (map (\<lambda>l. l @ [CHR 0x0A]) ls)"
    using getcmd_typed [of l cs "concat (map (\<lambda>l. l @ [CHR 0x0A]) ls)" e] Cons.prems by auto
  have "typed l" "forks env (l @ [CHR 0x0A])" using Cons.prems(3) by simp_all
  from parse_typed [OF this] show ?case using g(1) Cons.IH [OF g(2,3)] Cons.prems(3) by (subst interactive.simps) simp
qed

text \<open>
  C18. The interactive shell runs the typed lines, one child each, in their order, however the terminal cuts the
  input into reads: a prompt and a child for every line that fits the buffer, and the end at the end of the input. Its
  children get a table in which 0, 1 and 2 are open and everything that was open before is untouched.
\<close>

theorem interactive_runs_lines:
  assumes "[] \<notin> set cs" "concat cs = concat (map (\<lambda>l. l @ [CHR 0x0A]) ls)"
    "list_all (\<lambda>l. typed l \<and> forks env (l @ [CHR 0x0A])) ls" "2 < length t"
  shows "\<exists>t'. shell_main env True t files (cs, e) [sh] =
      (t', concat (map (\<lambda>l. [Prompt, Run (l @ [CHR 0x0A])]) ls) @ [Prompt, Bye]) \<and>
    standard t' \<and> (\<forall>i<length t. t ! i \<noteq> None \<or> 2 < i \<longrightarrow> t' ! i = t ! i)"
  using interactive_lines [OF assms(1-3), of e] ensure_open_standard [OF assms(4)] by (simp add: shell_main_def Let_def)

theorem interactive_runs_lines_witness:
  "\<exists>t'. shell_main \<lparr>enter = (\<lambda>d. True), forks = (\<lambda>l. True), behind = []\<rparr> True [None, None, None, None] (\<lambda>f. None)
      ([''l'', ''s'' @ [CHR 0x0A] @ ''wc'', [CHR 0x0A]], False) [''sh''] =
    (t', [Prompt, Run (''ls'' @ [CHR 0x0A]), Prompt, Run (''wc'' @ [CHR 0x0A]), Prompt, Bye])"
proof -
  let ?env = "\<lparr>enter = (\<lambda>d. True), forks = (\<lambda>l. True), behind = []\<rparr>"
  have "[] \<notin> set [''l'', ''s'' @ [CHR 0x0A] @ ''wc'', [CHR 0x0A]]" by simp
  moreover have "concat [''l'', ''s'' @ [CHR 0x0A] @ ''wc'', [CHR 0x0A]] = concat (map (\<lambda>l. l @ [CHR 0x0A]) [''ls'', ''wc''])" by simp
  moreover have "list_all typed [''ls'', ''wc'']" by code_simp
  then have "list_all (\<lambda>l. typed l \<and> forks ?env (l @ [CHR 0x0A])) [''ls'', ''wc'']" by simp
  moreover have "2 < length [None, None, None, None :: desc option]" by simp
  ultimately have "\<exists>t'. shell_main ?env True [None, None, None, None] (\<lambda>f. None)
      ([''l'', ''s'' @ [CHR 0x0A] @ ''wc'', [CHR 0x0A]], False) [''sh''] =
    (t', concat (map (\<lambda>l. [Prompt, Run (l @ [CHR 0x0A])]) [''ls'', ''wc'']) @ [Prompt, Bye])"
    using interactive_runs_lines by blast
  then show ?thesis by simp
qed

section \<open>Scripts\<close>

lemma script_step:
  "script env buf inp =
     (case parse_buffer env buf of (as, None) \<Rightarrow> as | (as, Some buf) \<Rightarrow> (case read_in sizeof_buf inp of (n, bs, inp') \<Rightarrow>
        as @ (if n = int sizeof_buf then script env (bs @ drop (length bs) buf) inp' else [Bye])))"
  by (rule script.simps)

lemma script_tail:
  assumes "length tail < sizeof_buf" "length xs = k * sizeof_buf"
  shows "script env buf ([xs @ tail], e) = script env buf ([xs], e)"
  using assms(2)
proof (induction k arbitrary: xs buf)
  case 0
  then show ?case using assms(1) by (subst (1 2) script_step) (auto simp: sizeof_buf_def split: prod.splits option.splits)
next
  case (Suc k)
  let ?n = sizeof_buf let ?ys = "drop ?n xs"
  have ys: "length ?ys = k * ?n" using Suc.prems by simp
  have n: "?n \<le> length xs" using Suc.prems by simp
  have nil: "script env b ([], e) = script env b ([[]], e)" for b
    by (subst (1 2) script_step) (auto simp: sizeof_buf_def split: prod.splits option.splits)
  have r: "fst (read_in ?n ([xs @ z], e)) = int ?n" "fst (snd (read_in ?n ([xs @ z], e))) = take ?n xs" for z using n by simp_all
  have ih: "script env b (snd (snd (read_in ?n ([xs @ z], e)))) = script env b ([?ys], e)" if "z = tail \<or> z = []" for z b
  proof (cases "length (xs @ z) \<le> ?n")
    case True
    then have "length z = 0" "length xs \<le> ?n" using n unfolding length_append by linarith+
    then have "?ys = []" "z = []" by simp_all
    then show ?thesis using True nil by simp
  next
    case False
    then show ?thesis using n that Suc.IH [OF ys] by auto
  qed
  have "script env buf ([xs @ z], e) = (case parse_buffer env buf of (as, None) \<Rightarrow> as
      | (as, Some buf) \<Rightarrow> as @ script env (take ?n xs @ drop (length (take ?n xs)) buf) ([?ys], e))" if "z = tail \<or> z = []" for z
  proof -
    obtain q where q: "read_in ?n ([xs @ z], e) = (int ?n, take ?n xs, q)" using r by (metis prod.collapse)
    have "script env b q = script env b ([?ys], e)" for b using ih [OF that, of b] unfolding q by simp
    then show ?thesis unfolding script_step [of env buf] q by (simp split: prod.splits option.splits)
  qed
  from this [of tail] this [of "[]"] show ?case by simp
qed

text \<open>
  C35. A script is executed in buffers of 120 characters, and from the second on only full ones: what follows the last
  full buffer of a longer script, up to 119 characters, never runs.
\<close>

theorem script_ignores_tail:
  assumes "files f = Some ([xs @ tail], e)" "files' f = Some ([xs], e)" "0 < k" "length xs = k * sizeof_buf" "length tail < sizeof_buf"
  shows "shell_main env console t files stdin [sh, f] = shell_main env console t files' stdin [sh, f]"
proof -
  let ?n = sizeof_buf
  have n: "?n \<le> length xs" using assms(3,4) by (cases k) simp_all
  obtain inp1 inp2 where r: "read_in ?n ([xs @ tail], e) = (int ?n, take ?n xs, inp1)" "read_in ?n ([xs], e) = (int ?n, take ?n xs, inp2)"
    using n by simp
  have nil: "script env b ([], e) = script env b ([[]], e)" for b
    by (subst (1 2) script_step) (auto simp: sizeof_buf_def split: prod.splits option.splits)
  obtain j where j: "k = Suc j" using assms(3) by (cases k) simp_all
  have "length (drop ?n xs) = j * ?n" using assms(4) by (simp add: j)
  from script_tail [OF assms(5) this, of env _ e]
  have "script env b inp1 = script env b inp2" for b using r n nil by (auto split: if_splits)
  then show ?thesis using assms(1,2) r by (simp add: shell_main_def Let_def del: read_in.simps split: option.split)
qed

theorem script_ignores_tail_witness:
  "\<forall>env t. shell_main env True t (\<lambda>f. Some ([replicate 120 (CHR '';'') @ ''rm x''], False)) ([], False) [''sh'', ''f''] =
     shell_main env True t (\<lambda>f. Some ([replicate 120 (CHR '';'')], False)) ([], False) [''sh'', ''f'']"
proof (intro allI)
  fix env t
  let ?xs = "replicate 120 (CHR '';'')"
  have l: "length ?xs = 1 * sizeof_buf" "length ''rm x'' < sizeof_buf" unfolding sizeof_buf_def length_replicate by simp_all
  show "shell_main env True t (\<lambda>f. Some ([?xs @ ''rm x''], False)) ([], False) [''sh'', ''f''] =
      shell_main env True t (\<lambda>f. Some ([?xs], False)) ([], False) [''sh'', ''f'']"
    by (rule script_ignores_tail [of "\<lambda>f. Some ([?xs @ ''rm x''], False)" _ ?xs "''rm x''" False "\<lambda>f. Some ([?xs], False)" 1,
          OF refl refl zero_less_one l])
qed

end
