(* ===== verification/Ring.thy ===== *)
theory Ring
  imports Xv6_Prelude
begin

text \<open>
  Bounded FIFO queues. The pipe (\<^verbatim>\<open>pipe.c\<close>), the console input buffer (\<^verbatim>\<open>console.c\<close>) and the
  transmit buffer of the serial port (\<^verbatim>\<open>uart.c\<close>) are arrays indexed by free-running counters
  modulo the size of the array. \<open>ring\<close> is the list of elements between the two counters; it
  is right across the wrap-around of the counters because the size divides the number of
  values a counter has. The locale \<open>bounded_fifo\<close> is the contract of such a queue.
\<close>

definition ring :: "'b list \<Rightarrow> 'a::len word \<Rightarrow> 'a word \<Rightarrow> 'b list" where
  "ring d r w = map (\<lambda>k. d ! (unat (r + of_nat k) mod length d)) [0..<unat (w - r)]"

lemma length_ring [simp]: "length (ring d r w) = unat (w - r)"
  by (simp add: ring_def)

lemma ring_empty [simp]: "ring d r r = []"
  by (simp add: ring_def)

lemma ring_empty_iff [simp]: "ring d r w = [] \<longleftrightarrow> r = w"
  by (auto simp: ring_def unat_eq_0)

lemma unat_suc_diff:
  fixes w r :: "'a::len word"
  assumes "unat (w - r) < n" "n < 2 ^ LENGTH('a)"
  shows "unat (w + 1 - r) = Suc (unat (w - r))"
proof -
  have "unat ((w - r) + 1) = (unat (w - r) + 1) mod 2 ^ LENGTH('a)" by (simp add: unat_word_ariths)
  also have "\<dots> = unat (w - r) + 1" using assms by (intro mod_less) simp
  finally show ?thesis by (simp add: algebra_simps)
qed

lemma unat_add_mod:
  fixes a :: "'a::len word"
  assumes "N dvd 2 ^ LENGTH('a)"
  shows "unat (a + of_nat k) mod N = (unat a + k) mod N"
proof -
  have "unat (a + of_nat k) mod N = (unat a + k mod 2 ^ LENGTH('a)) mod 2 ^ LENGTH('a) mod N"
    by (simp add: unat_word_ariths unat_of_nat)
  also have "\<dots> = (unat a + k mod 2 ^ LENGTH('a)) mod N" using assms by (rule mod_mod_cancel)
  also have "\<dots> = (unat a + k mod 2 ^ LENGTH('a) mod N) mod N" by (simp add: mod_add_right_eq)
  also have "k mod 2 ^ LENGTH('a) mod N = k mod N" using assms by (rule mod_mod_cancel)
  finally show ?thesis by (simp add: mod_add_right_eq)
qed

text \<open>Distinct positions within one turn of the array are distinct cells.\<close>

lemma ring_index_inj:
  fixes w r :: "'a::len word"
  assumes "N dvd 2 ^ LENGTH('a)" "k < unat (w - r)" "unat (w - r) < N"
  shows "unat (r + of_nat k) mod N \<noteq> unat w mod N"
proof
  assume eq: "unat (r + of_nat k) mod N = unat w mod N"
  let ?n = "unat (w - r)"
  have "unat (r + of_nat ?n) mod N = (unat r + ?n) mod N" by (rule unat_add_mod [OF assms(1)])
  then have w: "unat w mod N = (unat r + ?n) mod N" by simp
  with eq have "(unat r + k) mod N = (unat r + ?n) mod N" by (simp add: unat_add_mod [OF assms(1)])
  then have "N dvd (unat r + ?n) - (unat r + k)" using assms(2) by (subst mod_eq_dvd_iff_nat [symmetric]) simp_all
  then have "N dvd ?n - k" by simp
  moreover have "0 < ?n - k" "?n - k < N" using assms by auto
  ultimately show False using nat_dvd_not_less by blast
qed

lemma ring_put:
  fixes w r :: "'a::len word"
  assumes "length d = N" "N dvd 2 ^ LENGTH('a)" "N < 2 ^ LENGTH('a)" "unat (w - r) < N"
  shows "ring (d[unat w mod N := c]) r (w + 1) = ring d r w @ [c]"
proof -
  have n: "unat (w + 1 - r) = Suc (unat (w - r))" using assms(3,4) by (intro unat_suc_diff) auto
  have N: "0 < N" using assms(4) by simp
  have last: "unat (r + of_nat (unat (w - r))) mod N = unat w mod N" by simp
  have "d[unat w mod N := c] ! (unat (r + of_nat k) mod N) = d ! (unat (r + of_nat k) mod N)" if "k < unat (w - r)" for k
    using ring_index_inj [OF assms(2) that assms(4)] by simp
  then show ?thesis using assms(1) N by (simp add: ring_def n)
qed

lemma ring_get:
  fixes w r :: "'a::len word"
  assumes "r \<noteq> w"
  shows "ring d r w = d ! (unat r mod length d) # ring d (r + 1) w"
proof -
  have nz: "unat (w - r) \<noteq> 0" using assms by (simp add: unat_eq_0)
  have "w - (r + 1) = (w - r) - 1" by simp
  then have n: "unat (w - r) = Suc (unat (w - (r + 1)))"
    using nz by (metis Suc_pred' bot_nat_0.not_eq_extremum unat_minus_one unat_0)
  have "[0..<Suc m] = 0 # map Suc [0..<m]" for m by (simp add: map_Suc_upt upt_conv_Cons)
  then show ?thesis unfolding ring_def n by (simp add: comp_def add.assoc)
qed

section \<open>The contract of a bounded queue\<close>

locale bounded_fifo =
  fixes contents :: "'s \<Rightarrow> 'b list"
    and ok :: "'s \<Rightarrow> bool"
    and cap :: nat
    and put :: "'b \<Rightarrow> 's \<Rightarrow> 's"
    and get :: "'s \<Rightarrow> 'b \<times> 's"
  assumes put_contents: "ok s \<Longrightarrow> length (contents s) < cap \<Longrightarrow> contents (put x s) = contents s @ [x]"
    and put_ok: "ok s \<Longrightarrow> length (contents s) < cap \<Longrightarrow> ok (put x s)"
    and get_contents: "ok s \<Longrightarrow> contents s = x # xs \<Longrightarrow> fst (get s) = x \<and> contents (snd (get s)) = xs"
    and get_ok: "ok s \<Longrightarrow> contents s \<noteq> [] \<Longrightarrow> ok (snd (get s))"
    and bounded: "ok s \<Longrightarrow> length (contents s) \<le> cap"
begin

fun put_all :: "'b list \<Rightarrow> 's \<Rightarrow> 's" where
  "put_all [] s = s"
| "put_all (x # xs) s = put_all xs (put x s)"

fun get_n :: "nat \<Rightarrow> 's \<Rightarrow> 'b list \<times> 's" where
  "get_n 0 s = ([], s)"
| "get_n (Suc n) s = (let (x, s) = get s; (xs, s) = get_n n s in (x # xs, s))"

lemma put_all_contents:
  "ok s \<Longrightarrow> length (contents s) + length xs \<le> cap \<Longrightarrow> contents (put_all xs s) = contents s @ xs \<and> ok (put_all xs s)"
proof (induction xs arbitrary: s)
  case (Cons x xs)
  have "contents (put x s) = contents s @ [x]" "ok (put x s)"
    using Cons.prems put_contents [of s x] put_ok [of s x] by auto
  then show ?case using Cons.IH [of "put x s"] Cons.prems(2) by simp
qed simp

lemma get_n_contents:
  "ok s \<Longrightarrow> n \<le> length (contents s) \<Longrightarrow>
     fst (get_n n s) = take n (contents s) \<and> contents (snd (get_n n s)) = drop n (contents s) \<and> ok (snd (get_n n s))"
proof (induction n arbitrary: s)
  case (Suc n)
  then obtain x xs where xs: "contents s = x # xs" by (cases "contents s") auto
  obtain s1 where g: "get s = (x, s1)" "contents s1 = xs" using get_contents [OF Suc.prems(1) xs] by (cases "get s") auto
  have "ok s1" using get_ok [OF Suc.prems(1)] xs g by simp
  then show ?case using Suc.IH [of s1] Suc.prems(2) xs g by (auto simp: split_beta)
qed simp

text \<open>Elements come out in the order in which they went in.\<close>

lemma fifo_order:
  assumes "ok s" "length (contents s) + length xs \<le> cap"
  shows "fst (get_n (length (contents s) + length xs) (put_all xs s)) = contents s @ xs"
  using put_all_contents [OF assms] get_n_contents [of "put_all xs s" "length (contents s) + length xs"] by simp

end

end
