(* ===== verification/Console.thy ===== *)
theory Console
  imports Fs Ring
begin

text \<open>
  The console (\<^verbatim>\<open>console.c\<close>) over the serial port (\<^verbatim>\<open>uart.c\<close>). Of the device the model keeps what
  the driver sees: the bytes waiting to be received (\<open>uart_rx\<close>), the number of bytes the
  transmitter accepts before it reports busy (\<open>uart_room\<close>), and the bytes sent
  (\<open>console_out\<close>). \<^verbatim>\<open>uartputc_sync\<close> spins until the transmitter is idle, so it always sends.
  A routine that waits in the middle of its work returns \<open>Wait\<close> with the channel and the
  arguments to go on with.
\<close>

datatype ('r, 'k) io = Done 'r | Wait chan 'k

definition INPUT_BUF_SIZE :: nat where "INPUT_BUF_SIZE = 128"
definition UART_TX_BUF_SIZE :: nat where "UART_TX_BUF_SIZE = 32"

record cons = fs +
  cons_buf :: "uint8 list"
  cons_r :: uint
  cons_w :: uint
  cons_e :: uint
  uart_tx_buf :: "uint8 list"
  uart_tx_w :: uint64
  uart_tx_r :: uint64
  uart_room :: nat
  uart_rx :: "uint8 list"

definition ctrl :: "char \<Rightarrow> uint8" where
  "ctrl x = of_nat (of_char x) - 64"

definition chr8 :: "uint8 \<Rightarrow> char" where
  "chr8 c = char_of (unat c)"

section \<open>Serial port\<close>

definition uartputc_sync :: "uint8 \<Rightarrow> 'a cons_scheme \<Rightarrow> 'a cons_scheme" where
  "uartputc_sync c s = s\<lparr>console_out := console_out s @ [chr8 c]\<rparr>"

lemma wakeup_cons:
  fixes s :: "'a cons_scheme"
  shows "uart_room (wakeup c s) = uart_room s" "uart_tx_r (wakeup c s) = uart_tx_r s" "uart_tx_w (wakeup c s) = uart_tx_w s"
    "uart_tx_buf (wakeup c s) = uart_tx_buf s" "console_out (wakeup c s) = console_out s"
    "cons_buf (wakeup c s) = cons_buf s" "cons_r (wakeup c s) = cons_r s" "cons_w (wakeup c s) = cons_w s"
    "cons_e (wakeup c s) = cons_e s" "uart_rx (wakeup c s) = uart_rx s"
  using wakeup_frame [of c s] by auto

function uartstart :: "'a cons_scheme \<Rightarrow> 'a cons_scheme" where
  "uartstart s =
     (if uart_tx_w s = uart_tx_r s then s
      else if uart_room s = 0 then s
      else let c = uart_tx_buf s ! (unat (uart_tx_r s) mod UART_TX_BUF_SIZE);
               s' = wakeup Chan_uart_tx_r (s\<lparr>uart_tx_r := uart_tx_r s + 1\<rparr>)
        in uartstart (s'\<lparr>console_out := console_out s' @ [chr8 c], uart_room := uart_room s' - 1\<rparr>))"
  by pat_completeness auto
termination
  by (relation "measure uart_room") (auto simp: wakeup_cons)

declare uartstart.simps [simp del]

definition uartputc :: "uint8 \<Rightarrow> 'a cons_scheme \<Rightarrow> 'a cons_scheme kres" where
  "uartputc c s =
     (if uart_tx_w s = uart_tx_r s + of_nat UART_TX_BUF_SIZE then Inl (Sleep Chan_uart_tx_r)
      else Inr (uartstart (s\<lparr>uart_tx_buf := (uart_tx_buf s)[unat (uart_tx_w s) mod UART_TX_BUF_SIZE := c],
        uart_tx_w := uart_tx_w s + 1\<rparr>)))"

definition uartgetc :: "'a cons_scheme \<Rightarrow> uint8 option \<times> 'a cons_scheme" where
  "uartgetc s = (case uart_rx s of [] \<Rightarrow> (None, s) | c # cs \<Rightarrow> (Some c, s\<lparr>uart_rx := cs\<rparr>))"

section \<open>Console\<close>

definition consputc :: "uint8 \<Rightarrow> 'a cons_scheme \<Rightarrow> 'a cons_scheme" where
  "consputc c s = uartputc_sync c s"

text \<open>\<^verbatim>\<open>consputc(BACKSPACE)\<close>.\<close>

definition consputc_backspace :: "'a cons_scheme \<Rightarrow> 'a cons_scheme" where
  "consputc_backspace s = uartputc_sync 8 (uartputc_sync 0x20 (uartputc_sync 8 s))"

fun consolewrite_loop :: "bool \<Rightarrow> uint64 \<Rightarrow> nat \<Rightarrow> nat \<Rightarrow> 'a cons_scheme \<Rightarrow> ((int, nat) io \<times> 'a cons_scheme) kres" where
  "consolewrite_loop user_src src i 0 s = Inr (Done (int i), s)"
| "consolewrite_loop user_src src i (Suc k) s =
     kbind (either_copyin user_src (src + of_nat i) [] 1 s) (\<lambda>(r, bs).
       if r = -1 then Inr (Done (int i), s)
       else case uartputc (hd (bs @ [0])) s of
         Inl (Sleep c) \<Rightarrow> Inr (Wait c i, s)
       | Inl e \<Rightarrow> Inl e
       | Inr s \<Rightarrow> consolewrite_loop user_src src (Suc i) k s)"

definition consolewrite :: "bool \<Rightarrow> uint64 \<Rightarrow> int \<Rightarrow> 'a cons_scheme \<Rightarrow> ((int, nat) io \<times> 'a cons_scheme) kres" where
  "consolewrite user_src src n s = consolewrite_loop user_src src 0 (nat n) s"

text \<open>\<open>n\<close> counts down from \<open>target\<close>, the number of bytes asked for.\<close>

fun consoleread_loop :: "bool \<Rightarrow> nat \<Rightarrow> uint64 \<Rightarrow> nat \<Rightarrow> 'a cons_scheme \<Rightarrow> ((int, nat) io \<times> 'a cons_scheme) kres" where
  "consoleread_loop user_dst target dst 0 s = Inr (Done (int target), s)"
| "consoleread_loop user_dst target dst (Suc n) s =
     (if cons_r s = cons_w s
      then kbind (myproc s) (\<lambda>p. if killed p s then Inr (Done (-1), s) else Inr (Wait Chan_cons_r (Suc n), s))
      else let c = cons_buf s ! (unat (cons_r s) mod INPUT_BUF_SIZE); s1 = s\<lparr>cons_r := cons_r s + 1\<rparr>
        in if c = ctrl (CHR ''D'')
           then Inr (Done (int (target - Suc n)), if Suc n < target then s1\<lparr>cons_r := cons_r s1 - 1\<rparr> else s1)
           else kbind (either_copyout user_dst dst [c] s1) (\<lambda>(r, s).
             if r = -1 then Inr (Done (int (target - Suc n)), s)
             else if c = 10 then Inr (Done (int (target - n)), s)
             else consoleread_loop user_dst target (dst + 1) n s))"

definition consoleread :: "bool \<Rightarrow> uint64 \<Rightarrow> int \<Rightarrow> 'a cons_scheme \<Rightarrow> ((int, nat) io \<times> 'a cons_scheme) kres" where
  "consoleread user_dst dst n s = consoleread_loop user_dst (nat n) dst (nat n) s"

text \<open>The kill-line loop erases back to the start of the line being edited.\<close>

function kill_line :: "'a cons_scheme \<Rightarrow> 'a cons_scheme" where
  "kill_line s =
     (if cons_e s \<noteq> cons_w s \<and> cons_buf s ! (unat (cons_e s - 1) mod INPUT_BUF_SIZE) \<noteq> 10
      then kill_line (consputc_backspace (s\<lparr>cons_e := cons_e s - 1\<rparr>))
      else s)"
  by pat_completeness auto
termination
proof (relation "measure (\<lambda>s. unat (cons_e s - cons_w s))", goal_cases)
  case (2 s)
  then have "unat (cons_e s - cons_w s) \<noteq> 0" by (simp add: unat_eq_0)
  then have "unat (cons_e s - cons_w s - 1) = unat (cons_e s - cons_w s) - 1"
    by (metis unat_0 unat_minus_one)
  then have "unat (cons_e s - 1 - cons_w s) = unat (cons_e s - cons_w s) - 1" by (simp add: algebra_simps)
  then show ?case using \<open>unat (cons_e s - cons_w s) \<noteq> 0\<close> by (simp add: consputc_backspace_def uartputc_sync_def)
qed simp

declare kill_line.simps [simp del]

definition consoleintr :: "uint8 \<Rightarrow> 'a cons_scheme \<Rightarrow> 'a cons_scheme kres" where
  "consoleintr c s =
     (if c = ctrl (CHR ''P'') then procdump s
      else if c = ctrl (CHR ''U'') then Inr (kill_line s)
      else if c = ctrl (CHR ''H'') \<or> c = 0x7F
      then Inr (if cons_e s \<noteq> cons_w s then consputc_backspace (s\<lparr>cons_e := cons_e s - 1\<rparr>) else s)
      else if c \<noteq> 0 \<and> cons_e s - cons_r s < of_nat INPUT_BUF_SIZE
      then let c = (if c = 13 then 10 else c);
               s = consputc c s;
               s = s\<lparr>cons_buf := (cons_buf s)[unat (cons_e s) mod INPUT_BUF_SIZE := c], cons_e := cons_e s + 1\<rparr>
        in Inr (if c = 10 \<or> c = ctrl (CHR ''D'') \<or> cons_e s - cons_r s = of_nat INPUT_BUF_SIZE
                then wakeup Chan_cons_r (s\<lparr>cons_w := cons_e s\<rparr>) else s)
      else Inr s)"

text \<open>\<^verbatim>\<open>uartintr\<close>: hand every received byte to the console, then send what is buffered.\<close>

fun uartintr_loop :: "uint8 list \<Rightarrow> 'a cons_scheme \<Rightarrow> 'a cons_scheme kres" where
  "uartintr_loop [] s = Inr s"
| "uartintr_loop (c # cs) s = kbind (consoleintr c (s\<lparr>uart_rx := cs\<rparr>)) (\<lambda>s. uartintr_loop cs s)"

definition uartintr :: "'a cons_scheme \<Rightarrow> 'a cons_scheme kres" where
  "uartintr s = kbind (uartintr_loop (uart_rx s) s) (\<lambda>s. Inr (uartstart s))"

end
