(* ===== verification/File.thy ===== *)
theory File
  imports Console
begin

text \<open>
  Open files (\<^verbatim>\<open>file.c\<close>) and pipes (\<^verbatim>\<open>pipe.c\<close>). A \<^verbatim>\<open>struct file *\<close> is an index of the file
  table. A \<^verbatim>\<open>struct pipe\<close> fills the page that \<^verbatim>\<open>kalloc\<close> gave for it; its fields are kept in
  \<open>pipes\<close>, indexed by the address of the page. Device functions are named by \<open>devfn\<close>.
\<close>

datatype fd_type = FD_NONE | FD_PIPE | FD_INODE | FD_DEVICE

datatype devfn = Console_dev

record kfile =
  f_type :: fd_type
  f_ref :: int
  f_readable :: bool
  f_writable :: bool
  f_pipe :: addr
  f_ip :: nat
  f_off :: uint
  f_major :: uint16

definition PIPESIZE :: nat where "PIPESIZE = 512"

record pipe =
  pi_data :: "uint8 list"
  pi_nread :: uint
  pi_nwrite :: uint
  pi_readopen :: bool
  pi_writeopen :: bool

record files = cons +
  ftable :: "kfile list"
  pipes :: "addr \<Rightarrow> pipe"
  devsw :: "devfn option list"

definition CONSOLE :: nat where "CONSOLE = 1"

definition the_file :: "nat \<Rightarrow> 'a files_scheme \<Rightarrow> kfile" where
  "the_file i s = ftable s ! i"

definition upd_file :: "nat \<Rightarrow> (kfile \<Rightarrow> kfile) \<Rightarrow> 'a files_scheme \<Rightarrow> 'a files_scheme" where
  "upd_file i f s = s\<lparr>ftable := (ftable s)[i := f (ftable s ! i)]\<rparr>"

definition upd_pipe :: "addr \<Rightarrow> (pipe \<Rightarrow> pipe) \<Rightarrow> 'a files_scheme \<Rightarrow> 'a files_scheme" where
  "upd_pipe a f s = s\<lparr>pipes := (pipes s)(a := f (pipes s a))\<rparr>"

text \<open>A wait inside a system call gives up the CPU.\<close>

definition blocking :: "(('r, 'k) io \<times> 's) kres \<Rightarrow> ('r \<times> 's) kres" where
  "blocking m = kbind m (\<lambda>(r, s). case r of Done v \<Rightarrow> Inr (v, s) | Wait c k \<Rightarrow> Inl (Sleep c))"

section \<open>The file table\<close>

fun filealloc_loop :: "nat list \<Rightarrow> 'a files_scheme \<Rightarrow> nat option \<times> 'a files_scheme" where
  "filealloc_loop [] s = (None, s)"
| "filealloc_loop (f # fs) s =
     (if f_ref (the_file f s) = 0 then (Some f, upd_file f (\<lambda>f. f\<lparr>f_ref := 1\<rparr>) s) else filealloc_loop fs s)"

definition filealloc :: "'a files_scheme \<Rightarrow> nat option \<times> 'a files_scheme" where
  "filealloc s = filealloc_loop [0..<NFILE] s"

definition filedup :: "nat \<Rightarrow> 'a files_scheme \<Rightarrow> (nat \<times> 'a files_scheme) kres" where
  "filedup f s =
     (if f_ref (the_file f s) < 1 then Inl (Panic ''filedup'')
      else Inr (f, upd_file f (\<lambda>f. f\<lparr>f_ref := f_ref f + 1\<rparr>) s))"

section \<open>Pipes\<close>

definition pipeclose :: "addr \<Rightarrow> bool \<Rightarrow> 'a files_scheme \<Rightarrow> 'a files_scheme kres" where
  "pipeclose pi' writable s =
     (let s = (if writable then wakeup (Chan_pipe_nread pi') (upd_pipe pi' (\<lambda>p. p\<lparr>pi_writeopen := False\<rparr>) s)
               else wakeup (Chan_pipe_nwrite pi') (upd_pipe pi' (\<lambda>p. p\<lparr>pi_readopen := False\<rparr>) s))
      in if \<not> pi_readopen (pipes s pi') \<and> \<not> pi_writeopen (pipes s pi') then kfree pi' s else Inr s)"

definition fileclose :: "nat \<Rightarrow> 'a files_scheme \<Rightarrow> 'a files_scheme kres" where
  "fileclose f s =
     (if f_ref (the_file f s) < 1 then Inl (Panic ''fileclose'')
      else let s = upd_file f (\<lambda>f. f\<lparr>f_ref := f_ref f - 1\<rparr>) s; ff = the_file f s
        in if 0 < f_ref ff then Inr s
           else let s = upd_file f (\<lambda>f. f\<lparr>f_ref := 0, f_type := FD_NONE\<rparr>) s
             in case f_type ff of
                  FD_PIPE \<Rightarrow> pipeclose (f_pipe ff) (f_writable ff) s
                | FD_NONE \<Rightarrow> Inr s
                | _ \<Rightarrow> kbind (begin_op s) (\<lambda>s. kbind (iput (f_ip ff) s) (\<lambda>s. end_op s)))"

definition pipealloc :: "'a files_scheme \<Rightarrow> ((nat \<times> nat) option \<times> 'a files_scheme) kres" where
  "pipealloc s =
     (case filealloc s of
        (None, s) \<Rightarrow> Inr (None, s)
      | (Some f0, s) \<Rightarrow>
        (case filealloc s of
           (None, s) \<Rightarrow> kbind (fileclose f0 s) (\<lambda>s. Inr (None, s))
         | (Some f1, s) \<Rightarrow>
           kbind (kalloc s) (\<lambda>(pi', s).
             if pi' = 0 then kbind (fileclose f0 s) (\<lambda>s. kbind (fileclose f1 s) (\<lambda>s. Inr (None, s)))
             else let s = upd_pipe pi' (\<lambda>p. p\<lparr>pi_readopen := True, pi_writeopen := True, pi_nwrite := 0, pi_nread := 0\<rparr>) s;
                      s = upd_file f0 (\<lambda>f. f\<lparr>f_type := FD_PIPE, f_readable := True, f_writable := False, f_pipe := pi'\<rparr>) s;
                      s = upd_file f1 (\<lambda>f. f\<lparr>f_type := FD_PIPE, f_readable := False, f_writable := True, f_pipe := pi'\<rparr>) s
               in Inr (Some (f0, f1), s))))"

definition pipe_put :: "uint8 \<Rightarrow> pipe \<Rightarrow> pipe" where
  "pipe_put ch p = p\<lparr>pi_data := (pi_data p)[unat (pi_nwrite p) mod PIPESIZE := ch], pi_nwrite := pi_nwrite p + 1\<rparr>"

definition pipe_get :: "pipe \<Rightarrow> uint8 \<times> pipe" where
  "pipe_get p = (pi_data p ! (unat (pi_nread p) mod PIPESIZE), p\<lparr>pi_nread := pi_nread p + 1\<rparr>)"

text \<open>The writer's loop: \<open>i\<close> bytes are written, \<open>k\<close> are left.\<close>

fun pipewrite_loop :: "addr \<Rightarrow> uint64 \<Rightarrow> nat \<Rightarrow> nat \<Rightarrow> 'a files_scheme \<Rightarrow> ((int, nat) io \<times> 'a files_scheme) kres" where
  "pipewrite_loop pi' ad i 0 s = Inr (Done (int i), wakeup (Chan_pipe_nread pi') s)"
| "pipewrite_loop pi' ad i (Suc k) s =
     kbind (myproc s) (\<lambda>pr.
       if \<not> pi_readopen (pipes s pi') \<or> killed pr s then Inr (Done (-1), s)
       else if pi_nwrite (pipes s pi') = pi_nread (pipes s pi') + of_nat PIPESIZE
       then Inr (Wait (Chan_pipe_nwrite pi') i, wakeup (Chan_pipe_nread pi') s)
       else kbind (copyin (p_pagetable (the_proc pr s)) (ad + of_nat i) 1 s) (\<lambda>(r, bs).
         if r = -1 then Inr (Done (int i), wakeup (Chan_pipe_nread pi') s)
         else pipewrite_loop pi' ad (Suc i) k (upd_pipe pi' (pipe_put (hd (bs @ [0]))) s)))"

definition pipewrite :: "addr \<Rightarrow> uint64 \<Rightarrow> int \<Rightarrow> 'a files_scheme \<Rightarrow> ((int, nat) io \<times> 'a files_scheme) kres" where
  "pipewrite pi' ad n s = pipewrite_loop pi' ad 0 (nat n) s"

fun piperead_loop :: "addr \<Rightarrow> uint64 \<Rightarrow> nat \<Rightarrow> nat \<Rightarrow> 'a files_scheme \<Rightarrow> (int \<times> 'a files_scheme) kres" where
  "piperead_loop pi' ad i 0 s = Inr (int i, wakeup (Chan_pipe_nwrite pi') s)"
| "piperead_loop pi' ad i (Suc k) s =
     (if pi_nread (pipes s pi') = pi_nwrite (pipes s pi') then Inr (int i, wakeup (Chan_pipe_nwrite pi') s)
      else let (ch, p) = pipe_get (pipes s pi'); s = upd_pipe pi' (\<lambda>_. p) s
        in kbind (myproc s) (\<lambda>pr.
           kbind (copyout (p_pagetable (the_proc pr s)) (ad + of_nat i) [ch] s) (\<lambda>(r, s).
             if r = -1 then Inr (int i, wakeup (Chan_pipe_nwrite pi') s)
             else piperead_loop pi' ad (Suc i) k s)))"

definition piperead :: "addr \<Rightarrow> uint64 \<Rightarrow> int \<Rightarrow> 'a files_scheme \<Rightarrow> ((int, unit) io \<times> 'a files_scheme) kres" where
  "piperead pi' ad n s =
     kbind (myproc s) (\<lambda>pr.
       if pi_nread (pipes s pi') = pi_nwrite (pipes s pi') \<and> pi_writeopen (pipes s pi')
       then (if killed pr s then Inr (Done (-1), s) else Inr (Wait (Chan_pipe_nread pi') (), s))
       else kbind (piperead_loop pi' ad 0 (nat n) s) (\<lambda>(r, s). Inr (Done r, s)))"

section \<open>Reading and writing through a descriptor\<close>

text \<open>\<^verbatim>\<open>struct stat\<close> has four bytes of padding before \<^verbatim>\<open>size\<close>, whatever the kernel stack held there.\<close>

definition stat_bytes :: "uint8 list \<Rightarrow> stat \<Rightarrow> uint8 list" where
  "stat_bytes pad st = le32 (st_dev st) @ le32 (st_ino st) @ le16 (st_type st) @ le16 (st_nlink st) @ take 4 pad
     @ map (\<lambda>k. ucast (drop_bit (8 * k) (st_size st))) [0..<8]"

definition filestat :: "nat \<Rightarrow> uint64 \<Rightarrow> uint8 list \<Rightarrow> 'a files_scheme \<Rightarrow> (int \<times> 'a files_scheme) kres" where
  "filestat f ad pad s =
     kbind (myproc s) (\<lambda>p.
       if f_type (the_file f s) = FD_INODE \<or> f_type (the_file f s) = FD_DEVICE
       then kbind (ilock (f_ip (the_file f s)) s) (\<lambda>s.
         let st = stati (f_ip (the_file f s)) s
         in kbind (iunlock (f_ip (the_file f s)) s) (\<lambda>s.
           kbind (copyout (p_pagetable (the_proc p s)) ad (stat_bytes pad st) s) (\<lambda>(r, s).
             Inr (if r < 0 then -1 else 0, s))))
       else Inr (-1, s))"

definition dev_of :: "uint16 \<Rightarrow> 'a files_scheme \<Rightarrow> devfn option" where
  "dev_of major s = (if sint major < 0 \<or> int NDEV \<le> sint major then None else devsw s ! unat major)"

definition fileread :: "nat \<Rightarrow> uint64 \<Rightarrow> int \<Rightarrow> 'a files_scheme \<Rightarrow> (int \<times> 'a files_scheme) kres" where
  "fileread f ad n s =
     (let ff = the_file f s
      in if \<not> f_readable ff then Inr (-1, s)
         else case f_type ff of
           FD_PIPE \<Rightarrow> blocking (piperead (f_pipe ff) ad n s)
         | FD_DEVICE \<Rightarrow> (case dev_of (f_major ff) s of None \<Rightarrow> Inr (-1, s)
             | Some Console_dev \<Rightarrow> blocking (consoleread True ad n s))
         | FD_INODE \<Rightarrow>
             kbind (ilock (f_ip ff) s) (\<lambda>s.
             kbind (readi (f_ip ff) True ad (f_off ff) (of_int n) s) (\<lambda>(r, _, s).
             let s = (if 0 < r then upd_file f (\<lambda>f. f\<lparr>f_off := f_off f + of_int r\<rparr>) s else s)
             in kbind (iunlock (f_ip ff) s) (\<lambda>s. Inr (r, s))))
         | FD_NONE \<Rightarrow> Inl (Panic ''fileread''))"

definition write_max :: int where
  "write_max = (int MAXOPBLOCKS - 1 - 1 - 2) div 2 * int BSIZE"

text \<open>
  The loop over transactions of \<^verbatim>\<open>filewrite\<close>: \<open>i\<close> bytes of \<open>n\<close> are written. Every round that does
  not end the loop writes at least one byte.
\<close>

function filewrite_loop :: "nat \<Rightarrow> uint64 \<Rightarrow> int \<Rightarrow> int \<Rightarrow> 'a files_scheme \<Rightarrow> (int \<times> 'a files_scheme) kres" where
  "filewrite_loop f ad n i s =
     (if \<not> i < n then Inr (if i = n then n else -1, s)
      else let n1 = (if write_max < n - i then write_max else n - i); ip = f_ip (the_file f s)
        in kbind (begin_op s) (\<lambda>s.
           kbind (ilock ip s) (\<lambda>s.
           kbind (writei ip True (ad + of_int i) [] (f_off (the_file f s)) (of_int n1) s) (\<lambda>(r, s).
           let s = (if 0 < r then upd_file f (\<lambda>f. f\<lparr>f_off := f_off f + of_int r\<rparr>) s else s)
           in kbind (iunlock ip s) (\<lambda>s.
              kbind (end_op s) (\<lambda>s.
              if r \<noteq> n1 then Inr (if i = n then n else -1, s)
              else filewrite_loop f ad n (i + r) s))))))"
  by pat_completeness auto
termination
  by (relation "measure (\<lambda>(f, ad, n, i, s). nat (n - i))")
    (auto simp: write_max_def MAXOPBLOCKS_def BSIZE_def split: if_splits)

declare filewrite_loop.simps [simp del]

definition filewrite :: "nat \<Rightarrow> uint64 \<Rightarrow> int \<Rightarrow> 'a files_scheme \<Rightarrow> (int \<times> 'a files_scheme) kres" where
  "filewrite f ad n s =
     (let ff = the_file f s
      in if \<not> f_writable ff then Inr (-1, s)
         else case f_type ff of
           FD_PIPE \<Rightarrow> blocking (pipewrite (f_pipe ff) ad n s)
         | FD_DEVICE \<Rightarrow> (case dev_of (f_major ff) s of None \<Rightarrow> Inr (-1, s)
             | Some Console_dev \<Rightarrow> blocking (consolewrite True ad n s))
         | FD_INODE \<Rightarrow> filewrite_loop f ad n 0 s
         | FD_NONE \<Rightarrow> Inl (Panic ''filewrite''))"

end
