(* ===== verification/Process.thy ===== *)
theory Process
  imports File
begin

text \<open>
  Creation, exit and reaping of processes: the part of \<^verbatim>\<open>proc.c\<close> that also touches open files and
  inodes. \<^verbatim>\<open>exit\<close> does not return; its model gives the state in which the process has become a
  zombie and enters the scheduler. One round of the loop of \<^verbatim>\<open>wait\<close> is \<open>wait\<close>, which answers
  \<open>Wait\<close> when it has to sleep before the next round.
\<close>

section \<open>Names\<close>

text \<open>\<^verbatim>\<open>safestrcpy(p->name, t, sizeof(p->name))\<close>.\<close>

definition set_name :: "nat \<Rightarrow> uint8 list \<Rightarrow> 'a procs_scheme \<Rightarrow> 'a procs_scheme" where
  "set_name p t s = upd_proc p (\<lambda>q. q\<lparr>p_name := map (safestrcpy (cbuf_of (p_name q)) (cbuf_of t) 16) [0..<16]\<rparr>) s"

section \<open>The first process\<close>

definition initcode :: "uint8 list" where
  "initcode =
    [0x17, 0x05, 0x00, 0x00, 0x13, 0x05, 0x45, 0x02,
     0x97, 0x05, 0x00, 0x00, 0x93, 0x85, 0x35, 0x02,
     0x93, 0x08, 0x70, 0x00, 0x73, 0x00, 0x00, 0x00,
     0x93, 0x08, 0x20, 0x00, 0x73, 0x00, 0x00, 0x00,
     0xef, 0xf0, 0x9f, 0xff, 0x2f, 0x69, 0x6e, 0x69,
     0x74, 0x00, 0x00, 0x24, 0x00, 0x00, 0x00, 0x00,
     0x00, 0x00, 0x00, 0x00]"

definition bytes_of_string :: "string \<Rightarrow> uint8 list" where
  "bytes_of_string cs = map (\<lambda>c. of_nat (of_char c)) cs"

definition userinit :: "uint64 \<Rightarrow> 'a files_scheme \<Rightarrow> 'a files_scheme kres" where
  "userinit forkret s =
     kbind (allocproc forkret s) (\<lambda>(np, s).
     let s = s\<lparr>initproc := np\<rparr>
     in case np of
          None \<Rightarrow> Inl (Undef ''null proc'')
        | Some p \<Rightarrow>
          kbind (uvmfirst (p_pagetable (the_proc p s)) initcode s) (\<lambda>s.
          let s = upd_proc p (\<lambda>q. q\<lparr>p_sz := PGSIZE\<rparr>) s;
              s = set_tf p tf_epc 0 s;
              s = set_tf p tf_sp PGSIZE s;
              s = set_name p (bytes_of_string ''initcode'') s
          in kbind (namei (bytes_of_string ''/'') s) (\<lambda>(ip, s).
             Inr (upd_proc p (\<lambda>q. q\<lparr>p_cwd := ip, p_state := RUNNABLE\<rparr>) s))))"

section \<open>fork\<close>

text \<open>The loop that duplicates the descriptors of \<open>p\<close> into \<open>np\<close>.\<close>

definition dup_files :: "nat \<Rightarrow> nat \<Rightarrow> 'a files_scheme \<Rightarrow> 'a files_scheme kres" where
  "dup_files p np s =
     kfold (\<lambda>i s. case p_ofile (the_proc p s) ! i of
         None \<Rightarrow> Inr s
       | Some f \<Rightarrow> kbind (filedup f s) (\<lambda>(f, s).
           Inr (upd_proc np (\<lambda>q. q\<lparr>p_ofile := (p_ofile q)[i := Some f]\<rparr>) s)))
       [0..<NOFILE] s"

definition copy_trapframe :: "nat \<Rightarrow> nat \<Rightarrow> 'a procs_scheme \<Rightarrow> 'a procs_scheme" where
  "copy_trapframe p np s = s\<lparr>mem := write_bytes (mem s) (p_trapframe (the_proc np s))
     (read_bytes (mem s) (p_trapframe (the_proc p s)) sizeof_trapframe)\<rparr>"

definition fork :: "uint64 \<Rightarrow> 'a files_scheme \<Rightarrow> (int \<times> 'a files_scheme) kres" where
  "fork forkret s =
     kbind (myproc s) (\<lambda>p.
     kbind (allocproc forkret s) (\<lambda>(child, s).
     case child of
       None \<Rightarrow> Inr (-1, s)
     | Some np \<Rightarrow>
       kbind (uvmcopy (p_pagetable (the_proc p s)) (p_pagetable (the_proc np s)) (p_sz (the_proc p s)) s) (\<lambda>(r, s).
       if r < 0 then kbind (freeproc np s) (\<lambda>s. Inr (-1, s))
       else
         let s = upd_proc np (\<lambda>q. q\<lparr>p_sz := p_sz (the_proc p s)\<rparr>) s;
             s = copy_trapframe p np s;
             s = set_tf np tf_a0 0 s
         in kbind (dup_files p np s) (\<lambda>s.
            case p_cwd (the_proc p s) of
              None \<Rightarrow> Inl (Undef ''null inode'')
            | Some ip \<Rightarrow>
              let (ip, s) = idup ip s;
                  s = upd_proc np (\<lambda>q. q\<lparr>p_cwd := Some ip\<rparr>) s;
                  s = set_name np (p_name (the_proc p s)) s;
                  pid = p_pid (the_proc np s);
                  s = upd_proc np (\<lambda>q. q\<lparr>p_parent := Some p\<rparr>) s;
                  s = upd_proc np (\<lambda>q. q\<lparr>p_state := RUNNABLE\<rparr>) s
              in Inr (sint pid, s)))))"

section \<open>exit and wait\<close>

definition close_files :: "nat \<Rightarrow> 'a files_scheme \<Rightarrow> 'a files_scheme kres" where
  "close_files p s =
     kfold (\<lambda>fd s. case p_ofile (the_proc p s) ! fd of
         None \<Rightarrow> Inr s
       | Some f \<Rightarrow> kbind (fileclose f s) (\<lambda>s.
           Inr (upd_proc p (\<lambda>q. q\<lparr>p_ofile := (p_ofile q)[fd := None]\<rparr>) s)))
       [0..<NOFILE] s"

definition proc_chan :: "nat option \<Rightarrow> chan" where
  "proc_chan p = (case p of None \<Rightarrow> Chan_null | Some i \<Rightarrow> Chan_proc i)"

definition exit :: "uint \<Rightarrow> 'a files_scheme \<Rightarrow> 'a files_scheme kres" where
  "exit status s =
     kbind (myproc s) (\<lambda>p.
     if Some p = initproc s then Inl (Panic ''init exiting'')
     else kbind (close_files p s) (\<lambda>s.
          kbind (begin_op s) (\<lambda>s.
          kbind (case p_cwd (the_proc p s) of None \<Rightarrow> Inl (Undef ''null inode'') | Some ip \<Rightarrow> iput ip s) (\<lambda>s.
          kbind (end_op s) (\<lambda>s.
          let s = upd_proc p (\<lambda>q. q\<lparr>p_cwd := None\<rparr>) s;
              s = reparent p s;
              s = wakeup (proc_chan (p_parent (the_proc p s))) s
          in Inr (upd_proc p (\<lambda>q. q\<lparr>p_xstate := status, p_state := ZOMBIE\<rparr>) s))))))"

text \<open>
  One scan of the process table by \<^verbatim>\<open>wait\<close>: the value to return, if the scan settles it, and whether
  it met a child.
\<close>

fun wait_scan :: "nat \<Rightarrow> uint64 \<Rightarrow> nat list \<Rightarrow> bool \<Rightarrow> 'a files_scheme \<Rightarrow> (int option \<times> bool \<times> 'a files_scheme) kres" where
  "wait_scan p ad [] havekids s = Inr (None, havekids, s)"
| "wait_scan p ad (pp # pps) havekids s =
     (if p_parent (the_proc pp s) = Some p
      then if p_state (the_proc pp s) = ZOMBIE
           then let pid = p_pid (the_proc pp s)
             in kbind (if ad \<noteq> 0 then copyout (p_pagetable (the_proc p s)) ad (le32 (p_xstate (the_proc pp s))) s
                       else Inr (0, s)) (\<lambda>(r, s).
                if r < 0 then Inr (Some (-1), True, s)
                else kbind (freeproc pp s) (\<lambda>s. Inr (Some (sint pid), True, s)))
           else wait_scan p ad pps True s
      else wait_scan p ad pps havekids s)"

definition wait :: "uint64 \<Rightarrow> 'a files_scheme \<Rightarrow> ((int, unit) io \<times> 'a files_scheme) kres" where
  "wait ad s =
     kbind (myproc s) (\<lambda>p.
     kbind (wait_scan p ad [0..<NPROC] False s) (\<lambda>(r, havekids, s).
       case r of
         Some v \<Rightarrow> Inr (Done v, s)
       | None \<Rightarrow> if \<not> havekids \<or> killed p s then Inr (Done (-1), s) else Inr (Wait (Chan_proc p) (), s)))"

end
