(* ===== verification/Exec.thy ===== *)
theory Exec
  imports Process
begin

text \<open>
  \<^verbatim>\<open>exec.c\<close>: replacing the image of the current process by an ELF file. The argument vector is the
  list of its strings, without the closing NULs and the null pointer. The label \<^verbatim>\<open>bad\<close> is the
  routine \<open>exec_bad\<close>.
\<close>

section \<open>ELF headers\<close>

definition get64 :: "uint8 list \<Rightarrow> nat \<Rightarrow> uint64" where
  "get64 d k = ucast (get32 d k) OR push_bit 32 (ucast (get32 d (k + 4)))"

definition ELF_MAGIC :: uint where "ELF_MAGIC = 0x464C457F"
definition ELF_PROG_LOAD :: uint where "ELF_PROG_LOAD = 1"
definition sizeof_elfhdr :: nat where "sizeof_elfhdr = 64"
definition sizeof_proghdr :: nat where "sizeof_proghdr = 56"

record elfhdr =
  e_magic :: uint
  e_entry :: uint64
  e_phoff :: uint64
  e_phnum :: uint16

definition get_elfhdr :: "uint8 list \<Rightarrow> elfhdr" where
  "get_elfhdr d = \<lparr>e_magic = get32 d 0, e_entry = get64 d 24, e_phoff = get64 d 32, e_phnum = get16 d 56\<rparr>"

record proghdr =
  ph_type :: uint
  ph_flags :: uint
  ph_off :: uint64
  ph_vaddr :: uint64
  ph_filesz :: uint64
  ph_memsz :: uint64

definition get_proghdr :: "uint8 list \<Rightarrow> proghdr" where
  "get_proghdr d = \<lparr>ph_type = get32 d 0, ph_flags = get32 d 4, ph_off = get64 d 8, ph_vaddr = get64 d 16,
     ph_filesz = get64 d 32, ph_memsz = get64 d 40\<rparr>"

definition flags2perm :: "uint \<Rightarrow> uint64" where
  "flags2perm flags =
     (let perm = (if flags AND 1 \<noteq> 0 then PTE_X else 0)
      in if flags AND 2 \<noteq> 0 then perm OR PTE_W else perm)"

section \<open>Loading\<close>

lemma loadseg_step:
  assumes "i < sz" "readi ip False 0 (offset + i) (if sz - i < 4096 then sz - i else 4096) s = Inr (r, x)"
    "r = int (unat (if sz - i < 4096 then sz - i else (4096 :: uint)))"
  shows "2 ^ 32 - unat (offset + (i + 4096)) < (2 ^ 32 :: nat) - unat (offset + i)"
proof -
  have "sz - i \<noteq> 0" using assms(1) by auto
  then have "r \<noteq> 0" using assms(3) by (simp add: uint_0_iff)
  with assms(2) have b: "unat (offset + i) < 274432"
    using readi_below_MAXFILE [of ip False 0 "offset + i" _ s r x]
    by (simp add: MAXFILE_def NDIRECT_def NINDIRECT_def BSIZE_def)
  have "unat (offset + i + 4096) = unat (offset + i) + 4096"
    using b by (simp add: unat_word_ariths(1) [of "offset + i"])
  then show ?thesis using b by (simp add: add.assoc)
qed

function loadseg :: "addr \<Rightarrow> uint64 \<Rightarrow> nat \<Rightarrow> uint \<Rightarrow> uint \<Rightarrow> uint \<Rightarrow> 'a fs_scheme \<Rightarrow> (int \<times> 'a fs_scheme) kres" where
  "loadseg pagetable va ip offset sz i s =
     (if \<not> i < sz then Inr (0, s)
      else kbind (walkaddr pagetable (va + ucast i) s) (\<lambda>pa.
        if pa = 0 then Inl (Panic ''loadseg: address should exist'')
        else kbind (readi ip False 0 (offset + i) (if sz - i < 4096 then sz - i else 4096) s) (\<lambda>(r, bs, s).
          let s = s\<lparr>mem := write_bytes (mem s) pa bs\<rparr>
          in if r \<noteq> int (unat (if sz - i < 4096 then sz - i else (4096 :: uint))) then Inr (-1, s)
             else loadseg pagetable va ip offset sz (i + 4096) s)))"
  by pat_completeness auto
termination
proof (relation "measure (\<lambda>(pt, va, ip, offset, sz, i, s). 2 ^ 32 - unat (offset + i))", goal_cases)
  case 1
  show ?case by simp
next
  case (2 pagetable va ip offset sz i s pa q r z bs s' t)
  then show ?case using loadseg_step [of i sz ip offset s r z] by simp
qed

declare loadseg.simps [simp del]

text \<open>The loop over the program headers; \<open>n\<close> headers are left, the next one at offset \<open>off\<close>.\<close>

fun exec_load :: "addr \<Rightarrow> nat \<Rightarrow> nat \<Rightarrow> uint \<Rightarrow> uint64 \<Rightarrow> 'a fs_scheme \<Rightarrow> (bool \<times> uint64 \<times> 'a fs_scheme) kres" where
  "exec_load pagetable ip 0 off sz s = Inr (True, sz, s)"
| "exec_load pagetable ip (Suc n) off sz s =
     kbind (readi ip False 0 off (of_nat sizeof_proghdr) s) (\<lambda>(r, bs, s).
     let ph = get_proghdr bs; next_off = off + of_nat sizeof_proghdr
     in if r \<noteq> int sizeof_proghdr then Inr (False, sz, s)
        else if ph_type ph \<noteq> ELF_PROG_LOAD then exec_load pagetable ip n next_off sz s
        else if ph_memsz ph < ph_filesz ph then Inr (False, sz, s)
        else if ph_vaddr ph + ph_memsz ph < ph_vaddr ph then Inr (False, sz, s)
        else if ph_vaddr ph mod PGSIZE \<noteq> 0 then Inr (False, sz, s)
        else kbind (uvmalloc pagetable sz (ph_vaddr ph + ph_memsz ph) (flags2perm (ph_flags ph)) s) (\<lambda>(sz1, s).
          if sz1 = 0 then Inr (False, sz, s)
          else kbind (loadseg pagetable (ph_vaddr ph) ip (ucast (ph_off ph)) (ucast (ph_filesz ph)) 0 s) (\<lambda>(r, s).
            if r < 0 then Inr (False, sz1, s)
            else exec_load pagetable ip n next_off sz1 s)))"

section \<open>The argument vector\<close>

text \<open>
  Pushing the argument strings: the stack pointer and the addresses of the strings pushed so
  far, in order. The result tells whether every string fitted.
\<close>

fun push_args :: "addr \<Rightarrow> uint64 \<Rightarrow> uint8 list list \<Rightarrow> uint64 \<Rightarrow> uint64 list \<Rightarrow> 'a kmem_scheme \<Rightarrow> (bool \<times> uint64 \<times> uint64 list \<times> 'a kmem_scheme) kres" where
  "push_args pagetable stackbase [] sp ustack s = Inr (True, sp, ustack, s)"
| "push_args pagetable stackbase (a # argv) sp ustack s =
     (if MAXARG \<le> length ustack then Inr (False, sp, ustack, s)
      else let sp = sp - (of_nat (length a) + 1); sp = sp - sp mod 16
        in if sp < stackbase then Inr (False, sp, ustack, s)
           else kbind (copyout pagetable sp (a @ [0]) s) (\<lambda>(r, s).
             if r < 0 then Inr (False, sp, ustack, s)
             else push_args pagetable stackbase argv sp (ustack @ [sp]) s))"

definition le64 :: "uint64 \<Rightarrow> uint8 list" where
  "le64 v = map (\<lambda>k. ucast (drop_bit (8 * k) v)) [0..<8]"

section \<open>exec\<close>

definition exec_bad :: "addr \<Rightarrow> uint64 \<Rightarrow> nat option \<Rightarrow> 'a files_scheme \<Rightarrow> (int \<times> 'a files_scheme) kres" where
  "exec_bad pagetable sz ip s =
     kbind (if pagetable \<noteq> 0 then proc_freepagetable pagetable sz s else Inr s) (\<lambda>s.
     kbind (case ip of None \<Rightarrow> Inr s | Some i \<Rightarrow> kbind (iunlockput i s) (\<lambda>s. end_op s)) (\<lambda>s.
     Inr (-1, s)))"

definition last_component :: "uint8 list \<Rightarrow> uint8 list" where
  "last_component path = rev (takeWhile (\<lambda>c. c \<noteq> slash) (rev path))"

text \<open>From the stack allocation to the commit.\<close>

definition exec_commit :: "uint8 list \<Rightarrow> uint8 list list \<Rightarrow> nat \<Rightarrow> addr \<Rightarrow> uint64 \<Rightarrow> uint64 \<Rightarrow> 'a files_scheme \<Rightarrow> (int \<times> 'a files_scheme) kres" where
  "exec_commit path argv p pagetable entry sz s =
     (let oldsz = p_sz (the_proc p s); sz = PGROUNDUP sz
      in kbind (uvmalloc pagetable sz (sz + 2 * PGSIZE) PTE_W s) (\<lambda>(sz1, s).
         if sz1 = 0 then exec_bad pagetable sz None s
         else kbind (uvmclear pagetable (sz1 - 2 * PGSIZE) s) (\<lambda>s.
              let stackbase = sz1 - PGSIZE
              in kbind (push_args pagetable stackbase argv sz1 [] s) (\<lambda>(ok, sp, ustack, s).
                 if \<not> ok then exec_bad pagetable sz1 None s
                 else if MAXARG \<le> length ustack then Inl (Undef ''ustack'')
                 else let sp = sp - of_nat ((length ustack + 1) * 8); sp = sp - sp mod 16
                   in if sp < stackbase then exec_bad pagetable sz1 None s
                      else kbind (copyout pagetable sp (concat (map le64 (ustack @ [0]))) s) (\<lambda>(r, s).
                        if r < 0 then exec_bad pagetable sz1 None s
                        else
                          let s = set_tf p tf_a1 sp s;
                              s = set_name p (last_component path) s;
                              oldpagetable = p_pagetable (the_proc p s);
                              s = upd_proc p (\<lambda>q. q\<lparr>p_pagetable := pagetable, p_sz := sz1\<rparr>) s;
                              s = set_tf p tf_epc entry s;
                              s = set_tf p tf_sp sp s
                          in kbind (proc_freepagetable oldpagetable oldsz s) (\<lambda>s.
                             Inr (int (length ustack), s)))))))"

definition exec :: "uint8 list \<Rightarrow> uint8 list list \<Rightarrow> 'a files_scheme \<Rightarrow> (int \<times> 'a files_scheme) kres" where
  "exec path argv s =
     kbind (myproc s) (\<lambda>p.
     kbind (begin_op s) (\<lambda>s.
     kbind (namei path s) (\<lambda>(found, s).
     case found of
       None \<Rightarrow> kbind (end_op s) (\<lambda>s. Inr (-1, s))
     | Some ip \<Rightarrow>
       kbind (ilock ip s) (\<lambda>s.
       kbind (readi ip False 0 0 (of_nat sizeof_elfhdr) s) (\<lambda>(r, bs, s).
       let elf = get_elfhdr bs
       in if r \<noteq> int sizeof_elfhdr then exec_bad 0 0 (Some ip) s
          else if e_magic elf \<noteq> ELF_MAGIC then exec_bad 0 0 (Some ip) s
          else kbind (proc_pagetable p s) (\<lambda>(pagetable, s).
            if pagetable = 0 then exec_bad 0 0 (Some ip) s
            else kbind (exec_load pagetable ip (unat (e_phnum elf)) (ucast (e_phoff elf)) 0 s) (\<lambda>(ok, sz, s).
              if \<not> ok then exec_bad pagetable sz (Some ip) s
              else kbind (iunlockput ip s) (\<lambda>s.
                   kbind (end_op s) (\<lambda>s.
                   exec_commit path argv p pagetable (e_entry elf) sz s)))))))))"

end
