(* ===== verification/Sysarg.thy ===== *)
theory Sysarg
  imports Exec
begin

text \<open>
  Fetching system call arguments (\<^verbatim>\<open>syscall.c\<close>): registers from the trapframe, words and strings
  from user memory. A fetched string is the list of bytes stored in the kernel buffer, up to and
  including the NUL; \<open>cstring\<close> is the C string it holds.
\<close>

definition cstring :: "uint8 list \<Rightarrow> uint8 list" where
  "cstring bs = takeWhile (\<lambda>b. b \<noteq> 0) bs"

definition fetchaddr :: "uint64 \<Rightarrow> 'a procs_scheme \<Rightarrow> (int \<times> uint64) kres" where
  "fetchaddr ad s =
     kbind (myproc s) (\<lambda>p.
     if p_sz (the_proc p s) \<le> ad \<or> p_sz (the_proc p s) < ad + 8 then Inr (-1, 0)
     else kbind (copyin (p_pagetable (the_proc p s)) ad 8 s) (\<lambda>(r, bs).
       if r \<noteq> 0 then Inr (-1, 0) else Inr (0, get64 bs 0)))"

definition fetchstr :: "uint64 \<Rightarrow> nat \<Rightarrow> 'a procs_scheme \<Rightarrow> (int \<times> uint8 list) kres" where
  "fetchstr ad mx s =
     kbind (myproc s) (\<lambda>p.
     kbind (copyinstr (p_pagetable (the_proc p s)) ad mx s) (\<lambda>(r, bs).
       if r < 0 then Inr (-1, bs) else Inr (int (length (cstring bs)), bs)))"

definition argraw :: "nat \<Rightarrow> 'a procs_scheme \<Rightarrow> uint64 kres" where
  "argraw n s =
     kbind (myproc s) (\<lambda>p.
     if n \<le> 5 then Inr (get_tf p (tf_a0 + 8 * of_nat n) s) else Inl (Panic ''argraw''))"

definition argint :: "nat \<Rightarrow> 'a procs_scheme \<Rightarrow> uint kres" where
  "argint n s = kbind (argraw n s) (\<lambda>v. Inr (ucast v))"

definition argaddr :: "nat \<Rightarrow> 'a procs_scheme \<Rightarrow> uint64 kres" where
  "argaddr n s = argraw n s"

definition argstr :: "nat \<Rightarrow> nat \<Rightarrow> 'a procs_scheme \<Rightarrow> (int \<times> uint8 list) kres" where
  "argstr n mx s = kbind (argaddr n s) (\<lambda>ad. fetchstr ad mx s)"

end
