(* ===== verification/Sysfile.thy ===== *)
theory Sysfile
  imports Sysarg
begin

text \<open>
  The file system calls of \<^verbatim>\<open>sysfile.c\<close>. Every handler returns the C value as an integer; the
  dispatcher of theory Syscall converts it to the 64-bit register. A descriptor is an index of
  the process's \<^verbatim>\<open>ofile\<close> array.
\<close>

section \<open>Descriptors\<close>

definition argfd :: "nat \<Rightarrow> 'a procs_scheme \<Rightarrow> (nat \<times> nat) option kres" where
  "argfd n s =
     kbind (argint n s) (\<lambda>fd.
     kbind (myproc s) (\<lambda>p.
     if sint fd < 0 \<or> int NOFILE \<le> sint fd then Inr None
     else case p_ofile (the_proc p s) ! nat (sint fd) of
            None \<Rightarrow> Inr None
          | Some f \<Rightarrow> Inr (Some (nat (sint fd), f))))"

fun fdalloc_loop :: "nat \<Rightarrow> nat list \<Rightarrow> nat \<Rightarrow> 'a procs_scheme \<Rightarrow> int \<times> 'a procs_scheme" where
  "fdalloc_loop p [] f s = (-1, s)"
| "fdalloc_loop p (fd # fds) f s =
     (if p_ofile (the_proc p s) ! fd = None
      then (int fd, upd_proc p (\<lambda>q. q\<lparr>p_ofile := (p_ofile q)[fd := Some f]\<rparr>) s)
      else fdalloc_loop p fds f s)"

definition fdalloc :: "nat \<Rightarrow> 'a procs_scheme \<Rightarrow> (int \<times> 'a procs_scheme) kres" where
  "fdalloc f s = kbind (myproc s) (\<lambda>p. Inr (fdalloc_loop p [0..<NOFILE] f s))"

definition clear_fd :: "nat \<Rightarrow> nat \<Rightarrow> 'a procs_scheme \<Rightarrow> 'a procs_scheme" where
  "clear_fd p fd s = upd_proc p (\<lambda>q. q\<lparr>p_ofile := (p_ofile q)[fd := None]\<rparr>) s"

definition sys_dup :: "'a files_scheme \<Rightarrow> (int \<times> 'a files_scheme) kres" where
  "sys_dup s =
     kbind (argfd 0 s) (\<lambda>a. case a of
       None \<Rightarrow> Inr (-1, s)
     | Some (_, f) \<Rightarrow>
       kbind (fdalloc f s) (\<lambda>(fd, s).
       if fd < 0 then Inr (-1, s)
       else kbind (filedup f s) (\<lambda>(_, s). Inr (fd, s))))"

definition sys_read :: "'a files_scheme \<Rightarrow> (int \<times> 'a files_scheme) kres" where
  "sys_read s =
     kbind (argaddr 1 s) (\<lambda>p. kbind (argint 2 s) (\<lambda>n. kbind (argfd 0 s) (\<lambda>a. case a of
       None \<Rightarrow> Inr (-1, s)
     | Some (_, f) \<Rightarrow> fileread f p (sint n) s)))"

definition sys_write :: "'a files_scheme \<Rightarrow> (int \<times> 'a files_scheme) kres" where
  "sys_write s =
     kbind (argaddr 1 s) (\<lambda>p. kbind (argint 2 s) (\<lambda>n. kbind (argfd 0 s) (\<lambda>a. case a of
       None \<Rightarrow> Inr (-1, s)
     | Some (_, f) \<Rightarrow> filewrite f p (sint n) s)))"

definition sys_close :: "'a files_scheme \<Rightarrow> (int \<times> 'a files_scheme) kres" where
  "sys_close s =
     kbind (argfd 0 s) (\<lambda>a. case a of
       None \<Rightarrow> Inr (-1, s)
     | Some (fd, f) \<Rightarrow>
       kbind (myproc s) (\<lambda>p.
       kbind (fileclose f (clear_fd p fd s)) (\<lambda>s. Inr (0, s))))"

text \<open>\<open>pad\<close> stands for the padding bytes of the uninitialised \<^verbatim>\<open>struct stat\<close> on the kernel stack.\<close>

definition sys_fstat :: "uint8 list \<Rightarrow> 'a files_scheme \<Rightarrow> (int \<times> 'a files_scheme) kres" where
  "sys_fstat pad s =
     kbind (argaddr 1 s) (\<lambda>st. kbind (argfd 0 s) (\<lambda>a. case a of
       None \<Rightarrow> Inr (-1, s)
     | Some (_, f) \<Rightarrow> filestat f st pad s))"

section \<open>Links\<close>

definition end_op_ret :: "int \<Rightarrow> 'a files_scheme \<Rightarrow> (int \<times> 'a files_scheme) kres" where
  "end_op_ret v s = kbind (end_op s) (\<lambda>s. Inr (v, s))"

text \<open>\<^verbatim>\<open>ip->nlink\<close> plus a delta, written back.\<close>

definition add_nlink :: "nat \<Rightarrow> uint16 \<Rightarrow> 'a fs_scheme \<Rightarrow> 'a fs_scheme kres" where
  "add_nlink ip d s = iupdate ip (upd_inode ip (\<lambda>i. i\<lparr>i_nlink := i_nlink i + d\<rparr>) s)"

definition link_bad :: "nat \<Rightarrow> 'a files_scheme \<Rightarrow> (int \<times> 'a files_scheme) kres" where
  "link_bad ip s =
     kbind (ilock ip s) (\<lambda>s. kbind (add_nlink ip (-1) s) (\<lambda>s. kbind (iunlockput ip s) (\<lambda>s. end_op_ret (-1) s)))"

definition sys_link :: "'a files_scheme \<Rightarrow> (int \<times> 'a files_scheme) kres" where
  "sys_link s =
     kbind (argstr 0 MAXPATH s) (\<lambda>(n, old). if n < 0 then Inr (-1, s) else
     kbind (argstr 1 MAXPATH s) (\<lambda>(n, new). if n < 0 then Inr (-1, s) else
     kbind (begin_op s) (\<lambda>s.
     kbind (namei (cstring old) s) (\<lambda>(found, s).
     case found of
       None \<Rightarrow> end_op_ret (-1) s
     | Some ip \<Rightarrow>
       kbind (ilock ip s) (\<lambda>s.
       if i_type (the_inode ip s) = T_DIR then kbind (iunlockput ip s) (\<lambda>s. end_op_ret (-1) s)
       else
         kbind (add_nlink ip 1 s) (\<lambda>s.
         kbind (iunlock ip s) (\<lambda>s.
         kbind (nameiparent (cstring new) s) (\<lambda>(par, s).
         case par of
           None \<Rightarrow> link_bad ip s
         | Some (dp, name) \<Rightarrow>
           kbind (ilock dp s) (\<lambda>s.
           kbind (if i_dev (the_inode dp s) \<noteq> i_dev (the_inode ip s) then Inr (-1, s)
                  else dirlink dp name (i_inum (the_inode ip s)) s) (\<lambda>(r, s).
           if r < 0 then kbind (iunlockput dp s) (\<lambda>s. link_bad ip s)
           else kbind (iunlockput dp s) (\<lambda>s. kbind (iput ip s) (\<lambda>s. end_op_ret 0 s))))))))))))"

function isdirempty_loop :: "nat \<Rightarrow> uint \<Rightarrow> 'a fs_scheme \<Rightarrow> (bool \<times> 'a fs_scheme) kres" where
  "isdirempty_loop dp off s =
     (if \<not> off < i_size (the_inode dp s) then Inr (True, s)
      else kbind (readi dp False 0 off (of_nat sizeof_dirent) s) (\<lambda>(r, de, s).
        if r \<noteq> int sizeof_dirent then Inl (Panic ''isdirempty: readi'')
        else if de_inum de \<noteq> 0 then Inr (False, s)
        else isdirempty_loop dp (off + of_nat sizeof_dirent) s))"
  by pat_completeness auto
termination
proof (relation "measure (\<lambda>(dp, off, s). 2 ^ 32 - unat off)", goal_cases)
  case (2 dp off s x r y de s')
  then have "\<not> off + of_nat sizeof_dirent < off"
    by (intro readi_no_wrap [of dp False 0 off "of_nat sizeof_dirent" s r]) (auto simp: sizeof_dirent_def)
  then have "unat (off + of_nat sizeof_dirent) = unat off + 16"
    by (simp add: no_wrap_unat sizeof_dirent_def)
  moreover have "unat off < 2 ^ 32" using unat_uint_less [of off] by simp
  ultimately show ?case unfolding in_measure split_conv by linarith
qed simp

declare isdirempty_loop.simps [simp del]

definition isdirempty :: "nat \<Rightarrow> 'a fs_scheme \<Rightarrow> (bool \<times> 'a fs_scheme) kres" where
  "isdirempty dp s = isdirempty_loop dp (2 * of_nat sizeof_dirent) s"

definition dot :: "uint8 list" where "dot = [0x2E]"
definition dotdot :: "uint8 list" where "dotdot = [0x2E, 0x2E]"

definition unlink_bad :: "nat \<Rightarrow> 'a files_scheme \<Rightarrow> (int \<times> 'a files_scheme) kres" where
  "unlink_bad dp s = kbind (iunlockput dp s) (\<lambda>s. end_op_ret (-1) s)"

definition sys_unlink :: "'a files_scheme \<Rightarrow> (int \<times> 'a files_scheme) kres" where
  "sys_unlink s =
     kbind (argstr 0 MAXPATH s) (\<lambda>(n, path). if n < 0 then Inr (-1, s) else
     kbind (begin_op s) (\<lambda>s.
     kbind (nameiparent (cstring path) s) (\<lambda>(par, s).
     case par of
       None \<Rightarrow> end_op_ret (-1) s
     | Some (dp, name) \<Rightarrow>
       kbind (ilock dp s) (\<lambda>s.
       if namecmp name dot = 0 \<or> namecmp name dotdot = 0 then unlink_bad dp s
       else kbind (dirlookup dp name s) (\<lambda>(found, s).
         case found of
           None \<Rightarrow> unlink_bad dp s
         | Some (ip, off) \<Rightarrow>
           kbind (ilock ip s) (\<lambda>s.
           if sint (i_nlink (the_inode ip s)) < 1 then Inl (Panic ''unlink: nlink < 1'')
           else kbind (if i_type (the_inode ip s) = T_DIR then isdirempty ip s else Inr (True, s)) (\<lambda>(e, s).
             if \<not> e then kbind (iunlockput ip s) (\<lambda>s. unlink_bad dp s)
             else kbind (writei dp False 0 (replicate sizeof_dirent 0) off (of_nat sizeof_dirent) s) (\<lambda>(r, s).
               if r \<noteq> int sizeof_dirent then Inl (Panic ''unlink: writei'')
               else kbind (if i_type (the_inode ip s) = T_DIR then add_nlink dp (-1) s else Inr s) (\<lambda>s.
                 kbind (iunlockput dp s) (\<lambda>s.
                 kbind (add_nlink ip (-1) s) (\<lambda>s.
                 kbind (iunlockput ip s) (\<lambda>s.
                 end_op_ret 0 s))))))))))))"

section \<open>Creating and opening\<close>

definition create_fail :: "nat \<Rightarrow> nat \<Rightarrow> 'a files_scheme \<Rightarrow> (nat option \<times> 'a files_scheme) kres" where
  "create_fail ip dp s =
     kbind (iupdate ip (upd_inode ip (\<lambda>i. i\<lparr>i_nlink := 0\<rparr>) s)) (\<lambda>s.
     kbind (iunlockput ip s) (\<lambda>s. kbind (iunlockput dp s) (\<lambda>s. Inr (None, s))))"

definition create :: "uint8 list \<Rightarrow> uint16 \<Rightarrow> uint16 \<Rightarrow> uint16 \<Rightarrow> 'a files_scheme \<Rightarrow> (nat option \<times> 'a files_scheme) kres" where
  "create path type major minor s =
     kbind (nameiparent path s) (\<lambda>(par, s).
     case par of
       None \<Rightarrow> Inr (None, s)
     | Some (dp, name) \<Rightarrow>
       kbind (ilock dp s) (\<lambda>s.
       kbind (dirlookup dp name s) (\<lambda>(found, s).
       case found of
         Some (ip, _) \<Rightarrow>
           kbind (iunlockput dp s) (\<lambda>s.
           kbind (ilock ip s) (\<lambda>s.
           if type = T_FILE \<and> (i_type (the_inode ip s) = T_FILE \<or> i_type (the_inode ip s) = T_DEVICE)
           then Inr (Some ip, s)
           else kbind (iunlockput ip s) (\<lambda>s. Inr (None, s))))
       | None \<Rightarrow>
           kbind (ialloc (i_dev (the_inode dp s)) type s) (\<lambda>(new, s).
           case new of
             None \<Rightarrow> kbind (iunlockput dp s) (\<lambda>s. Inr (None, s))
           | Some ip \<Rightarrow>
             kbind (ilock ip s) (\<lambda>s.
             kbind (iupdate ip (upd_inode ip (\<lambda>i. i\<lparr>i_major := major, i_minor := minor, i_nlink := 1\<rparr>) s)) (\<lambda>s.
             kbind (if type = T_DIR
                    then kbind (dirlink ip dot (i_inum (the_inode ip s)) s) (\<lambda>(r, s).
                      if r < 0 then Inr (-1, s) else dirlink ip dotdot (i_inum (the_inode dp s)) s)
                    else Inr (0, s)) (\<lambda>(r, s).
             if r < 0 then create_fail ip dp s
             else kbind (dirlink dp name (i_inum (the_inode ip s)) s) (\<lambda>(r, s).
               if r < 0 then create_fail ip dp s
               else kbind (if type = T_DIR then add_nlink dp 1 s else Inr s) (\<lambda>s.
                 kbind (iunlockput dp s) (\<lambda>s. Inr (Some ip, s)))))))))))"

definition O_RDONLY :: uint where "O_RDONLY = 0x000"
definition O_WRONLY :: uint where "O_WRONLY = 0x001"
definition O_RDWR :: uint where "O_RDWR = 0x002"
definition O_CREATE :: uint where "O_CREATE = 0x200"
definition O_TRUNC :: uint where "O_TRUNC = 0x400"

text \<open>The failure exit of \<^verbatim>\<open>sys_open\<close> with the inode locked.\<close>

definition open_fail :: "nat \<Rightarrow> 'a files_scheme \<Rightarrow> (int \<times> 'a files_scheme) kres" where
  "open_fail ip s = kbind (iunlockput ip s) (\<lambda>s. end_op_ret (-1) s)"

text \<open>Filling in the new file structure.\<close>

definition open_file :: "nat \<Rightarrow> nat \<Rightarrow> uint \<Rightarrow> 'a files_scheme \<Rightarrow> 'a files_scheme" where
  "open_file f ip omode s =
     (let i = the_inode ip s;
          s = (if i_type i = T_DEVICE then upd_file f (\<lambda>f. f\<lparr>f_type := FD_DEVICE, f_major := i_major i\<rparr>) s
               else upd_file f (\<lambda>f. f\<lparr>f_type := FD_INODE, f_off := 0\<rparr>) s)
      in upd_file f (\<lambda>f. f\<lparr>f_ip := ip, f_readable := (omode AND O_WRONLY = 0),
           f_writable := (omode AND O_WRONLY \<noteq> 0 \<or> omode AND O_RDWR \<noteq> 0)\<rparr>) s)"

definition sys_open :: "'a files_scheme \<Rightarrow> (int \<times> 'a files_scheme) kres" where
  "sys_open s =
     kbind (argint 1 s) (\<lambda>omode.
     kbind (argstr 0 MAXPATH s) (\<lambda>(n, path). if n < 0 then Inr (-1, s) else
     kbind (begin_op s) (\<lambda>s.
     kbind (if omode AND O_CREATE \<noteq> 0 then create (cstring path) T_FILE 0 0 s
            else kbind (namei (cstring path) s) (\<lambda>(found, s).
              case found of
                None \<Rightarrow> Inr (None, s)
              | Some ip \<Rightarrow> kbind (ilock ip s) (\<lambda>s.
                  if i_type (the_inode ip s) = T_DIR \<and> omode \<noteq> O_RDONLY
                  then kbind (iunlockput ip s) (\<lambda>s. Inr (None, s))
                  else Inr (Some ip, s)))) (\<lambda>(found, s).
     case found of
       None \<Rightarrow> end_op_ret (-1) s
     | Some ip \<Rightarrow>
       if i_type (the_inode ip s) = T_DEVICE \<and> (sint (i_major (the_inode ip s)) < 0 \<or> int NDEV \<le> sint (i_major (the_inode ip s)))
       then open_fail ip s
       else (case filealloc s of
               (None, s) \<Rightarrow> open_fail ip s
             | (Some f, s) \<Rightarrow>
               kbind (fdalloc f s) (\<lambda>(fd, s).
               if fd < 0 then kbind (fileclose f s) (\<lambda>s. open_fail ip s)
               else
                 let s = open_file f ip omode s
                 in kbind (if omode AND O_TRUNC \<noteq> 0 \<and> i_type (the_inode ip s) = T_FILE then itrunc ip s else Inr s) (\<lambda>s.
                    kbind (iunlock ip s) (\<lambda>s. end_op_ret fd s))))))))"

definition sys_mkdir :: "'a files_scheme \<Rightarrow> (int \<times> 'a files_scheme) kres" where
  "sys_mkdir s =
     kbind (begin_op s) (\<lambda>s.
     kbind (argstr 0 MAXPATH s) (\<lambda>(n, path).
     if n < 0 then end_op_ret (-1) s
     else kbind (create (cstring path) T_DIR 0 0 s) (\<lambda>(new, s).
       case new of
         None \<Rightarrow> end_op_ret (-1) s
       | Some ip \<Rightarrow> kbind (iunlockput ip s) (\<lambda>s. end_op_ret 0 s))))"

definition sys_mknod :: "'a files_scheme \<Rightarrow> (int \<times> 'a files_scheme) kres" where
  "sys_mknod s =
     kbind (begin_op s) (\<lambda>s.
     kbind (argint 1 s) (\<lambda>major.
     kbind (argint 2 s) (\<lambda>minor.
     kbind (argstr 0 MAXPATH s) (\<lambda>(n, path).
     if n < 0 then end_op_ret (-1) s
     else kbind (create (cstring path) T_DEVICE (ucast major) (ucast minor) s) (\<lambda>(new, s).
       case new of
         None \<Rightarrow> end_op_ret (-1) s
       | Some ip \<Rightarrow> kbind (iunlockput ip s) (\<lambda>s. end_op_ret 0 s))))))"

definition sys_chdir :: "'a files_scheme \<Rightarrow> (int \<times> 'a files_scheme) kres" where
  "sys_chdir s =
     kbind (myproc s) (\<lambda>p.
     kbind (begin_op s) (\<lambda>s.
     kbind (argstr 0 MAXPATH s) (\<lambda>(n, path).
     if n < 0 then end_op_ret (-1) s
     else kbind (namei (cstring path) s) (\<lambda>(found, s).
       case found of
         None \<Rightarrow> end_op_ret (-1) s
       | Some ip \<Rightarrow>
         kbind (ilock ip s) (\<lambda>s.
         if i_type (the_inode ip s) \<noteq> T_DIR then kbind (iunlockput ip s) (\<lambda>s. end_op_ret (-1) s)
         else kbind (iunlock ip s) (\<lambda>s.
              kbind (case p_cwd (the_proc p s) of None \<Rightarrow> Inl (Undef ''null inode'') | Some cwd \<Rightarrow> iput cwd s) (\<lambda>s.
              kbind (end_op s) (\<lambda>s.
              Inr (0, upd_proc p (\<lambda>q. q\<lparr>p_cwd := Some ip\<rparr>) s)))))))))"

section \<open>exec and pipe\<close>

text \<open>
  The loop of \<^verbatim>\<open>sys_exec\<close> over the user's argument vector, with \<open>k\<close> slots of \<^verbatim>\<open>argv\<close> left: the
  page allocated for each argument and the string copied into it.
\<close>

fun fetch_args :: "uint64 \<Rightarrow> nat \<Rightarrow> (addr \<times> uint8 list) list \<Rightarrow> 'a procs_scheme \<Rightarrow> (bool \<times> (addr \<times> uint8 list) list \<times> 'a procs_scheme) kres" where
  "fetch_args uargv 0 argv s = Inr (False, argv, s)"
| "fetch_args uargv (Suc k) argv s =
     kbind (fetchaddr (uargv + 8 * of_nat (length argv)) s) (\<lambda>(r, uarg).
     if r < 0 then Inr (False, argv, s)
     else if uarg = 0 then Inr (True, argv, s)
     else kbind (kalloc s) (\<lambda>(page, s).
       if page = 0 then Inr (False, argv, s)
       else kbind (fetchstr uarg 4096 s) (\<lambda>(n, bs).
         let s = s\<lparr>mem := write_bytes (mem s) page bs\<rparr>
         in if n < 0 then Inr (False, argv @ [(page, cstring bs)], s)
            else fetch_args uargv k (argv @ [(page, cstring bs)]) s)))"

definition free_args :: "(addr \<times> uint8 list) list \<Rightarrow> 'a kmem_scheme \<Rightarrow> 'a kmem_scheme kres" where
  "free_args argv s = kfold (\<lambda>(page, _) s. kfree page s) argv s"

definition sys_exec :: "'a files_scheme \<Rightarrow> (int \<times> 'a files_scheme) kres" where
  "sys_exec s =
     kbind (argaddr 1 s) (\<lambda>uargv.
     kbind (argstr 0 MAXPATH s) (\<lambda>(n, path).
     if n < 0 then Inr (-1, s)
     else kbind (fetch_args uargv MAXARG [] s) (\<lambda>(ok, argv, s).
       if ok then kbind (exec (cstring path) (map snd argv) s) (\<lambda>(ret, s). kbind (free_args argv s) (\<lambda>s. Inr (ret, s)))
       else kbind (free_args argv s) (\<lambda>s. Inr (-1, s)))))"

definition sys_pipe :: "'a files_scheme \<Rightarrow> (int \<times> 'a files_scheme) kres" where
  "sys_pipe s =
     kbind (myproc s) (\<lambda>p.
     kbind (argaddr 0 s) (\<lambda>fdarray.
     kbind (pipealloc s) (\<lambda>(ends, s).
     case ends of
       None \<Rightarrow> Inr (-1, s)
     | Some (rfile, wfile) \<Rightarrow>
       kbind (fdalloc rfile s) (\<lambda>(fd0, s).
       kbind (if fd0 < 0 then Inr (-1, s) else fdalloc wfile s) (\<lambda>(fd1, s).
       if fd0 < 0 \<or> fd1 < 0
       then let s = (if 0 \<le> fd0 then clear_fd p (nat fd0) s else s)
         in kbind (fileclose rfile s) (\<lambda>s. kbind (fileclose wfile s) (\<lambda>s. Inr (-1, s)))
       else
         kbind (copyout (p_pagetable (the_proc p s)) fdarray (le32 (of_int fd0)) s) (\<lambda>(r, s).
         kbind (if r < 0 then Inr (-1, s)
                else copyout (p_pagetable (the_proc p s)) (fdarray + 4) (le32 (of_int fd1)) s) (\<lambda>(r, s).
         if r < 0
         then let s = clear_fd p (nat fd1) (clear_fd p (nat fd0) s)
           in kbind (fileclose rfile s) (\<lambda>s. kbind (fileclose wfile s) (\<lambda>s. Inr (-1, s)))
         else Inr (0, s))))))))"

end
