(* ===== verification/Syscall.thy ===== *)
theory Syscall
  imports Sysfile
begin

text \<open>
  The process system calls of \<^verbatim>\<open>sysproc.c\<close> and the dispatcher of \<^verbatim>\<open>syscall.c\<close>. \<open>forkret\<close> is the
  address of the routine a forked child starts in, and \<open>junk\<close> stands for the bytes that
  uninitialised kernel stack memory holds. The result of a system call is the value for
  register a0, or \<open>None\<close> when the process has exited.
\<close>

section \<open>Process system calls\<close>

definition sys_exit :: "'a files_scheme \<Rightarrow> 'a files_scheme kres" where
  "sys_exit s = kbind (argint 0 s) (\<lambda>n. exit n s)"

definition sys_getpid :: "'a files_scheme \<Rightarrow> (int \<times> 'a files_scheme) kres" where
  "sys_getpid s = kbind (myproc s) (\<lambda>p. Inr (sint (p_pid (the_proc p s)), s))"

definition sys_fork :: "uint64 \<Rightarrow> 'a files_scheme \<Rightarrow> (int \<times> 'a files_scheme) kres" where
  "sys_fork forkret s = fork forkret s"

definition sys_wait :: "'a files_scheme \<Rightarrow> (int \<times> 'a files_scheme) kres" where
  "sys_wait s = kbind (argaddr 0 s) (\<lambda>p. blocking (wait p s))"

definition sys_sbrk :: "'a files_scheme \<Rightarrow> (int \<times> 'a files_scheme) kres" where
  "sys_sbrk s =
     kbind (argint 0 s) (\<lambda>n.
     kbind (myproc s) (\<lambda>p.
     let ad = p_sz (the_proc p s)
     in kbind (growproc (sint n) s) (\<lambda>(r, s). Inr (if r < 0 then -1 else uint ad, s))))"

text \<open>
  One round of the loop of \<^verbatim>\<open>sys_sleep\<close> with the tick count read at the start. The comparison of
  \<^verbatim>\<open>ticks - ticks0\<close> with \<^verbatim>\<open>n\<close> is unsigned.
\<close>

definition sleep_round :: "uint \<Rightarrow> uint \<Rightarrow> 'a files_scheme \<Rightarrow> ((int, uint) io \<times> 'a files_scheme) kres" where
  "sleep_round ticks0 n s =
     (if ticks s - ticks0 < n
      then kbind (myproc s) (\<lambda>p. if killed p s then Inr (Done (-1), s) else Inr (Wait Chan_ticks ticks0, s))
      else Inr (Done 0, s))"

definition sys_sleep :: "'a files_scheme \<Rightarrow> (int \<times> 'a files_scheme) kres" where
  "sys_sleep s = kbind (argint 0 s) (\<lambda>n. blocking (sleep_round (ticks s) n s))"

definition sys_kill :: "'a files_scheme \<Rightarrow> (int \<times> 'a files_scheme) kres" where
  "sys_kill s = kbind (argint 0 s) (\<lambda>pid. Inr (kill pid s))"

definition sys_uptime :: "'a files_scheme \<Rightarrow> (int \<times> 'a files_scheme) kres" where
  "sys_uptime s = Inr (uint (ticks s), s)"

definition sys_ps :: "uint8 list \<Rightarrow> 'a files_scheme \<Rightarrow> (int \<times> 'a files_scheme) kres" where
  "sys_ps junk s =
     kbind (argint 0 s) (\<lambda>start. kbind (argint 1 s) (\<lambda>count.
     kbind (ps (ucast start) (ucast count) junk s) (\<lambda>(r, s). Inr (uint r, s))))"

definition sys_schedls :: "'a files_scheme \<Rightarrow> (int \<times> 'a files_scheme) kres" where
  "sys_schedls s = kbind (schedls s) (\<lambda>s. Inr (0, s))"

definition sys_schedset :: "'a files_scheme \<Rightarrow> (int \<times> 'a files_scheme) kres" where
  "sys_schedset s = kbind (argint 0 s) (\<lambda>n. kbind (schedset (sint (n - 1)) s) (\<lambda>s. Inr (0, s)))"

fun va2pa_loop :: "uint64 \<Rightarrow> uint \<Rightarrow> nat list \<Rightarrow> 'a procs_scheme \<Rightarrow> uint64 kres" where
  "va2pa_loop va pid [] s = Inr 0"
| "va2pa_loop va pid (p # rest) s =
     (if p_pid (the_proc p s) = pid then walkaddr (p_pagetable (the_proc p s)) va s else va2pa_loop va pid rest s)"

definition sys_va2pa :: "'a files_scheme \<Rightarrow> (int \<times> 'a files_scheme) kres" where
  "sys_va2pa s =
     kbind (argaddr 0 s) (\<lambda>va. kbind (argint 1 s) (\<lambda>pid.
     kbind (if pid = 0 then kbind (myproc s) (\<lambda>p. walkaddr (p_pagetable (the_proc p s)) va s)
            else va2pa_loop va pid [0..<NPROC] s) (\<lambda>pa.
     Inr (uint pa, s))))"

text \<open>\<^verbatim>\<open>%d\<close> reads the low half of the 64-bit counter.\<close>

definition sys_pfreepages :: "'a files_scheme \<Rightarrow> (int \<times> 'a files_scheme) kres" where
  "sys_pfreepages s = kbind (kprint (''%d'' @ [CHR 0x0A]) [ArgInt (ucast (FREE_PAGES s))] s) (\<lambda>s. Inr (0, s))"

section \<open>Dispatch\<close>

definition ret :: "(int \<times> 's) kres \<Rightarrow> (uint64 option \<times> 's) kres" where
  "ret m = kbind m (\<lambda>(v, s). Inr (Some (of_int v), s))"

definition no_ret :: "'s kres \<Rightarrow> (uint64 option \<times> 's) kres" where
  "no_ret m = kbind m (\<lambda>s. Inr (None, s))"

text \<open>The table \<^verbatim>\<open>syscalls\<close>, in the order of the numbers of \<^verbatim>\<open>syscall.h\<close>; entry 0 is a null pointer.\<close>

definition syscalls :: "uint64 \<Rightarrow> uint8 list \<Rightarrow> ('a files_scheme \<Rightarrow> (uint64 option \<times> 'a files_scheme) kres) option list" where
  "syscalls forkret junk =
    [None,
     Some (\<lambda>s. ret (sys_fork forkret s)),
     Some (\<lambda>s. no_ret (sys_exit s)),
     Some (\<lambda>s. ret (sys_wait s)),
     Some (\<lambda>s. ret (sys_pipe s)),
     Some (\<lambda>s. ret (sys_read s)),
     Some (\<lambda>s. ret (sys_kill s)),
     Some (\<lambda>s. ret (sys_exec s)),
     Some (\<lambda>s. ret (sys_fstat junk s)),
     Some (\<lambda>s. ret (sys_chdir s)),
     Some (\<lambda>s. ret (sys_dup s)),
     Some (\<lambda>s. ret (sys_getpid s)),
     Some (\<lambda>s. ret (sys_sbrk s)),
     Some (\<lambda>s. ret (sys_sleep s)),
     Some (\<lambda>s. ret (sys_uptime s)),
     Some (\<lambda>s. ret (sys_open s)),
     Some (\<lambda>s. ret (sys_write s)),
     Some (\<lambda>s. ret (sys_mknod s)),
     Some (\<lambda>s. ret (sys_unlink s)),
     Some (\<lambda>s. ret (sys_link s)),
     Some (\<lambda>s. ret (sys_mkdir s)),
     Some (\<lambda>s. ret (sys_close s)),
     Some (\<lambda>s. ret (sys_ps junk s)),
     Some (\<lambda>s. ret (sys_schedls s)),
     Some (\<lambda>s. ret (sys_schedset s)),
     Some (\<lambda>s. ret (sys_pfreepages s)),
     Some (\<lambda>s. ret (sys_va2pa s))]"

text \<open>The result tells whether the process is still there.\<close>

definition syscall :: "uint64 \<Rightarrow> uint8 list \<Rightarrow> 'a files_scheme \<Rightarrow> (bool \<times> 'a files_scheme) kres" where
  "syscall forkret junk s =
     kbind (myproc s) (\<lambda>p.
     let num = ucast (get_tf p tf_a7 s) :: uint; table = syscalls forkret junk
     in case (if 0 < sint num \<and> sint num < int (length table) then table ! nat (sint num) else None) of
          Some handler \<Rightarrow>
            kbind (handler s) (\<lambda>(r, s). case r of None \<Rightarrow> Inr (False, s) | Some v \<Rightarrow> Inr (True, set_tf p tf_a0 v s))
        | None \<Rightarrow>
            kbind (kprint (''%d %s: unknown sys call %d'' @ [CHR 0x0A])
              [ArgInt (p_pid (the_proc p s)), ArgStr (Some (cstr (p_name (the_proc p s)))), ArgInt num] s) (\<lambda>s.
            Inr (True, set_tf p tf_a0 (-1) s)))"

end
