(* ===== verification/Virtio.thy ===== *)
theory Virtio
  imports File
begin

text \<open>
  The driver of the virtio disk (\<^verbatim>\<open>virtio_disk.c\<close>, \<^verbatim>\<open>virtio.h\<close>): descriptors, the available and
  the used ring, submission of a request, completion by interrupt, and the initialisation
  handshake. A descriptor's \<^verbatim>\<open>addr\<close> is the symbolic name of the kernel object the device is to
  access. The device is not part of the program: what its registers answer is the argument
  \<open>dev\<close>, a function of the register writes so far, and its updates of the used ring, of the
  status bytes and of the data are steps of their own.
\<close>

section \<open>State\<close>

definition NUM :: nat where "NUM = 8"
definition VRING_DESC_F_NEXT :: uint16 where "VRING_DESC_F_NEXT = 1"
definition VRING_DESC_F_WRITE :: uint16 where "VRING_DESC_F_WRITE = 2"
definition VIRTIO_BLK_T_IN :: uint where "VIRTIO_BLK_T_IN = 0"
definition VIRTIO_BLK_T_OUT :: uint where "VIRTIO_BLK_T_OUT = 1"

datatype dma = Dma_null | Dma_op nat | Dma_data nat | Dma_status nat

record virtq_desc =
  d_addr :: dma
  d_len :: uint
  d_flags :: uint16
  d_next :: uint16

record virtio_blk_req =
  q_type :: uint
  q_reserved :: uint
  q_sector :: uint64

record vdisk = files +
  v_desc :: "virtq_desc list"
  v_avail_idx :: uint16
  v_avail_ring :: "uint16 list"
  v_used_dev_idx :: uint16
  v_used_ring :: "uint list"
  v_free :: "bool list"
  v_used_idx :: uint16
  v_info_b :: "nat option list"
  v_info_status :: "uint8 list"
  v_ops :: "virtio_blk_req list"
  v_buf_disk :: "bool list"
  v_desc_page :: addr
  v_avail_page :: addr
  v_used_page :: addr
  v_mmio :: "(uint64 \<times> uint) list"

definition null_desc :: virtq_desc where
  "null_desc = \<lparr>d_addr = Dma_null, d_len = 0, d_flags = 0, d_next = 0\<rparr>"

definition set_desc :: "nat \<Rightarrow> virtq_desc \<Rightarrow> 'a vdisk_scheme \<Rightarrow> 'a vdisk_scheme" where
  "set_desc i d s = s\<lparr>v_desc := (v_desc s)[i := d]\<rparr>"

section \<open>Initialisation\<close>

definition R_read :: "((uint64 \<times> uint) list \<Rightarrow> uint64 \<Rightarrow> uint) \<Rightarrow> uint64 \<Rightarrow> 'a vdisk_scheme \<Rightarrow> uint" where
  "R_read dev r s = dev (v_mmio s) r"

definition R_write :: "uint64 \<Rightarrow> uint \<Rightarrow> 'a vdisk_scheme \<Rightarrow> 'a vdisk_scheme" where
  "R_write r v s = s\<lparr>v_mmio := v_mmio s @ [(r, v)]\<rparr>"

definition VIRTIO_MMIO_MAGIC_VALUE :: uint64 where "VIRTIO_MMIO_MAGIC_VALUE = 0x000"
definition VIRTIO_MMIO_VERSION :: uint64 where "VIRTIO_MMIO_VERSION = 0x004"
definition VIRTIO_MMIO_DEVICE_ID :: uint64 where "VIRTIO_MMIO_DEVICE_ID = 0x008"
definition VIRTIO_MMIO_VENDOR_ID :: uint64 where "VIRTIO_MMIO_VENDOR_ID = 0x00c"
definition VIRTIO_MMIO_DEVICE_FEATURES :: uint64 where "VIRTIO_MMIO_DEVICE_FEATURES = 0x010"
definition VIRTIO_MMIO_DRIVER_FEATURES :: uint64 where "VIRTIO_MMIO_DRIVER_FEATURES = 0x020"
definition VIRTIO_MMIO_QUEUE_SEL :: uint64 where "VIRTIO_MMIO_QUEUE_SEL = 0x030"
definition VIRTIO_MMIO_QUEUE_NUM_MAX :: uint64 where "VIRTIO_MMIO_QUEUE_NUM_MAX = 0x034"
definition VIRTIO_MMIO_QUEUE_NUM :: uint64 where "VIRTIO_MMIO_QUEUE_NUM = 0x038"
definition VIRTIO_MMIO_QUEUE_READY :: uint64 where "VIRTIO_MMIO_QUEUE_READY = 0x044"
definition VIRTIO_MMIO_QUEUE_NOTIFY :: uint64 where "VIRTIO_MMIO_QUEUE_NOTIFY = 0x050"
definition VIRTIO_MMIO_INTERRUPT_STATUS :: uint64 where "VIRTIO_MMIO_INTERRUPT_STATUS = 0x060"
definition VIRTIO_MMIO_INTERRUPT_ACK :: uint64 where "VIRTIO_MMIO_INTERRUPT_ACK = 0x064"
definition VIRTIO_MMIO_STATUS :: uint64 where "VIRTIO_MMIO_STATUS = 0x070"
definition VIRTIO_MMIO_QUEUE_DESC_LOW :: uint64 where "VIRTIO_MMIO_QUEUE_DESC_LOW = 0x080"
definition VIRTIO_MMIO_QUEUE_DESC_HIGH :: uint64 where "VIRTIO_MMIO_QUEUE_DESC_HIGH = 0x084"
definition VIRTIO_MMIO_DRIVER_DESC_LOW :: uint64 where "VIRTIO_MMIO_DRIVER_DESC_LOW = 0x090"
definition VIRTIO_MMIO_DRIVER_DESC_HIGH :: uint64 where "VIRTIO_MMIO_DRIVER_DESC_HIGH = 0x094"
definition VIRTIO_MMIO_DEVICE_DESC_LOW :: uint64 where "VIRTIO_MMIO_DEVICE_DESC_LOW = 0x0a0"
definition VIRTIO_MMIO_DEVICE_DESC_HIGH :: uint64 where "VIRTIO_MMIO_DEVICE_DESC_HIGH = 0x0a4"
definition VIRTIO_CONFIG_S_ACKNOWLEDGE :: uint where "VIRTIO_CONFIG_S_ACKNOWLEDGE = 1"
definition VIRTIO_CONFIG_S_DRIVER :: uint where "VIRTIO_CONFIG_S_DRIVER = 2"
definition VIRTIO_CONFIG_S_DRIVER_OK :: uint where "VIRTIO_CONFIG_S_DRIVER_OK = 4"
definition VIRTIO_CONFIG_S_FEATURES_OK :: uint where "VIRTIO_CONFIG_S_FEATURES_OK = 8"

text \<open>The feature bits the driver turns off: RO, SCSI, CONFIG_WCE, MQ, ANY_LAYOUT, EVENT_IDX, INDIRECT_DESC.\<close>

definition refused_features :: "nat list" where
  "refused_features = [5, 7, 11, 12, 27, 29, 28]"

definition negotiate :: "uint64 \<Rightarrow> uint64" where
  "negotiate features = fold (\<lambda>k f. f AND NOT (push_bit k 1)) refused_features features"

definition set_queue_pages :: "'a vdisk_scheme \<Rightarrow> 'a vdisk_scheme" where
  "set_queue_pages s =
     (let s = R_write VIRTIO_MMIO_QUEUE_DESC_LOW (ucast (v_desc_page s)) s;
          s = R_write VIRTIO_MMIO_QUEUE_DESC_HIGH (ucast (drop_bit 32 (v_desc_page s))) s;
          s = R_write VIRTIO_MMIO_DRIVER_DESC_LOW (ucast (v_avail_page s)) s;
          s = R_write VIRTIO_MMIO_DRIVER_DESC_HIGH (ucast (drop_bit 32 (v_avail_page s))) s;
          s = R_write VIRTIO_MMIO_DEVICE_DESC_LOW (ucast (v_used_page s)) s
      in R_write VIRTIO_MMIO_DEVICE_DESC_HIGH (ucast (drop_bit 32 (v_used_page s))) s)"

definition virtio_disk_init :: "((uint64 \<times> uint) list \<Rightarrow> uint64 \<Rightarrow> uint) \<Rightarrow> 'a vdisk_scheme \<Rightarrow> 'a vdisk_scheme kres" where
  "virtio_disk_init dev s =
     (if R_read dev VIRTIO_MMIO_MAGIC_VALUE s \<noteq> 0x74726976 \<or> R_read dev VIRTIO_MMIO_VERSION s \<noteq> 2 \<or>
         R_read dev VIRTIO_MMIO_DEVICE_ID s \<noteq> 2 \<or> R_read dev VIRTIO_MMIO_VENDOR_ID s \<noteq> 0x554d4551
      then Inl (Panic ''could not find virtio disk'')
      else
        let status = 0;
            s = R_write VIRTIO_MMIO_STATUS status s;
            status = status OR VIRTIO_CONFIG_S_ACKNOWLEDGE;
            s = R_write VIRTIO_MMIO_STATUS status s;
            status = status OR VIRTIO_CONFIG_S_DRIVER;
            s = R_write VIRTIO_MMIO_STATUS status s;
            features = ucast (R_read dev VIRTIO_MMIO_DEVICE_FEATURES s);
            s = R_write VIRTIO_MMIO_DRIVER_FEATURES (ucast (negotiate features)) s;
            status = status OR VIRTIO_CONFIG_S_FEATURES_OK;
            s = R_write VIRTIO_MMIO_STATUS status s;
            status = R_read dev VIRTIO_MMIO_STATUS s
        in if status AND VIRTIO_CONFIG_S_FEATURES_OK = 0 then Inl (Panic ''virtio disk FEATURES_OK unset'')
           else
             let s = R_write VIRTIO_MMIO_QUEUE_SEL 0 s
             in if R_read dev VIRTIO_MMIO_QUEUE_READY s \<noteq> 0 then Inl (Panic ''virtio disk should not be ready'')
                else if R_read dev VIRTIO_MMIO_QUEUE_NUM_MAX s = 0 then Inl (Panic ''virtio disk has no queue 0'')
                else if R_read dev VIRTIO_MMIO_QUEUE_NUM_MAX s < of_nat NUM then Inl (Panic ''virtio disk max queue too short'')
                else
                  kbind (kalloc s) (\<lambda>(d, s).
                  kbind (kalloc s) (\<lambda>(a, s).
                  kbind (kalloc s) (\<lambda>(u, s).
                  if d = 0 \<or> a = 0 \<or> u = 0 then Inl (Panic ''virtio disk kalloc'')
                  else
                    let s = s\<lparr>v_desc_page := d, v_avail_page := a, v_used_page := u,
                              mem := memset (memset (memset (mem s) d 0 4096) a 0 4096) u 0 4096,
                              v_desc := replicate NUM null_desc, v_avail_idx := 0, v_avail_ring := replicate NUM 0,
                              v_used_dev_idx := 0, v_used_ring := replicate NUM 0\<rparr>;
                        s = R_write VIRTIO_MMIO_QUEUE_NUM (of_nat NUM) s;
                        s = set_queue_pages s;
                        s = R_write VIRTIO_MMIO_QUEUE_READY 1 s;
                        s = s\<lparr>v_free := replicate NUM True\<rparr>;
                        status = status OR VIRTIO_CONFIG_S_DRIVER_OK
                    in Inr (R_write VIRTIO_MMIO_STATUS status s)))))"

section \<open>Descriptors\<close>

fun alloc_desc_loop :: "nat list \<Rightarrow> 'a vdisk_scheme \<Rightarrow> int \<times> 'a vdisk_scheme" where
  "alloc_desc_loop [] s = (-1, s)"
| "alloc_desc_loop (i # is) s =
     (if v_free s ! i then (int i, s\<lparr>v_free := (v_free s)[i := False]\<rparr>) else alloc_desc_loop is s)"

definition alloc_desc :: "'a vdisk_scheme \<Rightarrow> int \<times> 'a vdisk_scheme" where
  "alloc_desc s = alloc_desc_loop [0..<NUM] s"

definition free_desc :: "nat \<Rightarrow> 'a vdisk_scheme \<Rightarrow> 'a vdisk_scheme kres" where
  "free_desc i s =
     (if NUM \<le> i then Inl (Panic ''free_desc 1'')
      else if v_free s ! i then Inl (Panic ''free_desc 2'')
      else Inr (wakeup Chan_disk_free ((set_desc i null_desc s)\<lparr>v_free := (v_free s)[i := True]\<rparr>)))"

lemma wakeup_vdisk [simp]:
  fixes s :: "'a vdisk_scheme"
  shows "v_free (wakeup c s) = v_free s" "v_desc (wakeup c s) = v_desc s" "v_ops (wakeup c s) = v_ops s"
    "v_info_b (wakeup c s) = v_info_b s" "v_info_status (wakeup c s) = v_info_status s"
    "v_avail_idx (wakeup c s) = v_avail_idx s" "v_avail_ring (wakeup c s) = v_avail_ring s"
    "v_used_idx (wakeup c s) = v_used_idx s" "v_used_ring (wakeup c s) = v_used_ring s"
    "v_used_dev_idx (wakeup c s) = v_used_dev_idx s" "v_buf_disk (wakeup c s) = v_buf_disk s"
    "bufs (wakeup c s) = bufs s" "disk (wakeup c s) = disk s"
  using wakeup_frame [of c s] by auto

text \<open>Every descriptor freed is one that was in use, so the walk along the chain ends.\<close>

lemma free_desc_fewer:
  assumes "free_desc i s = Inr s'" "i < length (v_free s)"
  shows "length (filter Not (v_free s')) < length (filter Not (v_free s))"
proof -
  from assms have u: "\<not> v_free s ! i" and e: "v_free s' = (v_free s)[i := True]"
    by (auto simp: free_desc_def set_desc_def split: if_splits)
  have "length (filter Not (v_free s)) = length (filter Not (take i (v_free s) @ v_free s ! i # drop (Suc i) (v_free s)))"
    using assms(2) by (simp only: id_take_nth_drop [symmetric])
  moreover have "v_free s' = take i (v_free s) @ True # drop (Suc i) (v_free s)"
    using e assms(2) by (simp add: upd_conv_take_nth_drop)
  ultimately show ?thesis using u by simp
qed

function free_chain :: "nat \<Rightarrow> 'a vdisk_scheme \<Rightarrow> 'a vdisk_scheme kres" where
  "free_chain i s =
     (let flag = d_flags (v_desc s ! i); nxt = d_next (v_desc s ! i)
      in kbind (free_desc i s) (\<lambda>s'.
           if length (v_free s) \<le> i then Inl (Undef ''disk.free'')
           else if flag AND VRING_DESC_F_NEXT \<noteq> 0 then free_chain (unat nxt) s' else Inr s'))"
  by pat_completeness auto
termination
  by (relation "measure (\<lambda>(i, s). length (filter Not (v_free s)))") (auto simp: free_desc_fewer)

declare free_chain.simps [simp del]

text \<open>\<^verbatim>\<open>alloc3_desc\<close>: three descriptors or none.\<close>

fun alloc_descs :: "nat \<Rightarrow> nat list \<Rightarrow> 'a vdisk_scheme \<Rightarrow> (nat list option \<times> 'a vdisk_scheme) kres" where
  "alloc_descs 0 idx s = Inr (Some idx, s)"
| "alloc_descs (Suc k) idx s =
     (let (i, s) = alloc_desc s
      in if i < 0 then kbind (kfold free_desc idx s) (\<lambda>s. Inr (None, s))
         else alloc_descs k (idx @ [nat i]) s)"

definition alloc3_desc :: "'a vdisk_scheme \<Rightarrow> (nat list option \<times> 'a vdisk_scheme) kres" where
  "alloc3_desc s = alloc_descs 3 [] s"

section \<open>Requests\<close>

text \<open>Formatting the request for buffer \<open>b\<close> in the descriptors \<open>i0\<close>, \<open>i1\<close>, \<open>i2\<close> and publishing it.\<close>

definition submit :: "nat \<Rightarrow> bool \<Rightarrow> nat \<Rightarrow> nat \<Rightarrow> nat \<Rightarrow> 'a vdisk_scheme \<Rightarrow> 'a vdisk_scheme" where
  "submit b write i0 i1 i2 s =
     (let sector = ucast (b_blockno (the_buf b s) * of_nat (BSIZE div 512));
          s = s\<lparr>v_ops := (v_ops s)[i0 := \<lparr>q_type = (if write then VIRTIO_BLK_T_OUT else VIRTIO_BLK_T_IN),
                q_reserved = 0, q_sector = sector\<rparr>]\<rparr>;
          s = set_desc i0 \<lparr>d_addr = Dma_op i0, d_len = 16, d_flags = VRING_DESC_F_NEXT, d_next = of_nat i1\<rparr> s;
          s = set_desc i1 \<lparr>d_addr = Dma_data b, d_len = of_nat BSIZE,
                d_flags = (if write then 0 else VRING_DESC_F_WRITE) OR VRING_DESC_F_NEXT, d_next = of_nat i2\<rparr> s;
          s = s\<lparr>v_info_status := (v_info_status s)[i0 := 0xff]\<rparr>;
          s = set_desc i2 \<lparr>d_addr = Dma_status i0, d_len = 1, d_flags = VRING_DESC_F_WRITE, d_next = 0\<rparr> s;
          s = s\<lparr>v_buf_disk := (v_buf_disk s)[b := True], v_info_b := (v_info_b s)[i0 := Some b]\<rparr>;
          s = s\<lparr>v_avail_ring := (v_avail_ring s)[unat (v_avail_idx s) mod NUM := of_nat i0]\<rparr>;
          s = s\<lparr>v_avail_idx := v_avail_idx s + 1\<rparr>
      in R_write VIRTIO_MMIO_QUEUE_NOTIFY 0 s)"

text \<open>
  \<^verbatim>\<open>virtio_disk_rw\<close> up to its wait for the interrupt, and from there to its return. \<open>rw_start\<close>
  answers \<open>Wait\<close> when no three descriptors are free.
\<close>

definition rw_start :: "nat \<Rightarrow> bool \<Rightarrow> 'a vdisk_scheme \<Rightarrow> ((nat, unit) io \<times> 'a vdisk_scheme) kres" where
  "rw_start b write s =
     kbind (alloc3_desc s) (\<lambda>(r, s). case r of
       Some [i0, i1, i2] \<Rightarrow> Inr (Done i0, submit b write i0 i1 i2 s)
     | _ \<Rightarrow> Inr (Wait Chan_disk_free (), s))"

definition rw_finish :: "nat \<Rightarrow> nat \<Rightarrow> 'a vdisk_scheme \<Rightarrow> ((unit, unit) io \<times> 'a vdisk_scheme) kres" where
  "rw_finish b i0 s =
     (if v_buf_disk s ! b then Inr (Wait (Chan_buf b) (), s)
      else kbind (free_chain i0 (s\<lparr>v_info_b := (v_info_b s)[i0 := None]\<rparr>)) (\<lambda>s. Inr (Done (), s)))"

text \<open>The completion interrupt: \<open>used_idx\<close> catches up with the index the device has reached.\<close>

function intr_loop :: "'a vdisk_scheme \<Rightarrow> 'a vdisk_scheme kres" where
  "intr_loop s =
     (if v_used_idx s = v_used_dev_idx s then Inr s
      else let i = unat (v_used_ring s ! (unat (v_used_idx s) mod NUM))
        in if v_info_status s ! i \<noteq> 0 then Inl (Panic ''virtio_disk_intr status'')
           else case v_info_b s ! i of
                  None \<Rightarrow> Inl (Undef ''null buf'')
                | Some b \<Rightarrow>
                  let s = wakeup (Chan_buf b) (s\<lparr>v_buf_disk := (v_buf_disk s)[b := False]\<rparr>)
                  in intr_loop (s\<lparr>v_used_idx := v_used_idx s + 1\<rparr>))"
  by pat_completeness auto
termination
proof (relation "measure (\<lambda>s. unat (v_used_dev_idx s - v_used_idx s))", goal_cases)
  case 1
  show ?case by simp
next
  case (2 s i b t)
  then have ne: "v_used_dev_idx s - v_used_idx s \<noteq> 0" by simp
  then have "unat (v_used_dev_idx s - v_used_idx s - 1) < unat (v_used_dev_idx s - v_used_idx s)"
    using unat_minus_one [OF ne] unat_gt_0 by (metis diff_less zero_less_one)
  then show ?case using 2 by (simp add: algebra_simps)
qed

declare intr_loop.simps [simp del]

definition virtio_disk_intr :: "((uint64 \<times> uint) list \<Rightarrow> uint64 \<Rightarrow> uint) \<Rightarrow> 'a vdisk_scheme \<Rightarrow> 'a vdisk_scheme kres" where
  "virtio_disk_intr dev s =
     intr_loop (R_write VIRTIO_MMIO_INTERRUPT_ACK (R_read dev VIRTIO_MMIO_INTERRUPT_STATUS s AND 3) s)"

end
