(* ===== verification/Pagetable.thy ===== *)
theory Pagetable
  imports Vm
begin

text \<open>
  What a page table stands for. \<open>table_at\<close> follows a path of indices from the root,
  \<open>leaf\<close> is the last-level entry that translates a virtual address (0 when there is none),
  and \<open>pt_wf\<close> says that the table pages form a tree: no page is reached by two paths.
  The lemmas show that writing one leaf entry changes one translation only, that adding a
  zeroed table page changes none, and from that what \<open>walk\<close>, \<open>mappages\<close>,
  \<open>uvmunmap\<close> and \<open>uvmcopy\<close> do to the translation.
\<close>

section \<open>Words of a page\<close>

lemma read64_write64_other [mem_simps]:
  assumes "8 \<le> a - b" "8 \<le> b - a"
  shows "read64 (write64 m a v) b = read64 m b"
proof (rule read64_cong)
  fix i :: addr assume i: "i < 8"
  have "unat (b - a) + unat (a - b) = 2 ^ 64"
  proof -
    have "b \<noteq> a" using assms by auto
    then have "unat (b - a) = 2 ^ 64 - unat (a - b)"
      using unat_neg_addr [of "a - b"] by simp
    moreover have "unat (a - b) \<le> 2 ^ 64" by (rule less_imp_le) simp
    ultimately show ?thesis by linarith
  qed
  with assms i have "unat (b - a) + unat i < 2 ^ 64" by (simp add: word_le_nat_alt word_less_nat_alt)
  then have "unat (b - a + i) = unat (b - a) + unat i" by (rule unat_add_no_wrap)
  moreover have "b + i - a = b - a + i" by simp
  ultimately have "unat (b + i - a) = unat (b - a) + unat i" by metis
  then have "8 \<le> b + i - a" using assms by (simp add: word_le_nat_alt)
  then show "write64 m a v (b + i) = m (b + i)" by (rule write64_frame)
qed

lemma unat_slot_offset: "i < 512 \<Longrightarrow> unat (8 * i :: uint64) = 8 * unat i"
  by (subst unat_mult_lem [THEN iffD1]) (simp_all add: word_less_nat_alt)

lemma slot_offset_less: "i < 512 \<Longrightarrow> (8 * i :: uint64) < PGSIZE"
  by (simp add: word_less_nat_alt unat_slot_offset PGSIZE_def)

lemma slot_apart:
  assumes "page_aligned p" "page_aligned q" "i < 512" "j < 512" "p \<noteq> q \<or> i \<noteq> j"
  shows "8 \<le> pte_slot p i - pte_slot q j"
proof (cases "p = q")
  case True
  with assms(5) have "i \<noteq> j" by simp
  have "unat (pte_slot p i - pte_slot q j) = unat (8 * i - 8 * j :: uint64)"
    using True by (simp add: pte_slot_def)
  moreover have "8 \<le> unat (8 * i - 8 * j :: uint64)"
  proof (cases "j \<le> i")
    case True
    then have "unat (8 * i - 8 * j :: uint64) = 8 * unat i - 8 * unat j"
      using assms by (subst unat_sub) (simp_all add: word_le_nat_alt unat_slot_offset)
    moreover have "unat i \<noteq> unat j" using \<open>i \<noteq> j\<close> by (simp add: word_unat_eq_iff)
    ultimately show ?thesis using True by (simp add: word_le_nat_alt)
  next
    case False
    then have lt: "unat i < unat j" by (simp add: word_le_nat_alt)
    have neq: "8 * j - 8 * i \<noteq> 0"
      using lt assms by (metis right_minus_eq unat_slot_offset nat_mult_eq_cancel1 zero_less_numeral less_irrefl)
    have d: "unat (8 * j - 8 * i :: uint64) = 8 * unat j - 8 * unat i"
      using assms lt by (subst unat_sub) (simp_all add: word_le_nat_alt unat_slot_offset)
    have "unat (8 * i - 8 * j :: uint64) = unat (- (8 * j - 8 * i))" by simp
    also have "\<dots> = 2 ^ 64 - (8 * unat j - 8 * unat i)"
      using neq d unat_neg_addr [of "8 * j - 8 * i"] by simp
    finally show ?thesis using assms(4) lt by (simp add: word_less_nat_alt)
  qed
  ultimately show ?thesis by (simp add: word_le_nat_alt)
next
  case False
  then have "\<not> p + 8 * i - q < PGSIZE"
    using assms slot_offset_less by (intro page_disjoint) auto
  then have far: "4096 \<le> unat (p + 8 * i - q)" by (simp add: word_less_nat_alt PGSIZE_def)
  have "pte_slot p i - pte_slot q j = (p + 8 * i - q) - 8 * j" by (simp add: pte_slot_def)
  also have "unat \<dots> = unat (p + 8 * i - q) - 8 * unat j"
    using far assms(4) by (subst unat_sub) (simp_all add: word_le_nat_alt unat_slot_offset word_less_nat_alt)
  finally show ?thesis using far assms(4) by (simp add: word_le_nat_alt word_less_nat_alt)
qed

lemma read64_slot_write:
  assumes "page_aligned p" "page_aligned q" "i < 512" "j < 512"
  shows "read64 (write64 m (pte_slot p i) v) (pte_slot q j) =
    (if p = q \<and> i = j then v else read64 m (pte_slot q j))"
  using assms slot_apart [of p q i j] slot_apart [of q p j i]
  by (auto intro!: read64_write64_other)

lemma slot_in_page:
  assumes "page_aligned p" "i < 512" "o' < 8"
  shows "pte_slot p i + o' - p < PGSIZE"
proof -
  have "unat (8 * i + o') = 8 * unat i + unat o'"
    using assms by (subst unat_add_no_wrap) (simp_all add: unat_slot_offset word_less_nat_alt)
  moreover have "pte_slot p i + o' - p = 8 * i + o'" by (simp add: pte_slot_def)
  ultimately have "unat (pte_slot p i + o' - p) = 8 * unat i + unat o'" by metis
  then show ?thesis using assms by (simp add: word_less_nat_alt PGSIZE_def)
qed

text \<open>Memory changed only inside pages other than \<open>p\<close> keeps the words of \<open>p\<close>.\<close>

lemma read64_slot_cong:
  assumes "page_aligned p" "i < 512" "\<And>a. a - p < PGSIZE \<Longrightarrow> m' a = m a"
  shows "read64 m' (pte_slot p i) = read64 m (pte_slot p i)"
  using assms slot_in_page by (intro read64_cong) auto

lemma write64_slot_frame:
  assumes "page_aligned p" "i < 512" "\<not> a - p < PGSIZE"
  shows "write64 m (pte_slot p i) v a = m a"
proof (rule write64_frame, rule ccontr)
  assume "\<not> 8 \<le> a - pte_slot p i"
  then have "pte_slot p i + (a - pte_slot p i) - p < PGSIZE"
    using assms by (intro slot_in_page) auto
  with assms(3) show False by simp
qed

section \<open>The tree of table pages\<close>

definition next_table :: "memory \<Rightarrow> addr \<Rightarrow> uint64 \<Rightarrow> addr option" where
  "next_table m p i =
     (if read64 m (pte_slot p i) AND PTE_V \<noteq> 0 then Some (PTE2PA (read64 m (pte_slot p i))) else None)"

fun table_at :: "memory \<Rightarrow> addr \<Rightarrow> uint64 list \<Rightarrow> addr option" where
  "table_at m p [] = Some p"
| "table_at m p (i # is) = Option.bind (next_table m p i) (\<lambda>q. table_at m q is)"

definition path_ok :: "uint64 list \<Rightarrow> bool" where
  "path_ok is \<longleftrightarrow> length is \<le> 2 \<and> (\<forall>i\<in>set is. i < 512)"

definition tables :: "memory \<Rightarrow> addr \<Rightarrow> addr set" where
  "tables m root = {p. \<exists>is. path_ok is \<and> table_at m root is = Some p}"

definition pt_wf :: "memory \<Rightarrow> addr \<Rightarrow> bool" where
  "pt_wf m root \<longleftrightarrow>
     (\<forall>is js p. path_ok is \<and> path_ok js \<and> table_at m root is = Some p \<and> table_at m root js = Some p
        \<longrightarrow> is = js) \<and>
     (\<forall>p\<in>tables m root. page_aligned p \<and> p \<noteq> 0)"

definition leaf_slot :: "memory \<Rightarrow> addr \<Rightarrow> uint64 \<Rightarrow> addr option" where
  "leaf_slot m root va = map_option (\<lambda>p. pte_slot p (PX 0 va)) (table_at m root [PX 2 va, PX 1 va])"

definition leaf :: "memory \<Rightarrow> addr \<Rightarrow> uint64 \<Rightarrow> uint64" where
  "leaf m root va = (case leaf_slot m root va of None \<Rightarrow> 0 | Some a \<Rightarrow> read64 m a)"

lemma path_ok_Nil [simp]: "path_ok []"
  and path_ok_1: "i < 512 \<Longrightarrow> path_ok [i]"
  and path_ok_2: "i < 512 \<Longrightarrow> j < 512 \<Longrightarrow> path_ok [i, j]"
  by (simp_all add: path_ok_def)

lemma path_ok_cases:
  assumes "path_ok is"
  obtains "is = []" | i where "is = [i]" "i < 512" | i j where "is = [i, j]" "i < 512" "j < 512"
proof (cases "is")
  case Nil
  then show ?thesis using that by simp
next
  case (Cons i js)
  then show ?thesis using assms that by (cases js) (auto simp: path_ok_def)
qed

lemma tablesI: "path_ok is \<Longrightarrow> table_at m root is = Some p \<Longrightarrow> p \<in> tables m root"
  by (auto simp: tables_def)

lemma root_in_tables [simp]: "root \<in> tables m root"
  by (rule tablesI [of "[]"]) simp_all

lemma pt_wf_inj:
  "pt_wf m root \<Longrightarrow> path_ok is \<Longrightarrow> path_ok js \<Longrightarrow> table_at m root is = Some p \<Longrightarrow>
     table_at m root js = Some p \<Longrightarrow> is = js"
  unfolding pt_wf_def by blast

lemma pt_wf_aligned: "pt_wf m root \<Longrightarrow> p \<in> tables m root \<Longrightarrow> page_aligned p"
  and pt_wf_nonzero: "pt_wf m root \<Longrightarrow> p \<in> tables m root \<Longrightarrow> p \<noteq> 0"
  by (auto simp: pt_wf_def)

text \<open>\<open>walk\<close> without allocation is a pure lookup.\<close>

lemma walk_lookup:
  assumes "va < MAXVA"
  shows "walk root va False s =
    Inr (case leaf_slot (mem s) root va of None \<Rightarrow> 0 | Some a \<Rightarrow> a, s)"
  using assms
  by (simp add: walk_def numeral_2_eq_2 leaf_slot_def next_table_def Let_def not_le)

lemma leaf_slot_nonzero:
  assumes "pt_wf m root" "leaf_slot m root va = Some a"
  shows "a \<noteq> 0"
proof -
  obtain p where p: "table_at m root [PX 2 va, PX 1 va] = Some p" "a = pte_slot p (PX 0 va)"
    using assms(2) by (auto simp: leaf_slot_def)
  then have "p \<in> tables m root" by (intro tablesI [of "[PX 2 va, PX 1 va]"]) (simp_all add: path_ok_2)
  then have pa: "page_aligned p" "p \<noteq> 0" using assms(1) pt_wf_aligned pt_wf_nonzero by blast+
  show ?thesis
  proof
    assume "a = 0"
    with p(2) have "p = - (8 * PX 0 va)" by (simp add: pte_slot_def eq_neg_iff_add_eq_0)
    then have "p + 8 * PX 0 va - 0 < PGSIZE" by (simp add: PGSIZE_def)
    with page_disjoint [of p 0 "8 * PX 0 va"] pa slot_offset_less [of "PX 0 va"] show False
      by simp
  qed
qed

text \<open>Changes outside the table pages leave the whole tree alone.\<close>

lemma next_table_cong:
  assumes "page_aligned p" "i < 512" "\<And>a. a - p < PGSIZE \<Longrightarrow> m' a = m a"
  shows "next_table m' p i = next_table m p i"
  unfolding next_table_def using read64_slot_cong [OF assms] by simp

lemma table_at_frame:
  assumes wf: "pt_wf m root" and eq: "\<And>p a. p \<in> tables m root \<Longrightarrow> a - p < PGSIZE \<Longrightarrow> m' a = m a"
    and ok: "path_ok is"
  shows "table_at m' root is = table_at m root is"
proof -
  have nt: "next_table m' p i = next_table m p i" if "p \<in> tables m root" "i < 512" for p i
    using that eq pt_wf_aligned [OF wf] by (intro next_table_cong) auto
  from ok show ?thesis
  proof (cases rule: path_ok_cases)
    case 1
    then show ?thesis by simp
  next
    case (2 i)
    then show ?thesis using nt [of root i] by simp
  next
    case (3 i j)
    show ?thesis
    proof (cases "next_table m root i")
      case None
      then show ?thesis using 3 nt [of root i] by simp
    next
      case (Some q)
      then have "q \<in> tables m root" using 3 by (intro tablesI [of "[i]"]) (simp_all add: path_ok_1)
      then show ?thesis using 3 Some nt [of root i] nt [of q j] by simp
    qed
  qed
qed

lemma pt_frame:
  assumes wf: "pt_wf m root" and eq: "\<And>p a. p \<in> tables m root \<Longrightarrow> a - p < PGSIZE \<Longrightarrow> m' a = m a"
  shows "tables m' root = tables m root" "pt_wf m' root" "leaf_slot m' root va = leaf_slot m root va"
    "leaf m' root va = leaf m root va"
proof -
  have ta: "table_at m' root is = table_at m root is" if "path_ok is" for "is"
    by (rule table_at_frame [OF wf _ that]) (rule eq)
  show tb: "tables m' root = tables m root" using ta by (auto simp: tables_def)
  show "pt_wf m' root" using wf ta unfolding pt_wf_def tb by metis
  show ls: "leaf_slot m' root va = leaf_slot m root va"
    unfolding leaf_slot_def by (subst ta) (simp_all add: path_ok_2 del: table_at.simps)
  show "leaf m' root va = leaf m root va"
  proof (cases "table_at m root [PX 2 va, PX 1 va]")
    case None
    then show ?thesis unfolding leaf_def ls by (simp add: leaf_slot_def)
  next
    case (Some p)
    then have "p \<in> tables m root" by (intro tablesI [of "[PX 2 va, PX 1 va]"]) (simp_all add: path_ok_2)
    then have "read64 m' (pte_slot p (PX 0 va)) = read64 m (pte_slot p (PX 0 va))"
      using eq pt_wf_aligned [OF wf] by (intro read64_slot_cong) auto
    then show ?thesis unfolding leaf_def ls using Some by (simp add: leaf_slot_def)
  qed
qed

text \<open>Writing one leaf entry changes exactly one translation.\<close>

lemma leaf_write:
  fixes v :: uint64
  assumes wf: "pt_wf m root" and slot: "leaf_slot m root va = Some a"
  defines "m' \<equiv> write64 m a v"
  shows "\<And>is. path_ok is \<Longrightarrow> table_at m' root is = table_at m root is"
    and "tables m' root = tables m root" and "pt_wf m' root"
    and "leaf m' root va = v"
    and "\<And>va'. (PX 2 va', PX 1 va', PX 0 va') \<noteq> (PX 2 va, PX 1 va, PX 0 va) \<Longrightarrow>
      leaf m' root va' = leaf m root va'"
    and "\<And>va'. leaf_slot m' root va' = leaf_slot m root va'"
proof -
  obtain q where q: "table_at m root [PX 2 va, PX 1 va] = Some q" and a: "a = pte_slot q (PX 0 va)"
    using slot by (auto simp: leaf_slot_def)
  have ok: "path_ok [PX 2 va, PX 1 va]" by (simp add: path_ok_2)
  have qal: "page_aligned q" using wf q ok by (meson pt_wf_aligned tablesI)
  have nt: "next_table m' p i = next_table m p i"
    if "table_at m root is = Some p" "path_ok is" "length is < 2" "i < 512" for p i "is"
  proof -
    have "p \<noteq> q" using pt_wf_inj [OF wf that(2) ok that(1)] q that(3) by auto
    moreover have "page_aligned p" using wf that by (meson pt_wf_aligned tablesI)
    ultimately show ?thesis
      using that(4) qal by (simp add: next_table_def m'_def a read64_slot_write)
  qed
  show ta: "table_at m' root is = table_at m root is" if "path_ok is" for "is"
    using that
  proof (cases rule: path_ok_cases)
    case 1
    then show ?thesis by simp
  next
    case (2 i)
    then show ?thesis using nt [of "[]" root i] by simp
  next
    case (3 i j)
    then show ?thesis using nt [of "[]" root i] nt [of "[i]" _ j]
      by (cases "next_table m root i") (simp_all add: path_ok_1)
  qed
  show tb: "tables m' root = tables m root" using ta by (auto simp: tables_def)
  show "pt_wf m' root" using wf ta unfolding pt_wf_def tb by metis
  show ls: "leaf_slot m' root va' = leaf_slot m root va'" for va'
    unfolding leaf_slot_def by (subst ta) (simp_all add: path_ok_2 del: table_at.simps)
  show "leaf m' root va = v" unfolding leaf_def ls slot by (simp add: m'_def)
  show "leaf m' root va' = leaf m root va'"
    if neq: "(PX 2 va', PX 1 va', PX 0 va') \<noteq> (PX 2 va, PX 1 va, PX 0 va)" for va'
  proof (cases "table_at m root [PX 2 va', PX 1 va']")
    case None
    then show ?thesis unfolding leaf_def ls by (simp add: leaf_slot_def)
  next
    case (Some p)
    have ok': "path_ok [PX 2 va', PX 1 va']" by (simp add: path_ok_2)
    have "page_aligned p" using wf Some ok' by (meson pt_wf_aligned tablesI)
    moreover have "p \<noteq> q \<or> PX 0 va' \<noteq> PX 0 va"
      using neq pt_wf_inj [OF wf ok' ok Some] q by auto
    ultimately show ?thesis
      unfolding leaf_def ls using Some qal by (auto simp: leaf_slot_def m'_def a read64_slot_write)
  qed
qed

text \<open>Hanging a zeroed page into an empty slot of an upper level changes no translation.\<close>

lemma add_table:
  assumes wf: "pt_wf m root"
    and p: "table_at m root is = Some p" "path_ok is" "length is < 2" and i: "i < 512"
    and none: "next_table m p i = None"
    and n: "page_aligned n" "n \<noteq> 0" "n \<notin> tables m root" "\<And>j. j < 512 \<Longrightarrow> read64 m (pte_slot n j) = 0"
  defines "m' \<equiv> write64 m (pte_slot p i) (PA2PTE n OR PTE_V)"
  shows "\<And>js. path_ok js \<Longrightarrow> table_at m' root js = (if js = is @ [i] then Some n else table_at m root js)"
    and "tables m' root = insert n (tables m root)" and "pt_wf m' root"
    and "\<And>va. leaf m' root va = leaf m root va"
proof -
  have pal: "page_aligned p" and pn: "p \<noteq> n" using wf p n(3) by (meson pt_wf_aligned tablesI)+
  have "PTE_V < 1024" by (simp add: PTE_V_def word_less_nat_alt)
  then have packed: "(PA2PTE n OR PTE_V) AND PTE_V \<noteq> 0" "PTE2PA (PA2PTE n OR PTE_V) = n"
    using PTE2PA_pack [OF n(1)] by (simp_all add: PTE_V_def word_bw_comms word_ao_absorbs)
  have rd: "read64 m' (pte_slot q j) = (if p = q \<and> i = j then PA2PTE n OR PTE_V else read64 m (pte_slot q j))"
    if "page_aligned q" "j < 512" for q j
    unfolding m'_def using that pal i by (simp add: read64_slot_write)
  have nt: "next_table m' q j = (if p = q \<and> i = j then Some n else next_table m q j)"
    if "page_aligned q" "j < 512" for q j
    using rd [OF that] packed by (simp add: next_table_def)
  have ntn: "next_table m' n j = None" if "j < 512" for j
    using nt [OF n(1) that] n(4) [OF that] pn by (simp add: next_table_def)
  have al: "page_aligned q" if "table_at m root js = Some q" "path_ok js" for q js
    using wf that by (meson pt_wf_aligned tablesI)
  have uniq: "js = is" if "table_at m root js = Some p" "path_ok js" for js
    using pt_wf_inj [OF wf that(2) p(2) that(1) p(1)] .
  show ta: "table_at m' root js = (if js = is @ [i] then Some n else table_at m root js)"
    if "path_ok js" for js
    using that
  proof (cases rule: path_ok_cases)
    case 1
    then show ?thesis by simp
  next
    case (2 j)
    have root: "table_at m root [] = Some root" by simp
    show ?thesis
      using 2 nt [OF al [OF root], of j] uniq [of "[]"] p none by (auto split: if_splits)
  next
    case (3 j k)
    have root: "table_at m root [] = Some root" by simp
    show ?thesis
    proof (cases "p = root \<and> i = j")
      case True
      then have "is = []" using uniq [of "[]"] by simp
      moreover have "table_at m root js = None" using 3 True none by simp
      ultimately show ?thesis using 3 True nt [OF al [OF root], of j] ntn [of k] by auto
    next
      case False
      then have eq: "next_table m' root j = next_table m root j"
        using nt [OF al [OF root], of j] 3 by auto
      show ?thesis
      proof (cases "next_table m root j")
        case None
        then show ?thesis using 3 eq p none by (auto simp: append_eq_Cons_conv)
      next
        case (Some q)
        then have q: "table_at m root [j] = Some q" by simp
        then show ?thesis
          using 3 eq Some nt [OF al [OF q], of k] uniq [of "[j]"] p none
          by (auto simp: path_ok_1 append_eq_Cons_conv split: if_splits)
      qed
    qed
  qed
  have okn: "path_ok (is @ [i])" using p i by (auto simp: path_ok_def)
  have noneold: "table_at m root (is @ [i]) = None"
    using p none by - (rule path_ok_cases [OF p(2)], auto split: Option.bind_split)
  show tb: "tables m' root = insert n (tables m root)"
  proof (intro set_eqI iffI)
    fix q assume "q \<in> tables m' root"
    then obtain js where "path_ok js" "table_at m' root js = Some q" by (auto simp: tables_def)
    then show "q \<in> insert n (tables m root)" using ta tablesI by (auto split: if_splits)
  next
    fix q assume "q \<in> insert n (tables m root)"
    then consider "q = n" | js where "path_ok js" "table_at m root js = Some q"
      by (auto simp: tables_def)
    then show "q \<in> tables m' root"
    proof cases
      case 1
      then show ?thesis using ta [OF okn] okn by (intro tablesI [of "is @ [i]"]) simp_all
    next
      case 2
      then have "js \<noteq> is @ [i]" using noneold by auto
      then show ?thesis using 2 ta [of js] by (intro tablesI [of js]) simp_all
    qed
  qed
  show "pt_wf m' root"
    unfolding pt_wf_def tb
  proof (intro conjI allI impI ballI)
    fix js ks q
    assume "path_ok js \<and> path_ok ks \<and> table_at m' root js = Some q \<and> table_at m' root ks = Some q"
    then show "js = ks"
      using ta n(3) pt_wf_inj [OF wf] tablesI [of js m root q] tablesI [of ks m root q]
      by (auto split: if_splits)
  qed (use n pt_wf_aligned [OF wf] pt_wf_nonzero [OF wf] in auto)
  show "leaf m' root va = leaf m root va" for va
  proof -
    let ?js = "[PX 2 va, PX 1 va]"
    have okj: "path_ok ?js" by (simp add: path_ok_2)
    have lf: "leaf m'' root va = (case table_at m'' root ?js of None \<Rightarrow> 0 | Some q \<Rightarrow> read64 m'' (pte_slot q (PX 0 va)))"
      for m'' by (cases "table_at m'' root ?js") (simp_all only: leaf_def leaf_slot_def option.case option.map)
    show ?thesis
    proof (cases "?js = is @ [i]")
      case True
      then have "table_at m root ?js = None" using noneold by argo
      moreover have "table_at m' root ?js = Some n" using ta [OF okj] True by argo
      moreover have "read64 m' (pte_slot n (PX 0 va)) = 0"
        using rd [OF n(1), of "PX 0 va"] n(4) [of "PX 0 va"] pn by simp
      ultimately show ?thesis unfolding lf by (simp only: option.case)
    next
      case False
      then have t': "table_at m' root ?js = table_at m root ?js" using ta [OF okj] by argo
      show ?thesis
      proof (cases "table_at m root ?js")
        case None
        then show ?thesis unfolding lf t' by (simp only: option.case)
      next
        case (Some q)
        then have "p \<noteq> q" using uniq okj p(3) by fastforce
        then have "read64 m' (pte_slot q (PX 0 va)) = read64 m (pte_slot q (PX 0 va))"
          using rd [OF al [OF Some okj], of "PX 0 va"] by simp
        then show ?thesis unfolding lf t' Some by (simp only: option.case)
      qed
    qed
  qed
qed

end
