(* ===== verification/Addrspace.thy ===== *)
theory Addrspace
  imports Pagetable
begin

text \<open>
  What the routines of \<^verbatim>\<open>vm.c\<close> do to address spaces. \<open>vm_inv\<close> joins the allocator's
  invariant with a well-formed page table whose table pages are heap pages outside the free
  list. \<open>grown\<close> relates the states before and after a routine that may take pages from the
  free list for new table pages and otherwise keeps its hands off memory; \<open>walk\<close> with
  allocation, \<open>mappages\<close> and \<open>uvmcopy\<close> are shown to follow it.
\<close>

section \<open>The invariant and the growth relation\<close>

definition vm_inv :: "'a kmem_scheme \<Rightarrow> addr \<Rightarrow> addr list \<Rightarrow> bool" where
  "vm_inv s root fs \<longleftrightarrow> kmem_inv s fs \<and> pt_wf (mem s) root \<and>
     (\<forall>p\<in>tables (mem s) root. heap_page s p) \<and> tables (mem s) root \<inter> set fs = {}"

text \<open>The bytes no table page and no free page holds.\<close>

definition untouched :: "memory \<Rightarrow> addr set \<Rightarrow> memory \<Rightarrow> bool" where
  "untouched m ps m' \<longleftrightarrow> (\<forall>a. (\<forall>p\<in>ps. \<not> a - p < PGSIZE) \<longrightarrow> m' a = m a)"

definition grown :: "addr \<Rightarrow> 'a kmem_scheme \<Rightarrow> addr list \<Rightarrow> 'a kmem_scheme \<Rightarrow> addr list \<Rightarrow> bool" where
  "grown root s fs s' fs' \<longleftrightarrow>
     vm_inv s' root fs' \<and> (\<exists>k. fs' = drop k fs) \<and>
     tables (mem s') root \<union> set fs' = tables (mem s) root \<union> set fs \<and>
     untouched (mem s) (tables (mem s) root \<union> set fs) (mem s') \<and>
     kend s' = kend s \<and> kmem.more s' = kmem.more s \<and>
     (\<forall>q. heap_page s q \<longrightarrow> q \<notin> set fs \<longrightarrow> refcount_at q s' = refcount_at q s)"

lemma untouched_trans: "untouched m ps m' \<Longrightarrow> untouched m' ps m'' \<Longrightarrow> untouched m ps m''"
  by (auto simp: untouched_def)

lemma untouched_mono: "untouched m ps m' \<Longrightarrow> ps \<subseteq> qs \<Longrightarrow> untouched m qs m'"
  by (auto simp: untouched_def)

lemma heap_page_kend: "kend s' = kend s \<Longrightarrow> heap_page s' = heap_page s"
  by (simp add: heap_page_def fun_eq_iff)

lemma grown_refl: "vm_inv s root fs \<Longrightarrow> grown root s fs s fs"
  by (auto simp: grown_def untouched_def intro!: exI [of _ 0])

lemma grown_trans:
  assumes g1: "grown root s fs s1 fs1" and g2: "grown root s1 fs1 s2 fs2"
  shows "grown root s fs s2 fs2"
proof -
  have sub: "set fs1 \<subseteq> set fs" using g1 by (auto simp: grown_def dest: in_set_dropD)
  have hp: "heap_page s1 = heap_page s" using g1 by (intro heap_page_kend) (simp add: grown_def)
  have "refcount_at q s2 = refcount_at q s" if "heap_page s q" "q \<notin> set fs" for q
    using that g1 g2 sub hp by (auto simp: grown_def)
  moreover have "\<exists>k. fs2 = drop k fs" using g1 g2 by (auto simp: grown_def)
  moreover have "untouched (mem s) (tables (mem s) root \<union> set fs) (mem s2)"
    using g1 g2 by (auto simp: grown_def intro: untouched_trans)
  ultimately show ?thesis using g1 g2 by (auto simp: grown_def)
qed

lemma pa_to_idx_inj:
  assumes "page_aligned p" "page_aligned q" "KERNBASE \<le> p" "KERNBASE \<le> q" "pa_to_idx p = pa_to_idx q"
  shows "p = q"
proof -
  obtain a b where ab: "unat p = 4096 * a" "unat q = 4096 * b"
    using assms(1,2) unfolding page_aligned_dvd by (auto elim!: dvdE)
  have k: "unat KERNBASE = 4096 * 0x80000" by (simp add: layout_defs)
  have "unat (pa_to_idx p) = a - 0x80000" "unat (pa_to_idx q) = b - 0x80000"
    using assms(3,4) ab k by (simp_all add: pa_to_idx_def unat_div unat_sub PGSIZE_def word_le_nat_alt
        flip: right_diff_distrib')
  moreover have "0x80000 \<le> a" "0x80000 \<le> b"
    using assms(3,4) ab k by (simp_all add: word_le_nat_alt)
  ultimately have "a = b" using assms(5) by simp
  with ab show ?thesis by (simp add: word_unat_eq_iff)
qed

lemma refcount_other:
  assumes "heap_page s p" "heap_page s q" "p \<noteq> q" "KERNBASE \<le> kend s"
  shows "pa_to_idx p \<noteq> pa_to_idx q"
  using assms pa_to_idx_inj [of p q] order_trans [of KERNBASE "kend s"] by (auto simp: heap_page_def)

lemma kmem_inv_mem:
  assumes "kmem_inv s fs" "\<And>x. x \<in> set fs \<Longrightarrow> read64 m x = read64 (mem s) x"
  shows "kmem_inv (s\<lparr>mem := m\<rparr>) fs"
  using assms flist_cong [of fs m "mem s"] by (simp add: kmem_inv_def heap_page_def)

section \<open>One new table page\<close>

definition hang_table :: "addr \<Rightarrow> addr \<Rightarrow> 'a kmem_scheme \<Rightarrow> 'a kmem_scheme" where
  "hang_table pte x s = (kalloc_result x s)
     \<lparr>mem := write64 (memset (mem (kalloc_result x s)) x 0 4096) pte (PA2PTE x OR PTE_V)\<rparr>"

lemma walk_loop_hang:
  assumes "kmem_inv s (x # xs)" "next_table (mem s) p (PX (Suc level) va) = None"
  shows "walk_loop (Suc level) p va True s =
    walk_loop level x va True (hang_table (pte_slot p (PX (Suc level) va)) x s)"
proof -
  have "x \<noteq> 0" using assms(1) by (auto simp: kmem_inv_def)
  with assms show ?thesis
    by (simp add: kalloc_Cons Let_def next_table_def hang_table_def split: if_splits)
qed

lemma hang_table_mem:
  "mem (hang_table pte x s) = write64 (memset (memset (mem s) x 5 4096) x 0 4096) pte (PA2PTE x OR PTE_V)"
  by (simp add: hang_table_def)

lemma hang_table_grown:
  assumes inv: "vm_inv s root (x # xs)"
    and p: "table_at (mem s) root is = Some p" "path_ok is" "length is < 2" and i: "i < 512"
    and none: "next_table (mem s) p i = None"
  defines "s' \<equiv> hang_table (pte_slot p i) x s"
  shows "grown root s (x # xs) s' xs"
    and "\<And>js. path_ok js \<Longrightarrow> table_at (mem s') root js = (if js = is @ [i] then Some x else table_at (mem s) root js)"
    and "\<And>va. leaf (mem s') root va = leaf (mem s) root va"
    and "\<And>j. j < 512 \<Longrightarrow> next_table (mem s') x j = None"
proof -
  let ?m = "memset (memset (mem s) x 5 4096) x 0 4096"
  have ki: "kmem_inv s (x # xs)" and wf: "pt_wf (mem s) root"
    and hp: "\<And>q. q \<in> tables (mem s) root \<Longrightarrow> heap_page s q"
    and disj: "tables (mem s) root \<inter> set (x # xs) = {}"
    using inv by (auto simp: vm_inv_def)
  have hx: "heap_page s x" and xs: "\<And>y. y \<in> set xs \<Longrightarrow> heap_page s y" and xn: "x \<notin> set xs"
    using ki by (auto simp: kmem_inv_def)
  have x0: "x \<noteq> 0" "KERNBASE \<le> kend s" using ki by (auto simp: kmem_inv_def)
  have xal: "page_aligned x" using hx by (simp add: heap_page_def)
  have pin: "p \<in> tables (mem s) root" using p by (auto intro: tablesI)
  have pal: "page_aligned p" using hp [OF pin] by (simp add: heap_page_def)
  have mframe: "?m a = mem s a" if "\<not> a - x < PGSIZE" for a
    using that by (simp add: memset_eq PGSIZE_def)
  have fr: "?m a = mem s a" if "q \<in> tables (mem s) root" "a - q < PGSIZE" for q a
  proof (rule mframe, rule ccontr)
    assume "\<not> \<not> a - x < PGSIZE"
    moreover have "page_aligned q" using hp that by (auto simp: heap_page_def)
    ultimately have "q = x" using that xal page_eqI [of q x a] by simp
    with disj that show False by simp
  qed
  have f: "tables ?m root = tables (mem s) root" "pt_wf ?m root"
    "leaf ?m root va = leaf (mem s) root va" for va
    by (rule pt_frame [OF wf], erule (1) fr)+
  have ta: "table_at ?m root js = table_at (mem s) root js" if "path_ok js" for js
    by (rule table_at_frame [OF wf _ that], erule (1) fr)
  have none': "next_table ?m p i = None"
    using none next_table_cong [OF pal i, of ?m "mem s"] fr [OF pin] by simp
  have zero: "read64 ?m (pte_slot x j) = 0" if "j < 512" for j
  proof -
    have "read64 ?m (pte_slot x j) = read64 (\<lambda>_. 0) (pte_slot x j)"
      using slot_in_page [OF xal that] by (intro read64_cong) (simp add: memset_eq PGSIZE_def)
    then show ?thesis by (simp add: read64_def)
  qed
  have xt: "x \<notin> tables ?m root" using disj f(1) by simp
  have p': "table_at ?m root is = Some p" using p ta by simp
  have ms: "mem s' = write64 ?m (pte_slot p i) (PA2PTE x OR PTE_V)"
    by (simp add: s'_def hang_table_mem)
  note at = add_table [OF f(2) p' p(2,3) i none' xal x0(1) xt, folded ms, OF zero]
  show tas: "table_at (mem s') root js = (if js = is @ [i] then Some x else table_at (mem s) root js)"
    if "path_ok js" for js
    using at(1) [OF _ that] ta [OF that] by simp
  show "leaf (mem s') root va = leaf (mem s) root va" for va using at(4) f(3) by simp
  have px: "p \<noteq> x" using pin disj by auto
  show "next_table (mem s') x j = None" if "j < 512" for j
    unfolding next_table_def ms using that px pal xal i zero by (simp add: read64_slot_write)
  have "kmem_inv (kalloc_result x s) xs" using ki by (rule kalloc_Cons)
  then have "kmem_inv (kalloc_result x s\<lparr>mem := mem s'\<rparr>) xs"
  proof (rule kmem_inv_mem)
    fix y assume y: "y \<in> set xs"
    have yal: "page_aligned y" using xs [OF y] by (simp add: heap_page_def)
    have py: "p \<noteq> y" "x \<noteq> y" using y disj pin xn by auto
    have y0: "pte_slot y 0 = y" by (simp add: pte_slot_def)
    have "read64 (mem s') (pte_slot y 0) = read64 ?m (pte_slot y 0)"
      unfolding ms using py pal yal i by (simp add: read64_slot_write)
    also have "\<dots> = read64 (mem (kalloc_result x s)) (pte_slot y 0)"
      using py yal xal page_eqI [of y x]
      by (intro read64_slot_cong) (auto simp: memset_eq PGSIZE_def)
    finally show "read64 (mem s') y = read64 (mem (kalloc_result x s)) y" by (simp add: y0)
  qed
  moreover have "kalloc_result x s\<lparr>mem := mem s'\<rparr> = s'" by (simp add: s'_def hang_table_def)
  ultimately have ki': "kmem_inv s' xs" by simp
  have ke: "kend s' = kend s" "kmem.more s' = kmem.more s"
    by (simp_all add: s'_def hang_table_def kalloc_result_def)
  have tb: "tables (mem s') root = insert x (tables (mem s) root)" using at(2) f(1) by simp
  have "untouched (mem s) (tables (mem s) root \<union> set (x # xs)) (mem s')"
    unfolding untouched_def
  proof (intro allI impI)
    fix a assume a: "\<forall>q\<in>tables (mem s) root \<union> set (x # xs). \<not> a - q < PGSIZE"
    then have "mem s' a = ?m a" unfolding ms using pin by (intro write64_slot_frame [OF pal i]) simp
    then show "mem s' a = mem s a" using a mframe by simp
  qed
  moreover have "vm_inv s' root xs"
    using ki' at(3) tb hp hx xn disj heap_page_kend [OF ke(1)] by (auto simp: vm_inv_def)
  moreover have "refcount_at q s' = refcount_at q s" if "heap_page s q" "q \<notin> set (x # xs)" for q
    using refcount_other [OF hx that(1) _ x0(2)] that(2)
    by (auto simp: refcount_at_def s'_def hang_table_def kalloc_result_def)
  ultimately show "grown root s (x # xs) s' xs"
    using ke tb by (auto simp: grown_def intro!: exI [of _ 1])
qed

section \<open>walk with allocation\<close>

lemma walk_loop_Some:
  "next_table (mem s) p (PX (Suc level) va) = Some q \<Longrightarrow>
     walk_loop (Suc level) p va alloc s = walk_loop level q va alloc s"
  by (simp add: next_table_def Let_def split: if_splits)

lemma walk_level1:
  assumes inv: "vm_inv s root fs" and p: "table_at (mem s) root [PX 2 va] = Some p" and len: "1 \<le> length fs"
  shows "\<exists>a s' fs'. walk_loop 1 p va True s = Inr (a, s') \<and> grown root s fs s' fs' \<and>
    length fs \<le> length fs' + 1 \<and> leaf_slot (mem s') root va = Some a \<and>
    (\<forall>va'. leaf (mem s') root va' = leaf (mem s) root va')"
proof (cases "next_table (mem s) p (PX 1 va)")
  case (Some q)
  then have "leaf_slot (mem s) root va = Some (pte_slot q (PX 0 va))"
    using p by (auto simp: leaf_slot_def split: Option.bind_splits)
  moreover have "walk_loop 1 p va True s = Inr (pte_slot q (PX 0 va), s)"
    using walk_loop_Some [of s p 0 va q True] Some by simp
  ultimately show ?thesis using grown_refl [OF inv] by (intro exI [of _ s] exI [of _ fs] exI) auto
next
  case None
  obtain x xs where fs: "fs = x # xs" using len by (cases fs) auto
  let ?s = "hang_table (pte_slot p (PX 1 va)) x s"
  have ok: "path_ok [PX 2 va]" "path_ok [PX 2 va, PX 1 va]" by (simp_all add: path_ok_1 path_ok_2)
  note h = hang_table_grown [OF inv [unfolded fs] p ok(1) _ _ None]
  have "walk_loop 1 p va True s = Inr (pte_slot x (PX 0 va), ?s)"
    using walk_loop_hang [of s x xs p 0 va] None inv by (simp add: fs vm_inv_def)
  moreover have "table_at (mem ?s) root [PX 2 va, PX 1 va] = Some x"
    using h(2) [OF _ _ ok(2)] by simp
  then have "leaf_slot (mem ?s) root va = Some (pte_slot x (PX 0 va))"
    by (simp add: leaf_slot_def del: table_at.simps)
  ultimately show ?thesis using h(1,3) fs by (intro exI [of _ ?s] exI [of _ xs] exI) auto
qed

lemma walk_alloc:
  assumes inv: "vm_inv s root fs" and va: "va < MAXVA" and len: "2 \<le> length fs"
  shows "\<exists>a s' fs'. walk root va True s = Inr (a, s') \<and> grown root s fs s' fs' \<and>
    length fs \<le> length fs' + 2 \<and> leaf_slot (mem s') root va = Some a \<and>
    (\<forall>va'. leaf (mem s') root va' = leaf (mem s) root va')"
proof (cases "next_table (mem s) root (PX 2 va)")
  case (Some p)
  then have p: "table_at (mem s) root [PX 2 va] = Some p" by simp
  have "walk root va True s = walk_loop 1 p va True s"
    using walk_loop_Some [of s root 1 va p True] Some not_le [THEN iffD2, OF va]
    by (simp add: walk_def numeral_2_eq_2 del: walk_loop.simps)
  then show ?thesis using walk_level1 [OF inv p] len by fastforce
next
  case None
  obtain x xs where fs: "fs = x # xs" using len by (cases fs) auto
  let ?s = "hang_table (pte_slot root (PX 2 va)) x s"
  have root: "table_at (mem s) root [] = Some root" by simp
  have ok: "path_ok [PX 2 va]" by (simp add: path_ok_1)
  note h = hang_table_grown [OF inv [unfolded fs] root path_ok_Nil _ _ None]
  have p: "table_at (mem ?s) root [PX 2 va] = Some x" using h(2) [OF _ _ ok] by simp
  have "walk root va True s = walk_loop 1 x va True ?s"
    using walk_loop_hang [of s x xs root 1 va] None inv not_le [THEN iffD2, OF va]
    by (simp add: fs vm_inv_def walk_def numeral_2_eq_2 del: walk_loop.simps)
  moreover have g: "grown root s fs ?s xs" using h(1) fs by simp
  moreover have "vm_inv ?s root xs" using g by (simp add: grown_def)
  then obtain a s' fs' where "walk_loop 1 x va True ?s = Inr (a, s')" "grown root ?s xs s' fs'"
    "length xs \<le> length fs' + 1" "leaf_slot (mem s') root va = Some a"
    "\<forall>va'. leaf (mem s') root va' = leaf (mem ?s) root va'"
    using walk_level1 [of ?s root xs va x] p len fs by auto
  ultimately show ?thesis using grown_trans [OF g] h(3) fs by (intro exI [of _ a] exI [of _ s'] exI [of _ fs']) auto
qed

section \<open>Writing leaf entries\<close>

text \<open>A store to a leaf entry keeps the invariant and changes one translation.\<close>

lemma leaf_slotE:
  assumes "leaf_slot m root va = Some a"
  obtains p where "p \<in> tables m root" "a = pte_slot p (PX 0 va)"
proof -
  obtain p where p: "table_at m root [PX 2 va, PX 1 va] = Some p" "a = pte_slot p (PX 0 va)"
    using assms by (auto simp: leaf_slot_def)
  moreover have "p \<in> tables m root" using p(1) by (intro tablesI [of "[PX 2 va, PX 1 va]"]) (simp_all add: path_ok_2)
  ultimately show ?thesis using that by blast
qed

lemma leaf_store_grown:
  assumes inv: "vm_inv s root fs" and slot: "leaf_slot (mem s) root va = Some a"
  shows "grown root s fs (s\<lparr>mem := write64 (mem s) a v\<rparr>) fs"
proof -
  obtain p where p: "p \<in> tables (mem s) root" "a = pte_slot p (PX 0 va)" using slot by (rule leaf_slotE)
  have wf: "pt_wf (mem s) root" and ki: "kmem_inv s fs" using inv by (auto simp: vm_inv_def)
  have pal: "page_aligned p" using p wf pt_wf_aligned by blast
  note lw = leaf_write [OF wf slot, where v = v]
  have "kmem_inv (s\<lparr>mem := write64 (mem s) a v\<rparr>) fs"
  proof (rule kmem_inv_mem [OF ki])
    fix y assume y: "y \<in> set fs"
    then have "page_aligned y" "p \<noteq> y" using ki p inv by (auto simp: kmem_inv_def heap_page_def vm_inv_def)
    then show "read64 (write64 (mem s) a v) y = read64 (mem s) y"
      using read64_slot_write [of p y "PX 0 va" 0 "mem s" v] pal p by (simp add: pte_slot_def)
  qed
  moreover have "untouched (mem s) (tables (mem s) root \<union> set fs) (write64 (mem s) a v)"
    using p pal by (auto simp: untouched_def write64_slot_frame)
  moreover have "heap_page (s\<lparr>mem := write64 (mem s) a v\<rparr>) = heap_page s" by (rule heap_page_kend) simp
  ultimately show ?thesis
    using inv lw by (auto simp: grown_def vm_inv_def refcount_at_def intro!: exI [of _ 0])
qed

lemma PX_neq:
  "va < MAXVA \<Longrightarrow> va' < MAXVA \<Longrightarrow> page_aligned va \<Longrightarrow> page_aligned va' \<Longrightarrow> va \<noteq> va' \<Longrightarrow>
     (PX 2 va', PX 1 va', PX 0 va') \<noteq> (PX 2 va, PX 1 va, PX 0 va)"
  using PX_inject by auto

section \<open>mappages of one page\<close>

lemma PGROUNDDOWN_last: "page_aligned va \<Longrightarrow> PGROUNDDOWN (va + PGSIZE - 1) = va"
proof -
  assume "page_aligned va"
  moreover have "va + PGSIZE - 1 = va + (PGSIZE - 1)" by simp
  moreover have "PGSIZE - 1 < PGSIZE" by (simp add: PGSIZE_def)
  ultimately show ?thesis using PGROUNDDOWN_add [of va "PGSIZE - 1"] by metis
qed

lemma mappages_one:
  assumes inv: "vm_inv s root fs" and va: "va < MAXVA" "page_aligned va" and len: "2 \<le> length fs"
    and free: "leaf (mem s) root va AND PTE_V = 0"
  shows "\<exists>s' fs'. mappages root va PGSIZE pa perm s = Inr (0, s') \<and> grown root s fs s' fs' \<and>
    length fs \<le> length fs' + 2 \<and> leaf (mem s') root va = PA2PTE pa OR perm OR PTE_V \<and>
    (\<forall>va'. va' < MAXVA \<and> page_aligned va' \<and> va' \<noteq> va \<longrightarrow> leaf (mem s') root va' = leaf (mem s) root va')"
proof -
  obtain a s1 fs1 where w: "walk root va True s = Inr (a, s1)" "grown root s fs s1 fs1"
    "length fs \<le> length fs1 + 2" "leaf_slot (mem s1) root va = Some a"
    "\<And>va'. leaf (mem s1) root va' = leaf (mem s) root va'"
    using walk_alloc [OF inv va(1) len] by blast
  let ?v = "PA2PTE pa OR perm OR PTE_V"
  let ?s = "s1\<lparr>mem := write64 (mem s1) a ?v\<rparr>"
  have inv1: "vm_inv s1 root fs1" using w(2) by (simp add: grown_def)
  then have wf1: "pt_wf (mem s1) root" by (simp add: vm_inv_def)
  have a0: "a \<noteq> 0" using leaf_slot_nonzero [OF wf1 w(4)] .
  have rd: "read64 (mem s1) a AND PTE_V = 0" using free w(5) [of va] w(4) by (simp add: leaf_def)
  have "mappages root va PGSIZE pa perm s = Inr (0, ?s)"
    using w(1) a0 rd va(2)
    by (simp add: mappages_def PGSIZE_def [symmetric] PGROUNDDOWN_last)
      (simp add: mappages_loop.simps Let_def PGSIZE_def)
  moreover have "grown root s fs ?s fs1" using grown_trans [OF w(2) leaf_store_grown [OF inv1 w(4)]] .
  moreover have "leaf (mem ?s) root va' = leaf (mem s) root va'"
    if "va' < MAXVA" "page_aligned va'" "va' \<noteq> va" for va'
    using w(5) leaf_write(5) [OF wf1 w(4) PX_neq [OF va(1) that(1) va(2) that(2)], where v = ?v] that(3)
    by simp
  ultimately show ?thesis
    using w(3) leaf_write(4) [OF wf1 w(4), where v = ?v]
    by (intro exI [of _ ?s] exI [of _ fs1]) simp
qed

section \<open>Other address spaces\<close>

lemma grown_other:
  assumes g: "grown root s fs s' fs'" and o: "vm_inv s other fs"
    and disj: "tables (mem s) other \<inter> tables (mem s) root = {}" and inv: "vm_inv s root fs"
  shows "vm_inv s' other fs'" and "tables (mem s') other = tables (mem s) other"
    and "tables (mem s') other \<inter> tables (mem s') root = {}"
    and "leaf (mem s') other va = leaf (mem s) other va"
    and "leaf_slot (mem s') other va = leaf_slot (mem s) other va"
proof -
  have wf: "pt_wf (mem s) other" using o by (simp add: vm_inv_def)
  have eq: "mem s' a = mem s a" if p: "p \<in> tables (mem s) other" "a - p < PGSIZE" for p a
  proof -
    have "\<not> a - q < PGSIZE" if q: "q \<in> tables (mem s) root \<union> set fs" for q
    proof
      assume "a - q < PGSIZE"
      moreover have "page_aligned p" "page_aligned q"
        using p q o inv by (auto simp: vm_inv_def heap_page_def kmem_inv_def)
      ultimately have "p = q" using p page_eqI [of p q a] by simp
      with p q o disj show False by (auto simp: vm_inv_def)
    qed
    then show ?thesis using g by (simp add: grown_def untouched_def)
  qed
  have f: "tables (mem s') other = tables (mem s) other" "pt_wf (mem s') other"
    "leaf_slot (mem s') other va = leaf_slot (mem s) other va"
    "leaf (mem s') other va = leaf (mem s) other va" for va
    by (rule pt_frame [OF wf], erule (1) eq)+
  show "tables (mem s') other = tables (mem s) other"
    "leaf (mem s') other va = leaf (mem s) other va"
    "leaf_slot (mem s') other va = leaf_slot (mem s) other va" by (fact f)+
  have u: "tables (mem s') root \<union> set fs' = tables (mem s) root \<union> set fs" using g by (simp add: grown_def)
  moreover have od: "tables (mem s) other \<inter> (tables (mem s) root \<union> set fs) = {}"
    using disj o by (auto simp: vm_inv_def)
  ultimately show "tables (mem s') other \<inter> tables (mem s') root = {}" unfolding f(1) by blast
  have "heap_page s' = heap_page s" using g by (intro heap_page_kend) (simp add: grown_def)
  moreover have "kmem_inv s' fs'" using g by (simp add: grown_def vm_inv_def)
  ultimately show "vm_inv s' other fs'"
    using o od u f(2) unfolding vm_inv_def f(1) by auto
qed

section \<open>uvmcopy: sharing copy-on-write\<close>

definition cow_entry :: "uint64 \<Rightarrow> uint64" where
  "cow_entry pte = PA2PTE (PTE2PA pte) OR ((PTE_FLAGS pte AND NOT PTE_W) OR PTE_COW)"

definition page_range :: "uint64 \<Rightarrow> uint64 \<Rightarrow> uint64 set" where
  "page_range i sz = {va. page_aligned va \<and> i \<le> va \<and> va < sz}"

lemma page_range_step:
  assumes "page_aligned i" "i < sz" "sz \<le> MAXVA"
  shows "page_range i sz = insert i (page_range (i + PGSIZE) sz)" "i \<notin> page_range (i + PGSIZE) sz"
proof -
  have "i < MAXVA" using assms by simp
  note n = unat_add_PGSIZE_MAXVA [OF this]
  have "i + PGSIZE \<le> va" if va: "page_aligned va" "i \<le> va" "i \<noteq> va" for va
  proof -
    obtain a where "unat va = 4096 * a" using va(1) unfolding page_aligned_dvd by (blast elim: dvdE)
    moreover obtain b where "unat i = 4096 * b" using assms(1) unfolding page_aligned_dvd by (blast elim: dvdE)
    moreover have "unat i \<noteq> unat va" using va(3) by (simp add: word_unat_eq_iff)
    ultimately show ?thesis using va(2) n by (simp add: word_le_nat_alt)
  qed
  then show "page_range i sz = insert i (page_range (i + PGSIZE) sz)"
    using assms n by (auto simp: page_range_def word_le_nat_alt)
  show "i \<notin> page_range (i + PGSIZE) sz" using n by (auto simp: page_range_def word_le_nat_alt)
qed

lemma PTE_flag_lt: "PTE_V < 1024" "PTE_COW < 1024" "PTE_W < 1024"
  by (simp_all add: pte_flag_defs word_less_nat_alt)

lemma bit_flags:
  "bit PTE_V n \<longleftrightarrow> n = 0" "bit PTE_W n \<longleftrightarrow> n = 2" "bit PTE_COW n \<longleftrightarrow> n = 8" "bit PTE_U n \<longleftrightarrow> n = 4"
  "bit PTE_R n \<longleftrightarrow> n = 1" "bit PTE_X n \<longleftrightarrow> n = 3"
  unfolding pte_flag_defs push_bit_of_1 bit_exp_iff by auto

lemma and_flag_iff:
  "v AND PTE_V = 0 \<longleftrightarrow> \<not> bit v 0" "v AND PTE_W = 0 \<longleftrightarrow> \<not> bit v 2"
  "v AND PTE_COW = 0 \<longleftrightarrow> \<not> bit v 8" "v AND PTE_U = 0 \<longleftrightarrow> \<not> bit v 4"
proof -
  have "v AND push_bit k 1 = 0 \<longleftrightarrow> \<not> bit v k" if "k < 64" for k and v :: uint64
    using that by (simp add: push_bit_of_1 and_exp_eq_0_iff_not_bit)
  from this [of 0] this [of 2] this [of 8] this [of 4]
  show "v AND PTE_V = 0 \<longleftrightarrow> \<not> bit v 0" "v AND PTE_W = 0 \<longleftrightarrow> \<not> bit v 2"
    "v AND PTE_COW = 0 \<longleftrightarrow> \<not> bit v 8" "v AND PTE_U = 0 \<longleftrightarrow> \<not> bit v 4"
    by (simp_all only: pte_flag_defs)
qed

lemma bit_PTE_FLAGS: "bit (PTE_FLAGS pte) n \<longleftrightarrow> n < 10 \<and> bit pte n"
proof -
  have m: "(0x3FF :: uint64) = mask 10" by (simp add: mask_eq_exp_minus_1)
  show ?thesis by (auto simp: PTE_FLAGS_def m bit_and_iff bit_mask_iff)
qed

lemma cow_flags_lt: "(PTE_FLAGS pte AND NOT PTE_W) OR PTE_COW < 1024"
proof -
  have "take_bit 10 ((PTE_FLAGS pte AND NOT PTE_W) OR PTE_COW) = (PTE_FLAGS pte AND NOT PTE_W) OR PTE_COW"
    by (rule bit_word_eqI) (auto simp: bit_take_bit_iff bit_or_iff bit_and_iff bit_flags bit_PTE_FLAGS)
  moreover have "take_bit 10 v < 2 ^ 10" for v :: uint64
    unfolding take_bit_eq_mask by (rule and_mask_less') simp
  ultimately have "(PTE_FLAGS pte AND NOT PTE_W) OR PTE_COW < 2 ^ 10" by metis
  then show ?thesis by simp
qed

lemma PTE2PA_cow [simp]: "PTE2PA (cow_entry pte) = PTE2PA pte"
  by (simp add: cow_entry_def cow_flags_lt)

lemma PTE_FLAGS_cow [simp]: "PTE_FLAGS (cow_entry pte) = (PTE_FLAGS pte AND NOT PTE_W) OR PTE_COW"
  by (simp add: cow_entry_def cow_flags_lt)

lemma bit_cow_entry:
  assumes "n < 10" shows "bit (cow_entry pte) n \<longleftrightarrow> n = 8 \<or> n \<noteq> 2 \<and> bit pte n"
proof -
  have "bit (cow_entry pte) n = bit (PTE_FLAGS (cow_entry pte)) n"
    using assms by (simp add: bit_PTE_FLAGS del: PTE_FLAGS_cow)
  then show ?thesis using assms
    by (auto simp: bit_or_iff bit_and_iff bit_flags bit_PTE_FLAGS bit_not_iff)
qed

lemma cow_entry_valid: "pte AND PTE_V \<noteq> 0 \<Longrightarrow> cow_entry pte OR PTE_V = cow_entry pte"
  by (rule bit_word_eqI) (auto simp: bit_or_iff bit_flags bit_cow_entry and_flag_iff)

text \<open>The pages still to share, and what sharing them does.\<close>

definition shareable :: "'a kmem_scheme \<Rightarrow> addr \<Rightarrow> addr \<Rightarrow> addr list \<Rightarrow> uint64 \<Rightarrow> uint64 \<Rightarrow> bool" where
  "shareable s old new fs i sz \<longleftrightarrow>
     vm_inv s old fs \<and> vm_inv s new fs \<and> tables (mem s) old \<inter> tables (mem s) new = {} \<and>
     (\<forall>va\<in>page_range i sz. leaf (mem s) old va AND PTE_V \<noteq> 0 \<and> leaf (mem s) new va AND PTE_V = 0 \<and>
        heap_page s (PTE2PA (leaf (mem s) old va)) \<and> PTE2PA (leaf (mem s) old va) \<notin> set fs)"

definition mapped_by :: "memory \<Rightarrow> addr \<Rightarrow> uint64 set \<Rightarrow> addr \<Rightarrow> uint64 set" where
  "mapped_by m root ps q = {va\<in>ps. PTE2PA (leaf m root va) = q}"

lemma heap_page_mem [simp]: "heap_page (s\<lparr>mem := m\<rparr>) = heap_page s"
  by (simp add: heap_page_def fun_eq_iff)

lemma vm_inv_refcounts [simp]: "vm_inv (s\<lparr>refcounts := r\<rparr>) root fs = vm_inv s root fs"
  by (simp add: vm_inv_def)

lemma uvmcopy_step:
  assumes sh: "shareable s old new fs i sz" and i: "page_aligned i" "i < sz" "sz \<le> MAXVA"
    and len: "2 \<le> length fs"
  defines "pte \<equiv> leaf (mem s) old i"
  shows "\<exists>s' fs'. uvmcopy_loop old new i sz s = uvmcopy_loop old new (i + PGSIZE) sz s' \<and>
    shareable s' old new fs' (i + PGSIZE) sz \<and> length fs \<le> length fs' + 2 \<and> set fs' \<subseteq> set fs \<and>
    leaf (mem s') old i = cow_entry pte \<and> leaf (mem s') new i = cow_entry pte \<and>
    (\<forall>va. va < MAXVA \<and> page_aligned va \<and> va \<noteq> i \<longrightarrow>
       leaf (mem s') old va = leaf (mem s) old va \<and> leaf (mem s') new va = leaf (mem s) new va) \<and>
    tables (mem s') old = tables (mem s) old \<and>
    tables (mem s') new \<union> set fs' = tables (mem s) new \<union> set fs \<and>
    untouched (mem s) (tables (mem s) old \<union> tables (mem s) new \<union> set fs) (mem s') \<and>
    kend s' = kend s \<and>
    (\<forall>q. heap_page s q \<and> q \<notin> set fs \<longrightarrow>
       refcount_at q s' = refcount_at q s + (if q = PTE2PA pte then 1 else 0))"
proof -
  have iM: "i < MAXVA" using i by simp
  have inv: "vm_inv s old fs" "vm_inv s new fs" and disj: "tables (mem s) old \<inter> tables (mem s) new = {}"
    using sh by (auto simp: shareable_def)
  have iin: "i \<in> page_range i sz" using i by (simp add: page_range_def)
  have v: "pte AND PTE_V \<noteq> 0" "leaf (mem s) new i AND PTE_V = 0" "heap_page s (PTE2PA pte)"
      "PTE2PA pte \<notin> set fs"
    using sh iin by (auto simp: shareable_def pte_def)
  then obtain a where a: "leaf_slot (mem s) old i = Some a" "read64 (mem s) a = pte"
    by (auto simp: pte_def leaf_def split: option.splits)
  have wf: "pt_wf (mem s) old" using inv by (simp add: vm_inv_def)
  let ?s1 = "s\<lparr>mem := write64 (mem s) a (cow_entry pte)\<rparr>"
  have g1: "grown old s fs ?s1 fs" by (rule leaf_store_grown [OF inv(1) a(1)])
  have disj': "tables (mem s) new \<inter> tables (mem s) old = {}" using disj by blast
  note o1 = grown_other [OF g1 inv(2) disj' inv(1)]
  have l1: "leaf (mem ?s1) old i = cow_entry pte" using leaf_write(4) [OF wf a(1)] by simp
  have l1': "leaf (mem ?s1) old va = leaf (mem s) old va"
    if "va < MAXVA" "page_aligned va" "va \<noteq> i" for va
    using leaf_write(5) [OF wf a(1) PX_neq [OF iM that(1) i(1) that(2)]] that(3) by simp
  have tb1: "tables (mem ?s1) old = tables (mem s) old" using leaf_write(2) [OF wf a(1)] by simp
  have inv1: "vm_inv ?s1 old fs" using g1 by (simp add: grown_def)
  have "leaf (mem ?s1) new i AND PTE_V = 0" using o1(4) v(2) by simp
  then obtain s2 fs2 where m: "mappages new i PGSIZE (PTE2PA pte) ((PTE_FLAGS pte AND NOT PTE_W) OR PTE_COW) ?s1
        = Inr (0, s2)" and g2: "grown new ?s1 fs s2 fs2" "length fs \<le> length fs2 + 2"
      and l2: "leaf (mem s2) new i = PA2PTE (PTE2PA pte) OR ((PTE_FLAGS pte AND NOT PTE_W) OR PTE_COW) OR PTE_V"
      and l2': "\<And>va'. va' < MAXVA \<and> page_aligned va' \<and> va' \<noteq> i \<Longrightarrow> leaf (mem s2) new va' = leaf (mem ?s1) new va'"
    using mappages_one [OF o1(1) iM i(1) len, of "PTE2PA pte" "(PTE_FLAGS pte AND NOT PTE_W) OR PTE_COW"] by blast
  have l2c: "leaf (mem s2) new i = cow_entry pte"
    using l2 cow_entry_valid [OF v(1)] by (simp add: cow_entry_def or.assoc)
  note o2 = grown_other [OF g2(1) inv1 _ o1(1)]
  have dj1: "tables (mem ?s1) old \<inter> tables (mem ?s1) new = {}" using o1(3) by blast
  have kb: "KERNBASE \<le> kend s" using inv by (simp add: vm_inv_def kmem_inv_def)
  have idx: "pa_to_idx (PTE2PA pte) < NPHYSPAGES" using heap_page_idx [OF v(3) kb] .
  let ?s3 = "s2\<lparr>refcounts := (refcounts s2)(pa_to_idx (PTE2PA pte) := refcount_at (PTE2PA pte) s2 + 1)\<rparr>"
  have a0: "a \<noteq> 0" using leaf_slot_nonzero [OF wf a(1)] .
  have w: "walk old i False s = Inr (a, s)" by (simp add: walk_lookup [OF iM] a(1))
  have run: "uvmcopy_loop old new i sz s = uvmcopy_loop old new (i + PGSIZE) sz ?s3"
    using i(2) w a0 a(2) v(1) m
    by (subst uvmcopy_loop.simps) (simp add: Let_def cow_entry_def kref_inc_ok [OF idx])
  have sub: "set fs2 \<subseteq> set fs" using g2 by (auto simp: grown_def dest: in_set_dropD)
  have ke: "kend s2 = kend s" using g2 by (simp add: grown_def)
  have hp: "heap_page s2 = heap_page s" using ke by (rule heap_page_kend)
  have hp3: "heap_page ?s3 = heap_page s" using hp by (simp add: fun_eq_iff)
  have lo: "leaf (mem s2) old va = leaf (mem ?s1) old va" for va by (rule o2(4) [OF dj1])
  have ls: "leaf (mem s2) old va = leaf (mem s) old va \<and> leaf (mem s2) new va = leaf (mem s) new va"
    if "va < MAXVA" "page_aligned va" "va \<noteq> i" for va
    using that lo l1' l2' o1(4) by simp
  have rng: "va < MAXVA \<and> page_aligned va \<and> va \<noteq> i \<and> va \<in> page_range i sz"
    if "va \<in> page_range (i + PGSIZE) sz" for va
  proof -
    have "va \<in> page_range i sz" "va \<noteq> i" using page_range_step [OF i] that by blast+
    then show ?thesis using less_le_trans [OF _ i(3), of va] by (simp add: page_range_def)
  qed
  have sh3: "shareable ?s3 old new fs2 (i + PGSIZE) sz"
    unfolding shareable_def hp3
  proof (intro conjI ballI)
    show "vm_inv ?s3 old fs2" "vm_inv ?s3 new fs2" using o2(1) [OF dj1] g2 by (simp_all add: grown_def)
    show "tables (mem ?s3) old \<inter> tables (mem ?s3) new = {}" using o2(3) [OF dj1] by simp
    fix va assume va: "va \<in> page_range (i + PGSIZE) sz"
    note r = rng [OF va]
    show "leaf (mem ?s3) old va AND PTE_V \<noteq> 0" "leaf (mem ?s3) new va AND PTE_V = 0"
      "heap_page s (PTE2PA (leaf (mem ?s3) old va))" "PTE2PA (leaf (mem ?s3) old va) \<notin> set fs2"
      using ls [of va] r sh sub by (auto simp: shareable_def)
  qed
  have unt: "untouched (mem s) (tables (mem s) old \<union> tables (mem s) new \<union> set fs) (mem s2)"
  proof (rule untouched_trans)
    show "untouched (mem s) (tables (mem s) old \<union> tables (mem s) new \<union> set fs) (mem ?s1)"
      using g1 by (auto simp: grown_def intro: untouched_mono)
    show "untouched (mem ?s1) (tables (mem s) old \<union> tables (mem s) new \<union> set fs) (mem s2)"
      using g2(1) o1(2) by (auto simp: grown_def intro: untouched_mono)
  qed
  have rc: "refcount_at q ?s3 = refcount_at q s + (if q = PTE2PA pte then 1 else 0)"
    if "heap_page s q" "q \<notin> set fs" for q
  proof -
    have "refcount_at q s2 = refcount_at q s"
      using g2(1) that by (auto simp: grown_def refcount_at_def)
    then show ?thesis using refcount_other [OF that(1) v(3) _ kb] by (auto simp: refcount_at_def)
  qed
  have tbo: "tables (mem s2) old = tables (mem s) old" using o2(2) [OF dj1] tb1 by simp
  have tbn: "tables (mem s2) new \<union> set fs2 = tables (mem s) new \<union> set fs"
    using g2(1) o1(2) by (simp add: grown_def)
  show ?thesis
  proof (intro exI [of _ ?s3] exI [of _ fs2] conjI)
    show "leaf (mem ?s3) old i = cow_entry pte" using lo l1 by simp
    show "leaf (mem ?s3) new i = cow_entry pte" using l2c by simp
    show "\<forall>va. va < MAXVA \<and> page_aligned va \<and> va \<noteq> i \<longrightarrow>
       leaf (mem ?s3) old va = leaf (mem s) old va \<and> leaf (mem ?s3) new va = leaf (mem s) new va"
      using ls by simp
    show "\<forall>q. heap_page s q \<and> q \<notin> set fs \<longrightarrow>
       refcount_at q ?s3 = refcount_at q s + (if q = PTE2PA pte then 1 else 0)" using rc by blast
  qed (use run sh3 g2(2) sub unt ke tbo tbn in simp_all)
qed


lemma uvmcopy_loop_done: "\<not> i < sz \<Longrightarrow> uvmcopy_loop old new i sz s = Inr (0, s)"
  by (subst uvmcopy_loop.simps) simp

lemma page_range_empty: "\<not> i < sz \<Longrightarrow> page_range i sz = {}"
  by (auto simp: page_range_def)

lemma uvmcopy_loop_shares:
  assumes "shareable s old new fs i sz" "page_aligned i" "sz \<le> MAXVA" "i \<le> MAXVA"
    and "2 * card (page_range i sz) \<le> length fs"
  shows "\<exists>s' fs'. uvmcopy_loop old new i sz s = Inr (0, s') \<and>
    vm_inv s' old fs' \<and> vm_inv s' new fs' \<and> tables (mem s') old \<inter> tables (mem s') new = {} \<and>
    set fs' \<subseteq> set fs \<and> kend s' = kend s \<and> tables (mem s') old = tables (mem s) old \<and>
    tables (mem s') new \<union> set fs' = tables (mem s) new \<union> set fs \<and>
    length fs \<le> length fs' + 2 * card (page_range i sz) \<and>
    (\<forall>va. va < MAXVA \<and> page_aligned va \<longrightarrow>
       leaf (mem s') old va = (if va \<in> page_range i sz then cow_entry (leaf (mem s) old va) else leaf (mem s) old va) \<and>
       leaf (mem s') new va = (if va \<in> page_range i sz then cow_entry (leaf (mem s) old va) else leaf (mem s) new va)) \<and>
    untouched (mem s) (tables (mem s) old \<union> tables (mem s) new \<union> set fs) (mem s') \<and>
    (\<forall>q. heap_page s q \<and> q \<notin> set fs \<longrightarrow>
       refcount_at q s' = refcount_at q s + of_nat (card (mapped_by (mem s) old (page_range i sz) q)))"
  using assms
proof (induction "unat MAXVA - unat i" arbitrary: i s fs rule: less_induct)
  case less
  show ?case
  proof (cases "i < sz")
    case False
    then show ?thesis using less.prems
      by (intro exI [of _ s] exI [of _ fs])
        (auto simp: uvmcopy_loop_done page_range_empty shareable_def untouched_def mapped_by_def)
  next
    case True
    then have iM: "i < MAXVA" using less.prems(3) by simp
    note n = unat_add_PGSIZE_MAXVA [OF iM]
    note pr = page_range_step [OF less.prems(2) True less.prems(3)]
    let ?P = "page_range (i + PGSIZE) sz"
    have cP: "card (page_range i sz) = Suc (card ?P)" using pr by simp
    obtain s1 fs1 where st: "uvmcopy_loop old new i sz s = uvmcopy_loop old new (i + PGSIZE) sz s1"
      "shareable s1 old new fs1 (i + PGSIZE) sz" "length fs \<le> length fs1 + 2" "set fs1 \<subseteq> set fs"
      and li: "leaf (mem s1) old i = cow_entry (leaf (mem s) old i)" "leaf (mem s1) new i = cow_entry (leaf (mem s) old i)"
      and lo: "\<And>va. va < MAXVA \<Longrightarrow> page_aligned va \<Longrightarrow> va \<noteq> i \<Longrightarrow>
        leaf (mem s1) old va = leaf (mem s) old va \<and> leaf (mem s1) new va = leaf (mem s) new va"
      and tb: "tables (mem s1) old = tables (mem s) old"
        "tables (mem s1) new \<union> set fs1 = tables (mem s) new \<union> set fs"
      and un: "untouched (mem s) (tables (mem s) old \<union> tables (mem s) new \<union> set fs) (mem s1)"
      and ke: "kend s1 = kend s"
      and rc: "\<And>q. heap_page s q \<Longrightarrow> q \<notin> set fs \<Longrightarrow>
        refcount_at q s1 = refcount_at q s + (if q = PTE2PA (leaf (mem s) old i) then 1 else 0)"
      using uvmcopy_step [OF less.prems(1,2) True less.prems(3)] less.prems(5) cP by auto
    have al: "page_aligned (i + PGSIZE)" using less.prems(2) by (simp add: page_aligned_add)
    have le: "i + PGSIZE \<le> MAXVA"
    proof -
      obtain b where "unat i = 4096 * b" using less.prems(2) unfolding page_aligned_dvd by (blast elim: dvdE)
      then show ?thesis using n iM by (simp add: word_le_nat_alt word_less_nat_alt MAXVA_eq)
    qed
    have m: "unat MAXVA - unat (i + PGSIZE) < unat MAXVA - unat i"
      using n iM by (simp add: word_less_nat_alt)
    have len: "2 * card ?P \<le> length fs1" using less.prems(5) cP st(3) by simp
    have notin: "i \<notin> ?P" by (rule pr(2))
    obtain s' fs' where r: "uvmcopy_loop old new (i + PGSIZE) sz s1 = Inr (0, s')"
      "vm_inv s' old fs'" "vm_inv s' new fs'" "tables (mem s') old \<inter> tables (mem s') new = {}" "set fs' \<subseteq> set fs1"
      "kend s' = kend s1" "tables (mem s') old = tables (mem s1) old"
      "tables (mem s') new \<union> set fs' = tables (mem s1) new \<union> set fs1" "length fs1 \<le> length fs' + 2 * card ?P"
      and rl: "\<And>va. va < MAXVA \<Longrightarrow> page_aligned va \<Longrightarrow>
        leaf (mem s') old va = (if va \<in> ?P then cow_entry (leaf (mem s1) old va) else leaf (mem s1) old va) \<and>
        leaf (mem s') new va = (if va \<in> ?P then cow_entry (leaf (mem s1) old va) else leaf (mem s1) new va)"
      and ru: "untouched (mem s1) (tables (mem s1) old \<union> tables (mem s1) new \<union> set fs1) (mem s')"
      and rr: "\<And>q. heap_page s1 q \<Longrightarrow> q \<notin> set fs1 \<Longrightarrow>
        refcount_at q s' = refcount_at q s1 + of_nat (card (mapped_by (mem s1) old ?P q))"
      using less.hyps [OF m st(2) al less.prems(3) le len] by auto
    have hp: "heap_page s1 = heap_page s" using ke by (rule heap_page_kend)
    have leq: "leaf (mem s1) old va = leaf (mem s) old va" if "va \<in> ?P" for va
    proof -
      have "page_aligned va" "va < MAXVA" "va \<noteq> i"
        using that notin less_le_trans [OF _ less.prems(3), of va] by (auto simp: page_range_def)
      then show ?thesis using lo by blast
    qed
    have mb: "mapped_by (mem s) old (page_range i sz) q =
        (if q = PTE2PA (leaf (mem s) old i) then insert i (mapped_by (mem s1) old ?P q)
         else mapped_by (mem s1) old ?P q)" for q
      unfolding mapped_by_def pr(1) using leq by auto
    have "i \<notin> mapped_by (mem s1) old ?P q" for q using notin by (simp add: mapped_by_def)
    then have card: "(of_nat (card (mapped_by (mem s) old (page_range i sz) q)) :: uint8) =
        (if q = PTE2PA (leaf (mem s) old i) then 1 else 0) + of_nat (card (mapped_by (mem s1) old ?P q))" for q
      unfolding mb by simp
    show ?thesis
    proof (intro exI [of _ s'] exI [of _ fs'] conjI allI impI)
      fix va assume va: "va < MAXVA \<and> page_aligned va"
      show "leaf (mem s') old va = (if va \<in> page_range i sz then cow_entry (leaf (mem s) old va) else leaf (mem s) old va)"
        "leaf (mem s') new va = (if va \<in> page_range i sz then cow_entry (leaf (mem s) old va) else leaf (mem s) new va)"
        using va rl [of va] lo [of va] li notin leq [of va] unfolding pr(1) by (cases "va = i"; simp)+
    next
      fix q assume q: "heap_page s q \<and> q \<notin> set fs"
      then have "q \<notin> set fs1" using st(4) by auto
      with q show "refcount_at q s' = refcount_at q s + of_nat (card (mapped_by (mem s) old (page_range i sz) q))"
        using rr [of q] rc [of q] hp card [of q] by (simp add: add.assoc)
    next
      have "tables (mem s1) old \<union> tables (mem s1) new \<union> set fs1 = tables (mem s) old \<union> tables (mem s) new \<union> set fs"
        using tb by (simp add: Un_assoc)
      then show "untouched (mem s) (tables (mem s) old \<union> tables (mem s) new \<union> set fs) (mem s')"
        using untouched_trans [OF un] ru by simp
    qed (use st r tb ke cP in auto)
  qed
qed

end
