(* ===== verification/Cow.thy ===== *)
theory Cow
  imports Addrspace
begin

text \<open>
  Copy-on-write: \<open>cow_fault\<close> is the store-page-fault branch of \<^verbatim>\<open>usertrap\<close> (\<^verbatim>\<open>trap.c\<close>).
  The properties follow a page through \<^verbatim>\<open>fork\<close>: \<open>uvmcopy\<close> shares every frame read-only and
  counts the references, and the fault gives the writer a private copy and leaves every other
  address space as it was. Two properties show where the sharing is not kept: \<open>copyout\<close>
  stores through shared entries, and a page that was read-only before the fork is writable
  after a fault.
\<close>

text \<open>The result tells whether the faulting process is to be killed (\<^verbatim>\<open>setkilled\<close>).\<close>

definition cow_fault :: "addr \<Rightarrow> uint64 \<Rightarrow> 'a kmem_scheme \<Rightarrow> (bool \<times> 'a kmem_scheme) kres" where
  "cow_fault pagetable va s =
     (if MAXVA \<le> va then Inr (True, s)
      else kbind (walk pagetable va False s) (\<lambda>(pte, s).
        if pte = 0 \<or> read64 (mem s) pte AND PTE_V = 0 \<or> read64 (mem s) pte AND PTE_U = 0
        then Inr (True, s)
        else if read64 (mem s) pte AND PTE_COW \<noteq> 0
        then let pa = PTE2PA (read64 (mem s) pte)
          in kbind (kalloc s) (\<lambda>(m, s).
               if m = 0 then Inr (True, s)
               else let s = s\<lparr>mem := memmove (mem s) m pa 4096\<rparr>;
                        flags = (PTE_FLAGS (read64 (mem s) pte) AND NOT PTE_COW) OR PTE_W
                 in kbind (kref_dec pa (s\<lparr>mem := write64 (mem s) pte (PA2PTE m OR flags)\<rparr>)) (\<lambda>s.
                   Inr (False, s)))
        else Inr (True, s)))"

section \<open>Taking a page for user data\<close>

lemma alloc_page_inv:
  assumes inv: "vm_inv s root (x # xs)" and m': "\<And>a. \<not> a - x < PGSIZE \<Longrightarrow> m' a = mem s a"
  defines "s' \<equiv> kalloc_result x s\<lparr>mem := m'\<rparr>"
  shows "vm_inv s' root xs" "leaf m' root va = leaf (mem s) root va"
    "leaf_slot m' root va = leaf_slot (mem s) root va" "tables m' root = tables (mem s) root"
proof -
  have ki: "kmem_inv s (x # xs)" and wf: "pt_wf (mem s) root" using inv by (simp_all add: vm_inv_def)
  have xal: "page_aligned x" using ki by (auto simp: kmem_inv_def heap_page_def)
  have out: "m' a = mem s a" if "page_aligned p" "p \<noteq> x" "a - p < PGSIZE" for p a
    using that xal page_eqI [of p x a] by (intro m') blast
  have fr: "m' a = mem s a" if p: "p \<in> tables (mem s) root" "a - p < PGSIZE" for p a
    using p inv by (intro out [of p]) (auto simp: vm_inv_def heap_page_def)
  have f: "tables m' root = tables (mem s) root" "pt_wf m' root"
    "leaf_slot m' root va = leaf_slot (mem s) root va" "leaf m' root va = leaf (mem s) root va" for va
    by (rule pt_frame [OF wf], erule (1) fr)+
  show "leaf m' root va = leaf (mem s) root va" "leaf_slot m' root va = leaf_slot (mem s) root va"
    "tables m' root = tables (mem s) root" by (fact f)+
  have "kmem_inv s' xs" unfolding s'_def
  proof (rule kmem_inv_mem [OF kalloc_Cons(2) [OF ki]])
    fix y assume y: "y \<in> set xs"
    then have yal: "page_aligned y" "y \<noteq> x" using ki by (auto simp: kmem_inv_def heap_page_def)
    have "read64 m' (pte_slot y 0) = read64 (mem (kalloc_result x s)) (pte_slot y 0)"
      using yal xal page_eqI [of y x] out [OF yal]
      by (intro read64_slot_cong) (auto simp: memset_eq PGSIZE_def)
    then show "read64 m' y = read64 (mem (kalloc_result x s)) y" by (simp add: pte_slot_def)
  qed
  moreover have "heap_page s' = heap_page s" by (simp add: s'_def)
  ultimately show "vm_inv s' root xs"
    using inv f by (auto simp: vm_inv_def s'_def)
qed

lemma walkaddr_leaf:
  assumes "pt_wf (mem s) root" "va < MAXVA"
  shows "walkaddr root va s = Inr (if leaf (mem s) root va AND PTE_V = 0 \<or> leaf (mem s) root va AND PTE_U = 0
    then 0 else PTE2PA (leaf (mem s) root va))"
  using assms leaf_slot_nonzero [OF assms(1), of va]
  by (auto simp: walkaddr_def walk_lookup leaf_def not_le [symmetric] split: option.splits)


definition private_entry :: "addr \<Rightarrow> uint64 \<Rightarrow> uint64" where
  "private_entry x pte = PA2PTE x OR ((PTE_FLAGS pte AND NOT PTE_COW) OR PTE_W)"

lemma heap_page_no_wrap: "heap_page s p \<Longrightarrow> unat p + unat (4096 :: uint) \<le> 2 ^ 64"
  by (simp add: heap_page_def word_less_nat_alt layout_defs)

text \<open>The copy: the new page holds the bytes of the old one and nothing else changes.\<close>

lemma memmove_page:
  assumes "heap_page s x" "heap_page s pa" "x \<noteq> pa"
  shows "memmove (memset m x 5 4096) x pa 4096 = (\<lambda>a. if a - x < PGSIZE then m (pa + (a - x)) else m a)"
proof -
  have al: "page_aligned x" "page_aligned pa" using assms by (auto simp: heap_page_def)
  have "\<not> pa + (a - x) - x < PGSIZE" if "a - x < PGSIZE" for a
    using that al assms(3) page_disjoint [of pa x "a - x"] by simp
  then show ?thesis
    unfolding memmove_eq [OF heap_page_no_wrap heap_page_no_wrap, OF assms(1,2)] memset_eq
    by (auto simp: PGSIZE_def fun_eq_iff)
qed

lemma PX_PGROUNDDOWN [simp]: "PX level (PGROUNDDOWN va) = PX level va"
  by (rule bit_word_eqI) (auto simp: bit_PX bit_PGROUNDDOWN)

lemma PGROUNDDOWN_le_MAXVA: "va < MAXVA \<Longrightarrow> PGROUNDDOWN va < MAXVA"
  by (auto simp: word_less_nat_alt unat_PGROUNDDOWN MAXVA_eq)

lemma leaf_PGROUNDDOWN [simp]:
  "leaf_slot m root (PGROUNDDOWN va) = leaf_slot m root va" "leaf m root (PGROUNDDOWN va) = leaf m root va"
  by (simp_all add: leaf_slot_def leaf_def)

text \<open>One step of the fault handler after the look-up.\<close>

lemma cow_fault_run:
  assumes inv: "vm_inv s root (x # xs)" and va: "va < MAXVA" and slot: "leaf_slot (mem s) root va = Some a"
    and pte: "leaf (mem s) root va = pte" "pte AND PTE_V \<noteq> 0" "pte AND PTE_U \<noteq> 0" "pte AND PTE_COW \<noteq> 0"
    and pa: "heap_page s (PTE2PA pte)" "PTE2PA pte \<noteq> x"
  defines "m1 \<equiv> (\<lambda>b. if b - x < PGSIZE then mem s (PTE2PA pte + (b - x)) else mem s b)"
  shows "cow_fault root va s = kbind
    (kref_dec (PTE2PA pte) (kalloc_result x s\<lparr>mem := write64 m1 a (private_entry x pte)\<rparr>)) (\<lambda>s. Inr (False, s))"
proof -
  have ki: "kmem_inv s (x # xs)" using inv by (simp add: vm_inv_def)
  have hx: "heap_page s x" "x \<noteq> 0" using ki by (auto simp: kmem_inv_def)
  have a0: "a \<noteq> 0" using leaf_slot_nonzero [OF _ slot] inv by (simp add: vm_inv_def)
  have rd: "read64 (mem s) a = pte" using pte(1) slot by (simp add: leaf_def)
  have mm: "memmove (memset (mem s) x 5 4096) x (PTE2PA pte) 4096 = m1"
    using memmove_page [OF hx(1) pa(1)] pa(2) by (auto simp: m1_def)
  have "leaf m1 root va = leaf (mem s) root va" "leaf_slot m1 root va = leaf_slot (mem s) root va"
    using alloc_page_inv(2,3) [OF inv, of m1] by (simp_all add: m1_def)
  then have rd1: "read64 m1 a = pte" using pte(1) slot by (simp add: leaf_def)
  have "walk root va False s = Inr (a, s)" by (simp add: walk_lookup [OF va] slot)
  then show ?thesis
    using va a0 rd pte hx kalloc_Cons(1) [OF ki] rd1
    by (simp add: cow_fault_def not_le [symmetric] Let_def mm private_entry_def)
qed

lemma cow_fault_copies:
  assumes inv: "vm_inv s root (x # xs)" and va: "va < MAXVA"
    and pte: "leaf (mem s) root va = pte" "pte AND PTE_V \<noteq> 0" "pte AND PTE_U \<noteq> 0" "pte AND PTE_COW \<noteq> 0"
    and pa: "heap_page s (PTE2PA pte)" "PTE2PA pte \<notin> set (x # xs)" "refcount_at (PTE2PA pte) s \<noteq> 1"
  shows "\<exists>s'. cow_fault root va s = Inr (False, s') \<and> vm_inv s' root xs \<and>
    leaf (mem s') root va = private_entry x pte \<and>
    (\<forall>va'. va' < MAXVA \<and> page_aligned va' \<and> va' \<noteq> PGROUNDDOWN va \<longrightarrow>
       leaf (mem s') root va' = leaf (mem s) root va') \<and>
    (\<forall>i < PGSIZE. mem s' (x + i) = mem s (PTE2PA pte + i)) \<and>
    untouched (mem s) (insert x (tables (mem s) root)) (mem s') \<and>
    tables (mem s') root = tables (mem s) root \<and>
    refcount_at (PTE2PA pte) s' = refcount_at (PTE2PA pte) s - 1 \<and> refcount_at x s' = 1 \<and>
    kend s' = kend s"
proof -
  obtain a where a: "leaf_slot (mem s) root va = Some a"
    using pte(1,2) by (auto simp: leaf_def split: option.splits)
  let ?pa = "PTE2PA pte" and ?e = "private_entry x pte"
  let ?m1 = "\<lambda>b. if b - x < PGSIZE then mem s (?pa + (b - x)) else mem s b"
  let ?s1 = "kalloc_result x s\<lparr>mem := ?m1\<rparr>"
  let ?s2 = "?s1\<lparr>mem := write64 ?m1 a ?e\<rparr>"
  have ki: "kmem_inv s (x # xs)" using inv by (simp add: vm_inv_def)
  have hx: "heap_page s x" and kb: "KERNBASE \<le> kend s" using ki by (auto simp: kmem_inv_def)
  have ne: "?pa \<noteq> x" using pa(2) by auto
  have idx: "pa_to_idx ?pa < NPHYSPAGES" "pa_to_idx ?pa \<noteq> pa_to_idx x"
    using heap_page_idx [OF pa(1) kb] refcount_other [OF pa(1) hx ne kb] by auto
  have rc: "refcount_at ?pa ?s2 = refcount_at ?pa s"
    using idx by (simp add: refcount_at_def kalloc_result_def)
  let ?s' = "?s2\<lparr>refcounts := (refcounts ?s2)(pa_to_idx ?pa := refcount_at ?pa s - 1)\<rparr>"
  have run: "cow_fault root va s = Inr (False, ?s')"
    using cow_fault_run [OF inv va a pte pa(1) ne] kref_dec_shared [OF idx(1), of ?s2] rc pa(3) by simp
  have al: "vm_inv ?s1 root xs" "leaf ?m1 root v = leaf (mem s) root v"
    "leaf_slot ?m1 root v = leaf_slot (mem s) root v" "tables ?m1 root = tables (mem s) root" for v
    using alloc_page_inv [OF inv, of ?m1] by simp_all
  have wf1: "pt_wf (mem ?s1) root" using al(1) by (simp add: vm_inv_def)
  have a1: "leaf_slot (mem ?s1) root va = Some a" using al(3) a by simp
  have a1': "leaf_slot (mem ?s1) root (PGROUNDDOWN va) = Some a" using a1 by simp
  note lw = leaf_write [OF wf1 a1', where v = ?e]
  have inv2: "vm_inv ?s2 root xs" using leaf_store_grown [OF al(1) a1, of ?e] by (simp add: grown_def)
  obtain p where p: "p \<in> tables (mem s) root" "a = pte_slot p (PX 0 va)" using a by (rule leaf_slotE)
  have ptab: "page_aligned p" "p \<noteq> x" using p inv by (auto simp: vm_inv_def heap_page_def)
  have xal: "page_aligned x" using hx by (simp add: heap_page_def)
  have new: "write64 ?m1 a ?e (x + i) = mem s (?pa + i)" if "i < PGSIZE" for i
    using that ptab p write64_slot_frame [of p "PX 0 va" "x + i" ?m1 ?e] page_disjoint [of x p i] xal by simp
  have unt: "untouched (mem s) (insert x (tables (mem s) root)) (write64 ?m1 a ?e)"
    using p ptab by (auto simp: untouched_def write64_slot_frame)
  have others: "leaf (write64 ?m1 a ?e) root va' = leaf (mem s) root va'"
    if "va' < MAXVA" "page_aligned va'" "va' \<noteq> PGROUNDDOWN va" for va'
    using lw(5) [OF PX_neq [OF PGROUNDDOWN_le_MAXVA [OF va] that(1) _ that(2)]] that(3) al(2) by simp
  have rcs: "refcount_at ?pa ?s' = refcount_at ?pa s - 1" "refcount_at x ?s' = 1" "kend ?s' = kend s"
    using idx by (simp_all add: refcount_at_def kalloc_result_def)
  show ?thesis
    using run inv2 lw(2,4) al(4) new unt others rcs
    by (intro exI [of _ ?s'] conjI) simp_all
qed


section \<open>A small machine for the witnesses\<close>

text \<open>
  Eight heap pages: \<open>wpage 0\<close>, \<open>1\<close>, \<open>2\<close> are the table pages of a process with one page of
  memory, \<open>wpage 3\<close>, mapped at address 0 with the given flags; \<open>wpage 4\<close> is the empty root
  table of a child; the last three are on the free list.
\<close>

definition wpage :: "uint64 \<Rightarrow> addr" where
  "wpage k = 0x87FF8000 + 4096 * k"

definition fork_mem :: "uint64 \<Rightarrow> memory" where
  "fork_mem flags =
     write64 (write64 (write64 (write64 (write64 (\<lambda>_. 0)
       (pte_slot (wpage 0) 0) (PA2PTE (wpage 1) OR PTE_V))
       (pte_slot (wpage 1) 0) (PA2PTE (wpage 2) OR PTE_V))
       (pte_slot (wpage 2) 0) (PA2PTE (wpage 3) OR flags))
       (pte_slot (wpage 5) 0) (wpage 6))
       (pte_slot (wpage 6) 0) (wpage 7)"

definition fork_state :: "uint64 \<Rightarrow> kmem" where
  "fork_state flags = boot_kmem\<lparr>mem := fork_mem flags, freelist := wpage 5, FREE_PAGES := 3,
     kend := wpage 0, refcounts := (\<lambda>_. 2)\<rparr>"

lemma wpage_aligned [simp]:
  "page_aligned (wpage 0)" "page_aligned (wpage 1)" "page_aligned (wpage 2)" "page_aligned (wpage 3)"
  "page_aligned (wpage 4)" "page_aligned (wpage 5)" "page_aligned (wpage 6)" "page_aligned (wpage 7)"
  by (simp_all add: page_aligned_def wpage_def PGSIZE_def)

lemma read64_zero [simp]: "read64 (\<lambda>_. 0) a = 0"
  by (simp add: read64_def)

lemma wpage_eq_iff [simp]: "wpage a = wpage b \<longleftrightarrow> 4096 * a = 4096 * b"
  by (simp add: wpage_def)

lemma fork_mem_slots:
  assumes "i < 512"
  shows "read64 (fork_mem flags) (pte_slot (wpage 0) i) = (if i = 0 then PA2PTE (wpage 1) OR PTE_V else 0)"
    "read64 (fork_mem flags) (pte_slot (wpage 1) i) = (if i = 0 then PA2PTE (wpage 2) OR PTE_V else 0)"
    "read64 (fork_mem flags) (pte_slot (wpage 2) i) = (if i = 0 then PA2PTE (wpage 3) OR flags else 0)"
    "read64 (fork_mem flags) (pte_slot (wpage 4) i) = 0"
    "read64 (fork_mem flags) (pte_slot (wpage 5) i) = (if i = 0 then wpage 6 else 0)"
    "read64 (fork_mem flags) (pte_slot (wpage 6) i) = (if i = 0 then wpage 7 else 0)"
    "read64 (fork_mem flags) (pte_slot (wpage 7) i) = 0"
  using assms by (simp_all add: fork_mem_def read64_slot_write)


lemma fork_next:
  assumes "i < 512"
  shows "next_table (fork_mem flags) (wpage 0) i = (if i = 0 then Some (wpage 1) else None)"
    "next_table (fork_mem flags) (wpage 1) i = (if i = 0 then Some (wpage 2) else None)"
    "next_table (fork_mem flags) (wpage 4) i = None"
proof -
  have "(PA2PTE p OR PTE_V) AND PTE_V \<noteq> 0" for p
    unfolding and_flag_iff by (simp only: bit_or_iff bit_flags simp_thms)
  then show "next_table (fork_mem flags) (wpage 0) i = (if i = 0 then Some (wpage 1) else None)"
    "next_table (fork_mem flags) (wpage 1) i = (if i = 0 then Some (wpage 2) else None)"
    "next_table (fork_mem flags) (wpage 4) i = None"
    using assms by (simp_all add: next_table_def fork_mem_slots PTE_flag_lt)
qed

lemma fork_paths:
  assumes "path_ok is"
  shows "table_at (fork_mem flags) (wpage 0) is = (if is = [] then Some (wpage 0)
      else if is = [0] then Some (wpage 1) else if is = [0, 0] then Some (wpage 2) else None)"
    "table_at (fork_mem flags) (wpage 4) is = (if is = [] then Some (wpage 4) else None)"
  using assms by (cases rule: path_ok_cases; simp add: fork_next)+

lemma fork_tables:
  "tables (fork_mem flags) (wpage 0) = {wpage 0, wpage 1, wpage 2}"
  "tables (fork_mem flags) (wpage 4) = {wpage 4}"
proof -
  have "path_ok [0]" "path_ok [0, 0]" by (simp_all add: path_ok_def)
  then have "wpage 1 \<in> tables (fork_mem flags) (wpage 0)" "wpage 2 \<in> tables (fork_mem flags) (wpage 0)"
    using tablesI [of "[0]" "fork_mem flags" "wpage 0"] tablesI [of "[0, 0]" "fork_mem flags" "wpage 0"]
    by (simp_all add: fork_paths del: table_at.simps)
  then show "tables (fork_mem flags) (wpage 0) = {wpage 0, wpage 1, wpage 2}"
    using root_in_tables [of "wpage 0"] by (auto simp: tables_def fork_paths split: if_splits)
  show "tables (fork_mem flags) (wpage 4) = {wpage 4}"
    by (auto simp: tables_def fork_paths split: if_splits intro!: exI [of _ "[]"])
qed

lemma wpage_nonzero: "wpage 0 \<noteq> 0" "wpage 1 \<noteq> 0" "wpage 2 \<noteq> 0" "wpage 4 \<noteq> 0" "wpage 5 \<noteq> 0" "wpage 6 \<noteq> 0" "wpage 7 \<noteq> 0"
  by (simp_all add: wpage_def)

lemma fork_wf: "pt_wf (fork_mem flags) (wpage 0)" "pt_wf (fork_mem flags) (wpage 4)"
  unfolding pt_wf_def fork_tables
  by (auto simp: fork_paths wpage_nonzero split: if_splits)

lemma fork_heap:
  "heap_page (fork_state flags) (wpage 0)" "heap_page (fork_state flags) (wpage 1)" "heap_page (fork_state flags) (wpage 2)"
  "heap_page (fork_state flags) (wpage 3)" "heap_page (fork_state flags) (wpage 4)" "heap_page (fork_state flags) (wpage 5)"
  "heap_page (fork_state flags) (wpage 6)" "heap_page (fork_state flags) (wpage 7)"
  by (simp_all add: heap_page_def fork_state_def)
    (simp_all add: wpage_def layout_defs word_le_nat_alt word_less_nat_alt)

lemma mem_fork_state [simp]: "mem (fork_state flags) = fork_mem flags"
  by (simp add: fork_state_def)

lemma refcount_fork_state [simp]: "refcount_at q (fork_state flags) = 2"
  by (simp add: fork_state_def refcount_at_def)

lemma fork_kmem: "kmem_inv (fork_state flags) [wpage 5, wpage 6, wpage 7]"
proof -
  have "read64 (fork_mem flags) (wpage 5) = wpage 6" "read64 (fork_mem flags) (wpage 6) = wpage 7"
    "read64 (fork_mem flags) (wpage 7) = 0"
    using fork_mem_slots(5,6,7) [of 0 flags] by (simp_all add: pte_slot_def)
  moreover have "kend (fork_state flags) = wpage 0" "MAX_PAGES (fork_state flags) = 0"
    "freelist (fork_state flags) = wpage 5" "FREE_PAGES (fork_state flags) = 3"
    by (simp_all add: fork_state_def boot_kmem_def)
  moreover have "KERNBASE \<le> wpage 0" "wpage 0 \<le> PHYSTOP"
    by (simp_all add: wpage_def layout_defs word_le_nat_alt)
  ultimately show ?thesis
    by (simp add: kmem_inv_def fork_heap wpage_nonzero)
qed

lemma fork_vm_inv:
  "vm_inv (fork_state flags) (wpage 0) [wpage 5, wpage 6, wpage 7]"
  "vm_inv (fork_state flags) (wpage 4) [wpage 5, wpage 6, wpage 7]"
  by (auto simp: vm_inv_def fork_kmem fork_wf fork_tables fork_heap)

lemma fork_leaf: "leaf (fork_mem flags) (wpage 0) 0 = PA2PTE (wpage 3) OR flags"
  "leaf (fork_mem flags) (wpage 4) va = 0"
proof -
  have "PX l 0 = 0" for l by (rule bit_word_eqI) (simp add: bit_PX)
  then show "leaf (fork_mem flags) (wpage 0) 0 = PA2PTE (wpage 3) OR flags"
    by (simp add: leaf_def leaf_slot_def fork_next fork_mem_slots)
  show "leaf (fork_mem flags) (wpage 4) va = 0"
    by (simp add: leaf_def leaf_slot_def fork_next)
qed

lemma page_range_0: "page_range 0 4096 = {0}"
proof -
  have "page_range 0 4096 = insert 0 (page_range (0 + PGSIZE) 4096)"
    by (rule page_range_step) (simp_all add: MAXVA_eq)
  moreover have "page_range PGSIZE 4096 = {}" by (auto simp: page_range_def PGSIZE_def)
  ultimately show ?thesis by simp
qed

lemma fork_shareable:
  assumes "flags < 1024" "flags AND PTE_V \<noteq> 0"
  shows "shareable (fork_state flags) (wpage 0) (wpage 4) [wpage 5, wpage 6, wpage 7] 0 4096"
  using assms
  by (auto simp: shareable_def fork_vm_inv fork_tables fork_leaf page_range_0 fork_heap
      and_flag_iff bit_or_iff)


section \<open>Properties\<close>

lemma untouched_page:
  assumes "untouched m ps m'" "\<And>p. p \<in> ps \<Longrightarrow> page_aligned p" "page_aligned q" "q \<notin> ps" "a - q < PGSIZE"
  shows "m' a = m a"
proof -
  have "\<not> a - p < PGSIZE" if "p \<in> ps" for p
    using that assms(2-5) page_eqI [of p q a] by blast
  then show ?thesis using assms(1) by (simp add: untouched_def)
qed

text \<open>
  C4: \<^verbatim>\<open>uvmcopy\<close> succeeds whenever the free list can supply the child's table pages, and then
  parent and child map every page of the range to the same frame with \<^verbatim>\<open>PTE_W\<close> cleared and
  \<^verbatim>\<open>PTE_COW\<close> set; every other translation, every byte outside the table pages and the free
  pages is unchanged, and each shared frame gained one reference per page that maps it.
\<close>

theorem uvmcopy_shares_copy_on_write:
  assumes "shareable s old new fs 0 sz" "sz \<le> MAXVA" "2 * card (page_range 0 sz) \<le> length fs"
  shows "\<exists>s' fs'. uvmcopy old new sz s = Inr (0, s') \<and>
    vm_inv s' old fs' \<and> vm_inv s' new fs' \<and> tables (mem s') old \<inter> tables (mem s') new = {} \<and>
    (\<forall>va. va < MAXVA \<and> page_aligned va \<longrightarrow>
       (if va < sz
        then leaf (mem s') old va = cow_entry (leaf (mem s) old va) \<and>
          leaf (mem s') new va = leaf (mem s') old va \<and>
          leaf (mem s') old va AND PTE_W = 0 \<and> leaf (mem s') old va AND PTE_COW \<noteq> 0 \<and>
          PTE2PA (leaf (mem s') old va) = PTE2PA (leaf (mem s) old va)
        else leaf (mem s') old va = leaf (mem s) old va \<and> leaf (mem s') new va = leaf (mem s) new va)) \<and>
    untouched (mem s) (tables (mem s) old \<union> tables (mem s) new \<union> set fs) (mem s') \<and>
    (\<forall>q. heap_page s q \<and> q \<notin> set fs \<longrightarrow>
       refcount_at q s' = refcount_at q s + of_nat (card (mapped_by (mem s) old (page_range 0 sz) q)))"
proof -
  have "(0 :: uint64) \<le> MAXVA" by simp
  from uvmcopy_loop_shares [OF assms(1) page_aligned_0 assms(2) this assms(3)]
  obtain s' fs' where r: "uvmcopy_loop old new 0 sz s = Inr (0, s')"
    "vm_inv s' old fs'" "vm_inv s' new fs'" "tables (mem s') old \<inter> tables (mem s') new = {}"
    "\<And>va. va < MAXVA \<and> page_aligned va \<Longrightarrow>
       leaf (mem s') old va = (if va \<in> page_range 0 sz then cow_entry (leaf (mem s) old va) else leaf (mem s) old va) \<and>
       leaf (mem s') new va = (if va \<in> page_range 0 sz then cow_entry (leaf (mem s) old va) else leaf (mem s) new va)"
    "untouched (mem s) (tables (mem s) old \<union> tables (mem s) new \<union> set fs) (mem s')"
    "\<forall>q. heap_page s q \<and> q \<notin> set fs \<longrightarrow>
       refcount_at q s' = refcount_at q s + of_nat (card (mapped_by (mem s) old (page_range 0 sz) q))"
    by blast
  have pr: "va \<in> page_range 0 sz \<longleftrightarrow> va < sz" if "page_aligned va" for va
    using that by (simp add: page_range_def)
  show ?thesis
    using r by (intro exI [of _ s'] exI [of _ fs']) (simp add: uvmcopy_def pr and_flag_iff bit_cow_entry)
qed

theorem uvmcopy_shares_copy_on_write_witness:
  "\<exists>s' fs'. uvmcopy (wpage 0) (wpage 4) 4096 (fork_state 0x17) = Inr (0, s') \<and>
    vm_inv s' (wpage 0) fs' \<and> vm_inv s' (wpage 4) fs' \<and>
    leaf (mem s') (wpage 4) 0 = cow_entry (PA2PTE (wpage 3) OR 0x17) \<and>
    leaf (mem s') (wpage 0) 0 = cow_entry (PA2PTE (wpage 3) OR 0x17)"
proof -
  have "shareable (fork_state 0x17) (wpage 0) (wpage 4) [wpage 5, wpage 6, wpage 7] 0 4096"
    by (rule fork_shareable) (simp_all add: word_less_nat_alt PTE_V_def)
  from uvmcopy_shares_copy_on_write [OF this] show ?thesis
    by (fastforce simp: page_range_0 MAXVA_eq fork_leaf)
qed

text \<open>
  C2: a store to a shared page gives the writer a private copy. The handler maps the faulting
  page to a fresh frame with the same 4096 bytes, writable and no longer copy-on-write, takes
  one reference off the old frame, keeps every other translation of the process and every
  translation of any other address space, and changes no byte of any other frame.
\<close>

theorem cow_fault_isolates:
  assumes "vm_inv s root (x # xs)" "va < MAXVA"
    and "leaf (mem s) root va = pte" "pte AND PTE_V \<noteq> 0" "pte AND PTE_U \<noteq> 0" "pte AND PTE_COW \<noteq> 0"
    and "heap_page s (PTE2PA pte)" "PTE2PA pte \<notin> set (x # xs)" "refcount_at (PTE2PA pte) s \<noteq> 1"
    and "vm_inv s other (x # xs)" "tables (mem s) other \<inter> tables (mem s) root = {}"
  shows "\<exists>s'. cow_fault root va s = Inr (False, s') \<and> vm_inv s' root xs \<and>
    leaf (mem s') root va = private_entry x pte \<and>
    (\<forall>i < PGSIZE. mem s' (x + i) = mem s (PTE2PA pte + i)) \<and>
    refcount_at (PTE2PA pte) s' = refcount_at (PTE2PA pte) s - 1 \<and> refcount_at x s' = 1 \<and>
    (\<forall>va'. va' < MAXVA \<and> page_aligned va' \<and> va' \<noteq> PGROUNDDOWN va \<longrightarrow>
       leaf (mem s') root va' = leaf (mem s) root va') \<and>
    (\<forall>va'. leaf (mem s') other va' = leaf (mem s) other va') \<and>
    (\<forall>q i. heap_page s q \<and> q \<noteq> x \<and> q \<notin> tables (mem s) root \<and> i < PGSIZE \<longrightarrow>
       mem s' (q + i) = mem s (q + i))"
proof -
  obtain s' where s': "cow_fault root va s = Inr (False, s')" "vm_inv s' root xs"
    "leaf (mem s') root va = private_entry x pte"
    "\<forall>va'. va' < MAXVA \<and> page_aligned va' \<and> va' \<noteq> PGROUNDDOWN va \<longrightarrow> leaf (mem s') root va' = leaf (mem s) root va'"
    "\<forall>i < PGSIZE. mem s' (x + i) = mem s (PTE2PA pte + i)"
    and un: "untouched (mem s) (insert x (tables (mem s) root)) (mem s')"
    and rc: "refcount_at (PTE2PA pte) s' = refcount_at (PTE2PA pte) s - 1" "refcount_at x s' = 1"
    using cow_fault_copies [OF assms(1-9)] by blast
  have al: "page_aligned p" if "p \<in> insert x (tables (mem s) root)" for p
    using that assms(1) by (auto simp: vm_inv_def kmem_inv_def heap_page_def)
  have keep: "mem s' a = mem s a" if "heap_page s q" "q \<noteq> x" "q \<notin> tables (mem s) root" "a - q < PGSIZE" for q a
    using that by (intro untouched_page [OF un al]) (auto simp: heap_page_def)
  have wf: "pt_wf (mem s) other" using assms(10) by (simp add: vm_inv_def)
  have "mem s' a = mem s a" if "p \<in> tables (mem s) other" "a - p < PGSIZE" for p a
    using that assms(10,11) by (intro keep [of p]) (auto simp: vm_inv_def)
  then have "leaf (mem s') other va' = leaf (mem s) other va'" for va'
    by (intro pt_frame [OF wf])
  moreover have "mem s' (q + i) = mem s (q + i)"
    if "heap_page s q \<and> q \<noteq> x \<and> q \<notin> tables (mem s) root \<and> i < PGSIZE" for q i
    using that keep [of q "q + i"] by simp
  ultimately show ?thesis using s' rc by (intro exI [of _ s']) simp
qed

theorem cow_fault_isolates_witness:
  "\<exists>s'. cow_fault (wpage 0) 8 (fork_state 0x113) = Inr (False, s') \<and>
    leaf (mem s') (wpage 0) 8 = private_entry (wpage 5) (PA2PTE (wpage 3) OR 0x113) \<and>
    refcount_at (wpage 3) s' = 1 \<and> (\<forall>va'. leaf (mem s') (wpage 4) va' = 0)"
proof -
  have l8: "leaf (fork_mem f) (wpage 0) 8 = leaf (fork_mem f) (wpage 0) 0" for f
    using leaf_PGROUNDDOWN(2) [of "fork_mem f" "wpage 0" 8] by (simp add: PGROUNDDOWN_def PGSIZE_def)
  have lt: "(0x113 :: uint64) < 1024" by (simp add: word_less_nat_alt)
  have "\<exists>s'. cow_fault (wpage 0) 8 (fork_state 0x113) = Inr (False, s') \<and> vm_inv s' (wpage 0) [wpage 6, wpage 7] \<and>
    leaf (mem s') (wpage 0) 8 = private_entry (wpage 5) (PA2PTE (wpage 3) OR 0x113) \<and>
    (\<forall>i < PGSIZE. mem s' (wpage 5 + i) = mem (fork_state 0x113) (PTE2PA (PA2PTE (wpage 3) OR 0x113) + i)) \<and>
    refcount_at (PTE2PA (PA2PTE (wpage 3) OR 0x113)) s' =
      refcount_at (PTE2PA (PA2PTE (wpage 3) OR 0x113)) (fork_state 0x113) - 1 \<and> refcount_at (wpage 5) s' = 1 \<and>
    (\<forall>va'. va' < MAXVA \<and> page_aligned va' \<and> va' \<noteq> PGROUNDDOWN 8 \<longrightarrow>
       leaf (mem s') (wpage 0) va' = leaf (mem (fork_state 0x113)) (wpage 0) va') \<and>
    (\<forall>va'. leaf (mem s') (wpage 4) va' = leaf (mem (fork_state 0x113)) (wpage 4) va') \<and>
    (\<forall>q i. heap_page (fork_state 0x113) q \<and> q \<noteq> wpage 5 \<and> q \<notin> tables (mem (fork_state 0x113)) (wpage 0) \<and> i < PGSIZE \<longrightarrow>
       mem s' (q + i) = mem (fork_state 0x113) (q + i))"
    by (rule cow_fault_isolates [OF fork_vm_inv(1) _ _ _ _ _ _ _ _ fork_vm_inv(2)])
      (use lt in \<open>auto simp: MAXVA_eq l8 fork_leaf fork_heap fork_tables and_flag_iff bit_or_iff
         bit_simps word_less_nat_alt\<close>)
  then show ?thesis using lt by (auto simp: fork_leaf)
qed


lemma copyout_one_page:
  assumes wf: "pt_wf (mem s) root" and va: "va < MAXVA"
    and pte: "leaf (mem s) root va AND PTE_V \<noteq> 0" "leaf (mem s) root va AND PTE_U \<noteq> 0"
      "PTE2PA (leaf (mem s) root va) \<noteq> 0"
    and len: "unat (va - PGROUNDDOWN va) + length bs \<le> 4096"
  shows "copyout root va bs s = Inr (0, s\<lparr>mem := write_bytes (mem s)
    (PTE2PA (leaf (mem s) root va) + (va - PGROUNDDOWN va)) bs\<rparr>)"
proof (cases "bs = []")
  case True
  then show ?thesis by (simp add: copyout.simps)
next
  case False
  have w: "walkaddr root (PGROUNDDOWN va) s = Inr (PTE2PA (leaf (mem s) root va))"
    using walkaddr_leaf [OF wf PGROUNDDOWN_le_MAXVA [OF va]] pte by simp
  have n: "min (unat (PGSIZE - (va - PGROUNDDOWN va))) (length bs) = length bs"
    using len page_room [of va] by linarith
  show ?thesis
    using False w pte(3) n by (subst copyout.simps) (simp add: Let_def, simp add: copyout.simps)
qed

lemma copyin_one_page:
  assumes wf: "pt_wf (mem s) root" and va: "va < MAXVA"
    and pte: "leaf (mem s) root va AND PTE_V \<noteq> 0" "leaf (mem s) root va AND PTE_U \<noteq> 0"
      "PTE2PA (leaf (mem s) root va) \<noteq> 0"
    and len: "unat (va - PGROUNDDOWN va) + n \<le> 4096"
  shows "copyin root va n s = Inr (0, read_bytes (mem s)
    (PTE2PA (leaf (mem s) root va) + (va - PGROUNDDOWN va)) n)"
proof (cases "n = 0")
  case True
  then show ?thesis by (simp add: copyin.simps read_bytes_def)
next
  case False
  have w: "walkaddr root (PGROUNDDOWN va) s = Inr (PTE2PA (leaf (mem s) root va))"
    using walkaddr_leaf [OF wf PGROUNDDOWN_le_MAXVA [OF va]] pte by simp
  have n: "min (unat (PGSIZE - (va - PGROUNDDOWN va))) n = n"
    using len page_room [of va] by linarith
  show ?thesis
    using False w pte(3) n by (subst copyin.simps) (simp add: Let_def, simp add: copyin.simps)
qed


text \<open>
  C30: \<^verbatim>\<open>copyout\<close> does not respect copy-on-write. It looks only at \<^verbatim>\<open>PTE_V\<close> and \<^verbatim>\<open>PTE_U\<close>, so
  bytes the kernel copies out to one process through a shared read-only entry are stored in
  the shared frame and read back by \<^verbatim>\<open>copyin\<close> from every other process that maps the frame.
\<close>

theorem copyout_writes_shared_frame:
  assumes "vm_inv s root fs" "vm_inv s other fs" "tables (mem s) other \<inter> tables (mem s) root = {}"
    and "va < MAXVA" "leaf (mem s) root va = cow_entry pte" "leaf (mem s) other va = cow_entry pte"
    and "pte AND PTE_V \<noteq> 0" "pte AND PTE_U \<noteq> 0"
    and "heap_page s (PTE2PA pte)" "PTE2PA pte \<notin> tables (mem s) other"
    and "unat (va - PGROUNDDOWN va) + length bs \<le> 4096"
  shows "\<exists>s'. copyout root va bs s = Inr (0, s') \<and> copyin other va (length bs) s' = Inr (0, bs)"
proof -
  let ?pa = "PTE2PA pte" and ?o = "va - PGROUNDDOWN va"
  let ?m' = "write_bytes (mem s) (?pa + ?o) bs"
  have wf: "pt_wf (mem s) root" "pt_wf (mem s) other" using assms(1,2) by (auto simp: vm_inv_def)
  have al: "page_aligned ?pa" "?pa \<noteq> 0"
    using assms(1,9) heap_page_nonzero [of s ?pa] by (auto simp: heap_page_def vm_inv_def kmem_inv_def)
  have fl: "cow_entry pte AND PTE_V \<noteq> 0" "cow_entry pte AND PTE_U \<noteq> 0"
    using assms(7,8) by (simp_all add: and_flag_iff bit_cow_entry)
  have out: "copyout root va bs s = Inr (0, s\<lparr>mem := ?m'\<rparr>)"
    using copyout_one_page [OF wf(1) assms(4) _ _ _ assms(11)] fl al by (simp add: assms(5))
  have lb: "length bs < 2 ^ 64" using assms(11) by simp
  have eq: "?m' a = mem s a" if p: "p \<in> tables (mem s) other" "a - p < PGSIZE" for p a
  proof -
    have "page_aligned p" "p \<noteq> ?pa" using p assms(2,10) by (auto simp: vm_inv_def heap_page_def)
    then have far: "\<not> a - ?pa < PGSIZE" using p(2) al page_eqI [of p ?pa a] by blast
    have "\<not> a - (?pa + ?o) < of_nat (length bs)"
    proof
      assume lt: "a - (?pa + ?o) < of_nat (length bs)"
      then have "unat (a - (?pa + ?o)) < length bs" by (simp add: word_less_nat_alt unat_of_nat_addr [OF lb])
      then have s: "unat ?o + unat (a - (?pa + ?o)) < 4096" using assms(11) by linarith
      then have "unat (?o + (a - (?pa + ?o))) = unat ?o + unat (a - (?pa + ?o))"
        by (intro unat_add_no_wrap) simp
      moreover have "?o + (a - (?pa + ?o)) = a - ?pa" by simp
      ultimately have "unat (a - ?pa) < 4096" using s by metis
      with far show False by (simp add: word_less_nat_alt PGSIZE_def)
    qed
    then show ?thesis by (simp add: write_bytes_eq [OF lb])
  qed
  have wf': "pt_wf ?m' other" by (rule pt_frame(2) [OF wf(2)], erule (1) eq)
  have "leaf ?m' other va = leaf (mem s) other va" by (rule pt_frame(4) [OF wf(2)], erule (1) eq)
  then have l': "leaf ?m' other va = cow_entry pte" using assms(6) by simp
  have "copyin other va (length bs) (s\<lparr>mem := ?m'\<rparr>) = Inr (0, read_bytes ?m' (?pa + ?o) (length bs))"
    using copyin_one_page [of "s\<lparr>mem := ?m'\<rparr>" other va "length bs"] wf' l' fl al assms(4,11) by simp
  then show ?thesis using out by (simp add: read_write_bytes [OF lb])
qed


text \<open>After the concrete fork, both processes map page 0 to the shared frame.\<close>

lemma forked_state:
  obtains s' fs' where "uvmcopy (wpage 0) (wpage 4) 4096 (fork_state 0x13) = Inr (0, s')"
    "vm_inv s' (wpage 0) fs'" "vm_inv s' (wpage 4) fs'" "tables (mem s') (wpage 4) \<inter> tables (mem s') (wpage 0) = {}"
    "leaf (mem s') (wpage 0) 0 = cow_entry (PA2PTE (wpage 3) OR 0x13)"
    "leaf (mem s') (wpage 4) 0 = cow_entry (PA2PTE (wpage 3) OR 0x13)"
    "heap_page s' (wpage 3)" "wpage 3 \<notin> tables (mem s') (wpage 4)"
proof -
  have sh: "shareable (fork_state 0x13) (wpage 0) (wpage 4) [wpage 5, wpage 6, wpage 7] 0 4096"
    by (rule fork_shareable) (simp_all add: word_less_nat_alt PTE_V_def)
  have "(4096 :: uint64) \<le> MAXVA" "(0 :: uint64) \<le> MAXVA"
      "2 * card (page_range 0 4096) \<le> length [wpage 5, wpage 6, wpage 7]"
    by (simp_all add: MAXVA_eq page_range_0)
  from uvmcopy_loop_shares [OF sh page_aligned_0 this]
  obtain s' fs' where r: "uvmcopy_loop (wpage 0) (wpage 4) 0 4096 (fork_state 0x13) = Inr (0, s')"
    "vm_inv s' (wpage 0) fs'" "vm_inv s' (wpage 4) fs'" "tables (mem s') (wpage 0) \<inter> tables (mem s') (wpage 4) = {}"
    and ke: "kend s' = kend (fork_state 0x13)"
    and tb: "tables (mem s') (wpage 4) \<union> set fs' = tables (mem (fork_state 0x13)) (wpage 4) \<union> set [wpage 5, wpage 6, wpage 7]"
    and l: "\<And>va. va < MAXVA \<and> page_aligned va \<Longrightarrow>
       leaf (mem s') (wpage 0) va = (if va \<in> page_range 0 4096 then cow_entry (leaf (mem (fork_state 0x13)) (wpage 0) va)
         else leaf (mem (fork_state 0x13)) (wpage 0) va) \<and>
       leaf (mem s') (wpage 4) va = (if va \<in> page_range 0 4096 then cow_entry (leaf (mem (fork_state 0x13)) (wpage 0) va)
         else leaf (mem (fork_state 0x13)) (wpage 4) va)"
    by blast
  have "(0 :: uint64) < MAXVA" by (simp add: MAXVA_eq)
  with l [of 0] have "leaf (mem s') (wpage 0) 0 = cow_entry (PA2PTE (wpage 3) OR 0x13)"
    "leaf (mem s') (wpage 4) 0 = cow_entry (PA2PTE (wpage 3) OR 0x13)"
    by (simp_all add: page_range_0 fork_leaf)
  moreover have "wpage 3 \<notin> tables (mem s') (wpage 4) \<union> set fs'"
    unfolding tb by (simp add: fork_tables)
  ultimately show ?thesis
    using r ke fork_heap(4) heap_page_kend [OF ke] by (intro that [of s' fs']) (auto simp: uvmcopy_def)
qed

theorem copyout_writes_shared_frame_witness:
  "\<exists>s1 s2. uvmcopy (wpage 0) (wpage 4) 4096 (fork_state 0x13) = Inr (0, s1) \<and>
    copyout (wpage 0) 0 [1, 2, 3] s1 = Inr (0, s2) \<and> copyin (wpage 4) 0 3 s2 = Inr (0, [1, 2, 3])"
proof -
  obtain s1 fs where s1: "uvmcopy (wpage 0) (wpage 4) 4096 (fork_state 0x13) = Inr (0, s1)"
    "vm_inv s1 (wpage 0) fs" "vm_inv s1 (wpage 4) fs" "tables (mem s1) (wpage 4) \<inter> tables (mem s1) (wpage 0) = {}"
    "leaf (mem s1) (wpage 0) 0 = cow_entry (PA2PTE (wpage 3) OR 0x13)"
    "leaf (mem s1) (wpage 4) 0 = cow_entry (PA2PTE (wpage 3) OR 0x13)"
    "heap_page s1 (wpage 3)" "wpage 3 \<notin> tables (mem s1) (wpage 4)"
    by (rule forked_state)
  have lt: "(0x13 :: uint64) < 1024" by (simp add: word_less_nat_alt)
  have "\<exists>s'. copyout (wpage 0) 0 [1, 2, 3] s1 = Inr (0, s') \<and> copyin (wpage 4) 0 (length [1, 2, 3 :: uint8]) s' = Inr (0, [1, 2, 3])"
    by (rule copyout_writes_shared_frame [OF s1(2-4) _ s1(5,6)])
      (use s1(7,8) lt in \<open>simp_all add: MAXVA_eq and_flag_iff bit_or_iff bit_simps PGROUNDDOWN_def\<close>)
  then show ?thesis using s1(1) by (auto simp: numeral_3_eq_3)
qed


text \<open>
  C31: copy-on-write forgets write protection. A user page that is read-only before the fork
  (program text, for instance) is marked copy-on-write like every other page, so the first
  store to it after the fork is not a segmentation fault: the handler copies the page and
  grants \<^verbatim>\<open>PTE_W\<close>.
\<close>

theorem fork_makes_read_only_page_writable:
  assumes "shareable s old new fs 0 sz" "sz \<le> MAXVA" "2 * card (page_range 0 sz) < length fs"
    and "page_aligned va" "va < sz"
    and "leaf (mem s) old va AND PTE_W = 0" "leaf (mem s) old va AND PTE_U \<noteq> 0"
    and "refcount_at (PTE2PA (leaf (mem s) old va)) s
      + of_nat (card (mapped_by (mem s) old (page_range 0 sz) (PTE2PA (leaf (mem s) old va)))) \<noteq> 1"
  shows "\<exists>s1 s2. uvmcopy old new sz s = Inr (0, s1) \<and> cow_fault old va s1 = Inr (False, s2) \<and>
    leaf (mem s2) old va AND PTE_W \<noteq> 0"
proof -
  have vM: "va < MAXVA" using assms(2,5) by simp
  have vr: "va \<in> page_range 0 sz" using assms(4,5) by (simp add: page_range_def)
  let ?pte = "leaf (mem s) old va"
  let ?pa = "PTE2PA ?pte"
  have v: "?pte AND PTE_V \<noteq> 0" "heap_page s ?pa" "?pa \<notin> set fs" using assms(1) vr by (auto simp: shareable_def)
  have "(0 :: uint64) \<le> MAXVA" by simp
  from uvmcopy_loop_shares [OF assms(1) page_aligned_0 assms(2) this less_imp_le [OF assms(3)]]
  obtain s1 fs1 where r: "uvmcopy_loop old new 0 sz s = Inr (0, s1)" "vm_inv s1 old fs1" "set fs1 \<subseteq> set fs"
    "kend s1 = kend s" "length fs \<le> length fs1 + 2 * card (page_range 0 sz)"
    and l: "leaf (mem s1) old va = cow_entry ?pte"
    and rc: "refcount_at ?pa s1 = refcount_at ?pa s + of_nat (card (mapped_by (mem s) old (page_range 0 sz) ?pa))"
    using vM vr v(2,3) assms(4) by auto
  obtain x xs where fs1: "fs1 = x # xs" using r(5) assms(3) by (cases fs1) auto
  have "heap_page s1 ?pa" using v(2) heap_page_kend [OF r(4)] by simp
  moreover have "?pa \<notin> set fs1" using r(3) v(3) by auto
  moreover have "cow_entry ?pte AND PTE_V \<noteq> 0" "cow_entry ?pte AND PTE_U \<noteq> 0" "cow_entry ?pte AND PTE_COW \<noteq> 0"
    using v(1) assms(7) by (simp_all add: and_flag_iff bit_cow_entry)
  ultimately obtain s2 where "cow_fault old va s1 = Inr (False, s2)"
    "leaf (mem s2) old va = private_entry x (cow_entry ?pte)"
    using cow_fault_copies [of s1 old x xs va "cow_entry ?pte"] r(2) l rc assms(8) vM fs1 by auto
  moreover have "private_entry x p AND PTE_W \<noteq> 0" for p
    unfolding and_flag_iff by (simp add: private_entry_def bit_or_iff bit_flags)
  ultimately show ?thesis using r(1) by (auto simp: uvmcopy_def)
qed

theorem fork_makes_read_only_page_writable_witness:
  "\<exists>s1 s2. uvmcopy (wpage 0) (wpage 4) 4096 (fork_state 0x1B) = Inr (0, s1) \<and>
    cow_fault (wpage 0) 0 s1 = Inr (False, s2) \<and> leaf (mem s2) (wpage 0) 0 AND PTE_W \<noteq> 0"
proof -
  have lt: "(0x1B :: uint64) < 1024" by (simp add: word_less_nat_alt)
  have sh: "shareable (fork_state 0x1B) (wpage 0) (wpage 4) [wpage 5, wpage 6, wpage 7] 0 4096"
    by (rule fork_shareable) (simp_all add: word_less_nat_alt PTE_V_def)
  have pa: "\<not> bit (PA2PTE p) n" if "n < 10" "page_aligned p" for n p
    using that by (auto simp: PA2PTE_def bit_push_bit_iff bit_drop_bit_eq)
  have "mapped_by (mem (fork_state 0x1B)) (wpage 0) (page_range 0 4096) (wpage 3) = {0}"
    using lt by (auto simp: mapped_by_def page_range_0 fork_leaf)
  then show ?thesis
    by (intro fork_makes_read_only_page_writable [OF sh])
      (use lt pa in \<open>simp_all add: MAXVA_eq page_range_0 fork_leaf and_flag_iff bit_or_iff bit_simps\<close>)
qed

end
