(* ===== verification/Trap.thy ===== *)
theory Trap
  imports Syscall Virtio Cow
begin

text \<open>
  Traps (\<^verbatim>\<open>trap.c\<close>) and the interrupt controller (\<^verbatim>\<open>plic.c\<close>), on a record that adds the supervisor
  registers of the hart to the kernel state. \<open>m_kernelvec\<close>, \<open>m_uservec\<close>, \<open>m_userret\<close> and
  \<open>m_usertrap\<close> are addresses that the linker chooses; \<open>m_claim\<close> is the interrupt the PLIC
  hands out next, \<open>m_plic\<close> lists the words written to its registers. A trap from user space
  ends by resuming the process, by its exit, or by giving up the CPU.
\<close>

section \<open>Machine state\<close>

record machine = vdisk +
  m_sstatus :: uint64
  m_sepc :: uint64
  m_scause :: uint64
  m_stval :: uint64
  m_stvec :: uint64
  m_satp :: uint64
  m_tp :: uint64
  m_sip :: uint64
  m_claim :: uint
  m_plic :: "(uint64 \<times> uint) list"
  m_kernelvec :: uint64
  m_uservec :: uint64
  m_userret :: uint64
  m_usertrap :: uint64
  m_forkret :: uint64

definition SSTATUS_SPP :: uint64 where "SSTATUS_SPP = push_bit 8 1"
definition SSTATUS_SPIE :: uint64 where "SSTATUS_SPIE = push_bit 5 1"
definition SSTATUS_SIE :: uint64 where "SSTATUS_SIE = push_bit 1 1"

definition intr_on :: "'a machine_scheme \<Rightarrow> 'a machine_scheme" where
  "intr_on s = s\<lparr>m_sstatus := m_sstatus s OR SSTATUS_SIE\<rparr>"

definition intr_off :: "'a machine_scheme \<Rightarrow> 'a machine_scheme" where
  "intr_off s = s\<lparr>m_sstatus := m_sstatus s AND NOT SSTATUS_SIE\<rparr>"

definition intr_get :: "'a machine_scheme \<Rightarrow> bool" where
  "intr_get s \<longleftrightarrow> m_sstatus s AND SSTATUS_SIE \<noteq> 0"

definition cpuid :: "'a machine_scheme \<Rightarrow> uint" where
  "cpuid s = ucast (m_tp s)"

section \<open>Interrupt controller\<close>

definition UART0_IRQ :: uint where "UART0_IRQ = 10"
definition VIRTIO0_IRQ :: uint where "VIRTIO0_IRQ = 1"
definition PLIC_SENABLE :: "uint \<Rightarrow> uint64" where "PLIC_SENABLE hart = PLIC + 0x2080 + ucast hart * 0x100"
definition PLIC_SPRIORITY :: "uint \<Rightarrow> uint64" where "PLIC_SPRIORITY hart = PLIC + 0x201000 + ucast hart * 0x2000"
definition PLIC_SCLAIM :: "uint \<Rightarrow> uint64" where "PLIC_SCLAIM hart = PLIC + 0x201004 + ucast hart * 0x2000"

definition plic_write :: "uint64 \<Rightarrow> uint \<Rightarrow> 'a machine_scheme \<Rightarrow> 'a machine_scheme" where
  "plic_write a v s = s\<lparr>m_plic := m_plic s @ [(a, v)]\<rparr>"

definition plicinit :: "'a machine_scheme \<Rightarrow> 'a machine_scheme" where
  "plicinit s = plic_write (PLIC + ucast VIRTIO0_IRQ * 4) 1 (plic_write (PLIC + ucast UART0_IRQ * 4) 1 s)"

definition plicinithart :: "'a machine_scheme \<Rightarrow> 'a machine_scheme" where
  "plicinithart s =
     (let hart = cpuid s;
          s = plic_write (PLIC_SENABLE hart) (push_bit (unat UART0_IRQ) 1 OR push_bit (unat VIRTIO0_IRQ) 1) s
      in plic_write (PLIC_SPRIORITY hart) 0 s)"

definition plic_claim :: "'a machine_scheme \<Rightarrow> uint" where
  "plic_claim s = m_claim s"

definition plic_complete :: "uint \<Rightarrow> 'a machine_scheme \<Rightarrow> 'a machine_scheme" where
  "plic_complete irq s = plic_write (PLIC_SCLAIM (cpuid s)) irq s"

section \<open>Device interrupts\<close>

definition clockintr :: "'a machine_scheme \<Rightarrow> 'a machine_scheme" where
  "clockintr s = wakeup Chan_ticks (s\<lparr>ticks := ticks s + 1\<rparr>)"

definition devintr :: "((uint64 \<times> uint) list \<Rightarrow> uint64 \<Rightarrow> uint) \<Rightarrow> 'a machine_scheme \<Rightarrow> (nat \<times> 'a machine_scheme) kres" where
  "devintr dev s =
     (let scause = m_scause s
      in if scause AND 0x8000000000000000 \<noteq> 0 \<and> scause AND 0xff = 9
         then let irq = plic_claim s
           in kbind (if irq = UART0_IRQ then uartintr s
                     else if irq = VIRTIO0_IRQ then virtio_disk_intr dev s
                     else if irq \<noteq> 0 then kprint (''unexpected interrupt irq=%d'' @ [CHR 0x0A]) [ArgInt irq] s
                     else Inr s) (\<lambda>s.
              Inr (1, if irq \<noteq> 0 then plic_complete irq s else s))
         else if scause = 0x8000000000000001
         then let s = (if cpuid s = 0 then clockintr s else s)
           in Inr (2, s\<lparr>m_sip := m_sip s AND NOT 2\<rparr>)
         else Inr (0, s))"

section \<open>Traps from user space\<close>

datatype trap_end = To_user uint64 uint64 | Exited | Yielded

text \<open>\<^verbatim>\<open>usertrapret\<close>: the address jumped to and the page table handed to \<^verbatim>\<open>userret\<close>.\<close>

definition usertrapret :: "'a machine_scheme \<Rightarrow> (trap_end \<times> 'a machine_scheme) kres" where
  "usertrapret s =
     kbind (myproc s) (\<lambda>p.
     let s = intr_off s;
         s = s\<lparr>m_stvec := TRAMPOLINE + (m_uservec s - trampoline s)\<rparr>;
         s = set_tf p tf_kernel_satp (m_satp s) s;
         s = set_tf p tf_kernel_sp (p_kstack (the_proc p s) + PGSIZE) s;
         s = set_tf p tf_kernel_trap (m_usertrap s) s;
         s = set_tf p tf_kernel_hartid (m_tp s) s;
         s = s\<lparr>m_sstatus := (m_sstatus s AND NOT SSTATUS_SPP) OR SSTATUS_SPIE\<rparr>;
         s = s\<lparr>m_sepc := get_tf p tf_epc s\<rparr>
     in Inr (To_user (TRAMPOLINE + (m_userret s - trampoline s)) (MAKE_SATP (p_pagetable (the_proc p s))), s))"

text \<open>A store fault on a valid user page that is not copy-on-write prints a message.\<close>

definition plain_segfault :: "addr \<Rightarrow> uint64 \<Rightarrow> 'a kmem_scheme \<Rightarrow> bool" where
  "plain_segfault pagetable va s \<longleftrightarrow>
     va < MAXVA \<and> (case walk pagetable va False s of
        Inl _ \<Rightarrow> False
      | Inr (pte, s) \<Rightarrow> pte \<noteq> 0 \<and> read64 (mem s) pte AND PTE_V \<noteq> 0 \<and> read64 (mem s) pte AND PTE_U \<noteq> 0 \<and>
          read64 (mem s) pte AND PTE_COW = 0)"

definition store_fault :: "nat \<Rightarrow> 'a machine_scheme \<Rightarrow> 'a machine_scheme kres" where
  "store_fault p s =
     (let pt = p_pagetable (the_proc p s); va = m_stval s
      in kbind (if plain_segfault pt va s then kprint (''SEGFAULT'' @ [CHR 0x0A]) [] s else Inr s) (\<lambda>s.
         kbind (cow_fault pt va s) (\<lambda>(k, s). Inr (if k then setkilled p s else s))))"

definition bad_trap :: "nat \<Rightarrow> 'a machine_scheme \<Rightarrow> 'a machine_scheme kres" where
  "bad_trap p s =
     kbind (kprint (''usertrap(): unexpected scause %p pid=%d'' @ [CHR 0x0A]) [ArgLong (m_scause s), ArgInt (p_pid (the_proc p s))] s) (\<lambda>s.
     kbind (kprint (''            sepc=%p stval=%p'' @ [CHR 0x0A]) [ArgLong (m_sepc s), ArgLong (m_stval s)] s) (\<lambda>s.
     Inr (setkilled p s)))"

text \<open>The end of \<^verbatim>\<open>usertrap\<close>: a killed process exits, a timer interrupt gives up the CPU.\<close>

definition trap_return :: "nat \<Rightarrow> nat \<Rightarrow> 'a machine_scheme \<Rightarrow> (trap_end \<times> 'a machine_scheme) kres" where
  "trap_return p which_dev s =
     (if killed p s then kbind (exit (-1) s) (\<lambda>s. Inr (Exited, s))
      else if which_dev = 2 then Inr (Yielded, upd_proc p (\<lambda>q. q\<lparr>p_state := RUNNABLE\<rparr>) s)
      else usertrapret s)"

definition usertrap :: "((uint64 \<times> uint) list \<Rightarrow> uint64 \<Rightarrow> uint) \<Rightarrow> uint8 list \<Rightarrow> 'a machine_scheme \<Rightarrow> (trap_end \<times> 'a machine_scheme) kres" where
  "usertrap dev junk s =
     (if m_sstatus s AND SSTATUS_SPP \<noteq> 0 then Inl (Panic ''usertrap: not from user mode'')
      else
        let s = s\<lparr>m_stvec := m_kernelvec s\<rparr>
        in kbind (myproc s) (\<lambda>p.
           let s = set_tf p tf_epc (m_sepc s) s
           in if m_scause s = 8
              then if killed p s then kbind (exit (-1) s) (\<lambda>s. Inr (Exited, s))
                   else
                     let s = set_tf p tf_epc (get_tf p tf_epc s + 4) s;
                         s = intr_on s
                     in kbind (syscall (m_forkret s) junk s) (\<lambda>(alive, s).
                        if alive then trap_return p 0 s else Inr (Exited, s))
              else if m_scause s = 15 then kbind (store_fault p s) (\<lambda>s. trap_return p 0 s)
              else kbind (devintr dev s) (\<lambda>(which_dev, s).
                if which_dev \<noteq> 0 then trap_return p which_dev s
                else kbind (bad_trap p s) (\<lambda>s. trap_return p 0 s))))"

section \<open>Traps in the kernel\<close>

text \<open>The result tells whether the interrupted process gives up the CPU before the registers are restored.\<close>

definition kerneltrap :: "((uint64 \<times> uint) list \<Rightarrow> uint64 \<Rightarrow> uint) \<Rightarrow> 'a machine_scheme \<Rightarrow> (bool \<times> 'a machine_scheme) kres" where
  "kerneltrap dev s =
     (let sepc = m_sepc s; sstatus = m_sstatus s; scause = m_scause s
      in if sstatus AND SSTATUS_SPP = 0 then Inl (Panic ''kerneltrap: not from supervisor mode'')
         else if intr_get s then Inl (Panic ''kerneltrap: interrupts enabled'')
         else kbind (devintr dev s) (\<lambda>(which_dev, s).
           if which_dev = 0
           then kbind (kprint (''scause %p'' @ [CHR 0x0A]) [ArgLong scause] s) (\<lambda>s.
                kbind (kprint (''sepc=%p stval=%p'' @ [CHR 0x0A]) [ArgLong (m_sepc s), ArgLong (m_stval s)] s) (\<lambda>s.
                Inl (Panic ''kerneltrap'')))
           else
             let yields = (which_dev = 2 \<and> (case curproc s of None \<Rightarrow> False | Some p \<Rightarrow> p_state (the_proc p s) = RUNNING));
                 s = (case curproc s of
                        Some p \<Rightarrow> if yields then upd_proc p (\<lambda>q. q\<lparr>p_state := RUNNABLE\<rparr>) s else s
                      | None \<Rightarrow> s)
             in Inr (yields, s\<lparr>m_sepc := sepc, m_sstatus := sstatus\<rparr>)))"

definition trapinithart :: "'a machine_scheme \<Rightarrow> 'a machine_scheme" where
  "trapinithart s = s\<lparr>m_stvec := m_kernelvec s\<rparr>"

text \<open>
  \<^verbatim>\<open>forkret\<close>: the first process to run initialises the file system. \<open>first\<close> is the static flag;
  the result is its new value.
\<close>

definition forkret :: "bool \<Rightarrow> 'a machine_scheme \<Rightarrow> (bool \<times> trap_end \<times> 'a machine_scheme) kres" where
  "forkret first s =
     kbind (if first then fsinit ROOTDEV s else Inr s) (\<lambda>s.
     kbind (usertrapret s) (\<lambda>(e, s). Inr (False, e, s)))"

end
