(* ===== verification/Boot.thy ===== *)
theory Boot
  imports Trap
begin

text \<open>
  Start-up: the machine-mode prologue of \<^verbatim>\<open>start.c\<close>, the device initialisations of \<^verbatim>\<open>uart.c\<close> and
  \<^verbatim>\<open>console.c\<close>, the kernel page table of \<^verbatim>\<open>vm.c\<close>, and \<^verbatim>\<open>main\<close> up to the point where it enters the
  scheduler. The record adds the machine-mode registers, the registers written at the serial
  port and \<^verbatim>\<open>kernel_pagetable\<close>. \<open>mtime\<close> is the timer value that \<^verbatim>\<open>timerinit\<close> reads;
  \<open>b_main\<close>, \<open>b_timervec\<close> and \<open>b_scratch\<close> are addresses that the linker chooses.
\<close>

record boot = machine +
  kernel_pagetable :: addr
  started :: bool
  uart_regs :: "(nat \<times> uint8) list"
  b_mhartid :: uint64
  b_mstatus :: uint64
  b_mepc :: uint64
  b_medeleg :: uint64
  b_mideleg :: uint64
  b_sie :: uint64
  b_mie :: uint64
  b_mscratch :: uint64
  b_mtvec :: uint64
  b_pmpaddr0 :: uint64
  b_pmpcfg0 :: uint64
  b_mtimecmp :: "uint64 \<Rightarrow> uint64"
  b_timer_scratch :: "nat \<Rightarrow> nat \<Rightarrow> uint64"
  b_main :: uint64
  b_timervec :: uint64
  b_scratch :: "nat \<Rightarrow> uint64"

section \<open>Machine mode\<close>

definition MSTATUS_MPP_MASK :: uint64 where "MSTATUS_MPP_MASK = push_bit 11 3"
definition MSTATUS_MPP_S :: uint64 where "MSTATUS_MPP_S = push_bit 11 1"
definition MSTATUS_MIE :: uint64 where "MSTATUS_MIE = push_bit 3 1"
definition SIE_SEIE :: uint64 where "SIE_SEIE = push_bit 9 1"
definition SIE_STIE :: uint64 where "SIE_STIE = push_bit 5 1"
definition SIE_SSIE :: uint64 where "SIE_SSIE = push_bit 1 1"
definition MIE_MTIE :: uint64 where "MIE_MTIE = push_bit 7 1"
definition CLINT :: uint64 where "CLINT = 0x2000000"
definition CLINT_MTIMECMP :: "uint64 \<Rightarrow> uint64" where "CLINT_MTIMECMP hartid = CLINT + 0x4000 + 8 * hartid"

definition timerinit :: "uint64 \<Rightarrow> 'a boot_scheme \<Rightarrow> 'a boot_scheme" where
  "timerinit mtime s =
     (let i = b_mhartid s; interval = 1000000;
          s = s\<lparr>b_mtimecmp := (b_mtimecmp s)(CLINT_MTIMECMP i := mtime + interval)\<rparr>;
          scratch = (b_timer_scratch s (unat i))(3 := CLINT_MTIMECMP i, 4 := interval);
          s = s\<lparr>b_timer_scratch := (b_timer_scratch s)(unat i := scratch)\<rparr>;
          s = s\<lparr>b_mscratch := b_scratch s (unat i)\<rparr>;
          s = s\<lparr>b_mtvec := b_timervec s\<rparr>;
          s = s\<lparr>b_mstatus := b_mstatus s OR MSTATUS_MIE\<rparr>
      in s\<lparr>b_mie := b_mie s OR MIE_MTIE\<rparr>)"

definition start :: "uint64 \<Rightarrow> 'a boot_scheme \<Rightarrow> 'a boot_scheme" where
  "start mtime s =
     (let s = s\<lparr>b_mstatus := (b_mstatus s AND NOT MSTATUS_MPP_MASK) OR MSTATUS_MPP_S\<rparr>;
          s = s\<lparr>b_mepc := b_main s\<rparr>;
          s = s\<lparr>m_satp := 0\<rparr>;
          s = s\<lparr>b_medeleg := 0xffff, b_mideleg := 0xffff\<rparr>;
          s = s\<lparr>b_sie := b_sie s OR SIE_SEIE OR SIE_STIE OR SIE_SSIE\<rparr>;
          s = s\<lparr>b_pmpaddr0 := 0x3fffffffffffff, b_pmpcfg0 := 0xf\<rparr>;
          s = timerinit mtime s
      in s\<lparr>m_tp := scast (ucast (b_mhartid s) :: uint)\<rparr>)"

section \<open>Devices\<close>

definition WriteReg :: "nat \<Rightarrow> uint8 \<Rightarrow> 'a boot_scheme \<Rightarrow> 'a boot_scheme" where
  "WriteReg r v s = s\<lparr>uart_regs := uart_regs s @ [(r, v)]\<rparr>"

definition uartinit :: "'a boot_scheme \<Rightarrow> 'a boot_scheme" where
  "uartinit s =
     (let s = WriteReg 1 0x00 s;
          s = WriteReg 3 (push_bit 7 1) s;
          s = WriteReg 0 0x03 s;
          s = WriteReg 1 0x00 s;
          s = WriteReg 3 3 s;
          s = WriteReg 2 (1 OR push_bit 1 3) s
      in WriteReg 1 (push_bit 1 1 OR 1) s)"

definition consoleinit :: "'a boot_scheme \<Rightarrow> 'a boot_scheme" where
  "consoleinit s = (let s = uartinit s in s\<lparr>devsw := (devsw s)[CONSOLE := Some Console_dev]\<rparr>)"

section \<open>The kernel page table and main\<close>

definition kvminit :: "'a boot_scheme \<Rightarrow> 'a boot_scheme kres" where
  "kvminit s = kbind (kvmmake s) (\<lambda>(pt, s). Inr (s\<lparr>kernel_pagetable := pt\<rparr>))"

definition kvminithart :: "'a boot_scheme \<Rightarrow> 'a boot_scheme" where
  "kvminithart s = s\<lparr>m_satp := MAKE_SATP (kernel_pagetable s)\<rparr>"

text \<open>\<^verbatim>\<open>main\<close> on the first hart, up to the call of the scheduler.\<close>

definition main_first :: "((uint64 \<times> uint) list \<Rightarrow> uint64 \<Rightarrow> uint) \<Rightarrow> 'a boot_scheme \<Rightarrow> 'a boot_scheme kres" where
  "main_first dev s =
     (let s = consoleinit s
      in kbind (kprint [CHR 0x0A] [] s) (\<lambda>s.
         kbind (kprint (''xv6 kernel is booting'' @ [CHR 0x0A]) [] s) (\<lambda>s.
         kbind (kprint [CHR 0x0A] [] s) (\<lambda>s.
         kbind (kinit s) (\<lambda>s.
         kbind (kvminit s) (\<lambda>s.
         let s = kvminithart s;
             s = procinit s;
             s = trapinithart s;
             s = plicinit s;
             s = plicinithart s;
             s = binit s;
             s = iinit s
         in kbind (virtio_disk_init dev s) (\<lambda>s.
            kbind (userinit (m_forkret s) s) (\<lambda>s.
            Inr (s\<lparr>started := True\<rparr>)))))))))"

text \<open>\<^verbatim>\<open>main\<close> on the other harts, once \<^verbatim>\<open>started\<close> is set; before that it spins.\<close>

definition main_other :: "'a boot_scheme \<Rightarrow> 'a boot_scheme option kres" where
  "main_other s =
     (if \<not> started s then Inr None
      else kbind (kprint (''hart %d starting'' @ [CHR 0x0A]) [ArgInt (cpuid s)] s) (\<lambda>s.
           let s = kvminithart s; s = trapinithart s; s = plicinithart s in Inr (Some s)))"

definition main :: "((uint64 \<times> uint) list \<Rightarrow> uint64 \<Rightarrow> uint) \<Rightarrow> 'a boot_scheme \<Rightarrow> 'a boot_scheme option kres" where
  "main dev s = (if cpuid s = 0 then kbind (main_first dev s) (\<lambda>s. Inr (Some s)) else main_other s)"

end
