(* ===== verification/Sample.thy ===== *)
theory Sample
  imports File Cow
begin

text \<open>
  A small concrete machine on which the properties of the upper layers are evaluated: one
  running process whose page 0 is mapped to a frame, as in theory Cow, empty caches and tables
  elsewhere.
\<close>

text \<open>Valid, readable, writable and accessible to the user.\<close>

definition user_flags :: uint64 where
  "user_flags = 0x17"

definition idle_proc :: proc where
  "idle_proc = \<lparr>p_state = UNUSED, p_chan = Chan_null, p_killed = 0, p_xstate = 0, p_pid = 0, p_parent = None, p_kstack = 0,
     p_sz = 0, p_pagetable = 0, p_trapframe = 0, p_context = \<lparr>ctx_ra = 0, ctx_sp = 0, ctx_s = []\<rparr>,
     p_ofile = replicate NOFILE None, p_cwd = None, p_name = replicate 16 0\<rparr>"

definition shell_proc :: proc where
  "shell_proc = idle_proc\<lparr>p_state := RUNNING, p_pid := 2, p_sz := PGSIZE, p_pagetable := wpage 0, p_trapframe := wpage 4,
     p_ofile := Some 0 # replicate (NOFILE - 1) None\<rparr>"

definition sample :: files where
  "sample = \<lparr>mem = fork_mem user_flags, freelist = wpage 5, refcounts = (\<lambda>_. 2), MAX_PAGES = 8, FREE_PAGES = 3, kend = wpage 0,
     etext = KERNBASE, trampoline = KERNBASE, procs = shell_proc # replicate (NPROC - 1) idle_proc, curproc = Some 0,
     initproc = Some 1, nextpid = 3, ticks = 0, sched_pointer = Rr_scheduler, console_out = [],
     bufs = replicate NBUF \<lparr>b_valid = False, b_dev = 0, b_blockno = 0, b_lock = initsleeplock, b_refcnt = 0, b_data = replicate BSIZE 0\<rparr>,
     lru = [0..<NBUF], disk = (\<lambda>_. replicate BSIZE 0), disk_trace = [], log_start = 2, log_size = 30, outstanding = 0,
     committing = False, log_dev = ROOTDEV, lh_n = 0, lh_block = replicate LOGSIZE 0,
     sb = \<lparr>sb_magic = FSMAGIC, sb_size = 2000, sb_nblocks = 1954, sb_ninodes = 200, sb_nlog = 30, sb_logstart = 2,
       sb_inodestart = 32, sb_bmapstart = 45\<rparr>,
     inodes = replicate NINODE \<lparr>i_dev = 0, i_inum = 0, i_ref = 0, i_lock = initsleeplock, i_valid = False, i_type = 0, i_major = 0,
       i_minor = 0, i_nlink = 0, i_size = 0, i_addrs = replicate 13 0\<rparr>,
     cons_buf = replicate INPUT_BUF_SIZE 0, cons_r = 0, cons_w = 0, cons_e = 0, uart_tx_buf = replicate UART_TX_BUF_SIZE 0,
     uart_tx_w = 0, uart_tx_r = 0, uart_room = 1, uart_rx = [],
     ftable = \<lparr>f_type = FD_PIPE, f_ref = 1, f_readable = True, f_writable = False, f_pipe = wpage 4, f_ip = 0, f_off = 0, f_major = 0\<rparr>
       # replicate (NFILE - 1) \<lparr>f_type = FD_NONE, f_ref = 0, f_readable = False, f_writable = False, f_pipe = 0, f_ip = 0, f_off = 0, f_major = 0\<rparr>,
     pipes = (\<lambda>_. \<lparr>pi_data = replicate PIPESIZE 65, pi_nread = 0xFFFFFFFF, pi_nwrite = 1, pi_readopen = True, pi_writeopen = True\<rparr>),
     devsw = replicate NDEV None\<rparr>"

lemma sample_current [simp]: "curproc sample = Some 0" "the_proc 0 sample = shell_proc" "mem sample = fork_mem user_flags"
  by (simp_all add: sample_def the_proc_def)

lemma sample_shell [simp]: "p_pagetable shell_proc = wpage 0" "p_trapframe shell_proc = wpage 4" "p_killed shell_proc = 0"
  "p_pid shell_proc = 2" "p_state shell_proc = RUNNING" "p_sz shell_proc = PGSIZE"
  by (simp_all add: shell_proc_def idle_proc_def)

lemma sample_killed [simp]: "\<not> killed 0 sample"
  by (simp add: killed_def)

text \<open>The user page of the current process is the frame \<open>wpage 3\<close>.\<close>

lemma sample_leaf: "leaf (mem sample) (wpage 0) 0 = PA2PTE (wpage 3) OR user_flags" "pt_wf (mem sample) (wpage 0)"
  by (simp_all add: fork_leaf fork_wf)

lemma sample_user_page:
  "leaf (mem sample) (wpage 0) 0 AND PTE_V \<noteq> 0" "leaf (mem sample) (wpage 0) 0 AND PTE_U \<noteq> 0"
  "PTE2PA (leaf (mem sample) (wpage 0) 0) = wpage 3"
proof -
  have lt: "user_flags < 1024" by (simp add: user_flags_def word_less_nat_alt)
  show "leaf (mem sample) (wpage 0) 0 AND PTE_V \<noteq> 0" "leaf (mem sample) (wpage 0) 0 AND PTE_U \<noteq> 0"
    by (simp_all add: fork_leaf and_flag_iff bit_or_iff user_flags_def)
  show "PTE2PA (leaf (mem sample) (wpage 0) 0) = wpage 3" using lt by (simp add: fork_leaf)
qed

lemma PGROUNDDOWN_0 [simp]: "PGROUNDDOWN 0 = 0"
  by (simp add: PGROUNDDOWN_def)

lemma wpage_3_nonzero: "wpage 3 \<noteq> 0"
  by (simp add: wpage_def)

lemma sample_copyin: "n \<le> 4096 \<Longrightarrow> copyin (wpage 0) 0 n sample = Inr (0, read_bytes (mem sample) (wpage 3) n)"
  using copyin_one_page [of sample "wpage 0" 0 n] sample_leaf(2) sample_user_page wpage_3_nonzero by (simp add: MAXVA_eq)

lemma sample_copyout:
  "length bs \<le> 4096 \<Longrightarrow> copyout (wpage 0) 0 bs sample = Inr (0, sample\<lparr>mem := write_bytes (mem sample) (wpage 3) bs\<rparr>)"
  using copyout_one_page [of sample "wpage 0" 0 bs] sample_leaf(2) sample_user_page wpage_3_nonzero by (simp add: MAXVA_eq)

text \<open>Addresses at the top of the address space are never mapped.\<close>

lemma sample_bad_address:
  fixes s :: "'a kmem_scheme"
  shows "copyout pt (-1) (b # bs) s = Inr (-1, s)" "copyin pt (-1) (Suc n) s = Inr (-1, [])"
proof -
  have "walkaddr pt (PGROUNDDOWN (-1)) s = Inr 0"
    by (simp add: walkaddr_def MAXVA_eq PGROUNDDOWN_def PGSIZE_def word_le_nat_alt)
  then show "copyout pt (-1) (b # bs) s = Inr (-1, s)" "copyin pt (-1) (Suc n) s = Inr (-1, [])"
    by (simp_all add: copyout.simps [of pt "-1" "b # bs"] copyin.simps [of pt "-1" "Suc n"] Let_def)
qed

end
