(* ===== verification/Pipe.thy ===== *)
theory Pipe
  imports Sample
begin

text \<open>
  Correctness of pipes. \<open>pipe_bytes\<close> is the sequence of bytes in the pipe; \<^verbatim>\<open>pipewrite\<close> appends to
  it what it reads from the writer's memory and \<^verbatim>\<open>piperead\<close> takes from its front, also when the
  32-bit counters wrap around. The pipe is an instance of the bounded queue of theory Ring.
\<close>

definition pipe_ok :: "pipe \<Rightarrow> bool" where
  "pipe_ok p \<longleftrightarrow> length (pi_data p) = PIPESIZE \<and> unat (pi_nwrite p - pi_nread p) \<le> PIPESIZE"

definition pipe_bytes :: "pipe \<Rightarrow> uint8 list" where
  "pipe_bytes p = ring (pi_data p) (pi_nread p) (pi_nwrite p)"

lemma PIPESIZE_word: "PIPESIZE dvd 2 ^ LENGTH(32)" "PIPESIZE < 2 ^ LENGTH(32)"
  by (simp_all add: PIPESIZE_def)

lemma length_pipe_bytes: "length (pipe_bytes p) = unat (pi_nwrite p - pi_nread p)"
  by (simp add: pipe_bytes_def)

interpretation pipe_fifo: bounded_fifo pipe_bytes pipe_ok PIPESIZE pipe_put pipe_get
proof unfold_locales
  fix s x
  assume ok: "pipe_ok s" and room: "length (pipe_bytes s) < PIPESIZE"
  then have r: "unat (pi_nwrite s - pi_nread s) < PIPESIZE" by (simp add: length_pipe_bytes)
  show c: "pipe_bytes (pipe_put x s) = pipe_bytes s @ [x]"
    using ring_put [OF _ PIPESIZE_word r, of "pi_data s" x] ok by (simp add: pipe_ok_def pipe_bytes_def pipe_put_def)
  show "pipe_ok (pipe_put x s)"
    using unat_suc_diff [OF r PIPESIZE_word(2)] ok r by (simp add: pipe_ok_def pipe_put_def)
next
  fix s x xs
  assume ok: "pipe_ok s" and c: "pipe_bytes s = x # xs"
  then have ne: "pi_nread s \<noteq> pi_nwrite s" by (metis pipe_bytes_def ring_empty list.distinct(1))
  show "fst (pipe_get s) = x \<and> pipe_bytes (snd (pipe_get s)) = xs"
    using ring_get [OF ne, of "pi_data s"] c ok by (simp add: pipe_bytes_def pipe_get_def pipe_ok_def)
next
  fix s
  assume ok: "pipe_ok s" and ne: "pipe_bytes s \<noteq> []"
  then have "pi_nwrite s - pi_nread s \<noteq> 0" by (simp add: pipe_bytes_def)
  then have "unat (pi_nwrite s - pi_nread s - 1) \<le> unat (pi_nwrite s - pi_nread s)" using unat_minus_one by (metis diff_le_self)
  then show "pipe_ok (snd (pipe_get s))" using ok by (simp add: pipe_ok_def pipe_get_def diff_diff_eq)
next
  fix s
  assume "pipe_ok s"
  then show "length (pipe_bytes s) \<le> PIPESIZE" by (simp add: pipe_ok_def length_pipe_bytes)
qed

section \<open>Frame lemmas\<close>

lemma wakeup_files:
  fixes s :: "'a files_scheme"
  shows "pipes (wakeup c s) = pipes s" "mem (wakeup c s) = mem s" "curproc (wakeup c s) = curproc s"
  using wakeup_frame [of c s] by auto

lemma upd_pipe_frame [simp]:
  "mem (upd_pipe a f s) = mem s" "curproc (upd_pipe a f s) = curproc s" "the_proc p (upd_pipe a f s) = the_proc p s"
  "pipes (upd_pipe a f s) a = f (pipes s a)" "b \<noteq> a \<Longrightarrow> pipes (upd_pipe a f s) b = pipes s b"
  by (simp_all add: upd_pipe_def the_proc_def)

lemma walkaddr_mem_cong:
  fixes s :: "'a kmem_scheme" and t :: "'b kmem_scheme"
  assumes "mem s = mem t"
  shows "walkaddr pt va s = walkaddr pt va t"
proof -
  have "map_sum (\<lambda>e. e) fst (walk_loop n pt va False s) = map_sum (\<lambda>e. e) fst (walk_loop n pt va False t) \<and>
      (\<forall>a u. walk_loop n pt va False s = Inr (a, u) \<longrightarrow> u = s) \<and> (\<forall>a u. walk_loop n pt va False t = Inr (a, u) \<longrightarrow> u = t)" for n pt
    using assms by (induction n arbitrary: pt) (auto simp: Let_def)
  then have "map_sum (\<lambda>e. e) fst (walk_loop 2 pt va False s) = map_sum (\<lambda>e. e) fst (walk_loop 2 pt va False t)"
      "\<And>a u. walk_loop 2 pt va False s = Inr (a, u) \<Longrightarrow> u = s" "\<And>a u. walk_loop 2 pt va False t = Inr (a, u) \<Longrightarrow> u = t"
    by blast+
  then show ?thesis using assms
    by (cases "walk_loop 2 pt va False s"; cases "walk_loop 2 pt va False t") (auto simp: walkaddr_def walk_def)
qed

lemma copyin_mem_cong:
  fixes s :: "'a kmem_scheme" and t :: "'b kmem_scheme"
  assumes "mem s = mem t"
  shows "copyin pt va n s = copyin pt va n t"
proof (induction n arbitrary: va rule: less_induct)
  case (less n)
  have w: "walkaddr pt (PGROUNDDOWN va) s = walkaddr pt (PGROUNDDOWN va) t" using assms by (rule walkaddr_mem_cong)
  show ?case
  proof (cases "n = 0")
    case False
    let ?k = "min (unat (PGSIZE - (va - PGROUNDDOWN va))) n"
    have "n - ?k < n" using False page_room [of va] by (auto simp: min_def)
    then have "copyin pt v (n - ?k) s = copyin pt v (n - ?k) t" for v by (rule less)
    then show ?thesis using False w assms by (simp add: copyin.simps [of pt va n] Let_def cong: if_cong)
  qed (simp add: copyin.simps)
qed

text \<open>What a copy to user space leaves alone: everything but the memory.\<close>

lemma copyout_frame:
  "copyout pt va bs s = Inr (r, s') \<Longrightarrow> \<exists>m. s' = s\<lparr>mem := m\<rparr>"
proof (induction pt va bs s arbitrary: r s' rule: copyout.induct)
  case (1 pt va bs s)
  show ?case
  proof (cases "bs = []")
    case True
    then show ?thesis using "1.prems" by (intro exI [of _ "mem s"]) (simp add: copyout.simps)
  next
    case False
    obtain pa where w: "walkaddr pt (PGROUNDDOWN va) s = Inr pa"
      using "1.prems" False by (subst (asm) copyout.simps) (auto simp: kbind_eq_Inr_iff Let_def)
    show ?thesis
    proof (cases "pa = 0")
      case True
      then show ?thesis using "1.prems" False w by (intro exI [of _ "mem s"]) (simp add: copyout.simps [of pt va bs])
    next
      case nz: False
      let ?n = "min (unat (PGSIZE - (va - PGROUNDDOWN va))) (length bs)"
      let ?t = "s\<lparr>mem := write_bytes (mem s) (pa + (va - PGROUNDDOWN va)) (take ?n bs)\<rparr>"
      have "copyout pt (PGROUNDDOWN va + PGSIZE) (drop ?n bs) ?t = Inr (r, s')"
        using "1.prems" False w nz by (simp add: copyout.simps [of pt va bs] Let_def)
      from "1.IH" [OF False refl w nz refl this] show ?thesis by auto
    qed
  qed
qed

section \<open>Writing\<close>

text \<open>\<open>user_bytes\<close> says that the bytes \<open>bs\<close> are the user memory from \<open>ad\<close> on, as the writer sees it.\<close>

definition user_bytes :: "addr \<Rightarrow> uint64 \<Rightarrow> uint8 list \<Rightarrow> 'a kmem_scheme \<Rightarrow> bool" where
  "user_bytes pt ad bs s \<longleftrightarrow> (\<forall>k<length bs. copyin pt (ad + of_nat k) 1 s = Inr (0, [bs ! k]))"

lemma user_bytes_Cons:
  assumes "copyin pt ad 1 s = Inr (0, [b])" "user_bytes pt (ad + 1) bs s"
  shows "user_bytes pt ad (b # bs) s"
  using assms unfolding user_bytes_def by (auto simp: less_Suc_eq_0_disj add.assoc)

lemma copyin_one: "copyin pt ad 1 s = Inr (r, bs) \<Longrightarrow> r \<noteq> -1 \<Longrightarrow> r = 0 \<and> length bs = 1"
proof -
  assume c: "copyin pt ad 1 s = Inr (r, bs)" "r \<noteq> -1"
  have "min (unat (PGSIZE - (ad - PGROUNDDOWN ad))) 1 = 1" using page_room [of ad] by simp
  then show ?thesis using c
    by (subst (asm) copyin.simps) (auto simp: kbind_eq_Inr_iff Let_def copyin.simps [of _ _ 0] read_bytes_def split: if_splits)
qed

text \<open>
  The outcome of the writer's loop that has put \<open>bs\<close> into the pipe: an error only when the
  reader is gone or the writer killed; a short count only when the user address is bad; a wait
  only when the pipe is full.
\<close>

definition write_outcome :: "addr \<Rightarrow> nat \<Rightarrow> uint64 \<Rightarrow> nat \<Rightarrow> nat \<Rightarrow> uint8 list \<Rightarrow> (int, nat) io \<Rightarrow> 'a files_scheme \<Rightarrow> 'a files_scheme \<Rightarrow> bool" where
  "write_outcome a p ad i k bs out s s' \<longleftrightarrow>
     (case out of
        Done r \<Rightarrow> (r = -1 \<and> (\<not> pi_readopen (pipes s a) \<or> killed p s)) \<or>
          (r = int (i + length bs) \<and> (length bs = k \<or>
            (\<exists>e. copyin (p_pagetable (the_proc p s)) (ad + of_nat (i + length bs)) 1 s = Inr (-1, e))))
      | Wait c j \<Rightarrow> c = Chan_pipe_nwrite a \<and> j = i + length bs \<and> length bs < k \<and> length (pipe_bytes (pipes s' a)) = PIPESIZE)"

lemma pipe_full_iff:
  "pi_nwrite p = pi_nread p + of_nat PIPESIZE \<longleftrightarrow> length (pipe_bytes p) = PIPESIZE"
proof -
  have "pi_nwrite p = pi_nread p + of_nat PIPESIZE \<longleftrightarrow> pi_nwrite p - pi_nread p = of_nat PIPESIZE"
    by (auto simp: algebra_simps)
  also have "\<dots> \<longleftrightarrow> unat (pi_nwrite p - pi_nread p) = PIPESIZE"
    by (simp add: word_unat_eq_iff PIPESIZE_def)
  finally show ?thesis by (simp add: length_pipe_bytes)
qed

lemma pipewrite_loop_appends:
  assumes "pipewrite_loop a ad i k s = Inr (out, s')" "pipe_ok (pipes s a)" "curproc s = Some p"
  shows "\<exists>bs. pipe_bytes (pipes s' a) = pipe_bytes (pipes s a) @ bs \<and> pipe_ok (pipes s' a) \<and> length bs \<le> k \<and>
    user_bytes (p_pagetable (the_proc p s)) (ad + of_nat i) bs s \<and> write_outcome a p ad i k bs out s s'"
  using assms
proof (induction k arbitrary: i s)
  case 0
  then show ?case by (intro exI [of _ "[]"]) (auto simp: wakeup_files user_bytes_def write_outcome_def)
next
  case (Suc k)
  let ?pt = "p_pagetable (the_proc p s)"
  have me: "myproc s = Inr p" using Suc.prems(3) by (simp add: myproc_def)
  consider (gone) "\<not> pi_readopen (pipes s a) \<or> killed p s"
    | (full) "pi_readopen (pipes s a)" "\<not> killed p s" "length (pipe_bytes (pipes s a)) = PIPESIZE"
    | (room) "pi_readopen (pipes s a)" "\<not> killed p s" "length (pipe_bytes (pipes s a)) \<noteq> PIPESIZE" by blast
  then show ?case
  proof cases
    case gone
    then show ?thesis using Suc.prems me
      by (intro exI [of _ "[]"]) (auto simp: user_bytes_def write_outcome_def)
  next
    case full
    then show ?thesis using Suc.prems me
      by (intro exI [of _ "[]"]) (auto simp: pipe_full_iff wakeup_files user_bytes_def write_outcome_def)
  next
    case room
    then have lt: "length (pipe_bytes (pipes s a)) < PIPESIZE"
      using pipe_fifo.bounded [OF Suc.prems(2)] by simp
    obtain r bs where c: "copyin ?pt (ad + of_nat i) 1 s = Inr (r, bs)"
      using Suc.prems(1) me room by (auto simp: pipe_full_iff kbind_eq_Inr_iff)
    show ?thesis
    proof (cases "r = -1")
      case True
      then show ?thesis using Suc.prems me room c
        by (intro exI [of _ "[]"]) (auto simp: pipe_full_iff wakeup_files user_bytes_def write_outcome_def)
    next
      case False
      then obtain b where b: "bs = [b]" "r = 0" using copyin_one [OF c False] by (cases bs) auto
      let ?t = "upd_pipe a (pipe_put b) s"
      have run: "pipewrite_loop a ad (Suc i) k ?t = Inr (out, s')"
        using Suc.prems(1) me room c b by (simp add: pipe_full_iff)
      have "pipe_ok (pipes ?t a)" using pipe_fifo.put_ok [OF Suc.prems(2) lt] by simp
      from Suc.IH [OF run this] Suc.prems(3) obtain cs where
        IH: "pipe_bytes (pipes s' a) = pipe_bytes (pipe_put b (pipes s a)) @ cs" "pipe_ok (pipes s' a)" "length cs \<le> k"
          "user_bytes ?pt (ad + of_nat (Suc i)) cs ?t" "write_outcome a p ad (Suc i) k cs out ?t s'"
        by auto
      have cong: "copyin ?pt v n ?t = copyin ?pt v n s" for v n by (rule copyin_mem_cong) simp
      have "user_bytes ?pt (ad + of_nat i) (b # cs) s"
        using IH(4) c b by (intro user_bytes_Cons) (simp_all add: user_bytes_def cong add_ac)
      moreover have "write_outcome a p ad i (Suc k) (b # cs) out s s'"
        using IH(5) by (simp add: write_outcome_def cong killed_def pipe_put_def split: io.splits)
      ultimately show ?thesis
        using IH(1-3) pipe_fifo.put_contents [OF Suc.prems(2) lt] by (intro exI [of _ "b # cs"]) simp
    qed
  qed
qed

section \<open>Reading\<close>

lemma copyout_mem_cong:
  fixes s :: "'a kmem_scheme" and t :: "'b kmem_scheme"
  assumes "copyout pt va bs s = Inr (r, s')" "mem s = mem t"
  shows "copyout pt va bs t = Inr (r, t\<lparr>mem := mem s'\<rparr>)"
  using assms
proof (induction pt va bs s arbitrary: t rule: copyout.induct)
  case (1 pt va bs s)
  have wc: "walkaddr pt (PGROUNDDOWN va) t = walkaddr pt (PGROUNDDOWN va) s"
    using walkaddr_mem_cong [OF "1.prems"(2)] by simp
  show ?case
  proof (cases "bs = []")
    case True
    then show ?thesis using "1.prems" by (auto simp: copyout.simps)
  next
    case False
    obtain pa where w: "walkaddr pt (PGROUNDDOWN va) s = Inr pa"
      using "1.prems" False by (subst (asm) copyout.simps) (auto simp: kbind_eq_Inr_iff Let_def)
    show ?thesis
    proof (cases "pa = 0")
      case True
      then show ?thesis using "1.prems" False w wc by (simp add: copyout.simps [of pt va bs])
    next
      case nz: False
      let ?n = "min (unat (PGSIZE - (va - PGROUNDDOWN va))) (length bs)"
      let ?u = "\<lambda>x. x\<lparr>mem := write_bytes (mem s) (pa + (va - PGROUNDDOWN va)) (take ?n bs)\<rparr>"
      have "copyout pt (PGROUNDDOWN va + PGSIZE) (drop ?n bs) (?u s) = Inr (r, s')"
        using "1.prems" False w nz by (simp add: copyout.simps [of pt va bs] Let_def)
      from "1.IH" [OF False refl w nz refl this, of "?u t"]
      show ?thesis using False w wc nz "1.prems"(2) by (simp add: copyout.simps [of pt va bs] Let_def)
    qed
  qed
qed

text \<open>Bytes delivered to user memory one at a time, all without a fault.\<close>

fun deliver :: "addr \<Rightarrow> uint64 \<Rightarrow> uint8 list \<Rightarrow> 'a kmem_scheme \<Rightarrow> 'a kmem_scheme option" where
  "deliver pt ad [] s = Some s"
| "deliver pt ad (b # bs) s =
     (case copyout pt ad [b] s of Inr (r, s) \<Rightarrow> if r = -1 then None else deliver pt (ad + 1) bs s | Inl _ \<Rightarrow> None)"

lemma deliver_frame: "deliver pt ad bs s = Some s' \<Longrightarrow> \<exists>m. s' = s\<lparr>mem := m\<rparr>"
proof (induction pt ad bs s rule: deliver.induct)
  case (1 pt ad s)
  then show ?case by (intro exI [of _ "mem s"]) simp
next
  case (2 pt ad b bs s)
  then obtain r s1 where c: "copyout pt ad [b] s = Inr (r, s1)" "r \<noteq> -1" "deliver pt (ad + 1) bs s1 = Some s'"
    by (auto split: sum.splits if_splits)
  then show ?case using "2.IH" [OF c(1) refl c(2,3)] copyout_frame [OF c(1)] by auto
qed

lemma deliver_mem_cong:
  fixes s :: "'a kmem_scheme" and t :: "'b kmem_scheme"
  assumes "deliver pt ad bs s = Some s'" "mem s = mem t"
  shows "deliver pt ad bs t = Some (t\<lparr>mem := mem s'\<rparr>)"
  using assms
proof (induction bs arbitrary: s t ad)
  case (Cons b bs)
  from Cons.prems obtain r s1 where c: "copyout pt ad [b] s = Inr (r, s1)" "r \<noteq> -1" "deliver pt (ad + 1) bs s1 = Some s'"
    by (auto split: sum.splits if_splits)
  then show ?case
    using copyout_mem_cong [OF c(1) Cons.prems(2)] Cons.IH [OF c(3), of "t\<lparr>mem := mem s1\<rparr>"] by simp
qed simp

lemma copyout_one:
  assumes "copyout pt va [b] s = Inr (r, s')"
  shows "r = 0 \<or> (r = -1 \<and> s' = s)"
proof -
  have "min (unat (PGSIZE - (va - PGROUNDDOWN va))) 1 = 1" using page_room [of va] by simp
  then show ?thesis using assms
    by (subst (asm) copyout.simps) (auto simp: kbind_eq_Inr_iff Let_def copyout.simps [of _ _ "[]"] split: if_splits)
qed

text \<open>
  The outcome of the reader's loop that has delivered \<open>n\<close> of the bytes \<open>xs\<close> in the pipe: all that
  were asked for and there; or fewer because the next address faulted, and then the byte meant
  for it is gone from the pipe as well.
\<close>

definition read_outcome :: "addr \<Rightarrow> uint64 \<Rightarrow> nat \<Rightarrow> uint8 list \<Rightarrow> nat \<Rightarrow> uint8 list \<Rightarrow> 'a kmem_scheme \<Rightarrow> bool" where
  "read_outcome pt ad k xs n left s' \<longleftrightarrow>
     (n = min k (length xs) \<and> left = drop n xs) \<or>
     (n < min k (length xs) \<and> left = drop (Suc n) xs \<and> copyout pt (ad + of_nat n) [xs ! n] s' = Inr (-1, s'))"

lemma read_outcome_Suc:
  "read_outcome pt (ad + 1) k xs n left s' \<Longrightarrow> read_outcome pt ad (Suc k) (x # xs) (Suc n) left s'"
  by (auto simp: read_outcome_def add.assoc)

lemma piperead_loop_takes:
  assumes "piperead_loop a ad i k s = Inr (r, s')" "pipe_ok (pipes s a)" "curproc s = Some p"
  defines "pt \<equiv> p_pagetable (the_proc p s)"
  shows "\<exists>n. r = int (i + n) \<and> pipe_ok (pipes s' a) \<and>
    deliver pt (ad + of_nat i) (take n (pipe_bytes (pipes s a))) s = Some (s\<lparr>mem := mem s'\<rparr>) \<and>
    read_outcome pt (ad + of_nat i) k (pipe_bytes (pipes s a)) n (pipe_bytes (pipes s' a)) (s\<lparr>mem := mem s'\<rparr>)"
  using assms(1-3) unfolding pt_def
proof (induction k arbitrary: i s)
  case 0
  then show ?case by (intro exI [of _ 0]) (auto simp: wakeup_files read_outcome_def)
next
  case (Suc k)
  let ?pt = "p_pagetable (the_proc p s)" let ?xs = "pipe_bytes (pipes s a)"
  show ?case
  proof (cases "?xs")
    case Nil
    then have e: "pi_nread (pipes s a) = pi_nwrite (pipes s a)" by (simp add: pipe_bytes_def)
    then show ?thesis using Suc.prems Nil by (intro exI [of _ 0]) (auto simp: wakeup_files read_outcome_def)
  next
    case (Cons x xs)
    then have ne: "pi_nread (pipes s a) \<noteq> pi_nwrite (pipes s a)" by (auto simp: pipe_bytes_def)
    obtain q where q: "pipe_get (pipes s a) = (x, q)" "pipe_bytes q = xs" "pipe_ok q"
      using pipe_fifo.get_contents [OF Suc.prems(2) Cons] pipe_fifo.get_ok [OF Suc.prems(2)] Cons
      by (cases "pipe_get (pipes s a)") auto
    let ?t = "upd_pipe a (\<lambda>_. q) s"
    have me: "myproc ?t = Inr p" using Suc.prems(3) by (simp add: myproc_def)
    obtain v u where c: "copyout ?pt (ad + of_nat i) [x] ?t = Inr (v, u)"
      using Suc.prems(1) ne q me by (auto simp: kbind_eq_Inr_iff)
    have cs: "copyout ?pt (ad + of_nat i) [x] s = Inr (v, s\<lparr>mem := mem u\<rparr>)"
      using copyout_mem_cong [OF c, of s] by simp
    show ?thesis
    proof (cases "v = -1")
      case True
      then have "u = ?t" using copyout_one [OF c] by auto
      then show ?thesis using Suc.prems(1) ne q me c cs True Cons
        by (intro exI [of _ 0]) (auto simp: wakeup_files read_outcome_def)
    next
      case False
      obtain m where u: "u = ?t\<lparr>mem := m\<rparr>" using copyout_frame [OF c] by blast
      have run: "piperead_loop a ad (Suc i) k u = Inr (r, s')" using Suc.prems(1) ne q me c False by simp
      have "pipe_ok (pipes u a)" "curproc u = Some p" "the_proc p u = the_proc p s" "pipe_bytes (pipes u a) = xs"
        using q Suc.prems(3) by (simp_all add: u upd_pipe_def the_proc_def)
      with Suc.IH [OF run] obtain n where IH: "r = int (Suc i + n)" "pipe_ok (pipes s' a)"
        "deliver ?pt (ad + of_nat (Suc i)) (take n xs) u = Some (u\<lparr>mem := mem s'\<rparr>)"
        "read_outcome ?pt (ad + of_nat (Suc i)) k xs n (pipe_bytes (pipes s' a)) (u\<lparr>mem := mem s'\<rparr>)"
        by auto
      have ad: "ad + of_nat (Suc i) = ad + of_nat i + 1" by simp
      have "deliver ?pt (ad + of_nat i + 1) (take n xs) (s\<lparr>mem := mem u\<rparr>) = Some (s\<lparr>mem := mem s'\<rparr>)"
        using deliver_mem_cong [OF IH(3), of "s\<lparr>mem := mem u\<rparr>"] unfolding ad by simp
      then have del: "deliver ?pt (ad + of_nat i) (take (Suc n) ?xs) s = Some (s\<lparr>mem := mem s'\<rparr>)"
        using cs False Cons by simp
      have "read_outcome ?pt (ad + of_nat i + 1) k xs n (pipe_bytes (pipes s' a)) (s\<lparr>mem := mem s'\<rparr>)"
        using IH(4) copyout_mem_cong [of ?pt _ _ "u\<lparr>mem := mem s'\<rparr>" "-1" "u\<lparr>mem := mem s'\<rparr>" "s\<lparr>mem := mem s'\<rparr>"]
        unfolding ad read_outcome_def by auto
      then show ?thesis using IH(1,2) del Cons read_outcome_Suc by (intro exI [of _ "Suc n"]) auto
    qed
  qed
qed

section \<open>Properties\<close>

text \<open>
  C15: \<^verbatim>\<open>pipewrite\<close> appends to the pipe exactly the bytes it reads from the writer's memory, in
  order; it never holds more than \<^verbatim>\<open>PIPESIZE\<close> bytes, it waits only when the pipe is full, it fails
  only when the reader is gone or the writer killed, and it returns a short count only when the
  address is bad.
\<close>

theorem pipewrite_appends:
  assumes "pipewrite a ad n s = Inr (out, s')" "pipe_ok (pipes s a)" "curproc s = Some p"
  shows "\<exists>bs. pipe_bytes (pipes s' a) = pipe_bytes (pipes s a) @ bs \<and> length (pipe_bytes (pipes s' a)) \<le> PIPESIZE \<and>
    user_bytes (p_pagetable (the_proc p s)) ad bs s \<and> write_outcome a p ad 0 (nat n) bs out s s'"
  using pipewrite_loop_appends [OF assms(1) [unfolded pipewrite_def] assms(2,3)] pipe_fifo.bounded by fastforce

text \<open>
  C16: \<^verbatim>\<open>piperead\<close>, when it does not wait or fail, delivers to the reader's memory the bytes at the
  front of the pipe, in order, and removes them; it delivers all that were asked for and are
  there, except that a bad address ends the read and loses the byte meant for it.
\<close>

theorem piperead_takes:
  assumes "piperead a ad n s = Inr (Done r, s')" "pipe_ok (pipes s a)" "curproc s = Some p" "r \<noteq> -1"
  shows "deliver (p_pagetable (the_proc p s)) ad (take (nat r) (pipe_bytes (pipes s a))) s = Some (s\<lparr>mem := mem s'\<rparr>) \<and>
    read_outcome (p_pagetable (the_proc p s)) ad (nat n) (pipe_bytes (pipes s a)) (nat r) (pipe_bytes (pipes s' a)) (s\<lparr>mem := mem s'\<rparr>)"
proof -
  from assms have "piperead_loop a ad 0 (nat n) s = Inr (r, s')"
    by (auto simp: piperead_def kbind_eq_Inr_iff myproc_def split: if_splits)
  from piperead_loop_takes [OF this assms(2,3)] show ?thesis by auto
qed

lemma sample_pipe: "pipe_ok (pipes sample a)" "pipe_bytes (pipes sample a) = [65, 65]"
  by (simp_all add: sample_def pipe_ok_def pipe_bytes_def PIPESIZE_def ring_def upt_rec)

text \<open>Evaluated at one byte written from the user page, and at a read to an address that is not mapped.\<close>

theorem pipewrite_appends_witness:
  "\<exists>s'. pipewrite 0 0 1 sample = Inr (Done 1, s') \<and> length (pipe_bytes (pipes s' 0)) = 3"
proof -
  let ?t = "upd_pipe 0 (pipe_put (mem sample (wpage 3))) sample"
  have "pi_nwrite (pipes sample 0) \<noteq> pi_nread (pipes sample 0) + of_nat PIPESIZE" "pi_readopen (pipes sample 0)"
    using pipe_full_iff [of "pipes sample 0"] sample_pipe by (simp_all add: PIPESIZE_def sample_def)
  then have run: "pipewrite 0 0 1 sample = Inr (Done 1, wakeup (Chan_pipe_nread 0) ?t)"
    using sample_copyin [of 1] by (simp add: pipewrite_def myproc_def read_bytes_def)
  from pipewrite_appends [OF run sample_pipe(1) sample_current(1)]
  show ?thesis using run sample_pipe by (auto simp: write_outcome_def sample_bad_address)
qed

theorem piperead_takes_witness:
  "\<exists>s'. piperead 0 (-1) 2 sample = Inr (Done 0, s') \<and> pipe_bytes (pipes s' 0) = [65]"
proof -
  have ne: "pi_nread (pipes sample 0) \<noteq> pi_nwrite (pipes sample 0)" by (simp add: sample_def)
  then obtain s' where run: "piperead 0 (-1) 2 sample = Inr (Done 0, s')"
    by (cases "pipe_get (pipes sample 0)")
      (auto simp: piperead_def myproc_def numeral_2_eq_2 sample_bad_address)
  from piperead_takes [OF run sample_pipe(1) sample_current(1)]
  show ?thesis using run sample_pipe by (auto simp: read_outcome_def)
qed

text \<open>
  C36: the pipe is a first-in first-out queue: bytes written into a pipe with room for them come
  out after the bytes already there and in the order in which they were written.
\<close>

theorem pipe_is_fifo:
  assumes "pipe_ok p" "length (pipe_bytes p) + length xs \<le> PIPESIZE"
  shows "fst (pipe_fifo.get_n (length (pipe_bytes p) + length xs) (pipe_fifo.put_all xs p)) = pipe_bytes p @ xs"
  using assms by (rule pipe_fifo.fifo_order)

theorem pipe_is_fifo_witness:
  "fst (pipe_fifo.get_n 5 (pipe_fifo.put_all [1, 2, 3] (pipes sample 0))) = [65, 65, 1, 2, 3]"
proof -
  have n: "length (pipe_bytes (pipes sample 0)) + length [1, 2, 3 :: uint8] = 5" by (simp add: sample_pipe)
  then have "length (pipe_bytes (pipes sample 0)) + length [1, 2, 3 :: uint8] \<le> PIPESIZE" by (simp add: PIPESIZE_def)
  from pipe_is_fifo [OF sample_pipe(1) this, unfolded n] show ?thesis by (simp only: sample_pipe(2) append.simps)
qed

end
