(* ===== verification/Tty.thy ===== *)
theory Tty
  imports Sample
begin

text \<open>
  Correctness of the console. The transmit side sends bytes in the order in which they were
  queued: \<open>tx_stream\<close> is what has been sent followed by what is still queued, and queueing a byte
  appends it. The receive side refines a line editor on two lists, the bytes a reader may take
  and the line being typed.
\<close>

section \<open>Transmitter\<close>

definition tx_bytes :: "'a cons_scheme \<Rightarrow> uint8 list" where
  "tx_bytes s = ring (uart_tx_buf s) (uart_tx_r s) (uart_tx_w s)"

definition tx_ok :: "'a cons_scheme \<Rightarrow> bool" where
  "tx_ok s \<longleftrightarrow> length (uart_tx_buf s) = UART_TX_BUF_SIZE \<and> unat (uart_tx_w s - uart_tx_r s) \<le> UART_TX_BUF_SIZE"

definition tx_stream :: "'a cons_scheme \<Rightarrow> string" where
  "tx_stream s = console_out s @ map chr8 (tx_bytes s)"

text \<open>Queueing and fetching one byte, as \<^verbatim>\<open>uartputc\<close> and \<^verbatim>\<open>uartstart\<close> do it.\<close>

definition tx_put :: "uint8 \<Rightarrow> 'a cons_scheme \<Rightarrow> 'a cons_scheme" where
  "tx_put c s = s\<lparr>uart_tx_buf := (uart_tx_buf s)[unat (uart_tx_w s) mod UART_TX_BUF_SIZE := c], uart_tx_w := uart_tx_w s + 1\<rparr>"

definition tx_get :: "'a cons_scheme \<Rightarrow> uint8 \<times> 'a cons_scheme" where
  "tx_get s = (uart_tx_buf s ! (unat (uart_tx_r s) mod UART_TX_BUF_SIZE), s\<lparr>uart_tx_r := uart_tx_r s + 1\<rparr>)"

lemma UART_TX_BUF_SIZE_word: "UART_TX_BUF_SIZE dvd 2 ^ LENGTH(64)" "UART_TX_BUF_SIZE < 2 ^ LENGTH(64)"
  by (simp_all add: UART_TX_BUF_SIZE_def)

lemma length_tx_bytes: "length (tx_bytes s) = unat (uart_tx_w s - uart_tx_r s)"
  by (simp add: tx_bytes_def)

interpretation tx_fifo: bounded_fifo tx_bytes tx_ok UART_TX_BUF_SIZE tx_put tx_get
proof unfold_locales
  fix s :: "'a cons_scheme" and x
  assume ok: "tx_ok s" and room: "length (tx_bytes s) < UART_TX_BUF_SIZE"
  then have r: "unat (uart_tx_w s - uart_tx_r s) < UART_TX_BUF_SIZE" by (simp add: length_tx_bytes)
  show "tx_bytes (tx_put x s) = tx_bytes s @ [x]"
    using ring_put [OF _ UART_TX_BUF_SIZE_word r, of "uart_tx_buf s" x] ok by (simp add: tx_ok_def tx_bytes_def tx_put_def)
  show "tx_ok (tx_put x s)"
    using unat_suc_diff [OF r UART_TX_BUF_SIZE_word(2)] ok r by (simp add: tx_ok_def tx_put_def)
next
  fix s :: "'a cons_scheme" and x xs
  assume ok: "tx_ok s" and c: "tx_bytes s = x # xs"
  then have ne: "uart_tx_r s \<noteq> uart_tx_w s" by (metis tx_bytes_def ring_empty list.distinct(1))
  show "fst (tx_get s) = x \<and> tx_bytes (snd (tx_get s)) = xs"
    using ring_get [OF ne, of "uart_tx_buf s"] c ok by (simp add: tx_bytes_def tx_get_def tx_ok_def)
next
  fix s :: "'a cons_scheme"
  assume ok: "tx_ok s" and ne: "tx_bytes s \<noteq> []"
  then have "uart_tx_w s - uart_tx_r s \<noteq> 0" by (simp add: tx_bytes_def)
  then have "unat (uart_tx_w s - uart_tx_r s - 1) \<le> unat (uart_tx_w s - uart_tx_r s)" using unat_minus_one by (metis diff_le_self)
  then show "tx_ok (snd (tx_get s))" using ok by (simp add: tx_ok_def tx_get_def diff_diff_eq)
next
  fix s :: "'a cons_scheme"
  assume "tx_ok s"
  then show "length (tx_bytes s) \<le> UART_TX_BUF_SIZE" by (simp add: tx_ok_def length_tx_bytes)
qed

lemma tx_wakeup: "tx_bytes (wakeup c s) = tx_bytes s" "tx_ok (wakeup c s) = tx_ok s"
  by (simp_all add: tx_bytes_def tx_ok_def wakeup_cons)

text \<open>One byte handed to the device.\<close>

lemma uartstart_step:
  assumes "tx_ok s" "tx_bytes s = x # xs" "0 < uart_room s"
  shows "\<exists>s'. uartstart s = uartstart s' \<and> tx_ok s' \<and> tx_bytes s' = xs \<and> console_out s' = console_out s @ [chr8 x] \<and>
    uart_room s' = uart_room s - 1"
proof -
  have ne: "uart_tx_w s \<noteq> uart_tx_r s" using assms(2) by (auto simp: tx_bytes_def)
  let ?t = "wakeup Chan_uart_tx_r (snd (tx_get s))"
  let ?s' = "?t\<lparr>console_out := console_out ?t @ [chr8 x], uart_room := uart_room ?t - 1\<rparr>"
  have get: "fst (tx_get s) = x" "tx_bytes (snd (tx_get s)) = xs" "tx_ok (snd (tx_get s))"
    using tx_fifo.get_contents [OF assms(1,2)] tx_fifo.get_ok [OF assms(1)] assms(2) by auto
  have e: "snd (tx_get s) = s\<lparr>uart_tx_r := uart_tx_r s + 1\<rparr>" by (simp add: tx_get_def)
  have "uartstart s = uartstart ?s'"
    using ne assms(3) get(1) by (subst uartstart.simps) (simp add: tx_get_def Let_def)
  moreover have "tx_bytes ?s' = xs" "tx_ok ?s'" using get by (simp_all add: tx_bytes_def tx_ok_def wakeup_cons)
  moreover have "console_out ?s' = console_out s @ [chr8 x]" "uart_room ?s' = uart_room s - 1"
    by (simp_all add: wakeup_cons e)
  ultimately show ?thesis by blast
qed

lemma uartstart_stream:
  assumes "tx_ok s"
  shows "tx_stream (uartstart s) = tx_stream s \<and> tx_ok (uartstart s) \<and>
    length (tx_bytes (uartstart s)) = length (tx_bytes s) - uart_room s"
  using assms
proof (induction "length (tx_bytes s)" arbitrary: s)
  case 0
  then have "tx_bytes s = []" by simp
  then have "uart_tx_w s = uart_tx_r s" by (simp add: tx_bytes_def)
  then show ?case using 0 by (simp add: uartstart.simps [of s])
next
  case (Suc n)
  then obtain x xs where xs: "tx_bytes s = x # xs" by (cases "tx_bytes s") auto
  show ?case
  proof (cases "uart_room s = 0")
    case True
    then show ?thesis using Suc.prems by (simp add: uartstart.simps [of s])
  next
    case False
    then obtain s' where s': "uartstart s = uartstart s'" "tx_ok s'" "tx_bytes s' = xs"
      "console_out s' = console_out s @ [chr8 x]" "uart_room s' = uart_room s - 1"
      using uartstart_step [OF Suc.prems xs] by auto
    have "n = length (tx_bytes s')" using Suc.hyps(2) xs s'(3) by simp
    from Suc.hyps(1) [OF this s'(2)] show ?thesis using s' xs False by (auto simp: tx_stream_def)
  qed
qed

text \<open>
  \<^verbatim>\<open>uartputc\<close> waits only when the 32-byte buffer is full; otherwise the byte joins the end of
  the output stream, nothing already sent or queued is lost or reordered, and whatever the
  device has room for is handed to it.
\<close>

theorem uartputc_in_order:
  assumes "tx_ok s"
  shows "case uartputc c s of
      Inl e \<Rightarrow> e = Sleep Chan_uart_tx_r \<and> length (tx_bytes s) = UART_TX_BUF_SIZE
    | Inr s' \<Rightarrow> tx_stream s' = tx_stream s @ [chr8 c] \<and> tx_ok s' \<and>
        length (tx_bytes s') = Suc (length (tx_bytes s)) - uart_room s"
proof -
  have full: "uart_tx_w s = uart_tx_r s + of_nat UART_TX_BUF_SIZE \<longleftrightarrow> length (tx_bytes s) = UART_TX_BUF_SIZE"
  proof -
    have "uart_tx_w s = uart_tx_r s + of_nat UART_TX_BUF_SIZE \<longleftrightarrow> uart_tx_w s - uart_tx_r s = of_nat UART_TX_BUF_SIZE"
      by (auto simp: algebra_simps)
    also have "\<dots> \<longleftrightarrow> unat (uart_tx_w s - uart_tx_r s) = UART_TX_BUF_SIZE"
      by (simp add: word_unat_eq_iff UART_TX_BUF_SIZE_def)
    finally show ?thesis by (simp add: length_tx_bytes)
  qed
  show ?thesis
  proof (cases "length (tx_bytes s) = UART_TX_BUF_SIZE")
    case True
    then show ?thesis using full by (simp add: uartputc_def)
  next
    case False
    then have lt: "length (tx_bytes s) < UART_TX_BUF_SIZE" using tx_fifo.bounded [OF assms] by simp
    have "uartputc c s = Inr (uartstart (tx_put c s))" using False full by (simp add: uartputc_def tx_put_def)
    then show ?thesis
      using uartstart_stream [OF tx_fifo.put_ok [OF assms lt], of c] tx_fifo.put_contents [OF assms lt, of c]
      by (simp add: tx_stream_def tx_put_def)
  qed
qed

theorem uartputc_in_order_witness:
  "case uartputc 72 (sample\<lparr>uart_room := 0\<rparr>) of Inl e \<Rightarrow> False
    | Inr s' \<Rightarrow> tx_stream s' = [chr8 72] \<and> length (tx_bytes s') = 1"
proof -
  let ?s = "sample\<lparr>uart_room := 0\<rparr>"
  have "tx_ok ?s" "tx_stream ?s = []" "length (tx_bytes ?s) = 0" "uart_room ?s = 0"
    by (simp_all add: tx_ok_def tx_stream_def tx_bytes_def sample_def UART_TX_BUF_SIZE_def)
  then show ?thesis using uartputc_in_order [of ?s 72] by (auto simp: UART_TX_BUF_SIZE_def split: sum.splits)
qed

section \<open>Line editor\<close>

text \<open>
  The bytes ready for readers and the line being typed are the two parts of the input ring, from
  \<open>r\<close> to \<open>w\<close> and from \<open>w\<close> to \<open>e\<close>.
\<close>

definition input_all :: "'a cons_scheme \<Rightarrow> uint8 list" where
  "input_all s = ring (cons_buf s) (cons_r s) (cons_e s)"

definition n_ready :: "'a cons_scheme \<Rightarrow> nat" where
  "n_ready s = unat (cons_w s - cons_r s)"

definition input_ready :: "'a cons_scheme \<Rightarrow> uint8 list" where
  "input_ready s = take (n_ready s) (input_all s)"

definition input_line :: "'a cons_scheme \<Rightarrow> uint8 list" where
  "input_line s = drop (n_ready s) (input_all s)"

definition input_ok :: "'a cons_scheme \<Rightarrow> bool" where
  "input_ok s \<longleftrightarrow> length (cons_buf s) = INPUT_BUF_SIZE \<and> n_ready s \<le> length (input_all s) \<and>
     length (input_all s) \<le> INPUT_BUF_SIZE \<and> 10 \<notin> set (input_line s)"

text \<open>The reference: what a typed byte does to the two lists.\<close>

definition edit :: "uint8 \<Rightarrow> uint8 list \<times> uint8 list \<Rightarrow> uint8 list \<times> uint8 list" where
  "edit c rl =
     (let (ready, line) = rl
      in if c = ctrl (CHR ''P'') then (ready, line)
         else if c = ctrl (CHR ''U'') then (ready, [])
         else if c = ctrl (CHR ''H'') \<or> c = 0x7F then (ready, butlast line)
         else if c = 0 \<or> INPUT_BUF_SIZE \<le> length ready + length line then (ready, line)
         else let c = (if c = 13 then 10 else c); line = line @ [c]
           in if c = 10 \<or> c = ctrl (CHR ''D'') \<or> length ready + length line = INPUT_BUF_SIZE
              then (ready @ line, []) else (ready, line))"

lemma INPUT_BUF_SIZE_word: "INPUT_BUF_SIZE dvd 2 ^ LENGTH(32)" "INPUT_BUF_SIZE < 2 ^ LENGTH(32)"
  by (simp_all add: INPUT_BUF_SIZE_def)

lemma length_input_all: "length (input_all s) = unat (cons_e s - cons_r s)"
  by (simp add: input_all_def)

lemma ring_unput:
  fixes w r :: "'a::len word"
  assumes "r \<noteq> w"
  shows "ring d r (w - 1) = butlast (ring d r w)" "last (ring d r w) = d ! (unat (w - 1) mod length d)"
proof -
  let ?n = "unat (w - r - 1)"
  have n: "unat (w - r) = Suc ?n"
    using assms unat_minus_one [of "w - r"] by (metis Suc_pred' eq_iff_diff_eq_0 unat_gt_0)
  have c: "w - 1 - r = w - r - 1" by simp
  have "ring d r w = ring d r (w - 1) @ [d ! (unat (r + of_nat ?n) mod length d)]"
    unfolding ring_def n c by simp
  moreover have "r + of_nat ?n = w - 1" by simp
  ultimately show "ring d r (w - 1) = butlast (ring d r w)" "last (ring d r w) = d ! (unat (w - 1) mod length d)"
    by simp_all
qed

lemma line_empty_iff:
  assumes "n_ready s \<le> length (input_all s)"
  shows "input_line s = [] \<longleftrightarrow> cons_e s = cons_w s"
proof -
  have "input_line s = [] \<longleftrightarrow> unat (cons_e s - cons_r s) = unat (cons_w s - cons_r s)"
    using assms by (auto simp: input_line_def length_input_all n_ready_def)
  also have "\<dots> \<longleftrightarrow> cons_e s - cons_r s = cons_w s - cons_r s" by (simp add: word_unat_eq_iff)
  finally show ?thesis by simp
qed

lemma input_erase:
  assumes ok: "input_ok s" and ne: "cons_e s \<noteq> cons_w s"
  defines "t \<equiv> s\<lparr>cons_e := cons_e s - 1\<rparr>"
  shows "input_ok t" "input_ready t = input_ready s" "input_line t = butlast (input_line s)"
    "cons_buf s ! (unat (cons_e s - 1) mod INPUT_BUF_SIZE) = last (input_line s)"
proof -
  have line: "input_line s \<noteq> []" using line_empty_iff [of s] ok ne by (simp add: input_ok_def)
  then have lt: "n_ready s < length (input_all s)" by (simp add: input_line_def)
  then have "cons_r s \<noteq> cons_e s" by (auto simp: input_all_def)
  note r = ring_unput [OF this, of "cons_buf s"]
  have all: "input_all t = butlast (input_all s)" by (simp add: t_def input_all_def r)
  have n: "n_ready t = n_ready s" by (simp add: t_def n_ready_def)
  show ready: "input_ready t = input_ready s" using lt by (simp add: input_ready_def all n take_butlast)
  show lines: "input_line t = butlast (input_line s)" by (simp add: input_line_def all n drop_butlast)
  show "cons_buf s ! (unat (cons_e s - 1) mod INPUT_BUF_SIZE) = last (input_line s)"
    using r(2) ok lt by (simp add: input_line_def input_ok_def flip: input_all_def)
  show "input_ok t" using ok lt lines
    by (auto simp: input_ok_def all n dest: in_set_butlastD) (simp add: t_def)
qed

lemma input_out [simp]:
  "input_ok (s\<lparr>console_out := x\<rparr>) = input_ok s" "input_ready (s\<lparr>console_out := x\<rparr>) = input_ready s"
  "input_line (s\<lparr>console_out := x\<rparr>) = input_line s"
  by (simp_all add: input_ok_def input_ready_def input_line_def input_all_def n_ready_def)

lemma backspace_out: "\<exists>x. consputc_backspace s = s\<lparr>console_out := x\<rparr>"
  by (simp add: consputc_backspace_def uartputc_sync_def) blast

lemma kill_line_clears:
  assumes "input_ok s"
  shows "input_ok (kill_line s) \<and> input_ready (kill_line s) = input_ready s \<and> input_line (kill_line s) = []"
  using assms
proof (induction "length (input_line s)" arbitrary: s)
  case 0
  then have "cons_e s = cons_w s" using line_empty_iff [of s] by (simp add: input_ok_def)
  then show ?case using 0 by (simp add: kill_line.simps [of s])
next
  case (Suc n)
  then have ne: "cons_e s \<noteq> cons_w s" using line_empty_iff [of s] by (auto simp: input_ok_def)
  note e = input_erase [OF Suc.prems ne]
  have line: "input_line s \<noteq> []" using Suc.hyps(2) by auto
  then have "last (input_line s) \<noteq> 10" using Suc.prems by (metis input_ok_def last_in_set)
  then have k: "kill_line s = kill_line (consputc_backspace (s\<lparr>cons_e := cons_e s - 1\<rparr>))"
    using ne e(4) by (subst kill_line.simps) simp
  obtain x where x: "consputc_backspace (s\<lparr>cons_e := cons_e s - 1\<rparr>) = s\<lparr>cons_e := cons_e s - 1, console_out := x\<rparr>"
    using backspace_out by metis
  have "n = length (input_line (s\<lparr>cons_e := cons_e s - 1, console_out := x\<rparr>))"
    using e(3) Suc.hyps(2) by simp
  from Suc.hyps(1) [OF this] show ?case unfolding k x using e by simp
qed

lemma kprint_out: "kprint fmt ap s = Inr s' \<Longrightarrow> \<exists>x. s' = s\<lparr>console_out := x\<rparr>"
  by (auto simp: kprint_def kbind_eq_Inr_iff)

lemma procdump_out: "\<exists>x. procdump s = Inr (s\<lparr>console_out := x\<rparr>)"
proof -
  let ?f = "\<lambda>i s. let p = the_proc i s in
       if p_state p = UNUSED then Inr s
       else kbind (kprint ''%d <%s %s'' [ArgInt (p_pid p), ArgStr (Some (state_name (p_state p))), ArgStr (Some (cstr (p_name p)))] s) (\<lambda>s.
         kprint [CHR 0x0A] [] s)"
  have f: "\<exists>x. ?f i s = Inr (s\<lparr>console_out := x\<rparr>)" for i and s :: "'a procs_scheme"
    by (cases "p_state (the_proc i s) = UNUSED") (auto simp: kprint_def Let_def intro: exI [of _ "console_out s"])
  have loop: "\<exists>x. kfold ?f is s = Inr (s\<lparr>console_out := x\<rparr>)" for "is" and s :: "'a procs_scheme"
  proof (induction "is" arbitrary: s)
    case Nil
    then show ?case by (intro exI [of _ "console_out s"]) simp
  next
    case (Cons i "is")
    obtain x where x: "?f i s = Inr (s\<lparr>console_out := x\<rparr>)" using f by blast
    obtain y where "kfold ?f is (s\<lparr>console_out := x\<rparr>) = Inr (s\<lparr>console_out := y\<rparr>)"
      using Cons.IH [of "s\<lparr>console_out := x\<rparr>"] by auto
    then show ?case using x by auto
  qed
  obtain z where "kprint [CHR 0x0A] [] s = Inr (s\<lparr>console_out := z\<rparr>)" by (simp add: kprint_def)
  then show ?thesis using loop [of "[0..<NPROC]" "s\<lparr>console_out := z\<rparr>"] by (auto simp: procdump_def)
qed

lemma input_wakeup [simp]:
  "input_ok (wakeup c s) = input_ok s" "input_ready (wakeup c s) = input_ready s" "input_line (wakeup c s) = input_line s"
  by (simp_all add: input_ok_def input_ready_def input_line_def input_all_def n_ready_def wakeup_cons)

definition input_put :: "uint8 \<Rightarrow> 'a cons_scheme \<Rightarrow> 'a cons_scheme" where
  "input_put c s = s\<lparr>cons_buf := (cons_buf s)[unat (cons_e s) mod INPUT_BUF_SIZE := c], cons_e := cons_e s + 1\<rparr>"

lemma input_split: "n_ready s \<le> length (input_all s) \<Longrightarrow> length (input_ready s) + length (input_line s) = length (input_all s)"
  by (simp add: input_ready_def input_line_def)

lemma input_put_all:
  assumes ok: "input_ok s" and room: "length (input_all s) < INPUT_BUF_SIZE"
  shows "input_all (input_put c s) = input_all s @ [c]" "n_ready (input_put c s) = n_ready s"
    "length (cons_buf (input_put c s)) = INPUT_BUF_SIZE"
proof -
  have "unat (cons_e s - cons_r s) < INPUT_BUF_SIZE" using room by (simp add: length_input_all)
  from ring_put [OF _ INPUT_BUF_SIZE_word this, of "cons_buf s" c] ok
  show "input_all (input_put c s) = input_all s @ [c]" by (simp add: input_all_def input_put_def input_ok_def)
  show "n_ready (input_put c s) = n_ready s" by (simp add: n_ready_def input_put_def)
  show "length (cons_buf (input_put c s)) = INPUT_BUF_SIZE" using ok by (simp add: input_put_def input_ok_def)
qed

lemma input_append:
  assumes ok: "input_ok s" and room: "length (input_all s) < INPUT_BUF_SIZE"
  shows "input_ready (input_put c s) = input_ready s" "input_line (input_put c s) = input_line s @ [c]"
    "c \<noteq> 10 \<Longrightarrow> input_ok (input_put c s)"
  using input_put_all [OF assms, of c] ok room by (simp_all add: input_ready_def input_line_def input_ok_def)

lemma input_commit:
  fixes s :: "'a cons_scheme" and c :: uint8
  assumes ok: "input_ok s" and room: "length (input_all s) < INPUT_BUF_SIZE"
  defines "t \<equiv> (input_put c s)\<lparr>cons_w := cons_e (input_put c s)\<rparr>"
  shows "input_ready t = input_ready s @ input_line s @ [c]" "input_line t = []" "input_ok t"
proof -
  note p = input_put_all [OF assms(1,2), of c]
  have all: "input_all t = input_all s @ [c]" using p(1) by (simp add: t_def input_all_def)
  have n: "n_ready t = length (input_all t)" by (simp add: t_def n_ready_def input_all_def)
  show "input_ready t = input_ready s @ input_line s @ [c]"
    using n all by (simp add: input_ready_def input_line_def)
  show l: "input_line t = []" using n by (simp add: input_line_def)
  show "input_ok t" using n l all p(3) room by (simp add: input_ok_def) (simp add: t_def)
qed

lemma input_length:
  assumes "input_ok s"
  shows "length (input_ready s) + length (input_line s) = unat (cons_e s - cons_r s)"
  using input_split [of s] assms by (simp add: input_ok_def length_input_all)

text \<open>An ordinary character.\<close>

lemma consoleintr_char:
  assumes ok: "input_ok s"
    and char: "c \<noteq> ctrl (CHR ''P'')" "c \<noteq> ctrl (CHR ''U'')" "\<not> (c = ctrl (CHR ''H'') \<or> c = 0x7F)"
      "c \<noteq> 0" "unat (cons_e s - cons_r s) < INPUT_BUF_SIZE"
  shows "\<exists>s'. consoleintr c s = Inr s' \<and> input_ok s' \<and> (input_ready s', input_line s') = edit c (input_ready s, input_line s)"
proof -
  note len = input_length [OF ok]
  have room: "cons_e s - cons_r s < of_nat INPUT_BUF_SIZE" using char(5) by (simp add: word_less_nat_alt INPUT_BUF_SIZE_def)
  let ?c = "if c = 13 then 10 else c"
  let ?s = "s\<lparr>console_out := console_out s @ [chr8 ?c]\<rparr>"
  let ?t = "input_put ?c ?s"
  have ok': "input_ok ?s" and r': "length (input_all ?s) < INPUT_BUF_SIZE"
    using ok char(5) by (simp_all add: length_input_all)
  define commits where "commits \<longleftrightarrow> ?c = 10 \<or> ?c = ctrl (CHR ''D'') \<or> cons_e ?t - cons_r ?t = of_nat INPUT_BUF_SIZE"
  have run: "consoleintr c s = Inr (if commits then wakeup Chan_cons_r (?t\<lparr>cons_w := cons_e ?t\<rparr>) else ?t)"
    using char room by (simp add: consoleintr_def consputc_def uartputc_sync_def input_put_def Let_def commits_def)
  have "cons_e ?t - cons_r ?t = of_nat INPUT_BUF_SIZE \<longleftrightarrow> length (input_all ?t) = INPUT_BUF_SIZE"
    unfolding length_input_all by (simp add: word_unat_eq_iff INPUT_BUF_SIZE_def)
  then have c: "commits \<longleftrightarrow> ?c = 10 \<or> ?c = ctrl (CHR ''D'') \<or> Suc (length (input_ready s) + length (input_line s)) = INPUT_BUF_SIZE"
    using input_put_all(1) [OF ok' r', of ?c] len by (simp add: commits_def length_input_all)
  have "length (input_ready s) + length (input_line s) < INPUT_BUF_SIZE" using len char(5) by simp
  then have e: "edit c (input_ready s, input_line s) =
      (if commits then (input_ready s @ input_line s @ [?c], []) else (input_ready s, input_line s @ [?c]))"
    using char(1-4) by (simp add: edit_def Let_def c)
  show ?thesis
  proof (cases commits)
    case True
    then show ?thesis using run e input_commit [OF ok' r', of ?c] by simp
  next
    case False
    then have "?c \<noteq> 10" using c by blast
    then show ?thesis using run e False input_append [OF ok' r', of ?c] by simp
  qed
qed

text \<open>
  C25: the interrupt handler of the console refines the line editor \<open>edit\<close>: a typed byte does to
  the bytes ready for readers and to the line being typed exactly what the reference does, and
  the handler always returns. Readers never see a line before its newline (or end-of-file, or a
  full buffer), erase and kill never touch bytes already handed over, and the buffer never
  overflows, also when its 32-bit counters wrap around.
\<close>

theorem consoleintr_refines_edit:
  assumes ok: "input_ok s"
  shows "\<exists>s'. consoleintr c s = Inr s' \<and> input_ok s' \<and> (input_ready s', input_line s') = edit c (input_ready s, input_line s)"
proof -
  note len = input_length [OF ok]
  have room: "cons_e s - cons_r s < of_nat INPUT_BUF_SIZE \<longleftrightarrow> unat (cons_e s - cons_r s) < INPUT_BUF_SIZE"
    by (simp add: word_less_nat_alt INPUT_BUF_SIZE_def)
  consider (dump) "c = ctrl (CHR ''P'')" | (kill) "c \<noteq> ctrl (CHR ''P'')" "c = ctrl (CHR ''U'')"
    | (erase) "c \<noteq> ctrl (CHR ''P'')" "c \<noteq> ctrl (CHR ''U'')" "c = ctrl (CHR ''H'') \<or> c = 0x7F"
    | (full) "c \<noteq> ctrl (CHR ''P'')" "c \<noteq> ctrl (CHR ''U'')" "\<not> (c = ctrl (CHR ''H'') \<or> c = 0x7F)"
        "c = 0 \<or> INPUT_BUF_SIZE \<le> unat (cons_e s - cons_r s)"
    | (char) "c \<noteq> ctrl (CHR ''P'')" "c \<noteq> ctrl (CHR ''U'')" "\<not> (c = ctrl (CHR ''H'') \<or> c = 0x7F)"
        "c \<noteq> 0" "unat (cons_e s - cons_r s) < INPUT_BUF_SIZE" by linarith
  then show ?thesis
  proof cases
    case dump
    then show ?thesis using procdump_out [of s] ok by (auto simp: consoleintr_def edit_def)
  next
    case kill
    then show ?thesis using kill_line_clears [OF ok] by (simp add: consoleintr_def edit_def)
  next
    case erase
    obtain x where x: "consputc_backspace (s\<lparr>cons_e := cons_e s - 1\<rparr>) = s\<lparr>cons_e := cons_e s - 1, console_out := x\<rparr>"
      using backspace_out by metis
    show ?thesis
    proof (cases "cons_e s = cons_w s")
      case True
      then have "input_line s = []" using line_empty_iff [of s] ok by (simp add: input_ok_def)
      then show ?thesis using erase True ok by (auto simp: consoleintr_def edit_def)
    next
      case False
      then show ?thesis using erase input_erase [OF ok False] x by (auto simp: consoleintr_def edit_def)
    qed
  next
    case full
    then show ?thesis using ok len room by (auto simp: consoleintr_def edit_def not_less)
  next
    case char
    from consoleintr_char [OF ok this] show ?thesis .
  qed
qed

theorem consoleintr_refines_edit_witness:
  "\<exists>s'. consoleintr 104 sample = Inr s' \<and> (input_ready s', input_line s') = ([], [104])"
proof -
  have "input_ok sample" "input_ready sample = []" "input_line sample = []"
    by (simp_all add: input_ok_def input_ready_def input_line_def input_all_def n_ready_def sample_def)
  then show ?thesis using consoleintr_refines_edit [of sample 104]
    by (auto simp: edit_def ctrl_def INPUT_BUF_SIZE_def)
qed

end
