(* ===== verification/Spinlock.thy ===== *)
theory Spinlock
  imports Xv6_Prelude Transition
begin

text \<open>
  Spin locks and interrupt nesting (\<^verbatim>\<open>spinlock.c\<close>) on a machine with several CPUs. The routines
  are split at the points where another CPU can interfere: \<^verbatim>\<open>acquire\<close> into its prologue, the
  atomic swap and the recording of the owner, \<^verbatim>\<open>release\<close> into the clearing of the owner and the
  atomic store. \<open>phase\<close> is the place of a CPU in these routines. \<open>held\<close> is a ghost: the locks a
  CPU has acquired and not released. Lock addresses are numbers.
\<close>

section \<open>State\<close>

record cpu =
  c_noff :: int
  c_intena :: bool
  c_intr :: bool

record spinlock =
  sl_locked :: bool
  sl_cpu :: "nat option"

datatype phase = Running | Spinning nat | Swapped nat | Clearing nat

record smp =
  slock :: "nat \<Rightarrow> spinlock"
  scpu :: "nat \<Rightarrow> cpu"
  phase :: "nat \<Rightarrow> phase"
  held :: "nat \<Rightarrow> nat list"

section \<open>Routines\<close>

definition initlock :: spinlock where
  "initlock = \<lparr>sl_locked = False, sl_cpu = None\<rparr>"

definition upd_cpu :: "nat \<Rightarrow> (cpu \<Rightarrow> cpu) \<Rightarrow> smp \<Rightarrow> smp" where
  "upd_cpu c f s = s\<lparr>scpu := (scpu s)(c := f (scpu s c))\<rparr>"

definition upd_lock :: "nat \<Rightarrow> (spinlock \<Rightarrow> spinlock) \<Rightarrow> smp \<Rightarrow> smp" where
  "upd_lock l f s = s\<lparr>slock := (slock s)(l := f (slock s l))\<rparr>"

definition push_off :: "nat \<Rightarrow> smp \<Rightarrow> smp" where
  "push_off c s = upd_cpu c (\<lambda>x. x\<lparr>c_intr := False, c_intena := (if c_noff x = 0 then c_intr x else c_intena x),
     c_noff := c_noff x + 1\<rparr>) s"

definition pop_off :: "nat \<Rightarrow> smp \<Rightarrow> smp kres" where
  "pop_off c s =
     (if c_intr (scpu s c) then Inl (Panic ''pop_off - interruptible'')
      else if c_noff (scpu s c) < 1 then Inl (Panic ''pop_off'')
      else Inr (upd_cpu c (\<lambda>x. x\<lparr>c_noff := c_noff x - 1, c_intr := (c_noff x - 1 = 0 \<and> c_intena x)\<rparr>) s))"

definition holding :: "nat \<Rightarrow> nat \<Rightarrow> smp \<Rightarrow> bool" where
  "holding c l s \<longleftrightarrow> sl_locked (slock s l) \<and> sl_cpu (slock s l) = Some c"

definition acquire_enter :: "nat \<Rightarrow> nat \<Rightarrow> smp \<Rightarrow> smp kres" where
  "acquire_enter c l s = (let s = push_off c s in if holding c l s then Inl (Panic ''acquire'') else Inr s)"

definition test_and_set :: "nat \<Rightarrow> smp \<Rightarrow> bool \<times> smp" where
  "test_and_set l s = (sl_locked (slock s l), upd_lock l (\<lambda>x. x\<lparr>sl_locked := True\<rparr>) s)"

definition acquire_own :: "nat \<Rightarrow> nat \<Rightarrow> smp \<Rightarrow> smp" where
  "acquire_own c l s = upd_lock l (\<lambda>x. x\<lparr>sl_cpu := Some c\<rparr>) s"

definition release_clear :: "nat \<Rightarrow> nat \<Rightarrow> smp \<Rightarrow> smp kres" where
  "release_clear c l s =
     (if \<not> holding c l s then Inl (Panic ''release'') else Inr (upd_lock l (\<lambda>x. x\<lparr>sl_cpu := None\<rparr>) s))"

definition release_store :: "nat \<Rightarrow> nat \<Rightarrow> smp \<Rightarrow> smp kres" where
  "release_store c l s = pop_off c (upd_lock l (\<lambda>x. x\<lparr>sl_locked := False\<rparr>) s)"

text \<open>The whole routines on a lock that no other CPU touches meanwhile; a lock that is taken is spun on.\<close>

definition acquire :: "nat \<Rightarrow> nat \<Rightarrow> smp \<Rightarrow> smp option kres" where
  "acquire c l s =
     kbind (acquire_enter c l s) (\<lambda>s.
     let (old, s) = test_and_set l s in if old then Inr None else Inr (Some (acquire_own c l s)))"

definition release :: "nat \<Rightarrow> nat \<Rightarrow> smp \<Rightarrow> smp kres" where
  "release c l s = kbind (release_clear c l s) (\<lambda>s. release_store c l s)"

section \<open>Interleaving\<close>

definition set_phase :: "nat \<Rightarrow> phase \<Rightarrow> smp \<Rightarrow> smp" where
  "set_phase c p s = s\<lparr>phase := (phase s)(c := p)\<rparr>"

definition set_held :: "nat \<Rightarrow> nat list \<Rightarrow> smp \<Rightarrow> smp" where
  "set_held c ls s = s\<lparr>held := (held s)(c := ls)\<rparr>"

inductive smp_step :: "smp \<Rightarrow> smp \<Rightarrow> bool" where
  enter: "phase s c = Running \<Longrightarrow> acquire_enter c l s = Inr s' \<Longrightarrow> smp_step s (set_phase c (Spinning l) s')"
| spin: "phase s c = Spinning l \<Longrightarrow> test_and_set l s = (True, s') \<Longrightarrow> smp_step s s'"
| swap: "phase s c = Spinning l \<Longrightarrow> test_and_set l s = (False, s') \<Longrightarrow> smp_step s (set_phase c (Swapped l) s')"
| own: "phase s c = Swapped l \<Longrightarrow>
    smp_step s (set_held c (l # held s c) (set_phase c Running (acquire_own c l s)))"
| clear: "phase s c = Running \<Longrightarrow> release_clear c l s = Inr s' \<Longrightarrow>
    smp_step s (set_held c (remove1 l (held s c)) (set_phase c (Clearing l) s'))"
| store: "phase s c = Clearing l \<Longrightarrow> release_store c l s = Inr s' \<Longrightarrow> smp_step s (set_phase c Running s')"
| intr: "phase s c = Running \<Longrightarrow> c_noff (scpu s c) = 0 \<Longrightarrow> smp_step s (upd_cpu c (\<lambda>x. x\<lparr>c_intr := b\<rparr>) s)"

definition smp_init :: "smp \<Rightarrow> bool" where
  "smp_init s \<longleftrightarrow> (\<forall>l. slock s l = initlock) \<and> (\<forall>c. c_noff (scpu s c) = 0 \<and> phase s c = Running \<and> held s c = [])"

section \<open>Invariant\<close>

definition owns :: "smp \<Rightarrow> nat \<Rightarrow> nat \<Rightarrow> bool" where
  "owns s c l \<longleftrightarrow> l \<in> set (held s c) \<or> phase s c = Swapped l \<or> phase s c = Clearing l"

text \<open>A lock is free, or exactly one CPU owns it; the owner field names a CPU once it holds the lock.\<close>

definition owned_by :: "smp \<Rightarrow> nat \<Rightarrow> nat \<Rightarrow> bool" where
  "owned_by s l c \<longleftrightarrow> owns s c l \<and> (\<forall>d. owns s d l \<longrightarrow> d = c) \<and>
     sl_cpu (slock s l) = (if l \<in> set (held s c) then Some c else None)"

definition lock_ok :: "smp \<Rightarrow> nat \<Rightarrow> bool" where
  "lock_ok s l \<longleftrightarrow>
     (if sl_locked (slock s l) then \<exists>c. owned_by s l c else sl_cpu (slock s l) = None \<and> (\<forall>c. \<not> owns s c l))"

definition cpu_ok :: "smp \<Rightarrow> nat \<Rightarrow> bool" where
  "cpu_ok s c \<longleftrightarrow> distinct (held s c) \<and> (\<forall>l. phase s c = Swapped l \<or> phase s c = Clearing l \<longrightarrow> l \<notin> set (held s c))"

definition lock_inv :: "smp \<Rightarrow> bool" where
  "lock_inv s \<longleftrightarrow> (\<forall>l. lock_ok s l) \<and> (\<forall>c. cpu_ok s c)"

definition intr_ok :: "smp \<Rightarrow> nat \<Rightarrow> bool" where
  "intr_ok s c \<longleftrightarrow>
     c_noff (scpu s c) = int (length (held s c)) + (if phase s c = Running then 0 else 1) \<and>
     (0 < c_noff (scpu s c) \<longrightarrow> \<not> c_intr (scpu s c))"

definition intr_inv :: "smp \<Rightarrow> bool" where
  "intr_inv s \<longleftrightarrow> (\<forall>c. intr_ok s c)"

lemmas smp_defs = set_phase_def set_held_def upd_cpu_def upd_lock_def push_off_def pop_off_def holding_def
  acquire_enter_def test_and_set_def acquire_own_def release_clear_def release_store_def Let_def

lemma lock_inv_init: "smp_init s \<Longrightarrow> lock_inv s"
  by (simp add: smp_init_def lock_inv_def lock_ok_def cpu_ok_def owns_def initlock_def)

lemma intr_inv_init: "smp_init s \<Longrightarrow> intr_inv s"
  by (simp add: smp_init_def intr_inv_def intr_ok_def)

lemma lock_okD: "lock_ok s l \<Longrightarrow> owns s c l \<Longrightarrow> sl_locked (slock s l) \<and> owned_by s l c"
  by (auto simp: lock_ok_def owned_by_def split: if_splits)

lemma lock_okI: "sl_locked (slock s l) \<Longrightarrow> owned_by s l c \<Longrightarrow> lock_ok s l"
  by (auto simp: lock_ok_def)

lemma lock_ok_cong:
  assumes "lock_ok s l" "slock t l = slock s l" "\<And>d. owns t d l = owns s d l" "\<And>d. (l \<in> set (held t d)) = (l \<in> set (held s d))"
  shows "lock_ok t l"
proof -
  have "owned_by t l c = owned_by s l c" for c using assms by (simp add: owned_by_def)
  then show ?thesis using assms by (simp add: lock_ok_def)
qed

lemma owned_byD:
  assumes "owned_by s l c"
  shows "sl_cpu (slock s l) = (if l \<in> set (held s c) then Some c else None)" "owns s c l" "owns s d l \<Longrightarrow> d = c"
  using assms unfolding owned_by_def by blast+

lemma holding_iff:
  assumes "lock_inv s"
  shows "holding c l s \<longleftrightarrow> l \<in> set (held s c)"
proof -
  have ok: "lock_ok s l" using assms by (simp add: lock_inv_def)
  show ?thesis
  proof
    assume h: "holding c l s"
    then obtain d where d: "owned_by s l d" using ok by (auto simp: lock_ok_def holding_def)
    show "l \<in> set (held s c)" using h owned_byD(1) [OF d] by (simp add: holding_def split: if_splits)
  next
    assume h: "l \<in> set (held s c)"
    then have "owns s c l" by (simp add: owns_def)
    from lock_okD [OF ok this] h show "holding c l s" using owned_byD(1) [of s l c] by (simp add: holding_def)
  qed
qed

text \<open>
  A step of CPU \<open>c\<close> concerns at most one lock: the invariant of the others and of the other CPUs
  carries over.
\<close>

lemma lock_inv_local:
  assumes "lock_inv s"
    and other: "\<And>k. k \<noteq> l \<Longrightarrow> slock t k = slock s k"
    and cpus: "\<And>d. d \<noteq> c \<Longrightarrow> phase t d = phase s d \<and> held t d = held s d"
    and mine: "\<And>k. k \<noteq> l \<Longrightarrow> owns t c k = owns s c k \<and> (k \<in> set (held t c)) = (k \<in> set (held s c))"
    and ok: "lock_ok t l" "cpu_ok t c"
  shows "lock_inv t"
proof -
  have same: "owns t d k = owns s d k \<and> (k \<in> set (held t d)) = (k \<in> set (held s d))" if "k \<noteq> l" for d k
  proof (cases "d = c")
    case True
    then show ?thesis using mine [OF that] by simp
  next
    case False
    then show ?thesis using cpus [OF False] by (simp add: owns_def)
  qed
  have "lock_ok t k" for k
  proof (cases "k = l")
    case False
    then show ?thesis using lock_ok_cong [of s k t] assms(1) other [OF False] same [OF False] by (simp add: lock_inv_def)
  qed (use ok in simp)
  moreover have "cpu_ok t d" for d
    using ok(2) assms(1) cpus [of d] by (cases "d = c") (simp_all add: lock_inv_def cpu_ok_def)
  ultimately show ?thesis by (simp add: lock_inv_def)
qed

lemma swap_inv:
  assumes "lock_inv s" "phase s c = Spinning l" "\<not> sl_locked (slock s l)"
  shows "lock_inv (set_phase c (Swapped l) (snd (test_and_set l s)))"
proof (rule lock_inv_local [OF assms(1), where l = l and c = c])
  let ?t = "set_phase c (Swapped l) (snd (test_and_set l s))"
  have free: "\<not> owns s d l" "sl_cpu (slock s l) = None" for d
    using assms(1,3) by (auto simp: lock_inv_def lock_ok_def)
  then have "owned_by ?t l c" by (auto simp: owned_by_def owns_def smp_defs split: if_splits)
  then show "lock_ok ?t l" by (rule lock_okI [rotated]) (simp add: smp_defs)
  show "cpu_ok ?t c" using assms(1) free(1) [of c] by (auto simp: lock_inv_def cpu_ok_def owns_def smp_defs)
qed (use assms in \<open>auto simp: smp_defs owns_def\<close>)

lemma own_inv:
  assumes "lock_inv s" "phase s c = Swapped l"
  shows "lock_inv (set_held c (l # held s c) (set_phase c Running (acquire_own c l s)))"
proof (rule lock_inv_local [OF assms(1), where l = l and c = c])
  let ?t = "set_held c (l # held s c) (set_phase c Running (acquire_own c l s))"
  have o: "sl_locked (slock s l)" "owned_by s l c"
    using lock_okD [of s l c] assms by (auto simp: lock_inv_def owns_def)
  then have "owned_by ?t l c" by (auto simp: owned_by_def owns_def smp_defs split: if_splits)
  then show "lock_ok ?t l" by (rule lock_okI [rotated]) (simp add: smp_defs o)
  show "cpu_ok ?t c" using assms by (auto simp: lock_inv_def cpu_ok_def smp_defs)
qed (use assms in \<open>auto simp: smp_defs owns_def\<close>)

lemma clear_inv:
  assumes "lock_inv s" "phase s c = Running" "l \<in> set (held s c)"
  shows "lock_inv (set_held c (remove1 l (held s c)) (set_phase c (Clearing l) (upd_lock l (\<lambda>x. x\<lparr>sl_cpu := None\<rparr>) s)))"
    (is "lock_inv ?t")
proof (rule lock_inv_local [OF assms(1), where l = l and c = c])
  have o: "sl_locked (slock s l)" "owned_by s l c"
    using lock_okD [of s l c] assms by (auto simp: lock_inv_def owns_def)
  have d: "distinct (held s c)" using assms(1) by (simp add: lock_inv_def cpu_ok_def)
  have "owned_by ?t l c" using o(2) d by (auto simp: owned_by_def owns_def smp_defs split: if_splits)
  then show "lock_ok ?t l" by (rule lock_okI [rotated]) (simp add: smp_defs o)
  show "cpu_ok ?t c" using d by (auto simp: cpu_ok_def smp_defs)
  show "owns ?t c k = owns s c k \<and> (k \<in> set (held ?t c)) = (k \<in> set (held s c))" if "k \<noteq> l" for k
    using that d assms(2) by (auto simp: smp_defs owns_def)
qed (use assms in \<open>auto simp: smp_defs\<close>)

lemma release_store_fields:
  assumes "release_store c l s = Inr s'"
  shows "phase s' = phase s" "held s' = held s" "slock s' = (slock s)(l := (slock s l)\<lparr>sl_locked := False\<rparr>)"
  using assms by (auto simp: smp_defs split: if_splits)

lemma store_inv:
  assumes "lock_inv s" "phase s c = Clearing l" "release_store c l s = Inr s'"
  shows "lock_inv (set_phase c Running s')"
proof (rule lock_inv_local [OF assms(1), where l = l and c = c])
  note f = release_store_fields [OF assms(3)]
  have o: "owned_by s l c" using lock_okD [of s l c] assms by (auto simp: lock_inv_def owns_def)
  have n: "l \<notin> set (held s c)" using assms(1,2) by (simp add: lock_inv_def cpu_ok_def)
  have "\<not> owns (set_phase c Running s') d l" for d
    using o n by (cases "d = c") (auto simp: owned_by_def owns_def set_phase_def f)
  moreover have "sl_cpu (slock s' l) = None" "\<not> sl_locked (slock s' l)"
    using o n by (auto simp: owned_by_def f)
  ultimately show "lock_ok (set_phase c Running s') l" by (simp add: lock_ok_def set_phase_def)
  show "cpu_ok (set_phase c Running s') c" using assms(1) by (simp add: lock_inv_def cpu_ok_def set_phase_def f)
qed (use assms(2) release_store_fields [OF assms(3)] in \<open>auto simp: set_phase_def owns_def\<close>)

lemma lock_inv_frame:
  assumes "lock_inv s" "slock t = slock s" "held t = held s" "\<And>d. phase t d \<noteq> phase s d \<Longrightarrow> (\<exists>l. phase t d = Spinning l) \<and> phase s d = Running"
  shows "lock_inv t"
proof -
  have o: "owns t d l = owns s d l" for d l 
    using assms(3) assms(4) [of d] by (cases "phase t d = phase s d") (auto simp: owns_def)
  have "cpu_ok t d" for d
    using assms(1,3) assms(4) [of d] by (cases "phase t d = phase s d") (auto simp: lock_inv_def cpu_ok_def)
  moreover have "lock_ok t l" for l
    using assms(1-3) o by (intro lock_ok_cong [of s l t]) (auto simp: lock_inv_def)
  ultimately show ?thesis by (simp add: lock_inv_def)
qed

lemma lock_inv_step:
  assumes "lock_inv s" "smp_step s t"
  shows "lock_inv t"
  using assms(2)
proof cases
  case (enter c l s')
  then show ?thesis using assms(1)
    by (intro lock_inv_frame [OF assms(1)]) (auto simp: smp_defs split: if_splits)
next
  case (spin c l)
  then have "slock t = slock s" by (auto simp: smp_defs fun_eq_iff)
  then show ?thesis using assms(1) spin by (intro lock_inv_frame [OF assms(1)]) (auto simp: smp_defs)
next
  case (swap c l s')
  then show ?thesis using swap_inv [OF assms(1), of c l] by (auto simp: test_and_set_def)
next
  case (own c l)
  then show ?thesis using own_inv [OF assms(1)] by simp
next
  case (clear c l s')
  then show ?thesis using clear_inv [OF assms(1), of c l] holding_iff [OF assms(1)]
    by (auto simp: release_clear_def split: if_splits)
next
  case (store c l s')
  then show ?thesis using store_inv [OF assms(1)] by simp
next
  case (intr c b)
  then show ?thesis using assms(1) by (intro lock_inv_frame [OF assms(1)]) (auto simp: smp_defs)
qed

lemma intr_inv_local:
  assumes "intr_inv s" "\<And>d. d \<noteq> c \<Longrightarrow> scpu t d = scpu s d \<and> phase t d = phase s d \<and> held t d = held s d" "intr_ok t c"
  shows "intr_inv t"
proof -
  have "intr_ok t d" for d using assms by (cases "d = c") (simp_all add: intr_inv_def intr_ok_def)
  then show ?thesis by (simp add: intr_inv_def)
qed

lemma intr_inv_step:
  assumes "intr_inv s" "lock_inv s" "smp_step s t"
  shows "intr_inv t"
  using assms(3)
proof cases
  case (enter c l s')
  have "intr_ok s c" using assms(1) by (simp add: intr_inv_def)
  then show ?thesis using enter
    by (intro intr_inv_local [OF assms(1), of c]) (auto simp: intr_ok_def smp_defs split: if_splits)
next
  case (spin c l)
  have "intr_ok s c" using assms(1) by (simp add: intr_inv_def)
  then show ?thesis using spin
    by (intro intr_inv_local [OF assms(1), of c]) (auto simp: intr_ok_def smp_defs split: if_splits)
next
  case (swap c l s')
  have "intr_ok s c" using assms(1) by (simp add: intr_inv_def)
  then show ?thesis using swap
    by (intro intr_inv_local [OF assms(1), of c]) (auto simp: intr_ok_def smp_defs split: if_splits)
next
  case (own c l)
  have "intr_ok s c" using assms(1) by (simp add: intr_inv_def)
  then show ?thesis using own
    by (intro intr_inv_local [OF assms(1), of c]) (auto simp: intr_ok_def smp_defs split: if_splits)
next
  case (clear c l s')
  have "intr_ok s c" using assms(1) by (simp add: intr_inv_def)
  moreover have "l \<in> set (held s c)"
    using clear holding_iff [OF assms(2)] by (auto simp: release_clear_def split: if_splits)
  then have "int (length (remove1 l (held s c))) = int (length (held s c)) - 1"
    by (cases "held s c") (auto simp: length_remove1 Suc_pred' [symmetric] dest: length_pos_if_in_set)
  ultimately show ?thesis using clear
    by (intro intr_inv_local [OF assms(1), of c]) (auto simp: intr_ok_def smp_defs split: if_splits)
next
  case (store c l s')
  have "intr_ok s c" using assms(1) by (simp add: intr_inv_def)
  then show ?thesis using store
    by (intro intr_inv_local [OF assms(1), of c]) (auto simp: intr_ok_def smp_defs split: if_splits)
next
  case (intr c b)
  have "intr_ok s c" using assms(1) by (simp add: intr_inv_def)
  then show ?thesis using intr
    by (intro intr_inv_local [OF assms(1), of c]) (auto simp: intr_ok_def smp_defs split: if_splits)
qed

interpretation locks: invariant_system smp_init smp_step "\<lambda>s. lock_inv s \<and> intr_inv s"
  by unfold_locales (auto simp: lock_inv_init intr_inv_init intro: lock_inv_step intr_inv_step)

lemmas reachable_locks = locks.reachable_inv [THEN conjunct1]
lemmas reachable_intr = locks.reachable_inv [THEN conjunct2]

section \<open>Properties\<close>

text \<open>
  C5: mutual exclusion: in every reachable state of the machine, whatever the interleaving of
  the CPUs, two CPUs never hold the same lock; and \<^verbatim>\<open>holding\<close>, read without any synchronisation,
  answers exactly whether the asking CPU holds the lock.
\<close>

theorem spinlock_mutual_exclusion:
  assumes "reachable smp_init smp_step s"
  shows "(l \<in> set (held s c) \<and> l \<in> set (held s d) \<longrightarrow> c = d) \<and> (holding c l s \<longleftrightarrow> l \<in> set (held s c))"
proof -
  have inv: "lock_inv s" using reachable_locks [OF assms] .
  have ok: "lock_ok s l" using inv by (simp add: lock_inv_def)
  have "c = d" if "l \<in> set (held s c)" "l \<in> set (held s d)"
    using lock_okD [OF ok, of c] owned_byD(3) [of s l c d] that by (simp add: owns_def)
  then show ?thesis using holding_iff [OF inv] by blast
qed

text \<open>
  C32: a CPU that holds a lock, or is inside \<^verbatim>\<open>acquire\<close> or \<^verbatim>\<open>release\<close>, has interrupts off and a nesting
  depth equal to the number of locks it holds (plus one inside the routines), so the release of
  a lock it holds cannot panic, and none of its stages can.
\<close>

theorem release_never_panics:
  assumes "reachable smp_init smp_step s"
  shows "(l \<in> set (held s c) \<longrightarrow> (\<exists>s'. release c l s = Inr s')) \<and>
    (phase s c = Clearing l \<longrightarrow> (\<exists>s'. release_store c l s = Inr s')) \<and>
    c_noff (scpu s c) = int (length (held s c)) + (if phase s c = Running then 0 else 1) \<and>
    (0 < c_noff (scpu s c) \<longrightarrow> \<not> c_intr (scpu s c))"
proof -
  have inv: "intr_ok s c" and lk: "lock_inv s"
    using reachable_intr [OF assms] reachable_locks [OF assms] by (simp_all add: intr_inv_def)
  have depth: "0 < c_noff (scpu s c)" if "held s c \<noteq> [] \<or> phase s c \<noteq> Running"
    using inv that by (auto simp: intr_ok_def)
  have off: "\<not> c_intr (scpu s c)" if "0 < c_noff (scpu s c)" using inv that by (simp add: intr_ok_def)
  have "\<exists>s'. release c l s = Inr s'" if "l \<in> set (held s c)"
    using that depth off holding_iff [OF lk, of c l] by (cases "held s c") (auto simp: release_def smp_defs)
  moreover have "\<exists>s'. release_store c l s = Inr s'" if "phase s c = Clearing l"
    using that depth off by (auto simp: smp_defs)
  ultimately show ?thesis using inv by (simp add: intr_ok_def)
qed

fun nest :: "nat \<Rightarrow> nat \<Rightarrow> smp \<Rightarrow> smp kres" where
  "nest c 0 s = Inr s"
| "nest c (Suc n) s = kbind (nest c n (push_off c s)) (\<lambda>s. pop_off c s)"

lemma nest_inner:
  "0 < c_noff (scpu s c) \<Longrightarrow> \<not> c_intr (scpu s c) \<Longrightarrow> nest c n s = Inr s"
proof (induction n arbitrary: s)
  case (Suc n)
  then have "nest c n (push_off c s) = Inr (push_off c s)" by (intro Suc.IH) (simp_all add: smp_defs)
  then show ?case using Suc.prems by (simp add: smp_defs fun_upd_idem)
qed simp

text \<open>
  \<^verbatim>\<open>push_off\<close> and \<^verbatim>\<open>pop_off\<close> match: after any number of nested calls and as many returns the CPU is
  as before, its interrupts enabled exactly if they were; interrupts stay off in between.
\<close>

lemma push_pop_off_nest:
  assumes "0 \<le> c_noff (scpu s c)" "0 < c_noff (scpu s c) \<longrightarrow> \<not> c_intr (scpu s c)"
  shows "\<exists>s'. nest c n s = Inr s' \<and> c_noff (scpu s' c) = c_noff (scpu s c) \<and> c_intr (scpu s' c) = c_intr (scpu s c)"
proof (cases n)
  case (Suc m)
  have "nest c m (push_off c s) = Inr (push_off c s)" using assms(1) by (intro nest_inner) (simp_all add: smp_defs)
  then show ?thesis using assms Suc by (auto simp: smp_defs)
qed simp

definition two_cpus :: smp where
  "two_cpus = \<lparr>slock = (\<lambda>_. initlock), scpu = (\<lambda>_. \<lparr>c_noff = 0, c_intena = False, c_intr = True\<rparr>),
     phase = (\<lambda>_. Running), held = (\<lambda>_. [])\<rparr>"

text \<open>Two steps of CPU 0 on lock 7: it has entered \<^verbatim>\<open>acquire\<close> and won the swap; then it owns the lock.\<close>

definition holding_7 :: smp where
  "holding_7 = set_held 0 [7] (set_phase 0 Running (acquire_own 0 7
     (set_phase 0 (Swapped 7) (snd (test_and_set 7 (set_phase 0 (Spinning 7) (push_off 0 two_cpus)))))))"

lemma holding_7_reachable: "reachable smp_init smp_step holding_7"
proof -
  let ?s1 = "set_phase 0 (Spinning 7) (push_off 0 two_cpus)"
  let ?s2 = "set_phase 0 (Swapped 7) (snd (test_and_set 7 ?s1))"
  have "smp_init two_cpus" by (simp add: smp_init_def two_cpus_def)
  then have r0: "reachable smp_init smp_step two_cpus" by (rule reachable.start)
  have "smp_step two_cpus ?s1"
    by (rule smp_step.enter) (simp_all add: smp_defs two_cpus_def initlock_def)
  with r0 have r1: "reachable smp_init smp_step ?s1" by (rule reachable.step)
  have "smp_step ?s1 ?s2"
    by (rule smp_step.swap) (simp_all add: smp_defs two_cpus_def initlock_def)
  with r1 have r2: "reachable smp_init smp_step ?s2" by (rule reachable.step)
  have "held ?s2 0 = []" by (simp add: smp_defs two_cpus_def)
  moreover have "phase ?s2 0 = Swapped 7" by (simp add: smp_defs)
  ultimately have "smp_step ?s2 holding_7" unfolding holding_7_def using smp_step.own [of ?s2 0 7] by simp
  with r2 show ?thesis by (rule reachable.step)
qed

theorem spinlock_mutual_exclusion_witness:
  "holding 0 7 holding_7 \<and> \<not> holding 1 7 holding_7"
proof -
  have "held holding_7 0 = [7]" "held holding_7 1 = []" by (simp_all add: holding_7_def smp_defs two_cpus_def)
  then show ?thesis
    using spinlock_mutual_exclusion [OF holding_7_reachable, of 7 0] spinlock_mutual_exclusion [OF holding_7_reachable, of 7 1]
    by simp
qed

theorem release_never_panics_witness: "\<exists>s'. release 0 7 holding_7 = Inr s'"
proof -
  have "7 \<in> set (held holding_7 0)" by (simp add: holding_7_def smp_defs)
  then show ?thesis using release_never_panics [OF holding_7_reachable, of 7 0] by blast
qed

end
