(* ===== verification/Sched.thy ===== *)
theory Sched
  imports Proctab Spinlock
begin

text \<open>
  Context switching between processes and the per-CPU schedulers, and the sleep/wake-up protocol
  (\<^verbatim>\<open>rr_scheduler\<close>, \<^verbatim>\<open>sched\<close>, \<^verbatim>\<open>yield\<close>, \<^verbatim>\<open>sleep\<close> and \<^verbatim>\<open>wakeup\<close> of \<^verbatim>\<open>proc.c\<close>), with several CPUs interleaved
  at the points where a lock is taken or given back. \<open>at c\<close> is the place of CPU \<open>c\<close> in these
  routines; the locks are the lock of each process and the lock \<^verbatim>\<open>lk\<close> that protects a
  condition. A process that finds the condition false sleeps on its channel; a process that
  makes it true wakes every sleeper. \<open>runner\<close> is a ghost: the CPU that runs a process.

  Every CPU has its \<^verbatim>\<open>noff\<close>, its \<^verbatim>\<open>intena\<close> and its interrupt bit (\<open>cpus c\<close>, the record of the spin locks):
  taking and giving back a lock goes through \<^verbatim>\<open>push_off\<close> and \<^verbatim>\<open>pop_off\<close>, and \<^verbatim>\<open>sched\<close> saves \<^verbatim>\<open>intena\<close> on the
  stack of the process (\<open>p_intena\<close>) and gives it to the CPU on which the process is resumed. A lock is taken in one step,
  when no other CPU holds it; a CPU that spins has no step. The panics of \<^verbatim>\<open>acquire\<close>, \<^verbatim>\<open>release\<close> and \<^verbatim>\<open>pop_off\<close> are recorded in
  \<open>panicked\<close>; those of \<^verbatim>\<open>sched\<close> are its result.

  The invariants are \<open>sched_inv\<close> (locks and running processes), \<open>cpu_inv\<close> (nesting depth and interrupts of each CPU;
  nothing has panicked) and \<open>wake_inv\<close> (sleepers); the section on progress shows that a waker is never blocked for good.
\<close>

section \<open>State\<close>

datatype place =
    Idle                  \<comment> \<open>in the loop of the scheduler\<close>
  | Picked nat            \<comment> \<open>scheduler, holding \<open>p->lock\<close>, before looking at \<open>p->state\<close>\<close>
  | Resumed nat           \<comment> \<open>process, just switched to, holding \<open>p->lock\<close>\<close>
  | User nat              \<comment> \<open>process, holding no lock\<close>
  | Relock nat            \<comment> \<open>at the end of \<open>sleep\<close>, about to take \<open>lk\<close> again\<close>
  | Crit nat              \<comment> \<open>process holding \<open>lk\<close>\<close>
  | Sleep1 nat            \<comment> \<open>in \<open>sleep\<close>, holding \<open>lk\<close> and \<open>p->lock\<close>\<close>
  | Sleep2 nat            \<comment> \<open>in \<open>sleep\<close>, \<open>lk\<close> released\<close>
  | Switch nat            \<comment> \<open>in \<open>sched\<close>, before \<open>swtch\<close>\<close>
  | Back nat              \<comment> \<open>scheduler, just switched back to, holding \<open>p->lock\<close>\<close>
  | Wake nat "nat list"   \<comment> \<open>in \<open>wakeup\<close>, holding \<open>lk\<close>; the slots still to look at\<close>
  | Woke nat nat "nat list"  \<comment> \<open>in \<open>wakeup\<close>, holding \<open>lk\<close> and the lock of the slot it looks at\<close>

text \<open>Where a process that is not running goes on: in \<^verbatim>\<open>forkret\<close>, in \<^verbatim>\<open>yield\<close> or in \<^verbatim>\<open>sleep\<close>.\<close>

datatype saved = Fresh | Yielding | Sleeping

record ssys =
  st :: "nat \<Rightarrow> procstate"
  on_chan :: "nat \<Rightarrow> bool"
  saved :: "nat \<Rightarrow> saved"
  plock :: "nat \<Rightarrow> nat option"
  lk :: "nat option"
  cond :: bool
  cproc :: "nat \<Rightarrow> nat option"
  at :: "nat \<Rightarrow> place"
  runner :: "nat \<Rightarrow> nat option"
  cpus :: "nat \<Rightarrow> cpu"
  p_intena :: "nat \<Rightarrow> bool"
  panicked :: "string option"

section \<open>Routines\<close>

definition go :: "nat \<Rightarrow> place \<Rightarrow> ssys \<Rightarrow> ssys" where
  "go c l s = s\<lparr>at := (at s)(c := l)\<rparr>"

definition require :: "bool \<Rightarrow> string \<Rightarrow> ssys \<Rightarrow> ssys" where
  "require b msg s = (if b then s else s\<lparr>panicked := Some msg\<rparr>)"

definition upd_cpus :: "nat \<Rightarrow> (cpu \<Rightarrow> cpu) \<Rightarrow> ssys \<Rightarrow> ssys" where
  "upd_cpus c f s = s\<lparr>cpus := (cpus s)(c := f (cpus s c))\<rparr>"

text \<open>\<^verbatim>\<open>push_off\<close> and \<^verbatim>\<open>pop_off\<close> on the fields of one CPU.\<close>

definition push_intr :: "cpu \<Rightarrow> cpu" where
  "push_intr x = x\<lparr>c_intr := False, c_intena := (if c_noff x = 0 then c_intr x else c_intena x), c_noff := c_noff x + 1\<rparr>"

definition pop_intr :: "cpu \<Rightarrow> cpu" where
  "pop_intr x = x\<lparr>c_noff := c_noff x - 1, c_intr := (if c_noff x - 1 = 0 \<and> c_intena x then True else c_intr x)\<rparr>"

definition cpu_pop :: "nat \<Rightarrow> ssys \<Rightarrow> ssys" where
  "cpu_pop c s =
     upd_cpus c pop_intr
       (require (1 \<le> c_noff (cpus s c)) ''pop_off'' (require (\<not> c_intr (cpus s c)) ''pop_off - interruptible'' s))"

text \<open>
  \<^verbatim>\<open>acquire\<close>, when no other CPU holds the lock (\<open>enters\<close>), and \<^verbatim>\<open>release\<close>: of the lock of process \<open>p\<close>, and of \<open>lk\<close>.
\<close>

definition enters :: "nat \<Rightarrow> nat option \<Rightarrow> bool" where
  "enters c owner \<longleftrightarrow> owner = None \<or> owner = Some c"

definition lock_p :: "nat \<Rightarrow> nat \<Rightarrow> ssys \<Rightarrow> ssys" where
  "lock_p c p s = (require (plock s p \<noteq> Some c) ''acquire'' (upd_cpus c push_intr s))\<lparr>plock := (plock s)(p := Some c)\<rparr>"

definition unlock_p :: "nat \<Rightarrow> nat \<Rightarrow> ssys \<Rightarrow> ssys" where
  "unlock_p c p s = cpu_pop c ((require (plock s p = Some c) ''release'' s)\<lparr>plock := (plock s)(p := None)\<rparr>)"

definition lock_k :: "nat \<Rightarrow> ssys \<Rightarrow> ssys" where
  "lock_k c s = (require (lk s \<noteq> Some c) ''acquire'' (upd_cpus c push_intr s))\<lparr>lk := Some c\<rparr>"

definition unlock_k :: "nat \<Rightarrow> ssys \<Rightarrow> ssys" where
  "unlock_k c s = cpu_pop c ((require (lk s = Some c) ''release'' s)\<lparr>lk := None\<rparr>)"

text \<open>The scheduler's choice: run \<open>p\<close> if it is runnable, otherwise give its lock back.\<close>

definition rr_choose :: "nat \<Rightarrow> nat \<Rightarrow> ssys \<Rightarrow> ssys" where
  "rr_choose c p s =
     (if st s p = RUNNABLE
      then go c (Resumed p) (s\<lparr>st := (st s)(p := RUNNING), cproc := (cproc s)(c := Some p), runner := (runner s)(p := Some c)\<rparr>)
      else go c Idle (unlock_p c p s))"

text \<open>
  Back in the scheduler. The test of \<^verbatim>\<open>sched_pointer\<close> after the switch is true of the one scheduler of
  \<^verbatim>\<open>available_schedulers\<close>, so the loop goes on.
\<close>

definition rr_back :: "nat \<Rightarrow> nat \<Rightarrow> ssys \<Rightarrow> ssys" where
  "rr_back c p s = go c Idle (unlock_p c p (s\<lparr>cproc := (cproc s)(c := None)\<rparr>))"

text \<open>
  \<^verbatim>\<open>sched\<close> up to \<^verbatim>\<open>swtch\<close>: the lock of the process is held, it is the only lock of the CPU (\<^verbatim>\<open>noff\<close>
  is 1), the process is not marked running and interrupts are off; \<^verbatim>\<open>intena\<close> is kept on the stack of the process. After
  \<^verbatim>\<open>swtch\<close> it goes to the CPU that resumed the process (\<open>restore\<close>).
\<close>

definition sched :: "nat \<Rightarrow> nat \<Rightarrow> ssys \<Rightarrow> ssys kres" where
  "sched c p s =
     (if plock s p \<noteq> Some c then Inl (Panic ''sched p->lock'')
      else if c_noff (cpus s c) \<noteq> 1 then Inl (Panic ''sched locks'')
      else if st s p = RUNNING then Inl (Panic ''sched running'')
      else if c_intr (cpus s c) then Inl (Panic ''sched interruptible'')
      else Inr (go c (Back p) (s\<lparr>runner := (runner s)(p := None), p_intena := (p_intena s)(p := c_intena (cpus s c))\<rparr>)))"

definition restore :: "nat \<Rightarrow> nat \<Rightarrow> ssys \<Rightarrow> ssys" where
  "restore c p s = upd_cpus c (\<lambda>x. x\<lparr>c_intena := p_intena s p\<rparr>) s"

definition yield :: "nat \<Rightarrow> nat \<Rightarrow> ssys \<Rightarrow> ssys" where
  "yield c p s = go c (Switch p) ((lock_p c p s)\<lparr>st := (st s)(p := RUNNABLE), saved := (saved s)(p := Yielding)\<rparr>)"

text \<open>The stages of \<^verbatim>\<open>sleep\<close> before the switch, and what it does when it is resumed.\<close>

definition sleep_lock :: "nat \<Rightarrow> nat \<Rightarrow> ssys \<Rightarrow> ssys" where
  "sleep_lock c p s = go c (Sleep1 p) (lock_p c p s)"

definition sleep_release :: "nat \<Rightarrow> nat \<Rightarrow> ssys \<Rightarrow> ssys" where
  "sleep_release c p s = go c (Sleep2 p) (unlock_k c s)"

definition sleep_mark :: "nat \<Rightarrow> nat \<Rightarrow> ssys \<Rightarrow> ssys" where
  "sleep_mark c p s = go c (Switch p) (s\<lparr>on_chan := (on_chan s)(p := True), st := (st s)(p := SLEEPING), saved := (saved s)(p := Sleeping)\<rparr>)"

definition resume :: "nat \<Rightarrow> nat \<Rightarrow> ssys \<Rightarrow> ssys" where
  "resume c p s =
     (case saved s p of
        Fresh \<Rightarrow> go c (User p) (unlock_p c p s)
      | Yielding \<Rightarrow> go c (User p) (unlock_p c p (restore c p s))
      | Sleeping \<Rightarrow> go c (Relock p) (unlock_p c p ((restore c p s)\<lparr>on_chan := (on_chan s)(p := False)\<rparr>)))"

text \<open>The body of the loop of \<^verbatim>\<open>wakeup\<close>, with the lock of slot \<open>q\<close> held.\<close>

definition wake_one :: "nat \<Rightarrow> nat \<Rightarrow> nat \<Rightarrow> nat list \<Rightarrow> ssys \<Rightarrow> ssys" where
  "wake_one c p q qs s =
     go c (Wake p qs) (unlock_p c q (if st s q = SLEEPING \<and> on_chan s q then s\<lparr>st := (st s)(q := RUNNABLE)\<rparr> else s))"

lemma enters_none [simp]: "enters c None"
  by (simp add: enters_def)

section \<open>Interleaving\<close>

text \<open>
  The steps \<open>intr_on\<close> and \<open>intr_user\<close> are \<^verbatim>\<open>intr_on()\<close> of the scheduler's loop, and the changes of the interrupt bit
  by a process that holds no lock (traps, system calls, the return to user space).
\<close>

inductive sstep :: "ssys \<Rightarrow> ssys \<Rightarrow> bool" where
  pick: "at s c = Idle \<Longrightarrow> p < NPROC \<Longrightarrow> enters c (plock s p) \<Longrightarrow> sstep s (go c (Picked p) (lock_p c p s))"
| choose: "at s c = Picked p \<Longrightarrow> sstep s (rr_choose c p s)"
| returned: "at s c = Back p \<Longrightarrow> sstep s (rr_back c p s)"
| resume: "at s c = Resumed p \<Longrightarrow> sstep s (resume c p s)"
| relock: "at s c = Relock p \<Longrightarrow> enters c (lk s) \<Longrightarrow> sstep s (go c (Crit p) (lock_k c s))"
| enter: "at s c = User p \<Longrightarrow> enters c (lk s) \<Longrightarrow> sstep s (go c (Crit p) (lock_k c s))"
| leave: "at s c = Crit p \<Longrightarrow> cond s \<Longrightarrow> sstep s (go c (User p) (unlock_k c (s\<lparr>cond := False\<rparr>)))"
| sleep1: "at s c = Crit p \<Longrightarrow> \<not> cond s \<Longrightarrow> enters c (plock s p) \<Longrightarrow> sstep s (sleep_lock c p s)"
| sleep2: "at s c = Sleep1 p \<Longrightarrow> sstep s (sleep_release c p s)"
| sleep3: "at s c = Sleep2 p \<Longrightarrow> sstep s (sleep_mark c p s)"
| switch: "at s c = Switch p \<Longrightarrow> sched c p s = Inr s' \<Longrightarrow> sstep s s'"
| yield: "at s c = User p \<Longrightarrow> enters c (plock s p) \<Longrightarrow> sstep s (yield c p s)"
| signal: "at s c = Crit p \<Longrightarrow> sstep s (go c (Wake p [0..<NPROC]) (s\<lparr>cond := True\<rparr>))"
| wake_self: "at s c = Wake p (p # qs) \<Longrightarrow> sstep s (go c (Wake p qs) s)"
| wake_lock: "at s c = Wake p (q # qs) \<Longrightarrow> q \<noteq> p \<Longrightarrow> enters c (plock s q) \<Longrightarrow> sstep s (go c (Woke p q qs) (lock_p c q s))"
| wake: "at s c = Woke p q qs \<Longrightarrow> sstep s (wake_one c p q qs s)"
| wake_end: "at s c = Wake p [] \<Longrightarrow> sstep s (go c (User p) (unlock_k c s))"
| intr_on: "at s c = Idle \<Longrightarrow> sstep s (upd_cpus c (\<lambda>x. x\<lparr>c_intr := True\<rparr>) s)"
| intr_user: "at s c = User p \<Longrightarrow> sstep s (upd_cpus c (\<lambda>x. x\<lparr>c_intr := b\<rparr>) s)"

definition sched_init :: "ssys \<Rightarrow> bool" where
  "sched_init s \<longleftrightarrow> (\<forall>c. at s c = Idle \<and> cproc s c = None) \<and> (\<forall>p. plock s p = None \<and> runner s p = None) \<and> lk s = None \<and>
     (\<forall>p. st s p = UNUSED \<or> (p < NPROC \<and> st s p = RUNNABLE \<and> saved s p = Fresh)) \<and>
     (\<forall>c. c_noff (cpus s c) = 0) \<and> panicked s = None"

text \<open>The fields of the CPU change as in \<^verbatim>\<open>spinlock.c\<close>.\<close>

lemma push_intr_spinlock: "scpu (push_off c m) c = push_intr (scpu m c)"
  by (simp add: push_off_def upd_cpu_def push_intr_def)

lemma pop_intr_spinlock: "pop_off c m = Inr m' \<Longrightarrow> scpu m' c = pop_intr (scpu m c)"
  by (auto simp: pop_off_def upd_cpu_def pop_intr_def split: if_splits)

section \<open>Invariant\<close>

text \<open>The process lock a CPU holds, and whether it holds the lock of the condition.\<close>

definition holds :: "place \<Rightarrow> nat option" where
  "holds l = (case l of Picked p \<Rightarrow> Some p | Resumed p \<Rightarrow> Some p | Sleep1 p \<Rightarrow> Some p | Sleep2 p \<Rightarrow> Some p
     | Switch p \<Rightarrow> Some p | Back p \<Rightarrow> Some p | Woke p q qs \<Rightarrow> Some q | _ \<Rightarrow> None)"

definition glocked :: "place \<Rightarrow> bool" where
  "glocked l = (case l of Crit p \<Rightarrow> True | Sleep1 p \<Rightarrow> True | Wake p qs \<Rightarrow> True | Woke p q qs \<Rightarrow> True | _ \<Rightarrow> False)"

text \<open>The process a CPU runs, and whether it is marked \<^verbatim>\<open>RUNNING\<close> there.\<close>

definition runs :: "place \<Rightarrow> nat option" where
  "runs l = (case l of Resumed p \<Rightarrow> Some p | User p \<Rightarrow> Some p | Relock p \<Rightarrow> Some p | Crit p \<Rightarrow> Some p | Sleep1 p \<Rightarrow> Some p
     | Sleep2 p \<Rightarrow> Some p | Switch p \<Rightarrow> Some p | Wake p qs \<Rightarrow> Some p | Woke p q qs \<Rightarrow> Some p | _ \<Rightarrow> None)"

definition switching :: "place \<Rightarrow> bool" where
  "switching l = (case l of Switch p \<Rightarrow> True | _ \<Rightarrow> False)"

text \<open>The slots a waker has not finished with.\<close>

definition pending :: "place \<Rightarrow> nat set" where
  "pending l = (case l of Wake p qs \<Rightarrow> set qs | Woke p q qs \<Rightarrow> insert q (set qs) | _ \<Rightarrow> {})"

definition sched_inv :: "ssys \<Rightarrow> bool" where
  "sched_inv s \<longleftrightarrow>
     (\<forall>c p. plock s p = Some c \<longleftrightarrow> holds (at s c) = Some p) \<and>
     (\<forall>c. lk s = Some c \<longleftrightarrow> glocked (at s c)) \<and>
     (\<forall>c p. runner s p = Some c \<longleftrightarrow> runs (at s c) = Some p) \<and>
     (\<forall>c p. runner s p = Some c \<longrightarrow> p < NPROC \<and> (st s p = RUNNING \<longleftrightarrow> \<not> switching (at s c)) \<and> cproc s c = Some p) \<and>
     (\<forall>p. runner s p = None \<longrightarrow> st s p \<noteq> RUNNING) \<and>
     (\<forall>p. st s p \<noteq> UNUSED \<longrightarrow> p < NPROC) \<and>
     (\<forall>p. st s p = SLEEPING \<longrightarrow> on_chan s p)"

text \<open>How many locks a CPU holds at a place: its \<^verbatim>\<open>noff\<close>.\<close>

definition depth :: "place \<Rightarrow> int" where
  "depth l = (if holds l \<noteq> None then 1 else 0) + (if glocked l then 1 else 0)"

definition cpu_good :: "place \<Rightarrow> cpu \<Rightarrow> bool" where
  "cpu_good l x \<longleftrightarrow> c_noff x = depth l \<and> (0 < depth l \<longrightarrow> \<not> c_intr x)"

definition cpu_inv :: "ssys \<Rightarrow> bool" where
  "cpu_inv s \<longleftrightarrow> panicked s = None \<and> (\<forall>c. cpu_good (at s c) (cpus s c))"

definition waker_pending :: "nat \<Rightarrow> ssys \<Rightarrow> bool" where
  "waker_pending p s \<longleftrightarrow> (\<exists>c. lk s = Some c \<and> p \<in> pending (at s c))"

definition wake_inv :: "ssys \<Rightarrow> bool" where
  "wake_inv s \<longleftrightarrow>
     (\<forall>c p. at s c = Sleep1 p \<longrightarrow> \<not> cond s) \<and>
     (\<forall>c p. at s c = Sleep2 p \<and> cond s \<longrightarrow> waker_pending p s) \<and>
     (\<forall>p. st s p = SLEEPING \<and> cond s \<longrightarrow> waker_pending p s)"

text \<open>What the operations on the fields of a CPU leave alone.\<close>

lemma require_fields [simp]:
  "st (require b m s) = st s" "on_chan (require b m s) = on_chan s" "saved (require b m s) = saved s"
  "plock (require b m s) = plock s" "lk (require b m s) = lk s" "cond (require b m s) = cond s"
  "cproc (require b m s) = cproc s" "at (require b m s) = at s" "runner (require b m s) = runner s"
  "cpus (require b m s) = cpus s" "p_intena (require b m s) = p_intena s"
  "panicked (require b m s) = (if b then panicked s else Some m)"
  by (simp_all add: require_def)

lemma upd_cpus_fields [simp]:
  "st (upd_cpus c f s) = st s" "on_chan (upd_cpus c f s) = on_chan s" "saved (upd_cpus c f s) = saved s"
  "plock (upd_cpus c f s) = plock s" "lk (upd_cpus c f s) = lk s" "cond (upd_cpus c f s) = cond s"
  "cproc (upd_cpus c f s) = cproc s" "at (upd_cpus c f s) = at s" "runner (upd_cpus c f s) = runner s"
  "cpus (upd_cpus c f s) = (cpus s)(c := f (cpus s c))" "p_intena (upd_cpus c f s) = p_intena s"
  "panicked (upd_cpus c f s) = panicked s"
  by (simp_all add: upd_cpus_def)

lemmas sched_defs = go_def lock_p_def unlock_p_def lock_k_def unlock_k_def cpu_pop_def restore_def rr_choose_def rr_back_def yield_def sleep_lock_def sleep_release_def
  sleep_mark_def resume_def wake_one_def
lemmas place_defs = holds_def glocked_def runs_def switching_def pending_def

lemma sched_inv_init: "sched_init s \<Longrightarrow> sched_inv s"
proof -
  assume i: "sched_init s"
  then have "st s p \<noteq> RUNNING \<and> st s p \<noteq> SLEEPING" for p by (metis sched_init_def procstate.distinct)
  then show ?thesis using i by (auto simp: sched_init_def sched_inv_def place_defs)
qed

lemma wake_inv_init: "sched_init s \<Longrightarrow> wake_inv s"
proof -
  assume i: "sched_init s"
  then have "st s p \<noteq> SLEEPING" for p by (metis sched_init_def procstate.distinct)
  then show ?thesis using i by (simp add: sched_init_def wake_inv_def)
qed

text \<open>What a step of CPU \<open>c\<close> has to keep.\<close>

lemma sched_inv_local:
  assumes inv: "sched_inv s"
    and others: "\<And>d. d \<noteq> c \<Longrightarrow> at t d = at s d \<and> cproc t d = cproc s d \<and> (lk t = Some d) = (lk s = Some d)"
      "\<And>d p. d \<noteq> c \<Longrightarrow> (plock t p = Some d) = (plock s p = Some d) \<and> (runner t p = Some d) = (runner s p = Some d)"
      "\<And>d p. d \<noteq> c \<Longrightarrow> runner s p = Some d \<Longrightarrow> (st t p = RUNNING) = (st s p = RUNNING)"
    and own: "\<And>p. (plock t p = Some c) = (holds (at t c) = Some p)" "(lk t = Some c) = glocked (at t c)"
      "\<And>p. (runner t p = Some c) = (runs (at t c) = Some p)"
      "\<And>p. runner t p = Some c \<Longrightarrow> p < NPROC \<and> (st t p = RUNNING \<longleftrightarrow> \<not> switching (at t c)) \<and> cproc t c = Some p"
    and rest: "\<And>p. runner t p = None \<Longrightarrow> st t p \<noteq> RUNNING" "\<And>p. st t p \<noteq> UNUSED \<Longrightarrow> p < NPROC" "\<And>p. st t p = SLEEPING \<Longrightarrow> on_chan t p"
  shows "sched_inv t"
  unfolding sched_inv_def
proof (intro conjI allI)
  fix d p
  show "(plock t p = Some d) = (holds (at t d) = Some p)"
    using inv own(1) others by (cases "d = c") (auto simp: sched_inv_def)
  show "(lk t = Some d) = glocked (at t d)"
    using inv own(2) others(1) [of d] by (cases "d = c") (auto simp: sched_inv_def)
  show "(runner t p = Some d) = (runs (at t d) = Some p)"
    using inv own(3) others(1,2) [of d] by (cases "d = c") (auto simp: sched_inv_def)
  show "runner t p = Some d \<longrightarrow> p < NPROC \<and> (st t p = RUNNING) = (\<not> switching (at t d)) \<and> cproc t d = Some p"
  proof (cases "d = c")
    case False
    then show ?thesis using inv others(1) [OF False] others(2,3) [OF False, of p] by (auto simp: sched_inv_def)
  qed (use own(4) in blast)
qed (use rest in blast)+

lemma sched_invD:
  assumes "sched_inv s"
  shows "(plock s p = Some c) = (holds (at s c) = Some p)" "(lk s = Some c) = glocked (at s c)"
    "(runner s p = Some c) = (runs (at s c) = Some p)"
    "runner s p = Some c \<Longrightarrow> p < NPROC \<and> (st s p = RUNNING \<longleftrightarrow> \<not> switching (at s c)) \<and> cproc s c = Some p"
    "runner s p = None \<Longrightarrow> st s p \<noteq> RUNNING" "st s p \<noteq> UNUSED \<Longrightarrow> p < NPROC"
    "st s p = SLEEPING \<Longrightarrow> on_chan s p"
  using assms unfolding sched_inv_def by blast+

text \<open>A CPU that holds no process lock (not the lock of the condition) takes it only when it is free.\<close>

lemma enters_free:
  assumes "sched_inv s"
  shows "enters c (plock s p) \<Longrightarrow> holds (at s c) = None \<Longrightarrow> plock s p = None"
    "enters c (lk s) \<Longrightarrow> \<not> glocked (at s c) \<Longrightarrow> lk s = None"
  using sched_invD(1) [OF assms, of p c] sched_invD(2) [OF assms, of c] by (auto simp: enters_def)

lemma running_unique:
  assumes "sched_inv s" "plock s p = Some c" "runs (at s c) = None" "st s p \<noteq> RUNNING"
  shows "runner s p = None"
proof (rule ccontr)
  note D = sched_invD [OF assms(1)]
  assume "runner s p \<noteq> None"
  then obtain d where d: "runner s p = Some d" by blast
  then have "runs (at s d) = Some p" "switching (at s d)" using D(3) [of p d] D(4) [of p d] assms(4) by auto
  then have "holds (at s d) = Some p" by (auto simp: place_defs split: place.splits)
  then have "d = c" using D(1) [of p d] assms(2) by simp
  then show False using assms(3) d D(3) [of p c] by simp
qed

lemma switch_state:
  assumes "sched_inv s" "at s c = Switch p"
  shows "plock s p = Some c" "st s p \<noteq> RUNNING"
proof -
  note D = sched_invD [OF assms(1)]
  show "plock s p = Some c" using D(1) [of p c] assms(2) by (simp add: place_defs)
  have "runner s p = Some c" using D(3) [of p c] assms(2) by (simp add: place_defs)
  then show "st s p \<noteq> RUNNING" using D(4) [of p c] assms(2) by (simp add: place_defs)
qed

lemma sched_inv_step:
  assumes "sched_inv s" "sstep s t"
  shows "sched_inv t"
proof -
  note D = sched_invD [OF assms(1)]
  have own: "(plock s q = Some c) = (holds (at s c) = Some q)" "(lk s = Some c) = glocked (at s c)"
    "(runner s q = Some c) = (runs (at s c) = Some q)" for q c by (fact D)+
  note local = sched_inv_local [OF assms(1)]
  from assms(2) show ?thesis
  proof cases
    case (pick c p)
    moreover have "plock s p = None" using enters_free(1) [OF assms(1)] pick by (simp add: place_defs)
    ultimately show ?thesis using own [where c = c] D(5-7) by (intro local [of c]) (auto simp: sched_defs place_defs split: if_splits)
  next
    case (choose c p)
    then have l: "plock s p = Some c" using own(1,3) [where q = p and c = c] by (simp add: place_defs)
    then have "st s p = RUNNABLE \<Longrightarrow> runner s p = None"
      using running_unique [OF assms(1) l] choose by (simp add: place_defs)
    moreover have "plock s p = Some d \<Longrightarrow> d = c" for d using l by simp
    ultimately show ?thesis using choose own [where c = c] D(5-7) D(6) [of p]
      by (intro local [of c]) (auto simp: sched_defs place_defs split: if_splits)
  next
    case (returned c p)
    then have "plock s p = Some d \<Longrightarrow> d = c" for d using own(1) [where q = p and c = c] by (simp add: place_defs)
    then show ?thesis using returned own [where c = c] D(5-7) by (intro local [of c]) (auto simp: sched_defs place_defs split: if_splits)
  next
    case (resume c p)
    then have "plock s p = Some d \<Longrightarrow> d = c" "runner s p = Some d \<Longrightarrow> d = c" for d
      using own(1,3) [where q = p and c = c] by (simp_all add: place_defs)
    then show ?thesis using resume own [where c = c] D(4) [of p c] D(5-7)
      by (intro local [of c]) (auto simp: sched_defs place_defs split: saved.splits)
  next
    case (relock c p)
    moreover have "lk s = None" using enters_free(2) [OF assms(1)] relock by (simp add: place_defs)
    ultimately show ?thesis using own [where c = c] D(4) [of p c] D(5-7) by (intro local [of c]) (auto simp: sched_defs place_defs split: if_splits)
  next
    case (enter c p)
    moreover have "lk s = None" using enters_free(2) [OF assms(1)] enter by (simp add: place_defs)
    ultimately show ?thesis using own [where c = c] D(4) [of p c] D(5-7) by (intro local [of c]) (auto simp: sched_defs place_defs split: if_splits)
  next
    case (leave c p)
    then show ?thesis using own [where c = c] D(4) [of p c] D(5-7) by (intro local [of c]) (auto simp: sched_defs place_defs split: if_splits)
  next
    case (sleep1 c p)
    moreover have "plock s p = None" using enters_free(1) [OF assms(1)] sleep1 by (simp add: place_defs)
    ultimately show ?thesis using own [where c = c] D(4) [of p c] D(5-7) by (intro local [of c]) (auto simp: sched_defs place_defs split: if_splits)
  next
    case (sleep2 c p)
    then show ?thesis using own [where c = c] D(4) [of p c] D(5-7) by (intro local [of c]) (auto simp: sched_defs place_defs split: if_splits)
  next
    case (sleep3 c p)
    then have "runner s p = Some d \<Longrightarrow> d = c" for d using own(3) [where q = p and c = c] by (simp add: place_defs)
    then show ?thesis using sleep3 own [where c = c] D(4) [of p c] D(5-7) by (intro local [of c]) (auto simp: sched_defs place_defs split: if_splits)
  next
    case (switch c p)
    then have "runner s p = Some d \<Longrightarrow> d = c" for d using own(3) [where q = p and c = c] by (simp add: place_defs)
    then show ?thesis using switch own [where c = c] switch_state [OF assms(1), of c p] D(5-7)
      by (intro local [of c]) (auto simp: sched_def sched_defs place_defs split: if_splits)
  next
    case (yield c p)
    from yield have "runner s p = Some d \<Longrightarrow> d = c" for d using own(3) [where q = p and c = c] by (simp add: place_defs)
    moreover have "plock s p = None" using enters_free(1) [OF assms(1)] yield by (simp add: place_defs)
    ultimately show ?thesis using yield own [where c = c] D(4) [of p c] D(5-7) by (intro local [of c]) (auto simp: sched_defs place_defs split: if_splits)
  next
    case (signal c p)
    then show ?thesis using own [where c = c] D(4) [of p c] D(5-7) by (intro local [of c]) (auto simp: sched_defs place_defs split: if_splits)
  next
    case (wake_self c p qs)
    then show ?thesis using own [where c = c] D(4) [of p c] D(5-7) by (intro local [of c]) (auto simp: sched_defs place_defs split: if_splits)
  next
    case (wake_lock c p q qs)
    moreover have "plock s q = None" using enters_free(1) [OF assms(1)] wake_lock by (simp add: place_defs)
    ultimately show ?thesis using own [where c = c] D(4) [of p c] D(5-7) by (intro local [of c]) (auto simp: sched_defs place_defs split: if_splits)
  next
    case (wake c p q qs)
    then have "plock s q = Some d \<Longrightarrow> d = c" for d using own(1) [where q = q and c = c] by (simp add: place_defs)
    then show ?thesis using wake own [where c = c] D(4) [of p c] D(5-7)
      by (intro local [of c]) (auto simp: sched_defs place_defs split: if_splits)
  next
    case (wake_end c p)
    then show ?thesis using own [where c = c] D(4) [of p c] D(5-7) by (intro local [of c]) (auto simp: sched_defs place_defs split: if_splits)
  next
    case (intr_on c)
    then show ?thesis using assms(1) by (simp add: sched_inv_def)
  next
    case (intr_user c p)
    then show ?thesis using assms(1) by (simp add: sched_inv_def)
  qed
qed

section \<open>Nesting depth and interrupts\<close>

lemma push_good: "cpu_good l x \<Longrightarrow> depth m = depth l + 1 \<Longrightarrow> cpu_good m (push_intr x)"
  by (simp add: cpu_good_def push_intr_def)

lemma pop_good: "cpu_good l x \<Longrightarrow> depth m = depth l - 1 \<Longrightarrow> cpu_good m (pop_intr x)"
  by (auto simp: cpu_good_def pop_intr_def depth_def split: if_splits)

lemma intena_good: "cpu_good l (x\<lparr>c_intena := b\<rparr>) = cpu_good l x"
  by (simp add: cpu_good_def)

lemma good_cong: "cpu_good l x \<Longrightarrow> depth m = depth l \<Longrightarrow> cpu_good m x"
  by (simp add: cpu_good_def)

lemma intr_good: "depth l = 0 \<Longrightarrow> cpu_good l x \<Longrightarrow> cpu_good l (x\<lparr>c_intr := b\<rparr>)"
  by (simp add: cpu_good_def)

lemma depth_eqs [simp]:
  "depth Idle = 0" "depth (User p) = 0" "depth (Relock p) = 0" "depth (Picked p) = 1" "depth (Resumed p) = 1"
  "depth (Sleep2 p) = 1" "depth (Switch p) = 1" "depth (Back p) = 1" "depth (Crit p) = 1" "depth (Wake p qs) = 1"
  "depth (Sleep1 p) = 2" "depth (Woke p q qs) = 2"
  by (simp_all add: depth_def place_defs)

text \<open>
  A step changes the place and the fields of one CPU: it takes a lock, it gives one back (its checks pass), or it
  leaves the nesting depth alone.
\<close>

lemma cpu_inv_local:
  assumes "cpu_inv s" "\<And>d. d \<noteq> c \<Longrightarrow> at t d = at s d" "\<And>d. d \<noteq> c \<Longrightarrow> cpus t d = cpus s d" "panicked t = panicked s"
    "cpu_good (at t c) (cpus t c)"
  shows "cpu_inv t"
proof -
  have "cpu_good (at t d) (cpus t d)" for d using assms by (cases "d = c") (simp_all add: cpu_inv_def)
  then show ?thesis using assms(1,4) by (simp add: cpu_inv_def)
qed

lemma cpu_invD: "cpu_inv s \<Longrightarrow> cpu_good (at s c) (cpus s c)" "cpu_inv s \<Longrightarrow> panicked s = None"
  by (simp_all add: cpu_inv_def)

lemma cpu_inv_push:
  assumes "cpu_inv s" "\<And>d. d \<noteq> c \<Longrightarrow> at t d = at s d" "cpus t = (cpus s)(c := push_intr (cpus s c))" "panicked t = panicked s"
    "depth (at t c) = depth (at s c) + 1"
  shows "cpu_inv t"
  using push_good [OF cpu_invD(1) [OF assms(1)] assms(5)] by (intro cpu_inv_local [OF assms(1) assms(2) _ assms(4)]) (auto simp: assms(3))

lemma cpu_inv_pop:
  assumes "cpu_inv s" "\<And>d. d \<noteq> c \<Longrightarrow> at t d = at s d" "cpus t = (cpus s)(c := pop_intr ((cpus s c)\<lparr>c_intena := b\<rparr>))"
    "panicked t = panicked s" "depth (at t c) = depth (at s c) - 1"
  shows "cpu_inv t"
proof -
  have "cpu_good (at s c) ((cpus s c)\<lparr>c_intena := b\<rparr>)" using cpu_invD(1) [OF assms(1)] by (simp add: intena_good)
  from pop_good [OF this assms(5)] show ?thesis
    by (intro cpu_inv_local [OF assms(1) assms(2) _ assms(4)]) (auto simp: assms(3))
qed

lemma cpu_inv_same:
  assumes "cpu_inv s" "\<And>d. d \<noteq> c \<Longrightarrow> at t d = at s d" "cpus t = cpus s" "panicked t = panicked s" "depth (at t c) = depth (at s c)"
  shows "cpu_inv t"
  using good_cong [OF cpu_invD(1) [OF assms(1)] assms(5)] by (intro cpu_inv_local [OF assms(1) assms(2) _ assms(4)]) (auto simp: assms(3))

lemma intr_off:
  assumes "cpu_inv s" "0 < depth (at s c)"
  shows "1 \<le> c_noff (cpus s c)" "\<not> c_intr (cpus s c)"
  using cpu_invD(1) [OF assms(1), of c] assms(2) by (simp_all add: cpu_good_def)

lemma cpu_inv_resume:
  assumes "sched_inv s" "cpu_inv s" "at s c = Resumed p"
  shows "cpu_inv (resume c p s)"
proof -
  have h: "plock s p = Some c" using sched_invD(1) [OF assms(1), of p c] assms(3) by (simp add: place_defs)
  have d: "depth (at s c) = 1" using assms(3) by (simp)
  note i = intr_off [OF assms(2), of c]
  show ?thesis
  proof (cases "saved s p")
    case Fresh
    show ?thesis by (rule cpu_inv_pop [OF assms(2), where c = c and b = "c_intena (cpus s c)"])
        (use Fresh h d i in \<open>simp_all add: sched_defs\<close>)
  next
    case Yielding
    show ?thesis by (rule cpu_inv_pop [OF assms(2), where c = c and b = "p_intena s p"])
        (use Yielding h d i in \<open>simp_all add: sched_defs\<close>)
  next
    case Sleeping
    show ?thesis by (rule cpu_inv_pop [OF assms(2), where c = c and b = "p_intena s p"])
        (use Sleeping h d i in \<open>simp_all add: sched_defs\<close>)
  qed
qed

lemma cpu_inv_give:
  assumes "sched_inv s" "cpu_inv s" "holds (at s c) = Some p" "at t = at s" "cpus t = cpus s" "plock t = plock s"
    "panicked t = panicked s" "depth l = depth (at s c) - 1"
  shows "cpu_inv (go c l (unlock_p c p t))"
proof -
  have h: "plock s p = Some c" using sched_invD(1) [OF assms(1), of p c] assms(3) by simp
  have d: "0 < depth (at s c)" using assms(3) by (simp add: depth_def)
  show ?thesis by (rule cpu_inv_pop [OF assms(2), where c = c and b = "c_intena (cpus s c)"])
      (use h d assms(4-8) intr_off [OF assms(2), of c] in \<open>simp_all add: go_def unlock_p_def cpu_pop_def\<close>)
qed

lemma cpu_inv_give_k:
  assumes "sched_inv s" "cpu_inv s" "glocked (at s c)" "at t = at s" "cpus t = cpus s" "lk t = lk s"
    "panicked t = panicked s" "depth l = depth (at s c) - 1"
  shows "cpu_inv (go c l (unlock_k c t))"
proof -
  have h: "lk s = Some c" using sched_invD(2) [OF assms(1), of c] assms(3) by simp
  have d: "0 < depth (at s c)" using assms(3) by (simp add: depth_def)
  show ?thesis by (rule cpu_inv_pop [OF assms(2), where c = c and b = "c_intena (cpus s c)"])
      (use h d assms(4-8) intr_off [OF assms(2), of c] in \<open>simp_all add: go_def unlock_k_def cpu_pop_def\<close>)
qed

lemma cpu_inv_intr: "cpu_inv s \<Longrightarrow> depth (at s c) = 0 \<Longrightarrow> cpu_inv (upd_cpus c (\<lambda>x. x\<lparr>c_intr := b\<rparr>) s)"
  by (simp add: cpu_inv_def cpu_good_def)

lemma cpu_inv_step:
  assumes "sched_inv s" "cpu_inv s" "sstep s t"
  shows "cpu_inv t"
  using assms(3)
proof cases
  case (pick c p)
  moreover have "plock s p = None" using enters_free(1) [OF assms(1)] pick by (simp add: place_defs)
  ultimately show ?thesis by (intro cpu_inv_push [OF assms(2), where c = c]) (simp_all add: sched_defs)
next
  case (choose c p)
  show ?thesis
  proof (cases "st s p = RUNNABLE")
    case True
    then show ?thesis using choose by (intro cpu_inv_same [OF assms(2), where c = c]) (simp_all add: sched_defs)
  next
    case False
    then have "t = go c Idle (unlock_p c p s)" using choose by (simp add: rr_choose_def)
    then show ?thesis using choose by (simp add: cpu_inv_give [OF assms(1,2)] place_defs)
  qed
next
  case (returned c p)
  then show ?thesis by (simp add: rr_back_def cpu_inv_give [OF assms(1,2)] place_defs)
next
  case (resume c p)
  then show ?thesis using cpu_inv_resume [OF assms(1,2)] by simp
next
  case (relock c p)
  moreover have "lk s = None" using enters_free(2) [OF assms(1)] relock by (simp add: place_defs)
  ultimately show ?thesis by (intro cpu_inv_push [OF assms(2), where c = c]) (simp_all add: sched_defs)
next
  case (enter c p)
  moreover have "lk s = None" using enters_free(2) [OF assms(1)] enter by (simp add: place_defs)
  ultimately show ?thesis by (intro cpu_inv_push [OF assms(2), where c = c]) (simp_all add: sched_defs)
next
  case (leave c p)
  then show ?thesis by (simp add: cpu_inv_give_k [OF assms(1,2)] place_defs)
next
  case (sleep1 c p)
  moreover have "plock s p = None" using enters_free(1) [OF assms(1)] sleep1 by (simp add: place_defs)
  ultimately show ?thesis by (intro cpu_inv_push [OF assms(2), where c = c]) (simp_all add: sched_defs)
next
  case (sleep2 c p)
  then show ?thesis by (simp add: sleep_release_def cpu_inv_give_k [OF assms(1,2)] place_defs)
next
  case (sleep3 c p)
  then show ?thesis by (intro cpu_inv_same [OF assms(2), where c = c]) (simp_all add: sched_defs)
next
  case (switch c p)
  then show ?thesis
    by (intro cpu_inv_same [OF assms(2), where c = c]) (auto simp: sched_def sched_defs split: if_splits)
next
  case (yield c p)
  moreover have "plock s p = None" using enters_free(1) [OF assms(1)] yield by (simp add: place_defs)
  ultimately show ?thesis by (intro cpu_inv_push [OF assms(2), where c = c]) (simp_all add: sched_defs)
next
  case (signal c p)
  then show ?thesis by (intro cpu_inv_same [OF assms(2), where c = c]) (simp_all add: sched_defs)
next
  case (wake_self c p qs)
  then show ?thesis by (intro cpu_inv_same [OF assms(2), where c = c]) (simp_all add: sched_defs)
next
  case (wake_lock c p q qs)
  moreover have "plock s q = None" using enters_free(1) [OF assms(1)] wake_lock by (simp add: place_defs)
  ultimately show ?thesis by (intro cpu_inv_push [OF assms(2), where c = c]) (simp_all add: sched_defs)
next
  case (wake c p q qs)
  then show ?thesis by (simp add: wake_one_def cpu_inv_give [OF assms(1,2)] place_defs)
next
  case (wake_end c p)
  then show ?thesis by (simp add: cpu_inv_give_k [OF assms(1,2)] place_defs)
next
  case (intr_on c)
  then show ?thesis by (simp add: cpu_inv_intr [OF assms(2)])
next
  case (intr_user c p)
  then show ?thesis by (simp add: cpu_inv_intr [OF assms(2)])
qed

lemma cpu_inv_init: "sched_init s \<Longrightarrow> cpu_inv s"
  by (simp add: sched_init_def cpu_inv_def cpu_good_def)

text \<open>Both invariants together: the four checks of \<^verbatim>\<open>sched\<close> pass.\<close>

definition sched_ok :: "ssys \<Rightarrow> bool" where
  "sched_ok s \<longleftrightarrow> sched_inv s \<and> cpu_inv s"

lemma sched_ok_step: "sched_ok s \<Longrightarrow> sstep s t \<Longrightarrow> sched_ok t"
  by (simp add: sched_ok_def sched_inv_step [of s t] cpu_inv_step [of s t])

lemma sched_ok_inv: "sched_ok s \<Longrightarrow> sched_inv s"
  by (simp add: sched_ok_def)

lemmas sched_okD = sched_invD [OF sched_ok_inv]

lemma sched_succeeds:
  assumes "sched_ok s" "at s c = Switch p"
  shows "sched c p s = Inr (go c (Back p) (s\<lparr>runner := (runner s)(p := None), p_intena := (p_intena s)(p := c_intena (cpus s c))\<rparr>))"
proof -
  have "c_noff (cpus s c) = 1" "\<not> c_intr (cpus s c)"
    using assms cpu_invD(1) [of s c] by (simp_all add: sched_ok_def cpu_good_def)
  then show ?thesis using switch_state [OF sched_ok_inv [OF assms(1)] assms(2)] by (simp add: sched_def)
qed

lemma resume_intr:
  assumes "cpu_inv s" "at s c = Resumed p" "saved s p \<noteq> Fresh"
  shows "c_intr (cpus (resume c p s) c) = p_intena s p"
proof -
  have "c_noff (cpus s c) = 1" "\<not> c_intr (cpus s c)"
    using assms(2) cpu_invD(1) [OF assms(1), of c] by (simp_all add: cpu_good_def)
  then show ?thesis using assms(3) by (cases "saved s p") (simp_all add: sched_defs pop_intr_def)
qed

section \<open>No lost wake-up\<close>

lemma waker_cong:
  "lk t = lk s \<Longrightarrow> (\<And>d. lk s = Some d \<Longrightarrow> at t d = at s d) \<Longrightarrow> waker_pending p t = waker_pending p s"
  by (auto simp: waker_pending_def)

text \<open>
  A step of a CPU that does not hold \<open>lk\<close>, that leaves the condition alone and that puts nobody to
  sleep.
\<close>

lemma wake_inv_quiet:
  assumes "wake_inv s" "lk t = lk s" "cond t = cond s" "lk s \<noteq> Some c" "\<And>d. d \<noteq> c \<Longrightarrow> at t d = at s d"
    "\<And>p. at t c \<noteq> Sleep1 p \<and> at t c \<noteq> Sleep2 p"
    "\<And>p. st t p = SLEEPING \<Longrightarrow> st s p = SLEEPING \<or> (\<exists>d. at s d = Sleep2 p)"
  shows "wake_inv t"
proof -
  have w: "waker_pending p t = waker_pending p s" for p using assms(2,4,5) by (intro waker_cong) auto
  have "at s d = at t d" if "at t d = Sleep1 p \<or> at t d = Sleep2 p" for d p using assms(5,6) that by metis
  then show ?thesis using assms(1,3,7) unfolding wake_inv_def w by metis
qed

text \<open>Steps after which the condition is false, or at which nobody can be asleep because no waker holds \<open>lk\<close>.\<close>

lemma wake_inv_idle:
  assumes "wake_inv s" "cond t = cond s" "\<And>d. d \<noteq> c \<Longrightarrow> at t d = at s d" "\<And>p. at t c \<noteq> Sleep1 p \<and> at t c \<noteq> Sleep2 p"
    "st t = st s" "\<And>p. \<not> waker_pending p s"
  shows "wake_inv t"
proof -
  have "at s d = at t d" if "at t d = Sleep1 p \<or> at t d = Sleep2 p" for d p using assms(3,4) that by metis
  then show ?thesis using assms(1,2,5,6) unfolding wake_inv_def by metis
qed

lemma wake_inv_signal:
  assumes "sched_inv s" "at s c = Crit p"
  shows "wake_inv (go c (Wake p [0..<NPROC]) (s\<lparr>cond := True\<rparr>))" (is "wake_inv ?t")
proof -
  note D = sched_invD [OF assms(1)]
  have lk: "lk s = Some c" using D(2) [of c] assms(2) by (simp add: place_defs)
  then have w: "waker_pending q ?t" if "q < NPROC" for q using that by (auto simp: waker_pending_def sched_defs place_defs)
  have "at ?t d \<noteq> Sleep1 q" for d q
    using lk D(2) [of d] by (cases "d = c") (auto simp: sched_defs place_defs)
  moreover have "q < NPROC" if "at ?t d = Sleep2 q" for d q
    using that D(3) [of q d] D(4) [of q d] by (cases "d = c") (auto simp: sched_defs place_defs)
  moreover have "q < NPROC" if "st ?t q = SLEEPING" for q
    using that D(6) [of q] by (auto simp: sched_defs)
  ultimately show ?thesis using w unfolding wake_inv_def by blast
qed

lemma wake_inv_self:
  assumes "sched_inv s" "wake_inv s" "at s c = Wake p (p # qs)"
  shows "wake_inv (go c (Wake p qs) s)" (is "wake_inv ?t")
proof -
  note D = sched_invD [OF assms(1)]
  have lk: "lk s = Some c" and r: "runner s p = Some c"
    using D(2) [of c] D(3) [of p c] assms(3) by (simp_all add: place_defs)
  then have awake: "st s p \<noteq> SLEEPING" using D(4) [of p c] assms(3) by (auto simp: place_defs)
  have s2: "q \<noteq> p" if "at s d = Sleep2 q" for d q
    using that r D(3) [of q d] assms(3) by (auto simp: place_defs)
  have w: "waker_pending q ?t" if "waker_pending q s" "q \<noteq> p" for q
    using that lk assms(3) by (auto simp: waker_pending_def sched_defs place_defs)
  have "at s d = at ?t d" if "at ?t d = Sleep1 q \<or> at ?t d = Sleep2 q" for d q using that by (auto simp: go_def split: if_splits)
  moreover have "st ?t = st s" "cond ?t = cond s" by (simp_all add: go_def)
  ultimately show ?thesis using assms(2) awake s2 w unfolding wake_inv_def by metis
qed

lemma wake_inv_one:
  assumes "sched_inv s" "wake_inv s" "at s c = Woke p q qs"
  shows "wake_inv (wake_one c p q qs s)" (is "wake_inv ?t")
proof -
  note D = sched_invD [OF assms(1)]
  have lk: "lk s = Some c" and pl: "plock s q = Some c"
    using D(2) [of c] D(1) [of q c] assms(3) by (simp_all add: place_defs)
  have s2: "r \<noteq> q" if "at s d = Sleep2 r" for d r
    using that pl D(1) [of r d] assms(3) by (auto simp: place_defs)
  have w: "waker_pending r ?t" if "waker_pending r s" "r \<noteq> q" for r
    using that lk assms(3) by (auto simp: waker_pending_def sched_defs place_defs)
  have awake: "st ?t r = SLEEPING \<Longrightarrow> st s r = SLEEPING \<and> r \<noteq> q" for r
    using D(7) [of q] by (auto simp: sched_defs split: if_splits)
  have "at s d = at ?t d" if "at ?t d = Sleep1 r \<or> at ?t d = Sleep2 r" for d r
    using that by (auto simp: sched_defs split: if_splits)
  moreover have "cond ?t = cond s" by (simp add: sched_defs)
  ultimately show ?thesis using assms(2) awake s2 w unfolding wake_inv_def by metis
qed

lemma wake_inv_step:
  assumes "sched_inv s" "wake_inv s" "sstep s t"
  shows "wake_inv t"
proof -
  note D = sched_invD [OF assms(1)]
  note quiet = wake_inv_quiet [OF assms(2)] and idle = wake_inv_idle [OF assms(2)]
  from assms(3) show ?thesis
  proof cases
    case (pick c p)
    moreover have "plock s p = None" using enters_free(1) [OF assms(1)] pick by (simp add: place_defs)
    ultimately show ?thesis using D(2) [of c] by (intro quiet [where c = c]) (auto simp: sched_defs place_defs)
  next
    case (choose c p)
    then show ?thesis using D(2) [of c] by (intro quiet [where c = c]) (auto simp: sched_defs place_defs split: if_splits)
  next
    case (returned c p)
    then show ?thesis using D(2) [of c] by (intro quiet [where c = c]) (auto simp: sched_defs place_defs)
  next
    case (resume c p)
    then show ?thesis using D(2) [of c] by (intro quiet [where c = c]) (auto simp: sched_defs place_defs split: saved.splits)
  next
    case (relock c p)
    moreover have "lk s = None" using enters_free(2) [OF assms(1)] relock by (simp add: place_defs)
    ultimately show ?thesis by (intro idle [where c = c]) (auto simp: sched_defs waker_pending_def)
  next
    case (enter c p)
    moreover have "lk s = None" using enters_free(2) [OF assms(1)] enter by (simp add: place_defs)
    ultimately show ?thesis by (intro idle [where c = c]) (auto simp: sched_defs waker_pending_def)
  next
    case (leave c p)
    then show ?thesis by (simp add: wake_inv_def sched_defs)
  next
    case (sleep1 c p)
    moreover have "plock s p = None" using enters_free(1) [OF assms(1)] sleep1 by (simp add: place_defs)
    ultimately show ?thesis by (simp add: wake_inv_def sched_defs)
  next
    case (sleep2 c p)
    then have "\<not> cond s" using assms(2) by (auto simp: wake_inv_def)
    then show ?thesis using sleep2 by (simp add: wake_inv_def sched_defs)
  next
    case (sleep3 c p)
    then show ?thesis using D(2) [of c]
      by (intro quiet [where c = c]) (auto simp: sched_defs place_defs split: if_splits)
  next
    case (switch c p)
    then show ?thesis using D(2) [of c]
      by (intro quiet [where c = c]) (auto simp: sched_def sched_defs place_defs split: if_splits)
  next
    case (yield c p)
    moreover have "plock s p = None" using enters_free(1) [OF assms(1)] yield by (simp add: place_defs)
    ultimately show ?thesis using D(2) [of c]
      by (intro quiet [where c = c]) (auto simp: sched_defs place_defs split: if_splits)
  next
    case (signal c p)
    then show ?thesis using wake_inv_signal [OF assms(1)] by simp
  next
    case (wake_self c p qs)
    then show ?thesis using wake_inv_self [OF assms(1,2)] by simp
  next
    case (wake_lock c p q qs)
    have free: "plock s q = None" using enters_free(1) [OF assms(1)] wake_lock by (simp add: place_defs)
    have "waker_pending r t = waker_pending r s" for r
      using wake_lock free by (auto simp: waker_pending_def sched_defs place_defs split: if_splits)
    moreover have "at s d = at t d" if "at t d = Sleep1 r \<or> at t d = Sleep2 r" for d r
      using that wake_lock by (auto simp: sched_defs split: if_splits)
    moreover have "st t = st s" "cond t = cond s" using wake_lock free by (simp_all add: sched_defs)
    ultimately show ?thesis using assms(2) unfolding wake_inv_def by metis
  next
    case (wake c p q qs)
    then show ?thesis using wake_inv_one [OF assms(1,2)] by simp
  next
    case (wake_end c p)
    then have "lk s = Some c" using D(2) [of c] by (simp add: place_defs)
    then show ?thesis using wake_end by (intro idle [where c = c]) (auto simp: sched_defs place_defs waker_pending_def)
  next
    case (intr_on c)
    then have "st t = st s" "cond t = cond s" "at t = at s" "lk t = lk s" by simp_all
    then show ?thesis using assms(2) unfolding wake_inv_def waker_pending_def by metis
  next
    case (intr_user c p)
    then have "st t = st s" "cond t = cond s" "at t = at s" "lk t = lk s" by simp_all
    then show ?thesis using assms(2) unfolding wake_inv_def waker_pending_def by metis
  qed
qed

interpretation sleepers: invariant_system sched_init sstep "\<lambda>s. sched_ok s \<and> wake_inv s"
  by unfold_locales (auto simp: sched_inv_init cpu_inv_init sched_ok_def wake_inv_init intro: sched_inv_step cpu_inv_step wake_inv_step)

lemmas reachable_ok = sleepers.reachable_inv [THEN conjunct1]
lemmas reachable_wake = sleepers.reachable_inv [THEN conjunct2]

section \<open>Progress\<close>

text \<open>
  What a step of another CPU \<open>d\<close> leaves alone, seen from a waker on CPU \<open>c\<close> that holds the lock of the
  condition: its place, the condition, and the sleepers.
\<close>

definition beside :: "nat \<Rightarrow> ssys \<Rightarrow> ssys \<Rightarrow> bool" where
  "beside c s t \<longleftrightarrow> sched_ok t \<and> sstep\<^sup>*\<^sup>* s t \<and> at t c = at s c \<and> (\<forall>p. st s p = SLEEPING \<longrightarrow> st t p = SLEEPING)"

lemma beside_step: "sched_ok s \<Longrightarrow> sstep s t \<Longrightarrow> at t c = at s c \<Longrightarrow> \<forall>p. st s p = SLEEPING \<longrightarrow> st t p = SLEEPING \<Longrightarrow> beside c s t"
  by (simp add: beside_def sched_ok_step)

lemma beside_refl: "sched_ok s \<Longrightarrow> beside c s s"
  by (simp add: beside_def)

lemma beside_inv: "beside c s t \<Longrightarrow> sched_ok t"
  by (simp add: beside_def)

lemma beside_chain: "beside c s t \<Longrightarrow> \<exists>u. beside c t u \<and> P u \<Longrightarrow> \<exists>u. beside c s u \<and> P u"
  by (fastforce simp: beside_def)

text \<open>A process lock that a CPU holds while another CPU wakes sleepers is given back in a few steps.\<close>

lemma back_unlocks: "sched_ok s \<Longrightarrow> at s d = Back q \<Longrightarrow> d \<noteq> c \<Longrightarrow> \<exists>t. beside c s t \<and> plock t q = None"
  by (intro exI [of _ "rr_back d q s"] conjI beside_step sstep.returned) (simp_all add: sched_defs)

lemma switch_unlocks:
  assumes "sched_ok s" "at s d = Switch q" "d \<noteq> c"
  shows "\<exists>t. beside c s t \<and> plock t q = None"
proof -
  define t where "t = go d (Back q) (s\<lparr>runner := (runner s)(q := None), p_intena := (p_intena s)(q := c_intena (cpus s d))\<rparr>)"
  have "sched d q s = Inr t" using sched_succeeds [OF assms(1,2)] by (simp add: t_def)
  then have "sstep s t" using sstep.switch assms(2) by blast
  then have b: "beside c s t" using assms by (intro beside_step) (simp_all add: t_def go_def)
  have "at t d = Back q" by (simp add: t_def go_def)
  from beside_chain [OF b back_unlocks [OF beside_inv [OF b] this assms(3)]] show ?thesis .
qed

lemma resumed_unlocks: "sched_ok s \<Longrightarrow> at s d = Resumed q \<Longrightarrow> d \<noteq> c \<Longrightarrow> \<exists>t. beside c s t \<and> plock t q = None"
  by (intro exI [of _ "resume d q s"] conjI beside_step sstep.resume) (simp_all add: sched_defs split: saved.splits)

lemma picked_unlocks:
  assumes "sched_ok s" "at s d = Picked q" "d \<noteq> c"
  shows "\<exists>t. beside c s t \<and> plock t q = None"
proof -
  have b: "beside c s (rr_choose d q s)"
    using assms by (intro beside_step sstep.choose) (simp_all add: sched_defs)
  show ?thesis
  proof (cases "st s q = RUNNABLE")
    case True
    then have "at (rr_choose d q s) d = Resumed q" by (simp add: sched_defs)
    from beside_chain [OF b resumed_unlocks [OF beside_inv [OF b] this assms(3)]] show ?thesis .
  next
    case False
    then have "plock (rr_choose d q s) q = None" by (simp add: sched_defs)
    then show ?thesis using b by blast
  qed
qed

lemma sleep2_unlocks:
  assumes "sched_ok s" "at s d = Sleep2 q" "d \<noteq> c"
  shows "\<exists>t. beside c s t \<and> plock t q = None"
proof -
  have b: "beside c s (sleep_mark d q s)" using assms by (intro beside_step sstep.sleep3) (simp_all add: sched_defs)
  have "at (sleep_mark d q s) d = Switch q" by (simp add: sched_defs)
  from beside_chain [OF b switch_unlocks [OF beside_inv [OF b] this assms(3)]] show ?thesis .
qed

lemma lock_comes_free:
  assumes "sched_ok s" "lk s = Some c" "holds (at s c) \<noteq> Some q"
  shows "\<exists>t. beside c s t \<and> plock t q = None"
proof (cases "plock s q")
  case None
  then show ?thesis using beside_refl [OF assms(1)] by blast
next
  case (Some d)
  note D = sched_okD [OF assms(1)]
  have h: "holds (at s d) = Some q" using D(1) [of q d] Some by simp
  then have dc: "d \<noteq> c" using assms(3) by auto
  have "\<not> glocked (at s d)" using D(2) [of d] assms(2) dc by simp
  with h consider "at s d = Picked q" | "at s d = Resumed q" | "at s d = Sleep2 q" | "at s d = Switch q" | "at s d = Back q"
    by (cases "at s d") (simp_all add: place_defs)
  then show ?thesis
  proof cases
    case 1
    from picked_unlocks [OF assms(1) this dc] show ?thesis .
  next
    case 2
    from resumed_unlocks [OF assms(1) this dc] show ?thesis .
  next
    case 3
    from sleep2_unlocks [OF assms(1) this dc] show ?thesis .
  next
    case 4
    from switch_unlocks [OF assms(1) this dc] show ?thesis .
  next
    case 5
    from back_unlocks [OF assms(1) this dc] show ?thesis .
  qed
qed

text \<open>The waker gets to every slot it has not finished with.\<close>

lemma woke_wakes:
  assumes "sched_ok s" "at s c = Woke p' q qs" "st s q = SLEEPING"
  shows "\<exists>t. sstep\<^sup>*\<^sup>* s t \<and> st t q = RUNNABLE"
proof -
  have "st (wake_one c p' q qs s) q = RUNNABLE" using assms(3) sched_okD(7) [OF assms(1)] by (simp add: sched_defs)
  then show ?thesis using sstep.wake [OF assms(2)] by blast
qed

lemma wake_reaches:
  "sched_ok s \<Longrightarrow> at s c = Wake p' qs \<Longrightarrow> p \<in> set qs \<Longrightarrow> st s p = SLEEPING \<Longrightarrow> \<exists>t. sstep\<^sup>*\<^sup>* s t \<and> st t p = RUNNABLE"
proof (induction qs arbitrary: s)
  case (Cons q qs)
  note D = sched_okD [OF Cons.prems(1)]
  have run: "st s p' = RUNNING" using D(3) [of p' c] D(4) [of p' c] Cons.prems(2) by (simp add: place_defs)
  show ?case
  proof (cases "q = p'")
    case True
    define t where "t = go c (Wake p' qs) s"
    have st: "sstep s t" unfolding t_def using Cons.prems(2) True by (intro sstep.wake_self) simp
    moreover have "\<exists>u. sstep\<^sup>*\<^sup>* t u \<and> st u p = RUNNABLE"
      using Cons.prems(3,4) True run by (intro Cons.IH sched_ok_step [OF Cons.prems(1) st]) (auto simp: t_def go_def)
    ultimately show ?thesis by (meson converse_rtranclp_into_rtranclp)
  next
    case False
    have "lk s = Some c" "holds (at s c) \<noteq> Some q" using D(2) [of c] Cons.prems(2) by (simp_all add: place_defs)
    then obtain t where t: "beside c s t" "plock t q = None" using lock_comes_free [OF Cons.prems(1)] by blast
    then have t': "sched_ok t" "sstep\<^sup>*\<^sup>* s t" "at t c = Wake p' (q # qs)" "st t p = SLEEPING"
      using Cons.prems(2,4) by (simp_all add: beside_def)
    define u where "u = go c (Woke p' q qs) (lock_p c q t)"
    have tu: "sstep t u" unfolding u_def using t'(3) False t(2) by (intro sstep.wake_lock) simp_all
    have u: "sched_ok u" "at u c = Woke p' q qs" "st u p = SLEEPING" using sched_ok_step [OF t'(1) tu] t'(4) by (simp_all add: u_def sched_defs)
    have su: "sstep\<^sup>*\<^sup>* s u" using t'(2) tu by (rule rtranclp.rtrancl_into_rtrancl)
    show ?thesis
    proof (cases "p = q")
      case True
      then show ?thesis using woke_wakes [OF u(1,2)] u(3) su by (meson rtranclp_trans)
    next
      case False
      define v where "v = wake_one c p' q qs u"
      have uv: "sstep u v" unfolding v_def using u(2) by (rule sstep.wake)
      have "\<exists>w. sstep\<^sup>*\<^sup>* v w \<and> st w p = RUNNABLE"
        using Cons.prems(3) False u(3) by (intro Cons.IH sched_ok_step [OF u(1) uv]) (simp_all add: v_def sched_defs)
      then show ?thesis using su uv by (meson converse_rtranclp_into_rtranclp rtranclp_trans)
    qed
  qed
qed simp

lemma pending_reached:
  assumes "sched_ok s" "lk s = Some c" "p \<in> pending (at s c)" "st s p = SLEEPING"
  shows "\<exists>t. sstep\<^sup>*\<^sup>* s t \<and> st t p = RUNNABLE"
proof -
  consider p' qs where "at s c = Wake p' qs" "p \<in> set qs" | p' q qs where "at s c = Woke p' q qs" "p \<in> insert q (set qs)"
    using assms(3) by (cases "at s c") (auto simp: pending_def)
  then show ?thesis
  proof cases
    case 1
    then show ?thesis using wake_reaches assms by blast
  next
    case 2
    show ?thesis
    proof (cases "p = q")
      case True
      then show ?thesis using woke_wakes [OF assms(1) 2(1)] assms(4) by simp
    next
      case False
      have st: "sstep s (wake_one c p' q qs s)" using 2(1) by (rule sstep.wake)
      have "\<exists>w. sstep\<^sup>*\<^sup>* (wake_one c p' q qs s) w \<and> st w p = RUNNABLE"
        using 2(2) False assms(4) by (intro wake_reaches [where c = c] sched_ok_step [OF assms(1) st]) (simp_all add: sched_defs)
      then show ?thesis using st by (meson converse_rtranclp_into_rtranclp)
    qed
  qed
qed

section \<open>Properties\<close>

text \<open>
  C23: in every reachable state a process runs on at most one CPU, a process marked \<^verbatim>\<open>RUNNING\<close> is the
  current process of the CPU that runs it, and the lock of a process is held by one CPU at a time. A CPU that holds a lock
  has a positive \<^verbatim>\<open>noff\<close> and interrupts off; none of the four checks of \<^verbatim>\<open>sched\<close> (lock held, \<^verbatim>\<open>noff\<close> 1, not running,
  interrupts off) ever panics, nor do \<^verbatim>\<open>acquire\<close>, \<^verbatim>\<open>release\<close> and \<^verbatim>\<open>pop_off\<close>. \<^verbatim>\<open>sched\<close> saves \<^verbatim>\<open>intena\<close> with the process, and a process
  that comes back from it has interrupts on after its \<^verbatim>\<open>release\<close> exactly if the saved value says so, whatever CPU it runs on.
\<close>

theorem one_cpu_per_process:
  assumes "reachable sched_init sstep s"
  shows "(runs (at s c) = Some p \<and> runs (at s d) = Some p \<longrightarrow> c = d) \<and>
    (holds (at s c) = Some p \<and> holds (at s d) = Some p \<longrightarrow> c = d) \<and>
    (st s p = RUNNING \<longrightarrow> (\<exists>c. runs (at s c) = Some p \<and> cproc s c = Some p)) \<and>
    (plock s q = Some c \<or> lk s = Some c \<longrightarrow> 0 < c_noff (cpus s c) \<and> \<not> c_intr (cpus s c)) \<and>
    (at s c = Switch p \<longrightarrow> (\<exists>s'. sched c p s = Inr s' \<and> p_intena s' p = c_intena (cpus s c))) \<and>
    (at s c = Resumed p \<and> saved s p \<noteq> Fresh \<longrightarrow> c_intr (cpus (resume c p s) c) = p_intena s p) \<and>
    panicked s = None"
proof -
  have ok: "sched_ok s" using reachable_ok [OF assms] .
  note D = sched_okD [OF ok] and ci = ok [unfolded sched_ok_def, THEN conjunct2]
  have "runs (at s c) = Some p \<and> runs (at s d) = Some p \<longrightarrow> c = d" using D(3) [of p c] D(3) [of p d] by auto
  moreover have "holds (at s c) = Some p \<and> holds (at s d) = Some p \<longrightarrow> c = d" using D(1) [of p c] D(1) [of p d] by auto
  moreover have "\<exists>c. runs (at s c) = Some p \<and> cproc s c = Some p" if "st s p = RUNNING"
    using that D(3,4) [of p] D(5) [of p] by (cases "runner s p") auto
  moreover have "0 < c_noff (cpus s c) \<and> \<not> c_intr (cpus s c)" if "plock s q = Some c \<or> lk s = Some c"
  proof -
    have "0 < depth (at s c)" using that D(1) [of q c] D(2) [of c] by (auto simp: depth_def)
    from intr_off [OF ci this] show ?thesis by simp
  qed
  moreover have "\<exists>s'. sched c p s = Inr s' \<and> p_intena s' p = c_intena (cpus s c)" if "at s c = Switch p"
    using sched_succeeds [OF ok that] by (simp add: go_def)
  moreover have "c_intr (cpus (resume c p s) c) = p_intena s p" if "at s c = Resumed p" "saved s p \<noteq> Fresh"
    by (rule resume_intr [OF ci that])
  ultimately show ?thesis using cpu_invD(2) [OF ci] by blast
qed

text \<open>
  C3: no wake-up is lost: whenever the condition holds and a process is still asleep on its
  channel, a waker that holds the condition's lock is about to look at that process; so once the
  lock is free and the condition true, nobody sleeps.
\<close>

theorem no_lost_wakeup:
  assumes "reachable sched_init sstep s" "cond s"
  shows "(st s p = SLEEPING \<longrightarrow> (\<exists>c. lk s = Some c \<and> p \<in> pending (at s c))) \<and> (lk s = None \<longrightarrow> st s p \<noteq> SLEEPING)"
  using reachable_wake [OF assms(1)] assms(2) by (auto simp: wake_inv_def waker_pending_def)

text \<open>
  C22: whoever sleeps while the condition holds can still be woken: from every reachable state of that kind the
  steps of the other CPUs lead to a state in which the process is runnable. The waker never waits for good:
  every process lock it needs is given back by its holder without the lock of the condition.
\<close>

theorem sleeper_can_be_woken:
  assumes "reachable sched_init sstep s" "cond s" "st s p = SLEEPING"
  shows "\<exists>t. sstep\<^sup>*\<^sup>* s t \<and> reachable sched_init sstep t \<and> st t p = RUNNABLE"
proof -
  have inv: "sched_ok s" "wake_inv s" using reachable_ok [OF assms(1)] reachable_wake [OF assms(1)] .
  have "waker_pending p s" using inv(2) assms(2,3) unfolding wake_inv_def by blast
  then obtain c where c: "lk s = Some c" "p \<in> pending (at s c)" unfolding waker_pending_def by blast
  obtain t where t: "sstep\<^sup>*\<^sup>* s t" "st t p = RUNNABLE"
    using pending_reached [OF inv(1) c assms(3)] by blast
  have "reachable sched_init sstep t" using reachable_trans [OF assms(1) t(1)] .
  then show ?thesis using t by blast
qed

text \<open>
  A run for the evaluation of the properties: CPU 0 runs process 0 into the critical section and
  to sleep, then CPU 1 runs process 1 into the critical section, where it makes the condition true.
\<close>

definition two_runnable :: ssys where
  "two_runnable = \<lparr>st = (\<lambda>p. if p < 2 then RUNNABLE else UNUSED), on_chan = (\<lambda>_. False), saved = (\<lambda>_. Fresh),
     plock = (\<lambda>_. None), lk = None, cond = False, cproc = (\<lambda>_. None), at = (\<lambda>_. Idle), runner = (\<lambda>_. None),
     cpus = (\<lambda>_. \<lparr>c_noff = 0, c_intena = False, c_intr = True\<rparr>), p_intena = (\<lambda>_. False), panicked = None\<rparr>"

definition into_crit :: "nat \<Rightarrow> nat \<Rightarrow> ssys \<Rightarrow> ssys" where
  "into_crit c p s = (let s = go c (Picked p) (lock_p c p s); s = resume c p (rr_choose c p s) in go c (Crit p) (lock_k c s))"

definition into_sleep :: "nat \<Rightarrow> nat \<Rightarrow> ssys \<Rightarrow> ssys" where
  "into_sleep c p s = sleep_mark c p (sleep_release c p (sleep_lock c p s))"

lemma into_crit_reachable:
  assumes "reachable sched_init sstep s" "at s c = Idle" "p < NPROC" "plock s p = None" "st s p = RUNNABLE"
    "saved s p = Fresh" "lk s = None"
  shows "reachable sched_init sstep (into_crit c p s)"
proof -
  let ?s1 = "go c (Picked p) (lock_p c p s)"
  let ?s3 = "resume c p (rr_choose c p ?s1)"
  have "reachable sched_init sstep ?s1" using assms(1) sstep.pick [OF assms(2,3)] assms(4) by (auto intro: reachable.step)
  then have "reachable sched_init sstep (rr_choose c p ?s1)" by (rule reachable.step) (rule sstep.choose, simp add: sched_defs)
  then have "reachable sched_init sstep ?s3"
    by (rule reachable.step) (rule sstep.resume, simp add: sched_defs assms(5))
  then show ?thesis unfolding into_crit_def Let_def
    by (rule reachable.step) (rule sstep.enter, simp_all add: sched_defs assms(5-7))
qed

lemma into_sleep_reachable:
  assumes "reachable sched_init sstep s" "at s c = Crit p" "\<not> cond s" "plock s p = None"
  shows "reachable sched_init sstep (into_sleep c p s)"
proof -
  have "reachable sched_init sstep (sleep_lock c p s)" using assms(1) sstep.sleep1 [OF assms(2,3)] assms(4) by (auto intro: reachable.step)
  then have "reachable sched_init sstep (sleep_release c p (sleep_lock c p s))"
    by (rule reachable.step) (rule sstep.sleep2, simp add: sched_defs)
  then show ?thesis unfolding into_sleep_def by (rule reachable.step) (rule sstep.sleep3, simp add: sched_defs)
qed

lemma into_crit_at: "at (into_crit c p s) c = Crit p"
  by (simp add: into_crit_def Let_def go_def)

definition signalled :: ssys where
  "signalled = (let s = into_crit 1 1 (into_sleep 0 0 (into_crit 0 0 two_runnable)) in go 1 (Wake 1 [0..<NPROC]) (s\<lparr>cond := True\<rparr>))"

lemma signalled_reachable: "reachable sched_init sstep signalled"
proof -
  have i: "reachable sched_init sstep two_runnable"
    by (rule reachable.start) (simp add: sched_init_def two_runnable_def NPROC_def)
  have 1: "reachable sched_init sstep (into_crit 0 0 two_runnable)"
    using i by (rule into_crit_reachable) (simp_all add: two_runnable_def NPROC_def)
  have 2: "reachable sched_init sstep (into_sleep 0 0 (into_crit 0 0 two_runnable))"
    using 1 by (rule into_sleep_reachable) (simp_all add: into_crit_def two_runnable_def sched_defs)
  have 3: "reachable sched_init sstep (into_crit 1 1 (into_sleep 0 0 (into_crit 0 0 two_runnable)))"
    using 2 by (rule into_crit_reachable) (simp_all add: into_sleep_def into_crit_def two_runnable_def sched_defs NPROC_def)
  from 3 show ?thesis unfolding signalled_def Let_def
    by (rule reachable.step) (rule sstep.signal, rule into_crit_at)
qed

lemma signalled_state: "st signalled 0 = SLEEPING" "cond signalled" "at signalled 0 = Switch 0" "lk signalled = Some 1"
  by (simp_all add: signalled_def into_crit_def into_sleep_def sched_defs two_runnable_def)

theorem one_cpu_per_process_witness:
  "(\<exists>s'. sched 0 0 signalled = Inr s') \<and> 0 < c_noff (cpus signalled 1) \<and> \<not> c_intr (cpus signalled 1)"
proof
  show "\<exists>s'. sched 0 0 signalled = Inr s'"
    using one_cpu_per_process [OF signalled_reachable, of 0 0 0 0] signalled_state(3) by auto
  show "0 < c_noff (cpus signalled 1) \<and> \<not> c_intr (cpus signalled 1)"
    using one_cpu_per_process [OF signalled_reachable, of 1 0 0 0] signalled_state(4) by auto
qed

theorem no_lost_wakeup_witness: "\<exists>c. lk signalled = Some c \<and> 0 \<in> pending (at signalled c)"
  using no_lost_wakeup [OF signalled_reachable signalled_state(2), of 0] signalled_state(1) by blast

theorem sleeper_can_be_woken_witness: "\<exists>t. sstep\<^sup>*\<^sup>* signalled t \<and> reachable sched_init sstep t \<and> st t 0 = RUNNABLE"
  using sleeper_can_be_woken [OF signalled_reachable signalled_state(2,1)] .

end
