(* ===== verification/Diskreq.thy ===== *)
theory Diskreq
  imports Virtio Sample
begin

text \<open>
  Life of a disk request in the virtio driver: three descriptors are taken, chained and
  published, the device completes the request, the interrupt handler clears the buffer's mark
  and the three descriptors are given back. \<open>free_descs\<close> is the set of free descriptors.
\<close>

section \<open>Free descriptors\<close>

definition free_descs :: "'a vdisk_scheme \<Rightarrow> nat set" where
  "free_descs s = {i. i < NUM \<and> v_free s ! i}"

definition rings_ok :: "'a vdisk_scheme \<Rightarrow> bool" where
  "rings_ok s \<longleftrightarrow> length (v_free s) = NUM \<and> length (v_desc s) = NUM \<and> length (v_avail_ring s) = NUM \<and>
     length (v_used_ring s) = NUM \<and> length (v_info_b s) = NUM \<and> length (v_info_status s) = NUM \<and> length (v_ops s) = NUM"

lemma rings_okD:
  assumes "rings_ok s"
  shows "length (v_free s) = NUM" "length (v_desc s) = NUM" "length (v_avail_ring s) = NUM"
    "length (v_used_ring s) = NUM" "length (v_info_b s) = NUM" "length (v_info_status s) = NUM" "length (v_ops s) = NUM"
  using assms by (simp_all add: rings_ok_def)

lemma finite_free_descs [simp]: "finite (free_descs s)"
  by (simp add: free_descs_def)

lemma free_descs_cong: "v_free s = v_free t \<Longrightarrow> free_descs s = free_descs t"
  by (simp add: free_descs_def)

lemma v_free_eqI: "free_descs s = free_descs t \<Longrightarrow> length (v_free s) = NUM \<Longrightarrow> length (v_free t) = NUM \<Longrightarrow> v_free s = v_free t"
  by (intro nth_equalityI) (auto simp: free_descs_def set_eq_iff)

lemma alloc_desc_loop_eq:
  "alloc_desc_loop is s =
     (case List.find (\<lambda>i. v_free s ! i) is of None \<Rightarrow> (-1, s) | Some i \<Rightarrow> (int i, s\<lparr>v_free := (v_free s)[i := False]\<rparr>))"
  by (induction "is") auto

lemma alloc_desc_cases:
  assumes "length (v_free s) = NUM"
  obtains "alloc_desc s = (-1, s)" "free_descs s = {}"
  | i s' where "alloc_desc s = (int i, s')" "i \<in> free_descs s" "free_descs s' = free_descs s - {i}"
      "s' = s\<lparr>v_free := (v_free s)[i := False]\<rparr>"
proof (cases "List.find (\<lambda>i. v_free s ! i) [0..<NUM]")
  case None
  then have "alloc_desc s = (-1, s)" by (simp add: alloc_desc_def alloc_desc_loop_eq)
  moreover have "free_descs s = {}" using None by (auto simp: find_None_iff free_descs_def)
  ultimately show ?thesis by (rule that(1))
next
  case (Some i)
  then have "i < NUM" "v_free s ! i" by (auto simp: find_Some_iff)
  moreover from this have "free_descs (s\<lparr>v_free := (v_free s)[i := False]\<rparr>) = free_descs s - {i}"
    using assms by (auto simp: free_descs_def nth_list_update)
  ultimately show ?thesis using that(2) [of i] Some by (simp add: alloc_desc_def alloc_desc_loop_eq free_descs_def)
qed

lemma free_desc_used:
  assumes "length (v_free s) = NUM" "i < NUM" "i \<notin> free_descs s"
  shows "\<exists>s'. free_desc i s = Inr s' \<and> free_descs s' = insert i (free_descs s) \<and> v_desc s' = (v_desc s)[i := null_desc] \<and>
    length (v_free s') = NUM"
  using assms by (auto simp: free_desc_def free_descs_def set_desc_def nth_list_update)

lemma free_descs_back:
  "length (v_free s) = NUM \<Longrightarrow> distinct is \<Longrightarrow> set is \<subseteq> {..<NUM} - free_descs s \<Longrightarrow>
     \<exists>s'. kfold free_desc is s = Inr s' \<and> free_descs s' = free_descs s \<union> set is \<and> length (v_free s') = NUM"
proof (induction "is" arbitrary: s)
  case (Cons i "is")
  then obtain t where t: "free_desc i s = Inr t" "free_descs t = insert i (free_descs s)" "length (v_free t) = NUM"
    using free_desc_used [of s i] by auto
  then show ?case using Cons.IH [of t] Cons.prems by auto
qed simp

text \<open>The descriptors of one request: as many as asked for, or none and everything as before.\<close>

lemma alloc_descs_result:
  assumes "length (v_free s) = NUM" "distinct idx" "set idx \<subseteq> {..<NUM} - free_descs s"
  shows "if k \<le> card (free_descs s)
    then \<exists>is s'. alloc_descs k idx s = Inr (Some (idx @ is), s') \<and> length is = k \<and> distinct is \<and> set is \<subseteq> free_descs s \<and>
      free_descs s' = free_descs s - set is \<and> s' = s\<lparr>v_free := v_free s'\<rparr> \<and> length (v_free s') = NUM
    else \<exists>s'. alloc_descs k idx s = Inr (None, s') \<and> free_descs s' = free_descs s \<union> set idx \<and> length (v_free s') = NUM"
  using assms
proof (induction k arbitrary: idx s)
  case (Suc k)
  show ?case
  proof (cases rule: alloc_desc_cases [OF Suc.prems(1)])
    case 1
    then show ?thesis using free_descs_back [of s idx] Suc.prems by auto
  next
    case (2 i s')
    have "distinct (idx @ [i])" "set (idx @ [i]) \<subseteq> {..<NUM} - free_descs s'" "length (v_free s') = NUM"
      using 2 Suc.prems by (auto simp: free_descs_def)
    note ih = Suc.IH [OF this(3,1,2)]
    have card: "Suc k \<le> card (free_descs s) \<longleftrightarrow> k \<le> card (free_descs s')"
      using 2 by (simp add: card_Diff_singleton) (metis Suc_pred card_gt_0_iff empty_iff finite_free_descs less_Suc_eq_le not_less_eq)
    show ?thesis
    proof (cases "k \<le> card (free_descs s')")
      case True
      with ih obtain "is" t where t: "alloc_descs k (idx @ [i]) s' = Inr (Some ((idx @ [i]) @ is), t)" "length is = k" "distinct is"
        "set is \<subseteq> free_descs s'" "free_descs t = free_descs s' - set is" "t = s'\<lparr>v_free := v_free t\<rparr>" "length (v_free t) = NUM"
        by auto
      have "s'\<lparr>v_free := x\<rparr> = s\<lparr>v_free := x\<rparr>" for x by (simp add: 2(4))
      with t(6) have "t = s\<lparr>v_free := v_free t\<rparr>" by (rule trans)
      then show ?thesis using True card t 2
        by (intro if_P [THEN iffD2] exI [of _ "i # is"] exI [of _ t]) auto
    next
      case False
      with ih obtain t where "alloc_descs k (idx @ [i]) s' = Inr (None, t)" "free_descs t = free_descs s' \<union> set (idx @ [i])"
        "length (v_free t) = NUM" by auto
      then show ?thesis using False card 2 by auto
    qed
  qed
qed simp

lemma alloc3_desc_result:
  assumes "length (v_free s) = NUM"
  shows "if 3 \<le> card (free_descs s)
    then \<exists>i0 i1 i2 s'. alloc3_desc s = Inr (Some [i0, i1, i2], s') \<and> distinct [i0, i1, i2] \<and> {i0, i1, i2} \<subseteq> free_descs s \<and>
      free_descs s' = free_descs s - {i0, i1, i2} \<and> s' = s\<lparr>v_free := v_free s'\<rparr> \<and> length (v_free s') = NUM
    else \<exists>s'. alloc3_desc s = Inr (None, s') \<and> free_descs s' = free_descs s \<and> length (v_free s') = NUM"
proof (cases "3 \<le> card (free_descs s)")
  case True
  then obtain "is" s' where a: "alloc3_desc s = Inr (Some is, s')" "length is = 3" "distinct is" "set is \<subseteq> free_descs s"
    "free_descs s' = free_descs s - set is" "s' = s\<lparr>v_free := v_free s'\<rparr>" "length (v_free s') = NUM"
    using alloc_descs_result [of s "[]" 3] assms unfolding alloc3_desc_def by auto
  obtain i0 i1 i2 where "is = [i0, i1, i2]" using a(2) by (auto simp: length_Suc_conv eval_nat_numeral)
  then show ?thesis using True a by auto
next
  case False
  then show ?thesis using alloc_descs_result [of s "[]" 3] assms by (simp add: alloc3_desc_def)
qed

section \<open>Chains\<close>

text \<open>The three descriptors of a request, and what the device finds when it follows them.\<close>

definition chained :: "nat \<Rightarrow> nat \<Rightarrow> nat \<Rightarrow> nat \<Rightarrow> bool \<Rightarrow> 'a vdisk_scheme \<Rightarrow> bool" where
  "chained b i0 i1 i2 write s \<longleftrightarrow>
     v_desc s ! i0 = \<lparr>d_addr = Dma_op i0, d_len = 16, d_flags = VRING_DESC_F_NEXT, d_next = of_nat i1\<rparr> \<and>
     v_desc s ! i1 = \<lparr>d_addr = Dma_data b, d_len = of_nat BSIZE,
       d_flags = (if write then VRING_DESC_F_NEXT else VRING_DESC_F_WRITE OR VRING_DESC_F_NEXT), d_next = of_nat i2\<rparr> \<and>
     v_desc s ! i2 = \<lparr>d_addr = Dma_status i0, d_len = 1, d_flags = VRING_DESC_F_WRITE, d_next = 0\<rparr> \<and>
     v_ops s ! i0 = \<lparr>q_type = (if write then VIRTIO_BLK_T_OUT else VIRTIO_BLK_T_IN), q_reserved = 0,
       q_sector = ucast (b_blockno (the_buf b s) * of_nat (BSIZE div 512))\<rparr>"

lemma submit_fields:
  assumes "rings_ok s" "i0 < NUM" "i1 < NUM" "i2 < NUM" "distinct [i0, i1, i2]" "b < length (v_buf_disk s)"
  shows "chained b i0 i1 i2 write (submit b write i0 i1 i2 s)" "v_free (submit b write i0 i1 i2 s) = v_free s"
    "v_avail_ring (submit b write i0 i1 i2 s) ! (unat (v_avail_idx s) mod NUM) = of_nat i0"
    "v_avail_idx (submit b write i0 i1 i2 s) = v_avail_idx s + 1" "rings_ok (submit b write i0 i1 i2 s)"
    "v_info_b (submit b write i0 i1 i2 s) ! i0 = Some b" "v_used_idx (submit b write i0 i1 i2 s) = v_used_idx s"
    "v_used_dev_idx (submit b write i0 i1 i2 s) = v_used_dev_idx s"
    "v_buf_disk (submit b write i0 i1 i2 s) = (v_buf_disk s)[b := True]"
  using assms rings_okD [OF assms(1)]
  by (simp_all add: submit_def chained_def Let_def set_desc_def R_write_def nth_list_update the_buf_def rings_ok_def NUM_def)

lemma small_index: "i < NUM \<Longrightarrow> unat (of_nat i :: uint16) = i"
  by (simp add: unat_of_nat NUM_def)

lemma free_chain_one:
  assumes "length (v_free s) = NUM" "i < NUM" "i \<notin> free_descs s"
  obtains s' where "free_descs s' = insert i (free_descs s)" "v_desc s' = (v_desc s)[i := null_desc]" "length (v_free s') = NUM"
    "free_chain i s = (if d_flags (v_desc s ! i) AND VRING_DESC_F_NEXT \<noteq> 0 then free_chain (unat (d_next (v_desc s ! i))) s' else Inr s')"
proof -
  obtain s' where s': "free_desc i s = Inr s'" "free_descs s' = insert i (free_descs s)" "v_desc s' = (v_desc s)[i := null_desc]"
    "length (v_free s') = NUM" using free_desc_used [OF assms] by blast
  have "free_chain i s = (if d_flags (v_desc s ! i) AND VRING_DESC_F_NEXT \<noteq> 0 then free_chain (unat (d_next (v_desc s ! i))) s' else Inr s')"
    using assms s'(1) by (subst free_chain.simps) (simp add: Let_def)
  then show ?thesis using that s' by blast
qed

lemma free_chain_of_request:
  assumes "chained b i0 i1 i2 write s" "length (v_free s) = NUM" "i0 < NUM" "i1 < NUM" "i2 < NUM" "distinct [i0, i1, i2]"
    "{i0, i1, i2} \<inter> free_descs s = {}" "length (v_desc s) = NUM"
  shows "\<exists>s'. free_chain i0 s = Inr s' \<and> free_descs s' = free_descs s \<union> {i0, i1, i2} \<and> length (v_free s') = NUM"
proof -
  have f: "VRING_DESC_F_NEXT AND VRING_DESC_F_NEXT \<noteq> 0" "(VRING_DESC_F_WRITE OR VRING_DESC_F_NEXT) AND VRING_DESC_F_NEXT \<noteq> 0"
    "VRING_DESC_F_WRITE AND VRING_DESC_F_NEXT = 0" by (simp_all add: VRING_DESC_F_NEXT_def VRING_DESC_F_WRITE_def)
  have d: "v_desc s ! i0 = \<lparr>d_addr = Dma_op i0, d_len = 16, d_flags = VRING_DESC_F_NEXT, d_next = of_nat i1\<rparr>"
    "d_flags (v_desc s ! i1) AND VRING_DESC_F_NEXT \<noteq> 0" "d_next (v_desc s ! i1) = of_nat i2"
    "d_flags (v_desc s ! i2) = VRING_DESC_F_WRITE"
    using assms(1) f by (auto simp: chained_def)
  have n: "i0 \<notin> free_descs s" "i1 \<notin> insert i0 (free_descs s)" "i2 \<notin> insert i1 (insert i0 (free_descs s))"
    using assms(6,7) by auto
  obtain s1 where s1: "free_descs s1 = insert i0 (free_descs s)" "v_desc s1 = (v_desc s)[i0 := null_desc]" "length (v_free s1) = NUM"
    "free_chain i0 s = (if d_flags (v_desc s ! i0) AND VRING_DESC_F_NEXT \<noteq> 0 then free_chain (unat (d_next (v_desc s ! i0))) s1 else Inr s1)"
    by (rule free_chain_one [OF assms(2,3) n(1)])
  have e1: "free_chain i0 s = free_chain i1 s1" using s1(4) f(1) assms(4) by (simp add: d(1) small_index)
  obtain s2 where s2: "free_descs s2 = insert i1 (free_descs s1)" "v_desc s2 = (v_desc s1)[i1 := null_desc]" "length (v_free s2) = NUM"
    "free_chain i1 s1 = (if d_flags (v_desc s1 ! i1) AND VRING_DESC_F_NEXT \<noteq> 0 then free_chain (unat (d_next (v_desc s1 ! i1))) s2 else Inr s2)"
    by (rule free_chain_one [OF s1(3) assms(4) n(2) [folded s1(1)]])
  have v1: "v_desc s1 ! i1 = v_desc s ! i1" "v_desc s2 ! i2 = v_desc s ! i2" using assms(6) by (simp_all add: s1(2) s2(2))
  have e2: "free_chain i1 s1 = free_chain i2 s2" using s2(4) assms(5) d(2,3) by (simp add: v1 small_index)
  obtain s3 where s3: "free_descs s3 = insert i2 (free_descs s2)" "v_desc s3 = (v_desc s2)[i2 := null_desc]" "length (v_free s3) = NUM"
    "free_chain i2 s2 = (if d_flags (v_desc s2 ! i2) AND VRING_DESC_F_NEXT \<noteq> 0 then free_chain (unat (d_next (v_desc s2 ! i2))) s3 else Inr s3)"
    by (rule free_chain_one [OF s2(3) assms(5) n(3) [folded s1(1), folded s2(1)]])
  have "free_chain i2 s2 = Inr s3" using s3(4) d(4) f(3) by (simp add: v1)
  then show ?thesis using e1 e2 s1(1) s2(1) s3(1,3) by auto
qed

section \<open>Completion\<close>

text \<open>What the device does when it has served the request headed by \<open>i0\<close>.\<close>

definition device_done :: "nat \<Rightarrow> 'a vdisk_scheme \<Rightarrow> 'a vdisk_scheme" where
  "device_done i0 s = s\<lparr>v_info_status := (v_info_status s)[i0 := 0],
     v_used_ring := (v_used_ring s)[unat (v_used_dev_idx s) mod NUM := of_nat i0], v_used_dev_idx := v_used_dev_idx s + 1\<rparr>"

lemma intr_one:
  assumes "rings_ok s" "i0 < NUM" "v_info_b s ! i0 = Some b" "v_used_idx s = v_used_dev_idx s"
  shows "\<exists>s'. virtio_disk_intr dev (device_done i0 s) = Inr s' \<and> v_buf_disk s' = (v_buf_disk s)[b := False] \<and>
    v_free s' = v_free s \<and> v_desc s' = v_desc s \<and> v_ops s' = v_ops s \<and> bufs s' = bufs s"
proof -
  have u: "unat (of_nat i0 :: uint) = i0" using assms(2) by (simp add: unat_of_nat NUM_def)
  let ?s = "R_write VIRTIO_MMIO_INTERRUPT_ACK (R_read dev VIRTIO_MMIO_INTERRUPT_STATUS (device_done i0 s) AND 3) (device_done i0 s)"
  let ?t = "wakeup (Chan_buf b) (?s\<lparr>v_buf_disk := (v_buf_disk s)[b := False]\<rparr>)"
  have "NUM \<noteq> 0" by (simp add: NUM_def)
  then have "intr_loop ?s = intr_loop (?t\<lparr>v_used_idx := v_used_idx s + 1\<rparr>)"
    using assms rings_okD [OF assms(1)]
    by (subst intr_loop.simps) (simp add: device_done_def R_write_def u Let_def)
  also have "\<dots> = Inr (?t\<lparr>v_used_idx := v_used_idx s + 1\<rparr>)"
    using assms(4) by (subst intr_loop.simps) (simp add: device_done_def R_write_def)
  finally show ?thesis by (simp add: virtio_disk_intr_def device_done_def R_write_def)
qed

section \<open>Property\<close>

text \<open>
  C9: the life of a disk request. With three free descriptors \<^verbatim>\<open>virtio_disk_rw\<close> takes three different
  ones, builds from them the chain of header, data and status that the request asks for, and
  publishes its head at the driver's place in the available ring; when the device has completed
  it, the interrupt handler clears the mark of the buffer and the routine gives back exactly
  these descriptors without a panic. With fewer free descriptors it waits and takes none.
\<close>

theorem disk_request_lifecycle:
  fixes s :: "'a vdisk_scheme"
  assumes "rings_ok s" "b < length (v_buf_disk s)" "v_used_idx s = v_used_dev_idx s"
  shows "if 3 \<le> card (free_descs s)
    then \<exists>i0 i1 i2 s1 s2 s3. rw_start b write s = Inr (Done i0, s1) \<and> distinct [i0, i1, i2] \<and> {i0, i1, i2} \<subseteq> free_descs s \<and>
      free_descs s1 = free_descs s - {i0, i1, i2} \<and> chained b i0 i1 i2 write s1 \<and>
      v_avail_ring s1 ! (unat (v_avail_idx s) mod NUM) = of_nat i0 \<and> v_avail_idx s1 = v_avail_idx s + 1 \<and>
      virtio_disk_intr dev (device_done i0 s1) = Inr s2 \<and> rw_finish b i0 s2 = Inr (Done (), s3) \<and> v_free s3 = v_free s
    else \<exists>s1. rw_start b write s = Inr (Wait Chan_disk_free (), s1) \<and> v_free s1 = v_free s"
proof (cases "3 \<le> card (free_descs s)")
  case True
  note len = rings_okD [OF assms(1)]
  obtain i0 i1 i2 t where a: "alloc3_desc s = Inr (Some [i0, i1, i2], t)" "distinct [i0, i1, i2]" "{i0, i1, i2} \<subseteq> free_descs s"
    "free_descs t = free_descs s - {i0, i1, i2}" "t = s\<lparr>v_free := v_free t\<rparr>" "length (v_free t) = NUM"
    using alloc3_desc_result [OF len(1)] True by auto
  have lt: "i0 < NUM" "i1 < NUM" "i2 < NUM" using a(3) by (auto simp: free_descs_def)
  have t: "rings_ok t" "v_buf_disk t = v_buf_disk s" "v_avail_idx t = v_avail_idx s" "v_used_idx t = v_used_dev_idx t"
    using assms(1,3) a(6) by (subst a(5), simp add: rings_ok_def)+
  have b: "b < length (v_buf_disk t)" using assms(2) t(2) by simp
  let ?s1 = "submit b write i0 i1 i2 t"
  note f = submit_fields [OF t(1) lt a(2) b, of "write"]
  have s1: "rw_start b write s = Inr (Done i0, ?s1)" by (simp add: rw_start_def a(1))
  have fd1: "free_descs ?s1 = free_descs s - {i0, i1, i2}" using free_descs_cong [OF f(2)] a(4) by simp
  obtain s2 where s2: "virtio_disk_intr dev (device_done i0 ?s1) = Inr s2" "v_buf_disk s2 = (v_buf_disk ?s1)[b := False]"
    "v_free s2 = v_free ?s1" "v_desc s2 = v_desc ?s1" "v_ops s2 = v_ops ?s1" "bufs s2 = bufs ?s1"
    using intr_one [OF f(5) lt(1) f(6)] f(7,8) t(4) by metis
  let ?r = "s2\<lparr>v_info_b := (v_info_b s2)[i0 := None]\<rparr>"
  have "\<exists>s'. free_chain i0 ?r = Inr s' \<and> free_descs s' = free_descs ?r \<union> {i0, i1, i2} \<and> length (v_free s') = NUM"
  proof (rule free_chain_of_request)
    show "chained b i0 i1 i2 write ?r" using f(1) s2 by (simp add: chained_def the_buf_def)
    show "{i0, i1, i2} \<inter> free_descs ?r = {}" using fd1 free_descs_cong [of ?r ?s1] s2(3) by auto
  qed (use s2 f(2,5) a(2,6) lt rings_okD [OF f(5)] in simp_all)
  then obtain s3 where s3: "free_chain i0 ?r = Inr s3" "free_descs s3 = free_descs ?r \<union> {i0, i1, i2}" "length (v_free s3) = NUM"
    by blast
  have "rw_finish b i0 s2 = Inr (Done (), s3)" using s2(2) s3(1) b f(9) by (simp add: rw_finish_def)
  moreover have "v_free s3 = v_free s"
    using s3(2,3) len(1) fd1 a(3) free_descs_cong [of ?r ?s1] s2(3) by (intro v_free_eqI) auto
  ultimately show ?thesis using True s1 a(2,3) fd1 f(1,3,4) s2(1) t(3) by auto
next
  case False
  then obtain s1 where "alloc3_desc s = Inr (None, s1)" "free_descs s1 = free_descs s" "length (v_free s1) = NUM"
    using alloc3_desc_result [OF rings_okD(1) [OF assms(1)]] by auto
  then show ?thesis using False v_free_eqI [of s1 s] rings_okD(1) [OF assms(1)] by (simp add: rw_start_def)
qed

text \<open>The sample machine with an idle disk whose indices are about to wrap around, and one with two descriptors left.\<close>

definition sample_disk :: "bool list \<Rightarrow> vdisk" where
  "sample_disk free = files.extend sample
     (vdisk.fields (replicate NUM null_desc) 0xFFFF (replicate NUM 0) 0xFFFF (replicate NUM 0) free 0xFFFF (replicate NUM None)
        (replicate NUM 0) (replicate NUM \<lparr>q_type = 0, q_reserved = 0, q_sector = 0\<rparr>) (replicate NBUF False) 0 0 0 [])"

lemma sample_disk_ok:
  "length free = NUM \<Longrightarrow> rings_ok (sample_disk free)" "0 < length (v_buf_disk (sample_disk free))"
  "v_used_idx (sample_disk free) = v_used_dev_idx (sample_disk free)" "v_free (sample_disk free) = free"
  "v_avail_idx (sample_disk free) = 0xFFFF"
  by (simp_all add: sample_disk_def files.defs vdisk.defs rings_ok_def NBUF_def MAXOPBLOCKS_def)

lemma free_descs_filter: "free_descs s = set (filter (\<lambda>i. v_free s ! i) [0..<NUM])"
  by (auto simp: free_descs_def)

lemma sample_disk_free:
  "card (free_descs (sample_disk (replicate NUM True))) = 8"
  "card (free_descs (sample_disk (True # True # replicate (NUM - 2) False))) = 2"
  by (simp_all add: free_descs_filter sample_disk_ok(4) NUM_def upt_rec numeral_eq_Suc)

theorem disk_request_lifecycle_witness:
  "(\<exists>i0 s1. rw_start 0 True (sample_disk (replicate NUM True)) = Inr (Done i0, s1) \<and> v_avail_idx s1 = 0) \<and>
   (\<exists>s1. rw_start 0 True (sample_disk (True # True # replicate (NUM - 2) False)) = Inr (Wait Chan_disk_free (), s1))"
proof
  show "\<exists>i0 s1. rw_start 0 True (sample_disk (replicate NUM True)) = Inr (Done i0, s1) \<and> v_avail_idx s1 = 0"
    using disk_request_lifecycle [OF sample_disk_ok(1-3), of "replicate NUM True" True "\<lambda>_ _. 0"]
    unfolding sample_disk_free sample_disk_ok(5) by fastforce
  show "\<exists>s1. rw_start 0 True (sample_disk (True # True # replicate (NUM - 2) False)) = Inr (Wait Chan_disk_free (), s1)"
    using disk_request_lifecycle [OF sample_disk_ok(1-3), of "True # True # replicate (NUM - 2) False" True "\<lambda>_ _. 0"]
    unfolding sample_disk_free by (auto simp: NUM_def)
qed

end
