(* ===== verification/Spec2Isabelle.thy ===== *)
theory Spec2Isabelle
  imports Utils Mkimage Directory Umalloc Shell Kstring Boot Pipe Tty Spinlock Sched Filters Diskreq
begin

text \<open>
  A verification development for the xv6 teaching system in \<^verbatim>\<open>TDT4186 - OS/Labs/Lab3\<close>: the RISC-V kernel with
  its copy-on-write fork (\<^verbatim>\<open>kernel/\<close>), the shell, the text filters and the memory allocator of the user programs
  (\<^verbatim>\<open>user/\<close>), and the program that makes the initial disk (\<^verbatim>\<open>mkfs/mkfs.c\<close>). The definitions follow the C code
  function by function and keep its names; the theorems named below are the properties of the program.

  \<^bold>\<open>The program and its parts.\<close> The kernel boots on every hart through \<^verbatim>\<open>start.c\<close> and \<^verbatim>\<open>main.c\<close>, which initialise
  console, allocator, page tables, process table, traps, caches and the disk. A process enters the kernel through
  \<^verbatim>\<open>usertrap\<close> (\<^verbatim>\<open>trap.c\<close>), which dispatches system calls (\<^verbatim>\<open>syscall.c\<close>, \<^verbatim>\<open>sysproc.c\<close>, \<^verbatim>\<open>sysfile.c\<close>), interrupts and
  the copy-on-write fault. System calls work on open files (\<^verbatim>\<open>file.c\<close>), which are pipes (\<^verbatim>\<open>pipe.c\<close>), devices
  (\<^verbatim>\<open>console.c\<close>) or inodes (\<^verbatim>\<open>fs.c\<close>); \<^verbatim>\<open>fs.c\<close> changes blocks only through the log (\<^verbatim>\<open>log.c\<close>), the log sits on the
  buffer cache (\<^verbatim>\<open>bio.c\<close>) and that on the disk driver (\<^verbatim>\<open>virtio_disk.c\<close>). Memory is handed out page by page by
  \<^verbatim>\<open>kalloc.c\<close>, with reference counts for shared pages, and mapped by \<^verbatim>\<open>vm.c\<close>.

  \<^bold>\<open>Conventions.\<close> A kernel state is a record that each layer extends: memory and allocator (Kalloc), process table
  (Proctab), buffer cache (Bio), log (Log), file system (Fs), console (Console), files and pipes (File), and the
  machine registers (Trap, Boot, Virtio). A routine takes the state and returns a sum: \<open>Inr\<close> the result, or \<open>Inl\<close> the
  way it stops, \<open>Panic\<close> with the message of the source, \<open>Sleep\<close> on a channel, or \<open>Undef\<close> where C has no defined
  behaviour. Pointers to table entries are indices; pointers into memory are 64-bit words into an array of bytes.
  Machine integers keep their width (\<open>uint\<close>, \<open>uint64\<close>, ...), so that wrap-around is the one of the code.

  \<^bold>\<open>Theories, in the order they build on each other.\<close>

  \<^item> Xv6_Prelude (\<^verbatim>\<open>types.h\<close>; the result type, bytes, little-endian access), Riscv (\<^verbatim>\<open>riscv.h\<close>, \<^verbatim>\<open>memlayout.h\<close>,
    \<^verbatim>\<open>param.h\<close>), Ring (counters modulo a power of two, and the contract \<open>bounded_fifo\<close> of a queue), Transition
    (reachable states and invariants, the contract \<open>invariant_system\<close>), Printf (\<^verbatim>\<open>printf.c\<close> of the kernel and of
    the user library, parts of \<^verbatim>\<open>ulib.c\<close>).

  \<^item> Kstring (\<^verbatim>\<open>string.c\<close>), Kalloc (\<^verbatim>\<open>kalloc.c\<close>, the contract \<open>page_allocator\<close>): \<open>memmove\<close> copies through every
    overlap; booting frees all pages, allocated pages are pairwise different, a page is freed with its last
    reference, and an empty free list is a panic.

  \<^item> Vm (\<^verbatim>\<open>vm.c\<close>), Pagetable (what a page table in memory translates), Addrspace (what the routines do to whole
    address spaces), Cow (the copy-on-write fault of \<^verbatim>\<open>usertrap\<close>): \<open>uvmcopy\<close> shares every frame read-only and
    counts it, the fault gives the writer its own copy and changes no other address space. Two theorems show
    where the sharing leaks: \<open>copyout\<close> writes a shared frame, and fork makes read-only pages writable.

  \<^item> Proctab (\<^verbatim>\<open>proc.c\<close>: table, sleep and wake-up, kill, ps; \<^verbatim>\<open>sleeplock.c\<close>), Sched (context switch, scheduler,
    sleep and wake-up as interleaved steps of several CPUs), Spinlock (\<^verbatim>\<open>spinlock.c\<close> as interleaved steps): mutual
    exclusion, no panic in \<open>release\<close> and \<open>sched\<close>, interrupts off while a lock is held and restored with the process,
    one CPU per process, no lost wake-up, and every sleeper whose condition holds can still be woken.

  \<^item> Bio (\<^verbatim>\<open>bio.c\<close>), Log (\<^verbatim>\<open>log.c\<close>): a crash anywhere in a commit leaves all of a transaction or nothing;
    \<open>end_op\<close> makes it durable and erases the log on disk. Fs (\<^verbatim>\<open>fs.c\<close>), Filedata (files as byte sequences), Directory (directories as maps
    from names to inode numbers). Mkfs and Mkimage (\<^verbatim>\<open>mkfs.c\<close>): what the made image holds.

  \<^item> Virtio and Diskreq (\<^verbatim>\<open>virtio_disk.c\<close>, the life of a request), Console and Tty (\<^verbatim>\<open>console.c\<close>, \<^verbatim>\<open>uart.c\<close>; the line
    editor they implement), File and Pipe (\<^verbatim>\<open>file.c\<close>, \<^verbatim>\<open>pipe.c\<close>; a pipe is a bounded queue), Process (fork, exit,
    wait), Exec (\<^verbatim>\<open>exec.c\<close>), Sysarg, Sysfile and Syscall (the system calls), Trap (\<^verbatim>\<open>trap.c\<close>, \<^verbatim>\<open>plic.c\<close>), Boot
    (\<^verbatim>\<open>start.c\<close>, \<^verbatim>\<open>main.c\<close>). Sample is a concrete machine on which the theorems are evaluated.

  \<^item> Filters (\<^verbatim>\<open>cat.c\<close>, \<^verbatim>\<open>wc.c\<close>, \<^verbatim>\<open>grep.c\<close>): the matcher decides its regular language; the output does not depend on
    how reads cut a file. Sh, Shparse, Shround, Shrun, Shell (\<^verbatim>\<open>sh.c\<close>): the parser returns on every line, what it
    returns is well formed, it reads back every printed command; a command starts exactly its programs with the
    right descriptors and leaks no pipe end; the loops run the typed lines. Utils (the rest of \<^verbatim>\<open>ulib.c\<close>, and \<^verbatim>\<open>ls\<close>,
    \<^verbatim>\<open>echo\<close>, \<^verbatim>\<open>rm\<close>, \<^verbatim>\<open>mkdir\<close>, \<^verbatim>\<open>ln\<close>, \<^verbatim>\<open>kill\<close>, \<^verbatim>\<open>init\<close>, \<^verbatim>\<open>ps\<close> and the like), whose lemmas say what they print and call. Umalloc (\<^verbatim>\<open>umalloc.c\<close>): \<open>malloc\<close> and
    \<open>free\<close> return, blocks in use never overlap, the heap stays in order.

  \<^bold>\<open>How the parts are joined.\<close> Each layer's invariant is kept by its operations and used above it: \<open>kmem_inv\<close> of
    the allocator inside \<open>vm_inv\<close> of address spaces; \<open>binv\<close> of the buffer cache inside \<open>in_op\<close>, a file system
    operation with its logged blocks; \<open>file_ok\<close> and \<open>file_sep\<close> of a file inside \<open>dir_ok\<close> of a directory. \<open>view\<close> is the
    content of a block as the file system sees it (the cached copy if there is one). The locales \<open>page_allocator\<close>,
    \<open>bounded_fifo\<close> and \<open>invariant_system\<close> are interpreted on the kernel's own definitions.

  \<^bold>\<open>Termination and bounds.\<close> Loops over arrays recurse over the list of indices; loops on sizes have a measure (the
  bytes left, the number of steps to the end of the offset range). The parser of the shell takes fuel, and the
  theorem \<open>parsecmd_returns\<close> shows that \<open>4 * length + 4\<close> is enough for every line. The loops of the user memory
  allocator, which C does not bound, are partial functions in which \<open>None\<close> is a loop without end; that they return
  is part of the theorems \<open>malloc_allocates\<close> and \<open>ufree_frees\<close>. \<open>strlen\<close> of a buffer without NUL is \<open>None\<close> too.

  \<^bold>\<open>Concurrency.\<close> Spinlock and Sched interleave several CPUs at the points where another CPU can interfere. The other
  theories give the sequential meaning of a routine that holds the locks it needs; a routine that sleeps in the
  middle of its work stops with the channel and what is left to do.

  \<^bold>\<open>Parameters.\<close> Addresses that the linker chooses, the answers of the virtio device and of the PLIC, the bytes of
  uninitialised stack memory, the contents of the files given to \<open>mkfs\<close> and what \<open>read\<close> delivers to a user program
  are arguments or fields that no routine sets.

  \<^bold>\<open>Not modelled.\<close> The assembler (\<^verbatim>\<open>entry.S\<close>, \<^verbatim>\<open>kernelvec.S\<close>, \<^verbatim>\<open>trampoline.S\<close>, \<^verbatim>\<open>swtch.S\<close>), whose effect is the change
  of registers between the modelled routines, and the accessors of single control registers in \<^verbatim>\<open>riscv.h\<close>, which are
  one assembler instruction each: the registers are fields of the machine records. \<^verbatim>\<open>ramdisk.c\<close>, which is not built.
  The test programs (\<^verbatim>\<open>usertests.c\<close>, \<^verbatim>\<open>grind.c\<close>, \<^verbatim>\<open>cowtest.c\<close>, \<^verbatim>\<open>forktest.c\<close>, \<^verbatim>\<open>stressfs.c\<close> and the like), which are
  inputs for the kernel. The timing of the serial port and the delays of the disk. The memory that the command
  constructors of the shell allocate, failing host calls of \<open>mkfs\<close> on its image file, and the lock of \<^verbatim>\<open>printf\<close>.
\<close>

end
